(* ===== verification/Agouti_Prelude.thy ===== *)
theory Agouti_Prelude
  imports Main "HOL-Library.Word"
begin

unbundle bit_operations_syntax

text \<open>
  Shared vocabulary of the development: the machine types of the C++ sources, little-endian
  byte strings (the layout every \<open>memcpy\<close>, \<open>WRITEDATA\<close> and \<open>ReadLE32\<close> of the code relies
  on), byte-stream reads with failure as a value, and the generic list, word and option
  lemmas the component theories use.  Two collections of facts are declared here:
  \<open>le_simps\<close> (little-endian encodings) and \<open>u_simps\<close> (word values read as naturals).
\<close>

named_theorems le_simps "little-endian encoding and decoding"
named_theorems u_simps "unsigned values of words"

section \<open>Machine types\<close>

type_synonym byte = "8 word"
type_synonym u16 = "16 word"
type_synonym u32 = "32 word"
type_synonym u64 = "64 word"
type_synonym bytes = "8 word list"

abbreviation int64_min :: int where "int64_min \<equiv> - (2 ^ 63)"
abbreviation int64_max :: int where "int64_max \<equiv> 2 ^ 63 - 1"
abbreviation int32_min :: int where "int32_min \<equiv> - (2 ^ 31)"
abbreviation int32_max :: int where "int32_max \<equiv> 2 ^ 31 - 1"

section \<open>Word values\<close>

lemma unat_lt_pow [u_simps]:
  fixes x :: "'a::len word"
  shows "unat x < 2 ^ LENGTH('a)"
  by (rule unsigned_less)

lemma unat_byte_lt [u_simps]: "unat (x :: byte) < 256"
  using unat_lt_pow [of x] by simp

lemma unat_u32_lt [u_simps]: "unat (x :: u32) < 4294967296"
  using unat_lt_pow [of x] by simp

lemma unat_u64_lt [u_simps]: "unat (x :: u64) < 18446744073709551616"
  using unat_lt_pow [of x] by simp

lemma unat_of_nat_small: "n < 2 ^ LENGTH('a) \<Longrightarrow> unat (of_nat n :: 'a::len word) = n"
  by (simp add: unat_of_nat take_bit_nat_eq_self)

lemma unat_ucast_up:
  fixes x :: "'a::len word"
  assumes "LENGTH('a) \<le> LENGTH('b::len)"
  shows "unat (ucast x :: 'b word) = unat x"
proof -
  have "unat x < 2 ^ LENGTH('b)"
    using unat_lt_pow [of x] assms by (meson less_le_trans one_le_numeral power_increasing)
  then show ?thesis by (simp add: unsigned_ucast_eq take_bit_nat_eq_self)
qed

lemma unat_ucast_byte [simp, u_simps]: "unat (ucast (b :: byte) :: u32) = unat b"
  by (simp add: unat_ucast_up)

lemma unat_ucast_byte64 [simp, u_simps]: "unat (ucast (b :: byte) :: u64) = unat b"
  by (simp add: unat_ucast_up)

lemma unat_ucast_u32_64 [simp, u_simps]: "unat (ucast (b :: u32) :: u64) = unat b"
  by (simp add: unat_ucast_up)

lemma unat_ucast_u64_32: "unat (ucast (b :: u64) :: u32) = unat b mod 4294967296"
  by (simp add: unsigned_ucast_eq take_bit_eq_mod)

lemma unat_drop_bit_word: "unat (drop_bit n (x :: 'a::len word)) = unat x div 2 ^ n"
proof -
  have "unat (drop_bit n x) = drop_bit n (take_bit LENGTH('a) (unat x))"
    by (rule unsigned_drop_bit_eq)
  then show ?thesis by (simp only: take_bit_nat_eq_self [OF unat_lt_pow] drop_bit_nat_def)
qed

lemma unat_minus_1: "unat (- 1 :: 'a::len word) = 2 ^ LENGTH('a) - 1"
  by (simp add: unsigned_minus_1_eq_mask mask_eq_exp_minus_1)

lemma unat_not_word: "unat (NOT (x :: 'a::len word)) = 2 ^ LENGTH('a) - 1 - unat x"
proof -
  have "NOT x = - 1 - x" by (simp add: not_eq_complement)
  moreover have "unat (- 1 - x) = unat (- 1 :: 'a word) - unat x" by (rule unat_sub) simp
  ultimately show ?thesis by (simp only: unat_minus_1)
qed

lemma bit_if_zero: "bit (if P then (x :: 'a::len word) else 0) n \<longleftrightarrow> P \<and> bit x n"
  by simp

lemma bit_u32_lt: "bit (x :: u32) n \<Longrightarrow> n < 32"
  by (drule bit_imp_le_length) simp

section \<open>Little-endian byte strings\<close>

fun le_nat :: "bytes \<Rightarrow> nat" where
  "le_nat [] = 0"
| "le_nat (b # bs) = unat b + 256 * le_nat bs"

fun to_le :: "nat \<Rightarrow> nat \<Rightarrow> bytes" where
  "to_le 0 x = []"
| "to_le (Suc n) x = of_nat x # to_le n (x div 256)"

lemma length_to_le [simp, le_simps]: "length (to_le n x) = n"
  by (induction n arbitrary: x) auto

lemma unat_of_nat_byte: "unat (of_nat x :: byte) = x mod 256"
  by (simp add: unat_of_nat take_bit_eq_mod)

lemma unat_eq_byte: "n < 256 \<Longrightarrow> unat (c :: byte) = n \<longleftrightarrow> c = of_nat n"
  by (metis unat_of_nat_byte mod_less unsigned_word_eqI)

lemma le_nat_to_le [le_simps]: "le_nat (to_le n x) = x mod 256 ^ n"
proof (induction n arbitrary: x)
  case (Suc n)
  have "x mod 256 + 256 * (x div 256 mod 256 ^ n) = x mod (256 * 256 ^ n)"
    by (simp add: mod_mult2_eq)
  with Suc show ?case by (simp add: unat_of_nat_byte)
qed simp

lemma le_nat_lt [le_simps]: "le_nat bs < 256 ^ length bs"
proof (induction bs)
  case (Cons b bs)
  have "unat b + 256 * le_nat bs < 256 + 256 * le_nat bs" by (simp add: unat_byte_lt)
  also have "\<dots> \<le> 256 * 256 ^ length bs" using Cons by simp
  finally show ?case by simp
qed simp

lemma to_le_le_nat [le_simps]: "to_le (length bs) (le_nat bs) = bs"
proof (induction bs)
  case (Cons b bs)
  have "(of_nat (unat b + 256 * le_nat bs) :: byte) = of_nat (unat b) + of_nat 256 * of_nat (le_nat bs)"
    by (simp only: of_nat_add of_nat_mult)
  also have "(of_nat 256 :: byte) = 0" by simp
  finally have "(of_nat (unat b + 256 * le_nat bs) :: byte) = b" by simp
  moreover have "(unat b + 256 * le_nat bs) div 256 = le_nat bs" using unat_byte_lt [of b] by simp
  ultimately show ?case using Cons by simp
qed simp

lemma to_le_inj: "x < 256 ^ n \<Longrightarrow> y < 256 ^ n \<Longrightarrow> to_le n x = to_le n y \<longleftrightarrow> x = y"
  by (metis le_nat_to_le mod_less)

lemma le_nat_append [le_simps]: "le_nat (xs @ ys) = le_nat xs + 256 ^ length xs * le_nat ys"
  by (induction xs) (auto simp: algebra_simps)

section \<open>Reading from a byte stream\<close>

text \<open>
  A stream read either takes exactly \<open>n\<close> bytes off the front or fails, as
  \<open>CDataStream::read\<close> does by throwing \<open>ios_base::failure\<close>.
\<close>

definition take_bytes :: "nat \<Rightarrow> bytes \<Rightarrow> (bytes \<times> bytes) option" where
  "take_bytes n s = (if length s < n then None else Some (take n s, drop n s))"

lemma take_bytes_append [simp, le_simps]: "length xs = n \<Longrightarrow> take_bytes n (xs @ ys) = Some (xs, ys)"
  by (auto simp: take_bytes_def)

lemma take_bytes_Some:
  "take_bytes n s = Some (xs, ys) \<longleftrightarrow> s = xs @ ys \<and> length xs = n"
  by (auto simp: take_bytes_def split: if_splits)

section \<open>Lists\<close>

lemma foldl_list_update_nth_notin:
  "m \<notin> set is \<Longrightarrow> foldl (\<lambda>p i. p[i := f i (p ! i)]) p is ! m = p ! m"
  by (induction "is" arbitrary: p) auto

lemma nth_append_snoc [simp]: "(xs @ [x]) ! length xs = x"
  by simp

lemma butlast_snoc_last: "xs \<noteq> [] \<Longrightarrow> butlast xs @ [last xs] = xs"
  by simp

section \<open>Signed 64-bit wrap-around\<close>

definition wrap64 :: "int \<Rightarrow> int" where
  "wrap64 x = (x + 2 ^ 63) mod 2 ^ 64 - 2 ^ 63"

lemma wrap64_id: "int64_min \<le> x \<Longrightarrow> x \<le> int64_max \<Longrightarrow> wrap64 x = x"
  by (simp add: wrap64_def)

lemma wrap64_range: "int64_min \<le> wrap64 x \<and> wrap64 x \<le> int64_max"
  using pos_mod_bound [of "2 ^ 64" "x + 2 ^ 63"] by (simp add: wrap64_def)

lemma wrap64_overflow:
  assumes "int64_max < x" "x < 2 ^ 64"
  shows "wrap64 x = x - 2 ^ 64"
proof -
  have "(x + 2 ^ 63) mod 2 ^ 64 = (x + 2 ^ 63 - 2 ^ 64) mod 2 ^ 64" by (rule minus_mod_self2 [symmetric])
  also have "\<dots> = x + 2 ^ 63 - 2 ^ 64" using assms by (intro mod_pos_pos_trivial) auto
  finally show ?thesis by (simp add: wrap64_def)
qed

section \<open>Decimal strings\<close>

text \<open>The C library's character classes in the C locale, and the digits that \<open>%d\<close> and \<open>%0wd\<close> print.\<close>

definition isdigit :: "char \<Rightarrow> bool" where
  "isdigit c \<longleftrightarrow> 48 \<le> (of_char c :: nat) \<and> of_char c \<le> (57 :: nat)"

definition isspace :: "char \<Rightarrow> bool" where
  "isspace c \<longleftrightarrow> of_char c = (32 :: nat) \<or> (9 \<le> (of_char c :: nat) \<and> of_char c \<le> (13 :: nat))"

definition digit_char :: "nat \<Rightarrow> char" where
  "digit_char d = char_of (48 + d)"

definition digit_val :: "char \<Rightarrow> nat" where
  "digit_val c = of_char c - 48"

fun dec_nat :: "nat \<Rightarrow> string" where
  "dec_nat n = (if n < 10 then [digit_char n] else dec_nat (n div 10) @ [digit_char (n mod 10)])"

definition dec_pad :: "nat \<Rightarrow> nat \<Rightarrow> string" where
  "dec_pad w n = replicate (w - length (dec_nat n)) (CHR ''0'') @ dec_nat n"

fun dec_val :: "string \<Rightarrow> nat" where
  "dec_val [] = 0"
| "dec_val (c # s) = digit_val c * 10 ^ length s + dec_val s"

declare dec_nat.simps [simp del]

lemma of_digit_char: "d < 10 \<Longrightarrow> of_char (digit_char d) = (48 + d :: nat)"
  by (simp add: digit_char_def)

lemma isdigit_digit_char [simp]: "d < 10 \<Longrightarrow> isdigit (digit_char d)"
  by (simp add: isdigit_def of_digit_char)

lemma digit_val_digit_char [simp]: "d < 10 \<Longrightarrow> digit_val (digit_char d) = d"
  by (simp add: digit_val_def of_digit_char)

lemma isdigit_0 [simp]: "isdigit (CHR ''0'')"
  by (simp add: isdigit_def)

lemma digit_val_0 [simp]: "digit_val (CHR ''0'') = 0"
  by (simp add: digit_val_def)

lemma dec_val_append: "dec_val (s @ t) = dec_val s * 10 ^ length t + dec_val t"
  by (induction s) (simp_all add: power_add algebra_simps)

lemma dec_val_zeros [simp]: "dec_val (replicate k (CHR ''0'')) = 0"
  by (induction k) simp_all

lemma dec_nat_digits: "list_all isdigit (dec_nat n)"
proof (induction n rule: dec_nat.induct)
  case (1 n)
  then show ?case by (simp add: dec_nat.simps [of n])
qed

lemma dec_val_dec_nat [simp]: "dec_val (dec_nat n) = n"
proof (induction n rule: dec_nat.induct)
  case (1 n)
  then show ?case by (simp add: dec_nat.simps [of n] dec_val_append)
qed

lemma length_dec_nat_le: "n < 10 ^ Suc k \<Longrightarrow> length (dec_nat n) \<le> Suc k"
proof (induction n arbitrary: k rule: dec_nat.induct)
  case (1 n)
  show ?case
  proof (cases "n < 10")
    case False
    with 1(2) obtain j where j: "k = Suc j" by (cases k) auto
    then have "n div 10 < 10 ^ Suc j" using 1(2) by (simp add: less_mult_imp_div_less mult.commute)
    with 1(1) False j show ?thesis by (simp add: dec_nat.simps [of n])
  qed (simp add: dec_nat.simps [of n])
qed

lemma dec_pad_props:
  "list_all isdigit (dec_pad w n)" "dec_val (dec_pad w n) = n"
  "0 < w \<Longrightarrow> n < 10 ^ w \<Longrightarrow> length (dec_pad w n) = w"
  using dec_nat_digits [of n] length_dec_nat_le [of n "w - 1"]
  by (auto simp: dec_pad_def dec_val_append list_all_iff)

end
