(* ===== verification/Uint256.thy ===== *)
theory Uint256
  imports Agouti_Prelude
begin

unbundle bit_operations_syntax

text \<open>
  The fixed-width unsigned integers of \<open>src/src/uint256.h\<close> and \<open>src/src/uint256.cpp\<close>.
  A \<open>base_uint<BITS>\<close> holds an array \<open>pn\<close> of \<open>WIDTH = BITS/32\<close> limbs, least significant
  first; here it is the list of its limbs, so \<open>WIDTH\<close> is the length of the list and every
  operation is written for any width, as the template is.  Each loop of the source is one
  recursive function or fold with the same carry, the same index order and the same word
  widths.  The lemmas relate every operation to natural-number arithmetic through
  \<open>bu_val\<close>: addition, subtraction, multiplication and shifts are arithmetic modulo
  \<open>2 ^ BITS\<close>, division is exact, comparison is the numeric order, and the compact
  (difficulty) encoding is a truncating floating-point format.
\<close>

section \<open>Definitions\<close>

subsection \<open>Construction and bitwise operations\<close>

type_synonym base_uint = "u32 list"

abbreviation WIDTH256 :: nat where "WIDTH256 \<equiv> 8"

definition bu_zero :: "nat \<Rightarrow> base_uint" where
  "bu_zero W = replicate W 0"

definition bu_IsNull :: "base_uint \<Rightarrow> bool" where
  "bu_IsNull pn = list_all (\<lambda>x. x = 0) pn"

definition bu_of_uint64 :: "nat \<Rightarrow> u64 \<Rightarrow> base_uint" where
  "bu_of_uint64 W b = ucast b # ucast (drop_bit 32 b) # replicate (W - 2) 0"

definition bu_not :: "base_uint \<Rightarrow> base_uint" where
  "bu_not pn = map (\<lambda>x. NOT x) pn"

definition bu_xor :: "base_uint \<Rightarrow> base_uint \<Rightarrow> base_uint" where
  "bu_xor a b = map2 (XOR) a b"

definition bu_and :: "base_uint \<Rightarrow> base_uint \<Rightarrow> base_uint" where
  "bu_and a b = map2 (AND) a b"

definition bu_or :: "base_uint \<Rightarrow> base_uint \<Rightarrow> base_uint" where
  "bu_or a b = map2 (OR) a b"

subsection \<open>Increment, decrement, addition and subtraction\<close>

fun bu_inc :: "base_uint \<Rightarrow> base_uint" where
  "bu_inc [] = []"
| "bu_inc (x # xs) = (if x + 1 = 0 then (x + 1) # bu_inc xs else (x + 1) # xs)"

fun bu_dec :: "base_uint \<Rightarrow> base_uint" where
  "bu_dec [] = []"
| "bu_dec (x # xs) = (if x - 1 = -1 then (x - 1) # bu_dec xs else (x - 1) # xs)"

definition bu_neg :: "base_uint \<Rightarrow> base_uint" where
  "bu_neg pn = bu_inc (bu_not pn)"

fun bu_add_loop :: "u64 \<Rightarrow> base_uint \<Rightarrow> base_uint \<Rightarrow> base_uint" where
  "bu_add_loop carry (p # ps) (b # bs) =
     (let n = carry + ucast p + ucast b
      in ucast (n AND 0xffffffff) # bu_add_loop (drop_bit 32 n) ps bs)"
| "bu_add_loop carry _ _ = []"

definition bu_add :: "base_uint \<Rightarrow> base_uint \<Rightarrow> base_uint" where
  "bu_add a b = bu_add_loop 0 a b"

definition bu_sub :: "base_uint \<Rightarrow> base_uint \<Rightarrow> base_uint" where
  "bu_sub a b = bu_add a (bu_neg b)"

definition bu_add_u64 :: "base_uint \<Rightarrow> u64 \<Rightarrow> base_uint" where
  "bu_add_u64 a b64 = bu_add a (bu_of_uint64 (length a) b64)"

definition bu_sub_u64 :: "base_uint \<Rightarrow> u64 \<Rightarrow> base_uint" where
  "bu_sub_u64 a b64 = bu_add a (bu_neg (bu_of_uint64 (length a) b64))"

subsection \<open>Multiplication\<close>

fun bu_mul32_loop :: "u64 \<Rightarrow> u32 \<Rightarrow> base_uint \<Rightarrow> base_uint" where
  "bu_mul32_loop carry b32 [] = []"
| "bu_mul32_loop carry b32 (p # ps) =
     (let n = carry + ucast b32 * ucast p
      in ucast (n AND 0xffffffff) # bu_mul32_loop (drop_bit 32 n) b32 ps)"

definition bu_mul32 :: "base_uint \<Rightarrow> u32 \<Rightarrow> base_uint" where
  "bu_mul32 a b32 = bu_mul32_loop 0 b32 a"

text \<open>
  The inner loop of \<open>operator*=\<close> runs over \<open>i\<close> with \<open>i + j < WIDTH\<close>: it adds \<open>a.pn[j]\<close> times
  \<open>b\<close> onto the limbs of \<open>pn\<close> from position \<open>j\<close> on.
\<close>

fun bu_mul_row :: "u64 \<Rightarrow> u32 \<Rightarrow> base_uint \<Rightarrow> base_uint \<Rightarrow> base_uint" where
  "bu_mul_row carry aj (p # ps) (b # bs) =
     (let n = carry + ucast p + ucast aj * ucast b
      in ucast (n AND 0xffffffff) # bu_mul_row (drop_bit 32 n) aj ps bs)"
| "bu_mul_row carry aj _ _ = []"

definition bu_mul :: "base_uint \<Rightarrow> base_uint \<Rightarrow> base_uint" where
  "bu_mul a b =
     foldl (\<lambda>pn j. take j pn @ bu_mul_row 0 (a ! j) (drop j pn) b)
       (bu_zero (length a)) [0..<length a]"

subsection \<open>Shifts\<close>

definition bu_shl_step :: "base_uint \<Rightarrow> nat \<Rightarrow> nat \<Rightarrow> base_uint \<Rightarrow> nat \<Rightarrow> base_uint" where
  "bu_shl_step a k s pn i =
     (let pn1 = (if i + k + 1 < length a \<and> s \<noteq> 0
                 then pn[i + k + 1 := pn ! (i + k + 1) OR drop_bit (32 - s) (a ! i)] else pn)
      in if i + k < length a then pn1[i + k := pn1 ! (i + k) OR push_bit s (a ! i)] else pn1)"

definition bu_shl :: "base_uint \<Rightarrow> nat \<Rightarrow> base_uint" where
  "bu_shl a shift =
     foldl (bu_shl_step a (shift div 32) (shift mod 32)) (bu_zero (length a)) [0..<length a]"

definition bu_shr_step :: "base_uint \<Rightarrow> nat \<Rightarrow> nat \<Rightarrow> base_uint \<Rightarrow> nat \<Rightarrow> base_uint" where
  "bu_shr_step a k s pn i =
     (let pn1 = (if i \<ge> k + 1 \<and> s \<noteq> 0
                 then pn[i - k - 1 := pn ! (i - k - 1) OR push_bit (32 - s) (a ! i)] else pn)
      in if i \<ge> k then pn1[i - k := pn1 ! (i - k) OR drop_bit s (a ! i)] else pn1)"

definition bu_shr :: "base_uint \<Rightarrow> nat \<Rightarrow> base_uint" where
  "bu_shr a shift =
     foldl (bu_shr_step a (shift div 32) (shift mod 32)) (bu_zero (length a)) [0..<length a]"

subsection \<open>Comparison and bit length\<close>

fun bu_cmp_loop :: "base_uint \<Rightarrow> base_uint \<Rightarrow> nat \<Rightarrow> int" where
  "bu_cmp_loop a b 0 = 0"
| "bu_cmp_loop a b (Suc i) =
     (if a ! i < b ! i then -1 else if a ! i > b ! i then 1 else bu_cmp_loop a b i)"

definition bu_CompareTo :: "base_uint \<Rightarrow> base_uint \<Rightarrow> int" where
  "bu_CompareTo a b = bu_cmp_loop a b (length a)"

definition bu_EqualTo :: "base_uint \<Rightarrow> u64 \<Rightarrow> bool" where
  "bu_EqualTo pn b =
     (if \<not> list_all (\<lambda>x. x = 0) (drop 2 pn) then False
      else if ucast (pn ! 1) \<noteq> drop_bit 32 b then False
      else if ucast (pn ! 0) \<noteq> b AND 0xffffffff then False
      else True)"

fun bu_top_bit :: "u32 \<Rightarrow> nat \<Rightarrow> nat" where
  "bu_top_bit w 0 = 1"
| "bu_top_bit w (Suc b) =
     (if w AND push_bit (Suc b) 1 \<noteq> 0 then Suc b + 1 else bu_top_bit w b)"

fun bu_bits_loop :: "base_uint \<Rightarrow> nat \<Rightarrow> nat" where
  "bu_bits_loop pn 0 = 0"
| "bu_bits_loop pn (Suc pos) =
     (if pn ! pos \<noteq> 0 then 32 * pos + bu_top_bit (pn ! pos) 31 else bu_bits_loop pn pos)"

definition bu_bits :: "base_uint \<Rightarrow> nat" where
  "bu_bits pn = bu_bits_loop pn (length pn)"

definition bu_Get64 :: "base_uint \<Rightarrow> nat \<Rightarrow> u64" where
  "bu_Get64 pn n = ucast (pn ! (2 * n)) OR push_bit 32 (ucast (pn ! (2 * n + 1)))"

definition bu_GetLow64 :: "base_uint \<Rightarrow> u64" where
  "bu_GetLow64 pn = ucast (pn ! 0) OR push_bit 32 (ucast (pn ! 1))"

subsection \<open>Division\<close>

text \<open>
  The loop counts \<open>shift\<close> down to 0 inclusive; its recursion argument is \<open>shift + 1\<close>.
  Division by zero throws \<open>uint_error\<close>: the result is \<open>None\<close>.
\<close>

fun bu_div_loop :: "nat \<Rightarrow> base_uint \<Rightarrow> base_uint \<Rightarrow> base_uint \<Rightarrow> base_uint" where
  "bu_div_loop 0 num dv q = q"
| "bu_div_loop (Suc shift) num dv q =
     (if bu_CompareTo num dv \<ge> 0
      then bu_div_loop shift (bu_sub num dv) (bu_shr dv 1)
             (q[shift div 32 := q ! (shift div 32) OR push_bit (shift mod 32) 1])
      else bu_div_loop shift num (bu_shr dv 1) q)"

definition bu_div :: "base_uint \<Rightarrow> base_uint \<Rightarrow> base_uint option" where
  "bu_div a b =
     (let num_bits = bu_bits a; div_bits = bu_bits b
      in if div_bits = 0 then None
         else if div_bits > num_bits then Some (bu_zero (length a))
         else let shift = num_bits - div_bits
              in Some (bu_div_loop (Suc shift) a (bu_shl b shift) (bu_zero (length a))))"

subsection \<open>Compact (difficulty target) encoding\<close>

definition SetCompact :: "u32 \<Rightarrow> base_uint \<times> bool \<times> bool" where
  "SetCompact nCompact =
     (let nSize = unat (drop_bit 24 nCompact);
          nWord0 = nCompact AND 0x007fffff;
          nWord = (if nSize \<le> 3 then drop_bit (8 * (3 - nSize)) nWord0 else nWord0);
          v = (if nSize \<le> 3 then bu_of_uint64 WIDTH256 (ucast nWord)
               else bu_shl (bu_of_uint64 WIDTH256 (ucast nWord)) (8 * (nSize - 3)));
          fNegative = (nWord \<noteq> 0 \<and> nCompact AND 0x00800000 \<noteq> 0);
          fOverflow = (nWord \<noteq> 0 \<and> (nSize > 34 \<or> (nWord > 0xff \<and> nSize > 33)
                        \<or> (nWord > 0xffff \<and> nSize > 32)))
      in (v, fNegative, fOverflow))"

text \<open>The two \<open>assert\<close>s of \<open>GetCompact\<close> abort the program: \<open>None\<close>.\<close>

definition GetCompact :: "bool \<Rightarrow> base_uint \<Rightarrow> u32 option" where
  "GetCompact fNegative pn =
     (let nSize0 = (bu_bits pn + 7) div 8;
          nCompact0 = (if nSize0 \<le> 3
                       then ucast (push_bit (8 * (3 - nSize0)) (bu_GetLow64 pn))
                       else ucast (bu_GetLow64 (bu_shr pn (8 * (nSize0 - 3))))) :: u32;
          (nCompact1, nSize) = (if nCompact0 AND 0x00800000 \<noteq> 0
                                then (drop_bit 8 nCompact0, nSize0 + 1)
                                else (nCompact0, nSize0))
      in if nCompact1 AND NOT 0x007fffff \<noteq> 0 then None
         else if \<not> nSize < 256 then None
         else let c = nCompact1 OR push_bit 24 (of_nat nSize)
              in Some (c OR (if fNegative \<and> c AND 0x007fffff \<noteq> 0 then 0x00800000 else 0)))"

subsection \<open>Serialization and salted hash\<close>

definition bu_Serialize :: "base_uint \<Rightarrow> bytes" where
  "bu_Serialize pn = concat (map (\<lambda>w. to_le 4 (unat w)) pn)"

fun bu_limbs :: "nat \<Rightarrow> bytes \<Rightarrow> base_uint" where
  "bu_limbs 0 s = []"
| "bu_limbs (Suc n) s = of_nat (le_nat (take 4 s)) # bu_limbs n (drop 4 s)"

definition bu_Unserialize :: "nat \<Rightarrow> bytes \<Rightarrow> (base_uint \<times> bytes) option" where
  "bu_Unserialize W s =
     (case take_bytes (4 * W) s of None \<Rightarrow> None | Some (xs, r) \<Rightarrow> Some (bu_limbs W xs, r))"

text \<open>The constructor from a byte vector throws \<open>uint_error\<close> on a wrong size.\<close>

definition bu_of_vector :: "nat \<Rightarrow> bytes \<Rightarrow> base_uint option" where
  "bu_of_vector W vch = (if length vch \<noteq> 4 * W then None else Some (bu_limbs W vch))"

definition bu_trim256 :: "base_uint \<Rightarrow> base_uint" where
  "bu_trim256 pn = map (\<lambda>i. pn ! i) [0..<WIDTH256]"

definition rotl_or :: "u32 \<Rightarrow> nat \<Rightarrow> nat \<Rightarrow> u32" where
  "rotl_or x l r = push_bit l x OR drop_bit r x"

definition HashMix :: "u32 \<times> u32 \<times> u32 \<Rightarrow> u32 \<times> u32 \<times> u32" where
  "HashMix = (\<lambda>(a, b, c).
     let a = a - c; a = a XOR rotl_or c 4 28; c = c + b;
         b = b - a; b = b XOR rotl_or a 6 26; a = a + c;
         c = c - b; c = c XOR rotl_or b 8 24; b = b + a;
         a = a - c; a = a XOR rotl_or c 16 16; c = c + b;
         b = b - a; b = b XOR rotl_or a 19 13; a = a + c;
         c = c - b; c = c XOR rotl_or b 4 28; b = b + a
     in (a, b, c))"

definition HashFinal :: "u32 \<times> u32 \<times> u32 \<Rightarrow> u32 \<times> u32 \<times> u32" where
  "HashFinal = (\<lambda>(a, b, c).
     let c = c XOR b; c = c - rotl_or b 14 18;
         a = a XOR c; a = a - rotl_or c 11 21;
         b = b XOR a; b = b - rotl_or a 25 7;
         c = c XOR b; c = c - rotl_or b 16 16;
         a = a XOR c; a = a - rotl_or c 4 28;
         b = b XOR a; b = b - rotl_or a 14 18;
         c = c XOR b; c = c - rotl_or b 24 8
     in (a, b, c))"

definition bu_GetHash :: "base_uint \<Rightarrow> base_uint \<Rightarrow> u64" where
  "bu_GetHash pn salt =
     (let i = 0xdeadbeef + push_bit 2 (of_nat WIDTH256);
          d = (\<lambda>j. pn ! j XOR salt ! j);
          (a, b, c) = HashMix (i + d 0, i + d 1, i + d 2);
          (a, b, c) = HashMix (a + d 3, b + d 4, c + d 5);
          (a, b, c) = HashFinal (a + d 6, b + d 7, c)
      in push_bit 32 (ucast b) OR ucast c)"

subsection \<open>Specification vocabulary\<close>

text \<open>
  The number a limb array stands for; the byte size and mantissa fields of a compact word;
  and the mantissa and byte size that \<open>GetCompact\<close> computes, as naturals.
\<close>

fun bu_val :: "base_uint \<Rightarrow> nat" where
  "bu_val [] = 0"
| "bu_val (x # xs) = unat x + 4294967296 * bu_val xs"

definition compact_size :: "u32 \<Rightarrow> nat" where
  "compact_size c = unat c div 2 ^ 24"

definition compact_mantissa :: "u32 \<Rightarrow> nat" where
  "compact_mantissa c = unat c mod 2 ^ 23"

definition compact_norm :: "nat \<Rightarrow> nat \<Rightarrow> nat \<times> nat" where
  "compact_norm X S0 =
     (let m0 = (if S0 \<le> 3 then X * 256 ^ (3 - S0) else X div 256 ^ (S0 - 3))
      in if 2 ^ 23 \<le> m0 then (m0 div 256, S0 + 1) else (m0, S0))"

section \<open>The value of a limb array\<close>

lemma bu_val_lt: "bu_val xs < 2 ^ (32 * length xs)"
proof (induction xs)
  case (Cons x xs)
  have "unat x + 4294967296 * bu_val xs < 4294967296 * (bu_val xs + 1)" using unat_u32_lt [of x] by simp
  also have "\<dots> \<le> 4294967296 * 2 ^ (32 * length xs)" using Cons by (intro mult_le_mono2) simp
  finally show ?case by (simp add: power_add)
qed simp

lemma bu_val_append: "bu_val (xs @ ys) = bu_val xs + 2 ^ (32 * length xs) * bu_val ys"
  by (induction xs) (auto simp: power_add algebra_simps)

lemma bu_val_inj: "length xs = length ys \<Longrightarrow> bu_val xs = bu_val ys \<Longrightarrow> xs = ys"
proof (induction xs ys rule: list_induct2)
  case (Cons x xs y ys)
  have "unat x = unat y" and "bu_val xs = bu_val ys"
    using arg_cong [OF Cons.prems, of "\<lambda>v. v mod 4294967296"]
      arg_cong [OF Cons.prems, of "\<lambda>v. v div 4294967296"]
      unat_u32_lt [of x] unat_u32_lt [of y] by simp_all
  with Cons.IH show ?case by (simp add: unsigned_word_eqI)
qed simp

lemma bu_val_zero [simp]: "bu_val (bu_zero W) = 0"
  by (induction W) (auto simp: bu_zero_def)

lemma bu_val_replicate0 [simp]: "bu_val (replicate n 0) = 0"
  by (induction n) auto

lemma length_bu_zero [simp]: "length (bu_zero W) = W"
  by (simp add: bu_zero_def)

lemma bit_bu_val:
  "bit (bu_val xs) n \<longleftrightarrow> n div 32 < length xs \<and> bit (xs ! (n div 32)) (n mod 32)"
proof (induction xs arbitrary: n)
  case (Cons x xs)
  have "bit (unat x + push_bit 32 (bu_val xs)) n \<longleftrightarrow> bit (unat x) n \<or> bit (push_bit 32 (bu_val xs)) n"
    by (rule bit_disjunctive_add_iff) (auto simp: bit_push_bit_iff bit_unsigned_iff dest: bit_u32_lt)
  moreover have "bu_val (x # xs) = unat x + push_bit 32 (bu_val xs)"
    by (simp add: push_bit_eq_mult)
  ultimately have *: "bit (bu_val (x # xs)) n \<longleftrightarrow> bit x n \<and> n < 32 \<or> n \<ge> 32 \<and> bit (bu_val xs) (n - 32)"
    using bit_u32_lt [of x n] by (auto simp only: bit_push_bit_iff bit_unsigned_iff) auto
  show ?case
  proof (cases "n < 32")
    case True
    then show ?thesis using * by simp
  next
    case False
    then have "n div 32 = Suc ((n - 32) div 32)" "(n - 32) mod 32 = n mod 32"
      by (simp_all add: le_div_geq le_mod_geq)
    then show ?thesis using * False Cons.IH by simp
  qed
qed simp

lemma bit_bu_val_split:
  "j < 32 \<Longrightarrow> bit (bu_val xs) (32 * m + j) \<longleftrightarrow> m < length xs \<and> bit (xs ! m) j"
  by (simp add: bit_bu_val)

section \<open>Correctness of the arithmetic\<close>

lemma low32: "unat (ucast (n AND 0xffffffff :: u64) :: u32) = unat n mod 4294967296"
proof -
  have "n AND 0xffffffff = take_bit 32 n"
    by (simp add: take_bit_eq_mask mask_eq_exp_minus_1)
  then have "(ucast (n AND 0xffffffff) :: u32) = ucast n"
    by (auto simp: bit_eq_iff bit_simps)
  then show ?thesis by (simp add: unat_ucast_u64_32)
qed

lemma high32: "unat (drop_bit 32 (n :: u64)) = unat n div 4294967296"
  by (simp only: unat_drop_bit_word) simp

lemma unat_add_u64: "unat a + unat b < 18446744073709551616 \<Longrightarrow> unat (a + b :: u64) = unat a + unat b"
  by (simp add: unat_word_ariths)

lemma unat_mult_u32_64:
  "unat (ucast (a :: u32) * ucast (b :: u32) :: u64) = unat a * unat b"
proof -
  have "unat a * unat b \<le> 4294967295 * 4294967295"
    using unat_u32_lt [of a] unat_u32_lt [of b] by (intro mult_le_mono) linarith+
  then show ?thesis by (simp add: unat_word_ariths)
qed

lemma mod_split32:
  fixes m :: nat
  shows "m mod 4294967296 + 4294967296 * ((m div 4294967296 + k) mod 2 ^ l) =
    (m + 4294967296 * k) mod (2 ^ (32 + l))"
proof -
  have "(m + 4294967296 * k) div 4294967296 = m div 4294967296 + k" by simp
  moreover have "(m + 4294967296 * k) mod 4294967296 = m mod 4294967296" by simp
  ultimately show ?thesis
    using mod_mult2_eq [of "m + 4294967296 * k" 4294967296 "2 ^ l"] by (simp add: power_add ac_simps)
qed

lemma length_bu_add_loop [simp]: "length (bu_add_loop c a b) = min (length a) (length b)"
  by (induction c a b rule: bu_add_loop.induct) (auto simp: Let_def)

lemma bu_add_loop_val:
  "length a = length b \<Longrightarrow> unat c \<le> 1 \<Longrightarrow>
   bu_val (bu_add_loop c a b) = (unat c + bu_val a + bu_val b) mod 2 ^ (32 * length a)"
proof (induction c a b rule: bu_add_loop.induct)
  case (1 carry p ps b bs)
  define n where "n = carry + ucast p + ucast b"
  have "unat (carry + ucast p) = unat carry + unat p"
    using "1.prems"(2) unat_u32_lt [of p] by (subst unat_add_u64) auto
  then have n: "unat n = unat carry + unat p + unat b"
    using "1.prems"(2) unat_u32_lt [of p] unat_u32_lt [of b]
    unfolding n_def by (subst unat_add_u64) auto
  then have "unat (drop_bit 32 n) \<le> 1"
    using "1.prems"(2) unat_u32_lt [of p] unat_u32_lt [of b] by (simp add: high32)
  with "1.IH" [OF n_def] "1.prems"(1)
  have IH: "bu_val (bu_add_loop (drop_bit 32 n) ps bs) =
      (unat n div 4294967296 + (bu_val ps + bu_val bs)) mod 2 ^ (32 * length ps)"
    by (simp add: high32 add.assoc)
  have "bu_val (bu_add_loop carry (p # ps) (b # bs)) =
      unat n mod 4294967296 + 4294967296 * bu_val (bu_add_loop (drop_bit 32 n) ps bs)"
    by (simp add: Let_def n_def low32)
  also have "\<dots> = (unat n + 4294967296 * (bu_val ps + bu_val bs)) mod 2 ^ (32 + 32 * length ps)"
    by (simp only: IH mod_split32)
  finally show ?case by (simp add: n algebra_simps)
qed auto

theorem bu_add_val:
  "length a = length b \<Longrightarrow> bu_val (bu_add a b) = (bu_val a + bu_val b) mod 2 ^ (32 * length a)"
  by (simp add: bu_add_def bu_add_loop_val)

lemma length_bu_add [simp]: "length (bu_add a b) = min (length a) (length b)"
  by (simp add: bu_add_def)

lemma length_bu_inc [simp]: "length (bu_inc a) = length a"
  by (induction a rule: bu_inc.induct) auto

lemma length_bu_not [simp]: "length (bu_not a) = length a"
  by (simp add: bu_not_def)

lemma length_bu_neg [simp]: "length (bu_neg a) = length a"
  by (simp add: bu_neg_def)

lemma length_bu_sub [simp]: "length (bu_sub a b) = min (length a) (length b)"
  by (simp add: bu_sub_def)

lemma bu_inc_val: "bu_val (bu_inc a) = (bu_val a + 1) mod 2 ^ (32 * length a)"
proof (induction a rule: bu_inc.induct)
  case (2 x xs)
  show ?case
  proof (cases "x + 1 = 0")
    case True
    then have "x = - 1" by (simp add: eq_neg_iff_add_eq_0)
    then have x: "unat x = 4294967295" using unat_minus_1 [where 'a = 32] by simp
    show ?thesis
      using True 2 x mod_split32 [of "4294967296" "bu_val xs" "32 * length xs"]
      by (simp add: algebra_simps)
  next
    case False
    then have x: "unat (x + 1) = unat x + 1" by (metis Suc_eq_plus1 add.commute unatSuc)
    then have "unat x + 1 + 4294967296 * bu_val xs < 4294967296 * (bu_val xs + 1)"
      using unat_u32_lt [of "x + 1"] by simp
    also have "\<dots> \<le> 4294967296 * 2 ^ (32 * length xs)"
      using bu_val_lt [of xs] by (intro mult_le_mono2) simp
    finally show ?thesis using False x by (simp add: power_add)
  qed
qed simp

lemma bu_not_val: "bu_val (bu_not a) + bu_val a + 1 = 2 ^ (32 * length a)"
proof (induction a)
  case (Cons x xs)
  have "unat (NOT x) = 4294967295 - unat x"
    by (simp add: unat_not_word)
  moreover have "4294967296 * (bu_val (bu_not xs) + bu_val xs + 1) = 2 ^ (32 * length (x # xs))"
    by (simp only: Cons) (simp add: power_add)
  ultimately show ?case using unat_u32_lt [of x] by (simp add: bu_not_def)
qed (simp add: bu_not_def)

lemma bu_neg_val: "bu_val (bu_neg a) = (2 ^ (32 * length a) - bu_val a) mod 2 ^ (32 * length a)"
proof -
  have "bu_val (bu_not a) + 1 = 2 ^ (32 * length a) - bu_val a" using bu_not_val [of a] by simp
  then show ?thesis by (simp add: bu_neg_def bu_inc_val)
qed

theorem bu_sub_val:
  assumes "length a = length b"
  shows "int (bu_val (bu_sub a b)) = (int (bu_val a) - int (bu_val b)) mod 2 ^ (32 * length a)"
proof -
  have "bu_val b \<le> 2 ^ (32 * length a)" using bu_val_lt [of b] assms by simp
  then have "int ((bu_val a + (2 ^ (32 * length a) - bu_val b)) mod 2 ^ (32 * length a)) =
      (int (bu_val a) - int (bu_val b) + 2 ^ (32 * length a)) mod 2 ^ (32 * length a)"
    by (simp add: zmod_int of_nat_diff algebra_simps)
  with assms show ?thesis
    by (simp add: bu_sub_def bu_add_val bu_neg_val mod_simps)
qed

lemma bu_sub_val_le:
  assumes "length a = length b" "bu_val b \<le> bu_val a"
  shows "bu_val (bu_sub a b) = bu_val a - bu_val b"
proof -
  have "int (bu_val a) < int (2 ^ (32 * length a))"
    using bu_val_lt [of a] by (simp only: of_nat_less_iff)
  then have "int (bu_val a) < 2 ^ (32 * length a)" by (simp only: of_nat_power of_nat_numeral)
  then have "int (bu_val a) - int (bu_val b) < 2 ^ (32 * length a)" by linarith
  then have "(int (bu_val a) - int (bu_val b)) mod 2 ^ (32 * length a) = int (bu_val a) - int (bu_val b)"
    using assms(2) by (intro mod_pos_pos_trivial) auto
  then have "int (bu_val (bu_sub a b)) = int (bu_val a - bu_val b)"
    using assms by (simp add: bu_sub_val of_nat_diff)
  then show ?thesis by simp
qed

lemma length_bu_mul32_loop [simp]: "length (bu_mul32_loop c b a) = length a"
  by (induction a arbitrary: c) (auto simp: Let_def)

lemma mac_bound:
  fixes c p a b :: nat
  assumes "c < 4294967296" "p < 4294967296" "a < 4294967296" "b < 4294967296"
  shows "c + p + a * b < 18446744073709551616"
proof -
  have "a * b \<le> 4294967295 * 4294967295" using assms by (intro mult_le_mono) linarith+
  with assms show ?thesis by linarith
qed

lemma bu_mul32_loop_val:
  "unat c < 4294967296 \<Longrightarrow>
   bu_val (bu_mul32_loop c b a) = (unat c + unat b * bu_val a) mod 2 ^ (32 * length a)"
proof (induction a arbitrary: c)
  case (Cons p ps)
  define n where "n = c + ucast b * ucast p"
  have bound: "unat c + 0 + unat b * unat p < 18446744073709551616"
    using Cons.prems by (intro mac_bound) (auto intro: unat_u32_lt)
  then have n: "unat n = unat c + unat b * unat p"
    unfolding n_def by (subst unat_add_u64) (simp_all add: unat_mult_u32_64)
  then have "unat (drop_bit 32 n) < 4294967296"
    using bound by (simp add: high32)
  from Cons.IH [OF this] have IH: "bu_val (bu_mul32_loop (drop_bit 32 n) b ps) =
      (unat n div 4294967296 + unat b * bu_val ps) mod 2 ^ (32 * length ps)"
    by (simp add: high32)
  have "bu_val (bu_mul32_loop c b (p # ps)) =
      unat n mod 4294967296 + 4294967296 * bu_val (bu_mul32_loop (drop_bit 32 n) b ps)"
    by (simp add: Let_def n_def low32)
  also have "\<dots> = (unat n + 4294967296 * (unat b * bu_val ps)) mod 2 ^ (32 + 32 * length ps)"
    by (simp only: IH mod_split32)
  finally show ?case by (simp add: n algebra_simps)
qed simp

theorem bu_mul32_val: "bu_val (bu_mul32 a b) = (bu_val a * unat b) mod 2 ^ (32 * length a)"
  by (simp add: bu_mul32_def bu_mul32_loop_val mult.commute)

lemma length_bu_mul_row [simp]: "length (bu_mul_row c aj ps bs) = min (length ps) (length bs)"
  by (induction c aj ps bs rule: bu_mul_row.induct) (auto simp: Let_def)

lemma bu_mul_row_val:
  "length ps \<le> length bs \<Longrightarrow> unat c < 4294967296 \<Longrightarrow>
   bu_val (bu_mul_row c aj ps bs) = (unat c + bu_val ps + unat aj * bu_val bs) mod 2 ^ (32 * length ps)"
proof (induction c aj ps bs rule: bu_mul_row.induct)
  case (1 c aj p ps b bs)
  define n where "n = c + ucast p + ucast aj * ucast b"
  have bound: "unat c + unat p + unat aj * unat b < 18446744073709551616"
    using "1.prems" by (intro mac_bound) (auto intro: unat_u32_lt)
  then have "unat (c + ucast p) = unat c + unat p"
    by (subst unat_add_u64) simp_all
  then have n: "unat n = unat c + unat p + unat aj * unat b"
    unfolding n_def using bound by (subst unat_add_u64) (simp_all add: unat_mult_u32_64)
  then have "unat (drop_bit 32 n) < 4294967296"
    using bound by (simp add: high32)
  with "1.IH" [OF n_def] "1.prems"(1)
  have IH: "bu_val (bu_mul_row (drop_bit 32 n) aj ps bs) =
      (unat n div 4294967296 + (bu_val ps + unat aj * bu_val bs)) mod 2 ^ (32 * length ps)"
    by (simp add: high32 add.assoc)
  have "bu_val (bu_mul_row c aj (p # ps) (b # bs)) =
      unat n mod 4294967296 + 4294967296 * bu_val (bu_mul_row (drop_bit 32 n) aj ps bs)"
    by (simp add: Let_def n_def low32)
  also have "\<dots> = (unat n + 4294967296 * (bu_val ps + unat aj * bu_val bs)) mod 2 ^ (32 + 32 * length ps)"
    by (simp only: IH mod_split32)
  finally show ?case by (simp add: n algebra_simps)
qed auto

lemma bu_mul_step_val:
  assumes "length pn = length b" "j \<le> length b"
  shows "bu_val (take j pn @ bu_mul_row 0 aj (drop j pn) b) =
    (bu_val pn + 2 ^ (32 * j) * unat aj * bu_val b) mod 2 ^ (32 * length b)"
proof -
  let ?M = "2 ^ (32 * (length b - j)) :: nat" and ?K = "2 ^ (32 * j) :: nat"
  have K: "bu_val (take j pn) < ?K" using bu_val_lt [of "take j pn"] assms by simp
  have split: "bu_val pn = bu_val (take j pn) + ?K * bu_val (drop j pn)"
    using bu_val_append [of "take j pn" "drop j pn"] assms by simp
  have M: "2 ^ (32 * length b) = ?K * ?M"
    using assms by (simp add: power_add [symmetric] distrib_left [symmetric])
  have "bu_val (take j pn @ bu_mul_row 0 aj (drop j pn) b) =
      bu_val (take j pn) + ?K * ((bu_val (drop j pn) + unat aj * bu_val b) mod ?M)"
    using assms by (simp add: bu_val_append bu_mul_row_val)
  also have "\<dots> = (bu_val (take j pn) + ?K * (bu_val (drop j pn) + unat aj * bu_val b)) mod (?K * ?M)"
    using K by (simp add: mod_mult2_eq div_mult_self1)
  finally show ?thesis by (simp only: split M distrib_left mult.assoc add.assoc)
qed

theorem bu_mul_val:
  assumes "length a = length b"
  shows "bu_val (bu_mul a b) = (bu_val a * bu_val b) mod 2 ^ (32 * length a)"
proof -
  define f where "f = (\<lambda>pn j. take j pn @ bu_mul_row 0 (a ! j) (drop j pn) b)"
  have "length (foldl f (bu_zero (length a)) [0..<n]) = length b \<and>
      bu_val (foldl f (bu_zero (length a)) [0..<n]) = (bu_val (take n a) * bu_val b) mod 2 ^ (32 * length b)"
    if "n \<le> length a" for n
    using that
  proof (induction n)
    case (Suc n)
    let ?pn = "foldl f (bu_zero (length a)) [0..<n]"
    have take: "bu_val (take (Suc n) a) = bu_val (take n a) + 2 ^ (32 * n) * unat (a ! n)"
      using Suc.prems by (simp add: take_Suc_conv_app_nth bu_val_append)
    have len: "length ?pn = length b" and val: "bu_val ?pn = (bu_val (take n a) * bu_val b) mod 2 ^ (32 * length b)"
      using Suc by auto
    have "bu_val (f ?pn n) = (bu_val ?pn + 2 ^ (32 * n) * unat (a ! n) * bu_val b) mod 2 ^ (32 * length b)"
      using Suc.prems assms bu_mul_step_val [OF len, of n "a ! n"] by (simp add: f_def)
    also have "\<dots> = (bu_val (take n a) * bu_val b + 2 ^ (32 * n) * unat (a ! n) * bu_val b) mod 2 ^ (32 * length b)"
      by (simp only: val mod_add_left_eq)
    also have "\<dots> = (bu_val (take (Suc n) a) * bu_val b) mod 2 ^ (32 * length b)"
      by (simp only: take distrib_right)
    finally have "bu_val (f ?pn n) = (bu_val (take (Suc n) a) * bu_val b) mod 2 ^ (32 * length b)" .
    moreover have "length (f ?pn n) = length b" using len Suc.prems assms by (simp add: f_def)
    ultimately show ?case by simp
  qed (use assms in auto)
  from this [of "length a"] show ?thesis using assms by (simp add: bu_mul_def f_def)
qed

section \<open>Shifts\<close>

lemma length_bu_shl_step [simp]: "length (bu_shl_step a k s pn i) = length pn"
  by (simp add: bu_shl_step_def Let_def)

lemma bu_shl_loop:
  "n \<le> length a \<Longrightarrow>
   length (foldl (bu_shl_step a k s) (bu_zero (length a)) [0..<n]) = length a \<and>
   (\<forall>m < length a. foldl (bu_shl_step a k s) (bu_zero (length a)) [0..<n] ! m =
      (if k \<le> m \<and> m - k < n then push_bit s (a ! (m - k)) else 0) OR
      (if k + 1 \<le> m \<and> m - k - 1 < n \<and> s \<noteq> 0 then drop_bit (32 - s) (a ! (m - k - 1)) else 0))"
proof (induction n)
  case (Suc n)
  let ?pn = "foldl (bu_shl_step a k s) (bu_zero (length a)) [0..<n]"
  have len: "length ?pn = length a" and nth: "\<And>m. m < length a \<Longrightarrow> ?pn ! m =
      (if k \<le> m \<and> m - k < n then push_bit s (a ! (m - k)) else 0) OR
      (if k + 1 \<le> m \<and> m - k - 1 < n \<and> s \<noteq> 0 then drop_bit (32 - s) (a ! (m - k - 1)) else 0)"
    using Suc by auto
  have "bu_shl_step a k s ?pn n ! m =
      (if k \<le> m \<and> m - k < Suc n then push_bit s (a ! (m - k)) else 0) OR
      (if k + 1 \<le> m \<and> m - k - 1 < Suc n \<and> s \<noteq> 0 then drop_bit (32 - s) (a ! (m - k - 1)) else 0)"
    if m: "m < length a" for m
  proof -
    consider (lo) "m = n + k" | (hi) "m = n + k + 1" | (other) "m \<noteq> n + k" "m \<noteq> n + k + 1" by blast
    then show ?thesis
    proof cases
      case lo
      with m nth [OF m] len show ?thesis by (auto simp: bu_shl_step_def Let_def ac_simps)
    next
      case hi
      with m nth [OF m] len show ?thesis by (auto simp: bu_shl_step_def Let_def)
    next
      case other
      then have "bu_shl_step a k s ?pn n ! m = ?pn ! m" using len by (auto simp: bu_shl_step_def Let_def)
      with nth [OF m] other show ?thesis by auto
    qed
  qed
  with len show ?case by simp
qed (auto simp: bu_zero_def)

lemma length_bu_shl [simp]: "length (bu_shl a sh) = length a"
  using bu_shl_loop [of "length a" a] by (simp add: bu_shl_def)

theorem bu_shl_val: "bu_val (bu_shl a sh) = (bu_val a * 2 ^ sh) mod 2 ^ (32 * length a)"
proof -
  define k s where "k = sh div 32" and "s = sh mod 32"
  have sh: "sh = 32 * k + s" and s: "s < 32" by (simp_all add: k_def s_def)
  have "bit (bu_val (bu_shl a sh)) n \<longleftrightarrow> n < 32 * length a \<and> sh \<le> n \<and> bit (bu_val a) (n - sh)" for n
  proof -
    define m j where "m = n div 32" and "j = n mod 32"
    have n: "n = 32 * m + j" and j: "j < 32" by (simp_all add: m_def j_def)
    have "bu_shl a sh ! m = (if k \<le> m then push_bit s (a ! (m - k)) else 0) OR
        (if k + 1 \<le> m \<and> s \<noteq> 0 then drop_bit (32 - s) (a ! (m - k - 1)) else 0)" if "m < length a"
      using bu_shl_loop [of "length a" a k s] that by (simp add: bu_shl_def k_def s_def less_imp_diff_less)
    then have L: "bit (bu_val (bu_shl a sh)) n \<longleftrightarrow> m < length a \<and>
       ((k \<le> m \<and> s \<le> j \<and> bit (a ! (m - k)) (j - s)) \<or>
        (k + 1 \<le> m \<and> s \<noteq> 0 \<and> bit (a ! (m - k - 1)) (32 - s + j)))"
      using j by (auto simp: bit_bu_val m_def [symmetric] j_def [symmetric] bit_simps bit_if_zero)
    have len: "n < 32 * length a \<longleftrightarrow> m < length a" using n j by auto
    show ?thesis
    proof (cases "s \<le> j")
      case True
      have no: "\<not> bit (a ! (m - k - 1)) (32 - s + j)" using True s bit_u32_lt by fastforce
      have le: "sh \<le> n \<longleftrightarrow> k \<le> m" using True n sh j s by auto
      have "n - sh = 32 * (m - k) + (j - s)" if "k \<le> m" using that True n sh by auto
      then have "bit (bu_val a) (n - sh) \<longleftrightarrow> m - k < length a \<and> bit (a ! (m - k)) (j - s)" if "k \<le> m"
        using that j by (simp only: bit_bu_val_split)
      then show ?thesis using L True no le len by (auto simp only: less_imp_diff_less)
    next
      case False
      have le: "sh \<le> n \<longleftrightarrow> k + 1 \<le> m" using False n sh j s by auto
      have "n - sh = 32 * (m - k - 1) + (32 - s + j)" if "k + 1 \<le> m" using that False n sh s by auto
      then have "bit (bu_val a) (n - sh) \<longleftrightarrow> m - k - 1 < length a \<and> bit (a ! (m - k - 1)) (32 - s + j)"
        if "k + 1 \<le> m" using that False s by (subst bit_bu_val_split [symmetric]) auto
      then show ?thesis using L False s le len by (auto simp only: less_imp_diff_less)
    qed
  qed
  then have "bu_val (bu_shl a sh) = take_bit (32 * length a) (push_bit sh (bu_val a))"
    by (intro bit_eqI) (auto simp: bit_take_bit_iff bit_push_bit_iff)
  then show ?thesis by (simp add: take_bit_eq_mod push_bit_eq_mult)
qed

lemma length_bu_shr_step [simp]: "length (bu_shr_step a k s pn i) = length pn"
  by (simp add: bu_shr_step_def Let_def)

lemma bu_shr_loop:
  "n \<le> length a \<Longrightarrow>
   length (foldl (bu_shr_step a k s) (bu_zero (length a)) [0..<n]) = length a \<and>
   (\<forall>m < length a. foldl (bu_shr_step a k s) (bu_zero (length a)) [0..<n] ! m =
      (if m + k < n then drop_bit s (a ! (m + k)) else 0) OR
      (if m + k + 1 < n \<and> s \<noteq> 0 then push_bit (32 - s) (a ! (m + k + 1)) else 0))"
proof (induction n)
  case (Suc n)
  let ?pn = "foldl (bu_shr_step a k s) (bu_zero (length a)) [0..<n]"
  have len: "length ?pn = length a" and nth: "\<And>m. m < length a \<Longrightarrow> ?pn ! m =
      (if m + k < n then drop_bit s (a ! (m + k)) else 0) OR
      (if m + k + 1 < n \<and> s \<noteq> 0 then push_bit (32 - s) (a ! (m + k + 1)) else 0)"
    using Suc by auto
  have "bu_shr_step a k s ?pn n ! m =
      (if m + k < Suc n then drop_bit s (a ! (m + k)) else 0) OR
      (if m + k + 1 < Suc n \<and> s \<noteq> 0 then push_bit (32 - s) (a ! (m + k + 1)) else 0)"
    if m: "m < length a" for m
  proof -
    consider (lo) "n = m + k" | (hi) "n = m + k + 1" | (other) "n \<noteq> m + k" "n \<noteq> m + k + 1" by blast
    then show ?thesis
    proof cases
      case lo
      with m nth [OF m] len show ?thesis by (auto simp: bu_shr_step_def Let_def)
    next
      case hi
      with m nth [OF m] len show ?thesis by (auto simp: bu_shr_step_def Let_def ac_simps)
    next
      case other
      then have "bu_shr_step a k s ?pn n ! m = ?pn ! m" using len by (auto simp: bu_shr_step_def Let_def)
      with nth [OF m] other show ?thesis by auto
    qed
  qed
  with len show ?case by simp
qed (auto simp: bu_zero_def)

lemma length_bu_shr [simp]: "length (bu_shr a sh) = length a"
  using bu_shr_loop [of "length a" a] by (simp add: bu_shr_def)

theorem bu_shr_val: "bu_val (bu_shr a sh) = bu_val a div 2 ^ sh"
proof -
  define k s where "k = sh div 32" and "s = sh mod 32"
  have sh: "sh = 32 * k + s" and s: "s < 32" by (simp_all add: k_def s_def)
  have "bit (bu_val (bu_shr a sh)) n \<longleftrightarrow> bit (bu_val a) (sh + n)" for n
  proof -
    define m j where "m = n div 32" and "j = n mod 32"
    have n: "n = 32 * m + j" and j: "j < 32" by (simp_all add: m_def j_def)
    have "bu_shr a sh ! m = (if m + k < length a then drop_bit s (a ! (m + k)) else 0) OR
        (if m + k + 1 < length a \<and> s \<noteq> 0 then push_bit (32 - s) (a ! (m + k + 1)) else 0)"
      if "m < length a"
      using bu_shr_loop [of "length a" a k s] that by (simp add: bu_shr_def k_def s_def)
    then have L: "bit (bu_val (bu_shr a sh)) n \<longleftrightarrow>
       (m + k < length a \<and> bit (a ! (m + k)) (s + j)) \<or>
       (m + k + 1 < length a \<and> s \<noteq> 0 \<and> 32 - s \<le> j \<and> bit (a ! (m + k + 1)) (j - (32 - s)))"
      using j by (auto simp: bit_bu_val m_def [symmetric] j_def [symmetric] bit_simps bit_if_zero)
    show ?thesis
    proof (cases "s + j < 32")
      case True
      have "sh + n = 32 * (m + k) + (s + j)" using n sh by simp
      then have "bit (bu_val a) (sh + n) \<longleftrightarrow> m + k < length a \<and> bit (a ! (m + k)) (s + j)"
        using True by (simp only: bit_bu_val_split)
      then show ?thesis using L True by auto
    next
      case False
      then have "\<not> bit (a ! (m + k)) (s + j)" using bit_u32_lt by blast
      moreover have "sh + n = 32 * (m + k + 1) + (j - (32 - s))" using n sh False s j by auto
      then have "bit (bu_val a) (sh + n) \<longleftrightarrow> m + k + 1 < length a \<and> bit (a ! (m + k + 1)) (j - (32 - s))"
        using j by (subst bit_bu_val_split [symmetric]) auto
      ultimately show ?thesis using L False s j by auto
    qed
  qed
  then have "bu_val (bu_shr a sh) = drop_bit sh (bu_val a)"
    by (intro bit_eqI) (auto simp: bit_drop_bit_eq)
  then show ?thesis by (simp add: drop_bit_eq_div)
qed

section \<open>Comparison\<close>

lemma bu_cmp_loop_val:
  "n \<le> length a \<Longrightarrow> n \<le> length b \<Longrightarrow>
   bu_cmp_loop a b n = (if bu_val (take n a) < bu_val (take n b) then -1
     else if bu_val (take n a) > bu_val (take n b) then 1 else 0)"
proof (induction n)
  case (Suc n)
  have split: "bu_val (take (Suc n) x) = bu_val (take n x) + 2 ^ (32 * n) * unat (x ! n)"
    if "Suc n \<le> length x" for x
    using that by (simp add: take_Suc_conv_app_nth bu_val_append)
  have lt: "bu_val (take n x) < 2 ^ (32 * n)" if "Suc n \<le> length x" for x
    using bu_val_lt [of "take n x"] that by simp
  have mono: "u + 2 ^ (32 * n) * x < v + 2 ^ (32 * n) * y" if "x < y" "u < 2 ^ (32 * n)" for u v x y :: nat
  proof -
    have "2 ^ (32 * n) * (x + 1) \<le> 2 ^ (32 * n) * y" using that(1) by (intro mult_le_mono2) simp
    with that(2) show ?thesis by simp
  qed
  have A: "bu_val (take (Suc n) a) = bu_val (take n a) + 2 ^ (32 * n) * unat (a ! n)"
    and B: "bu_val (take (Suc n) b) = bu_val (take n b) + 2 ^ (32 * n) * unat (b ! n)"
    using Suc.prems by (simp_all only: split)
  have la: "bu_val (take n a) < 2 ^ (32 * n)" and lb: "bu_val (take n b) < 2 ^ (32 * n)"
    using Suc.prems by (simp_all only: lt)
  consider "unat (a ! n) < unat (b ! n)" | "unat (b ! n) < unat (a ! n)" | "unat (a ! n) = unat (b ! n)"
    by linarith
  then show ?case
  proof cases
    case 1
    then show ?thesis using mono [OF 1 la, of "bu_val (take n b)"] by (simp add: A B word_less_nat_alt)
  next
    case 2
    then show ?thesis using mono [OF 2 lb, of "bu_val (take n a)"] by (simp add: A B word_less_nat_alt)
  next
    case 3
    then show ?thesis using Suc by (simp add: A B word_less_nat_alt)
  qed
qed simp

theorem bu_CompareTo_val:
  assumes "length a = length b"
  shows "bu_CompareTo a b = (if bu_val a < bu_val b then -1 else if bu_val a > bu_val b then 1 else 0)"
  using bu_cmp_loop_val [of "length a" a b] assms by (simp add: bu_CompareTo_def)

section \<open>Bit length\<close>

lemma bu_top_bit_spec:
  "unat w < 2 ^ Suc n \<Longrightarrow> 0 < unat w \<Longrightarrow>
   unat w < 2 ^ bu_top_bit w n \<and> 2 ^ (bu_top_bit w n - 1) \<le> unat w \<and> 0 < bu_top_bit w n"
proof (induction n)
  case (Suc n)
  have "w AND push_bit (Suc n) 1 \<noteq> 0 \<longleftrightarrow> bit w (Suc n)"
    by (simp only: bit_iff_and_push_bit_not_eq_0)
  also have "\<dots> \<longleftrightarrow> bit (unat w) (Suc n)" by (simp add: bit_unsigned_iff)
  also have "\<dots> \<longleftrightarrow> odd (unat w div 2 ^ Suc n)" by (rule bit_iff_odd)
  finally have *: "w AND push_bit (Suc n) 1 \<noteq> 0 \<longleftrightarrow> odd (unat w div 2 ^ Suc n)" .
  show ?case
  proof (cases "unat w < 2 ^ Suc n")
    case True
    then have "unat w div 2 ^ Suc n = 0" by (rule div_less)
    with Suc True * show ?thesis by simp
  next
    case False
    then have "unat w div 2 ^ Suc n = 1"
      using Suc.prems(1) by (intro div_nat_eqI) auto
    with * False Suc.prems show ?thesis by simp
  qed
qed simp

lemma bu_bits_loop_spec:
  "n \<le> length pn \<Longrightarrow>
   bu_val (take n pn) < 2 ^ bu_bits_loop pn n \<and>
   (bu_bits_loop pn n = 0 \<longleftrightarrow> bu_val (take n pn) = 0) \<and>
   (0 < bu_val (take n pn) \<longrightarrow> 2 ^ (bu_bits_loop pn n - 1) \<le> bu_val (take n pn)) \<and>
   bu_bits_loop pn n \<le> 32 * n"
proof (induction n)
  case (Suc n)
  let ?w = "pn ! n" and ?K = "2 ^ (32 * n) :: nat"
  have val: "bu_val (take (Suc n) pn) = bu_val (take n pn) + ?K * unat ?w"
    using Suc.prems by (simp add: take_Suc_conv_app_nth bu_val_append)
  show ?case
  proof (cases "?w = 0")
    case True
    with Suc val show ?thesis by auto
  next
    case False
    let ?t = "bu_top_bit ?w 31"
    have pos: "0 < unat ?w" using False by (simp add: unat_gt_0)
    have t: "unat ?w < 2 ^ ?t" "2 ^ (?t - 1) \<le> unat ?w" "0 < ?t"
      using bu_top_bit_spec [of ?w 31] pos unat_u32_lt [of ?w] by auto
    have "2 ^ (?t - 1) < (2 :: nat) ^ 32" using t(2) unat_u32_lt [of ?w] by (simp add: le_less_trans)
    then have "?t - 1 < 32" by (rule power_less_imp_less_exp [rotated]) simp
    then have t32: "?t \<le> 32" by simp
    have "bu_val (take n pn) < ?K" using bu_val_lt [of "take n pn"] Suc.prems by simp
    then have "bu_val (take (Suc n) pn) < ?K * (unat ?w + 1)" by (simp add: val)
    also have "\<dots> \<le> ?K * 2 ^ ?t" using t(1) by (intro mult_le_mono2) simp
    finally have up: "bu_val (take (Suc n) pn) < 2 ^ (32 * n + ?t)" by (simp add: power_add)
    have "2 ^ (32 * n + ?t - 1) = ?K * 2 ^ (?t - 1)" using t(3) by (simp flip: power_add)
    also have "\<dots> \<le> bu_val (take (Suc n) pn)" using t(2) by (simp add: val trans_le_add2)
    finally have lo: "2 ^ (32 * n + ?t - 1) \<le> bu_val (take (Suc n) pn)" .
    with up False t(3) t32 show ?thesis by (auto simp: val pos)
  qed
qed simp

theorem bu_bits_spec:
  "bu_val pn < 2 ^ bu_bits pn" "bu_bits pn = 0 \<longleftrightarrow> bu_val pn = 0"
  "0 < bu_val pn \<Longrightarrow> 2 ^ (bu_bits pn - 1) \<le> bu_val pn" "bu_bits pn \<le> 32 * length pn"
  using bu_bits_loop_spec [of "length pn" pn] by (auto simp: bu_bits_def)

section \<open>Division\<close>

lemma bu_set_bit_val:
  assumes "s < 32 * length q" "2 ^ Suc s dvd bu_val q"
  shows "bu_val (q[s div 32 := q ! (s div 32) OR push_bit (s mod 32) 1]) = bu_val q + 2 ^ s"
proof -
  have i: "s div 32 < length q" using assms(1) by simp
  have "bit (bu_val (q[s div 32 := q ! (s div 32) OR push_bit (s mod 32) 1])) n \<longleftrightarrow>
      bit (bu_val q) n \<or> n = s" for n
  proof (cases "n div 32 = s div 32")
    case True
    then have "n = s \<longleftrightarrow> n mod 32 = s mod 32" by (metis div_mult_mod_eq)
    with True i show ?thesis
      by (auto simp: bit_bu_val bit_simps)
  next
    case False
    with i show ?thesis by (auto simp: bit_bu_val)
  qed
  then have "bu_val (q[s div 32 := q ! (s div 32) OR push_bit (s mod 32) 1]) = bu_val q OR 2 ^ s"
    by (intro bit_eqI) (auto simp: bit_simps)
  also have "\<dots> = bu_val q + 2 ^ s"
  proof (rule disjunctive_add [symmetric])
    have "\<not> bit (bu_val q) s"
      using assms(2) by (auto simp: bit_iff_odd elim!: dvdE)
    then show "\<And>n. \<not> bit (bu_val q) n \<or> \<not> bit (2 ^ s :: nat) n" by (auto simp: bit_simps)
  qed
  finally show ?thesis .
qed

lemma bu_div_loop_val:
  assumes "length num = W" "length dv = W" "length q = W" "0 < b"
    and "bu_val num < b * 2 ^ n" "0 < n \<longrightarrow> bu_val dv = b * 2 ^ (n - 1)"
    and "2 ^ n dvd bu_val q" "n \<le> 32 * W"
  shows "bu_val (bu_div_loop n num dv q) = bu_val q + bu_val num div b \<and>
    length (bu_div_loop n num dv q) = W"
  using assms
proof (induction n arbitrary: num dv q)
  case 0
  then show ?case by simp
next
  case (Suc s)
  have dv: "bu_val dv = b * 2 ^ s" using Suc.prems(6) by simp
  have sh: "0 < s \<longrightarrow> bu_val (bu_shr dv 1) = b * 2 ^ (s - 1)"
    by (cases s) (auto simp: bu_shr_val dv)
  have dvd: "2 ^ s dvd bu_val q" using Suc.prems(7) by (rule dvd_trans [rotated]) (simp add: le_imp_power_dvd)
  show ?case
  proof (cases "bu_val dv \<le> bu_val num")
    case True
    define q' where "q' = q[s div 32 := q ! (s div 32) OR push_bit (s mod 32) 1]"
    have q: "bu_val q' = bu_val q + 2 ^ s" unfolding q'_def using Suc.prems by (intro bu_set_bit_val) auto
    have lq: "length q' = W" using Suc.prems by (simp add: q'_def)
    have num: "bu_val (bu_sub num dv) = bu_val num - b * 2 ^ s"
      using Suc.prems True by (simp add: bu_sub_val_le dv)
    have "bu_val num div b = 2 ^ s + (bu_val num - b * 2 ^ s) div b"
      using True Suc.prems(4) dv by (metis div_mult_self2 le_add_diff_inverse2 add.commute nat_neq_iff)
    moreover have "bu_val (bu_div_loop s (bu_sub num dv) (bu_shr dv 1) q') =
        bu_val q' + bu_val (bu_sub num dv) div b \<and> length (bu_div_loop s (bu_sub num dv) (bu_shr dv 1) q') = W"
      using Suc.prems sh dvd True dv by (intro Suc.IH) (auto simp: num q lq)
    ultimately show ?thesis
      using True Suc.prems by (simp add: bu_CompareTo_val q num q'_def [symmetric] del: push_bit_of_1)
  next
    case False
    then show ?thesis
      using Suc.prems sh dvd Suc.IH [of num "bu_shr dv 1" q] by (simp add: bu_CompareTo_val dv)
  qed
qed

lemma bu_div_none: "bu_div a b = None \<longleftrightarrow> bu_val b = 0"
  by (auto simp: bu_div_def Let_def bu_bits_spec(2))

theorem bu_div_val:
  assumes len: "length a = length b" and b: "bu_val b \<noteq> 0"
  shows "\<exists>q. bu_div a b = Some q \<and> bu_val q = bu_val a div bu_val b \<and> length q = length a"
proof (cases "bu_bits b > bu_bits a")
  case True
  have "bu_val a < 2 ^ bu_bits a" by (rule bu_bits_spec(1))
  also have "\<dots> \<le> 2 ^ (bu_bits b - 1)" using True by (intro power_increasing) auto
  also have "\<dots> \<le> bu_val b" using b bu_bits_spec(3) [of b] by simp
  finally show ?thesis using True b by (simp add: bu_div_def bu_bits_spec(2))
next
  case False
  define sh where "sh = bu_bits a - bu_bits b"
  have bb: "0 < bu_bits b" using b bu_bits_spec(2) [of b] by simp
  have "bu_val b * 2 ^ sh < 2 ^ bu_bits b * 2 ^ sh"
    using bu_bits_spec(1) [of b] by simp
  also have "\<dots> = 2 ^ bu_bits a" using False by (simp add: sh_def flip: power_add)
  also have "\<dots> \<le> 2 ^ (32 * length a)" using bu_bits_spec(4) [of a] by (intro power_increasing) auto
  finally have shl: "bu_val (bu_shl b sh) = bu_val b * 2 ^ sh" using len by (simp add: bu_shl_val)
  have "bu_val a < 2 ^ bu_bits a" by (rule bu_bits_spec(1))
  also have "\<dots> = 2 ^ (bu_bits b - 1) * 2 ^ Suc sh"
    using False bb by (simp add: sh_def flip: power_add power_Suc)
  also have "\<dots> \<le> bu_val b * 2 ^ Suc sh" using bu_bits_spec(3) [of b] b by (intro mult_le_mono1) simp
  finally have lt: "bu_val a < bu_val b * 2 ^ Suc sh" .
  have "Suc sh \<le> 32 * length a" using bu_bits_spec(4) [of a] bb False unfolding sh_def by linarith
  then have "bu_val (bu_div_loop (Suc sh) a (bu_shl b sh) (bu_zero (length a))) = 0 + bu_val a div bu_val b \<and>
      length (bu_div_loop (Suc sh) a (bu_shl b sh) (bu_zero (length a))) = length a"
    using bu_div_loop_val [of a "length a" "bu_shl b sh" "bu_zero (length a)" "bu_val b" "Suc sh"] len lt shl b
    by simp
  with False bb show ?thesis by (simp add: bu_div_def Let_def sh_def)
qed

section \<open>The compact encoding\<close>

lemma and_low23: "unat (c AND 0x007fffff :: u32) = unat c mod 2 ^ 23"
proof -
  have "c AND 0x007fffff = take_bit 23 c"
    by (simp add: take_bit_eq_mask mask_eq_exp_minus_1)
  then show ?thesis by (simp only: unsigned_take_bit_eq) (simp add: take_bit_eq_mod)
qed

lemma and_bit23: "(c :: u32) AND 0x00800000 \<noteq> 0 \<longleftrightarrow> odd (unat c div 2 ^ 23)"
proof -
  have "c AND 0x00800000 \<noteq> 0 \<longleftrightarrow> bit c 23"
    using bit_iff_and_push_bit_not_eq_0 [of c 23] by simp
  also have "\<dots> \<longleftrightarrow> bit (unat c) 23" by (simp add: bit_unsigned_iff)
  finally show ?thesis by (simp only: bit_iff_odd)
qed

lemma and_not_low23: "(c :: u32) AND NOT 0x007fffff = 0 \<longleftrightarrow> unat c < 2 ^ 23"
proof -
  have "(0x007fffff :: u32) = mask 23" by (simp add: mask_eq_exp_minus_1)
  then have "c AND NOT 0x007fffff = 0 \<longleftrightarrow> take_bit 23 c = c"
    by (auto simp: bit_eq_iff bit_simps)
  also have "\<dots> \<longleftrightarrow> unat c < 2 ^ 23"
    by (metis take_bit_nat_eq_self_iff unsigned_take_bit_eq unsigned_word_eqI)
  finally show ?thesis .
qed

lemma bu_of_uint64_val: "2 \<le> W \<Longrightarrow> bu_val (bu_of_uint64 W b) = unat b"
  using unat_u64_lt [of b]
  by (simp add: bu_of_uint64_def unat_ucast_u64_32 high32 less_mult_imp_div_less)

lemma length_bu_of_uint64 [simp]: "2 \<le> W \<Longrightarrow> length (bu_of_uint64 W b) = W"
  by (simp add: bu_of_uint64_def)

lemma bu_GetLow64_val: "2 \<le> length pn \<Longrightarrow> unat (bu_GetLow64 pn) = bu_val pn mod 2 ^ 64"
proof -
  assume len: "2 \<le> length pn"
  then obtain x y r where pn: "pn = x # y # r"
    by (metis Suc_le_length_iff numeral_2_eq_2)
  have ** : "unat (ucast x OR push_bit 32 (ucast y :: u64)) = unat x + 4294967296 * unat y"
  proof -
    have "ucast x OR push_bit 32 (ucast y :: u64) = ucast x + push_bit 32 (ucast y)"
      by (rule disjunctive_add [symmetric]) (auto simp: bit_simps dest: bit_u32_lt)
    moreover have "unat (push_bit 32 (ucast y :: u64)) = 4294967296 * unat y"
    proof -
      have "unat (push_bit 32 (ucast y :: u64)) = take_bit 64 (push_bit 32 (unat y))"
        using unsigned_push_bit_eq [of 32 "ucast y :: u64", where ?'a = nat] by simp
      then show ?thesis using unat_u32_lt [of y] by (simp add: take_bit_nat_eq_self push_bit_eq_mult)
    qed
    ultimately show ?thesis
      using unat_add_u64 [of "ucast x" "push_bit 32 (ucast y)"] unat_u32_lt [of x] unat_u32_lt [of y]
      by simp
  qed
  moreover have "unat x + 4294967296 * unat y < 2 ^ 64"
    using unat_u32_lt [of x] unat_u32_lt [of y] by simp
  ultimately show ?thesis
    using mod_mult_self2 [of "unat x + 4294967296 * unat y" 18446744073709551616 "bu_val r"]
    by (simp add: bu_GetLow64_def pn ** distrib_left add.assoc)
qed

lemma pow256: "(256 :: nat) ^ n = 2 ^ (8 * n)"
  by (simp add: power_mult)

lemma compact_overflow_iff:
  fixes w ns :: nat
  assumes "w < 2 ^ 23" "3 < ns"
  shows "w \<noteq> 0 \<and> (ns > 34 \<or> (w > 0xff \<and> ns > 33) \<or> (w > 0xffff \<and> ns > 32))
    \<longleftrightarrow> 2 ^ 256 \<le> w * 256 ^ (ns - 3)"
proof -
  consider "ns \<le> 32" | "ns = 33" | "ns = 34" | "35 \<le> ns" by linarith
  then show ?thesis
  proof cases
    case 1
    have "w * 256 ^ (ns - 3) \<le> w * 256 ^ 29" using 1 by (intro mult_le_mono2 power_increasing) auto
    also have "\<dots> < 2 ^ 23 * 256 ^ 29" using assms by simp
    also have "\<dots> < (2::nat) ^ 256" by simp
    finally show ?thesis using 1 by auto
  next
    case 4
    have "(256::nat) ^ 32 \<le> 256 ^ (ns - 3)" using 4 by (intro power_increasing) auto
    then have "w \<noteq> 0 \<Longrightarrow> 256 ^ 32 \<le> w * 256 ^ (ns - 3)"
      by (metis mult_le_mono nat_mult_1 less_one not_less)
    with 4 show ?thesis by (cases "w = 0") auto
  qed auto
qed

theorem SetCompact_spec:
  assumes "SetCompact c = (v, neg, ovf)"
  shows "bu_val v = (if compact_size c \<le> 3 then compact_mantissa c div 256 ^ (3 - compact_size c)
      else (compact_mantissa c * 256 ^ (compact_size c - 3)) mod 2 ^ 256)"
    and "length v = 8"
    and "3 < compact_size c \<Longrightarrow> ovf \<longleftrightarrow> 2 ^ 256 \<le> compact_mantissa c * 256 ^ (compact_size c - 3)"
    and "compact_size c \<le> 3 \<Longrightarrow> \<not> ovf"
    and "neg \<Longrightarrow> odd (unat c div 2 ^ 23)"
proof -
  have sz: "unat (drop_bit 24 c) = compact_size c"
    by (simp only: unat_drop_bit_word compact_size_def)
  have m: "unat (c AND 0x007fffff) = compact_mantissa c"
    by (simp only: and_low23 compact_mantissa_def)
  have nz: "c AND 0x007fffff \<noteq> 0 \<longleftrightarrow> compact_mantissa c \<noteq> 0"
    by (simp only: unat_eq_0 [symmetric] m)
  show "length v = 8" using assms by (auto simp: SetCompact_def Let_def split: if_splits)
  show "bu_val v = (if compact_size c \<le> 3 then compact_mantissa c div 256 ^ (3 - compact_size c)
      else (compact_mantissa c * 256 ^ (compact_size c - 3)) mod 2 ^ 256)"
  proof (cases "compact_size c \<le> 3")
    case True
    then have "v = bu_of_uint64 8 (ucast (drop_bit (8 * (3 - compact_size c)) (c AND 0x007fffff)))"
      using assms by (simp add: SetCompact_def Let_def sz)
    then have "bu_val v = unat (drop_bit (8 * (3 - compact_size c)) (c AND 0x007fffff))"
      by (simp only: bu_of_uint64_val unat_ucast_u32_64)
    also have "\<dots> = compact_mantissa c div 256 ^ (3 - compact_size c)"
      by (simp only: unat_drop_bit_word m pow256)
    finally show ?thesis using True by simp
  next
    case False
    then have "v = bu_shl (bu_of_uint64 8 (ucast (c AND 0x007fffff))) (8 * (compact_size c - 3))"
      using assms by (simp add: SetCompact_def Let_def sz)
    then have "bu_val v = (compact_mantissa c * 2 ^ (8 * (compact_size c - 3))) mod 2 ^ (32 * 8)"
      by (simp only: bu_shl_val bu_of_uint64_val unat_ucast_u32_64 m length_bu_of_uint64)
    then show ?thesis using False by (simp only: pow256) simp
  qed
  show "ovf \<longleftrightarrow> 2 ^ 256 \<le> compact_mantissa c * 256 ^ (compact_size c - 3)" if "3 < compact_size c"
    using assms that compact_overflow_iff [of "compact_mantissa c" "compact_size c"]
    by (auto simp: SetCompact_def Let_def sz nz m word_less_nat_alt compact_mantissa_def)
  show "\<not> ovf" if "compact_size c \<le> 3" using assms that by (auto simp: SetCompact_def Let_def sz)
  show "neg \<Longrightarrow> odd (unat c div 2 ^ 23)" using assms by (auto simp: SetCompact_def Let_def and_bit23)
qed

lemma compact_norm_bound:
  fixes X :: nat
  assumes "X < 256 ^ S0"
  shows "(if S0 \<le> 3 then X * 256 ^ (3 - S0) else X div 256 ^ (S0 - 3)) < 2 ^ 24"
proof (cases "S0 \<le> 3")
  case True
  have "X * 256 ^ (3 - S0) < 256 ^ S0 * 256 ^ (3 - S0)" using assms by simp
  also have "\<dots> = 256 ^ 3" using True by (simp flip: power_add)
  finally show ?thesis using True by simp
next
  case False
  have "(256::nat) ^ S0 = 256 ^ 3 * 256 ^ (S0 - 3)" using False power_add [of "256::nat" 3 "S0 - 3"] by simp
  with assms have "X div 256 ^ (S0 - 3) < 256 ^ 3" by (simp add: less_mult_imp_div_less)
  with False show ?thesis by simp
qed

lemma compact_norm_floor:
  assumes X: "X < 256 ^ S0" "0 < S0 \<Longrightarrow> 256 ^ (S0 - 1) \<le> X" and mS: "compact_norm X S0 = (m, S)"
  shows "m < 2 ^ 23"
    and "S \<le> 3 \<Longrightarrow> m div 256 ^ (3 - S) = X"
    and "3 < S \<Longrightarrow> m * 256 ^ (S - 3) = X div 256 ^ (S - 3) * 256 ^ (S - 3) \<and> 2 ^ 15 * 256 ^ (S - 3) \<le> X"
    and "S \<le> S0 + 1"
proof -
  define m0 where "m0 = (if S0 \<le> 3 then X * 256 ^ (3 - S0) else X div 256 ^ (S0 - 3))"
  have m0: "m0 < 2 ^ 24" unfolding m0_def by (rule compact_norm_bound [OF X(1)])
  have mS: "(m, S) = (if 2 ^ 23 \<le> m0 then (m0 div 256, S0 + 1) else (m0, S0))"
    using mS by (simp add: compact_norm_def m0_def [symmetric] Let_def)
  show "m < 2 ^ 23" using m0 mS by (auto split: if_splits)
  show "S \<le> S0 + 1" using mS by (auto split: if_splits)
  show "m div 256 ^ (3 - S) = X" if "S \<le> 3"
  proof (cases "2 ^ 23 \<le> m0")
    case True
    with mS that have S: "S = S0 + 1" "S0 \<le> 2" "m = m0 div 256" by auto
    then have "m0 = X * 256 ^ (2 - S0) * 256" by (simp add: m0_def Suc_diff_le numeral_3_eq_3 numeral_2_eq_2)
    with S show ?thesis by (simp add: numeral_3_eq_3 numeral_2_eq_2)
  next
    case False
    with mS that show ?thesis by (auto simp: m0_def)
  qed
  show "m * 256 ^ (S - 3) = X div 256 ^ (S - 3) * 256 ^ (S - 3) \<and> 2 ^ 15 * 256 ^ (S - 3) \<le> X" if S3: "3 < S"
  proof (cases "2 ^ 23 \<le> m0")
    case True
    with mS S3 have S: "S = S0 + 1" "3 \<le> S0" "m = m0 div 256" by auto
    then have m0': "m0 = X div 256 ^ (S0 - 3)" by (cases "S0 = 3") (auto simp: m0_def)
    have "S - 3 = Suc (S0 - 3)" using S by simp
    then have p: "(256::nat) ^ (S - 3) = 256 ^ (S0 - 3) * 256" by (simp only: power_Suc2)
    have "m = X div 256 ^ (S - 3)" by (simp only: S(3) m0' p div_mult2_eq)
    moreover have "2 ^ 23 * 256 ^ (S0 - 3) \<le> X"
      using True m0' by (metis div_times_less_eq_dividend le_trans mult_le_mono1)
    ultimately show ?thesis by (simp add: p)
  next
    case False
    with mS S3 have S: "S = S0" "m = X div 256 ^ (S - 3)" by (auto simp: m0_def)
    have "2 ^ 15 * 256 ^ (S - 3) \<le> (256::nat) ^ 2 * 256 ^ (S - 3)" by simp
    also have "\<dots> = 256 ^ (2 + (S - 3))" by (simp only: power_add)
    also have "\<dots> = 256 ^ (S0 - 1)" using S S3 by (intro arg_cong [of _ _ "power 256"]) simp
    also have "\<dots> \<le> X" using X(2) S S3 by simp
    finally show ?thesis using S by simp
  qed
qed

lemma bu_byte_size_bounds:
  "bu_val pn < 256 ^ ((bu_bits pn + 7) div 8)"
  "0 < (bu_bits pn + 7) div 8 \<Longrightarrow> 256 ^ ((bu_bits pn + 7) div 8 - 1) \<le> bu_val pn"
proof -
  have "bu_val pn < 2 ^ bu_bits pn" by (rule bu_bits_spec(1))
  also have "\<dots> \<le> 2 ^ (8 * ((bu_bits pn + 7) div 8))" by (intro power_increasing) auto
  finally show "bu_val pn < 256 ^ ((bu_bits pn + 7) div 8)" by (simp only: pow256)
  assume "0 < (bu_bits pn + 7) div 8"
  then have b: "8 * ((bu_bits pn + 7) div 8 - 1) \<le> bu_bits pn - 1" "0 < bu_bits pn" by auto
  have "(2::nat) ^ (8 * ((bu_bits pn + 7) div 8 - 1)) \<le> 2 ^ (bu_bits pn - 1)"
    using b by (intro power_increasing) auto
  also have "\<dots> \<le> bu_val pn" using bu_bits_spec(2,3) [of pn] b by auto
  finally show "256 ^ ((bu_bits pn + 7) div 8 - 1) \<le> bu_val pn" by (simp only: pow256)
qed

lemma GetCompact_eq:
  assumes len: "length pn = 8"
    and norm: "compact_norm (bu_val pn) ((bu_bits pn + 7) div 8) = (m, S)"
  shows "\<exists>c. GetCompact False pn = Some c \<and> unat c = m + S * 2 ^ 24 \<and> m < 2 ^ 23 \<and> S < 256"
proof -
  define X S0 where "X = bu_val pn" and "S0 = (bu_bits pn + 7) div 8"
  define m0 where "m0 = (if S0 \<le> 3 then X * 256 ^ (3 - S0) else X div 256 ^ (S0 - 3))"
  define n0 :: u32 where "n0 = (if S0 \<le> 3 then ucast (push_bit (8 * (3 - S0)) (bu_GetLow64 pn))
                       else ucast (bu_GetLow64 (bu_shr pn (8 * (S0 - 3)))))"
  have X: "X < 256 ^ S0" unfolding X_def S0_def by (rule bu_byte_size_bounds)
  have S0: "S0 \<le> 32" using bu_bits_spec(4) [of pn] len by (simp add: S0_def)
  have m0: "m0 < 2 ^ 24" unfolding m0_def by (rule compact_norm_bound [OF X])
  have n0: "unat n0 = m0"
  proof (cases "S0 \<le> 3")
    case True
    have "(256::nat) ^ S0 \<le> 256 ^ 3" using True by (intro power_increasing) auto
    then have "X < 2 ^ 24" using X by simp
    then have low: "unat (bu_GetLow64 pn) = X" using bu_GetLow64_val [of pn] len by (simp add: X_def)
    have m: "X * 256 ^ (3 - S0) < 2 ^ 24" using m0 True by (simp add: m0_def)
    have "unat (push_bit (8 * (3 - S0)) (bu_GetLow64 pn)) = take_bit 64 (push_bit (8 * (3 - S0)) X)"
      using unsigned_push_bit_eq [of "8 * (3 - S0)" "bu_GetLow64 pn", where ?'a = nat] low by simp
    also have "\<dots> = X * 256 ^ (3 - S0)"
      using m by (simp add: push_bit_eq_mult pow256 take_bit_nat_eq_self)
    finally show ?thesis using True m by (simp add: n0_def m0_def unat_ucast_u64_32)
  next
    case False
    have "X div 256 ^ (S0 - 3) < 2 ^ 24" using m0 False by (simp add: m0_def)
    then show ?thesis using False bu_GetLow64_val [of "bu_shr pn (8 * (S0 - 3))"] len
      by (simp add: n0_def m0_def unat_ucast_u64_32 bu_shr_val X_def pow256)
  qed
  have b23: "n0 AND 0x00800000 \<noteq> 0 \<longleftrightarrow> 2 ^ 23 \<le> m0"
  proof -
    have "m0 div 2 ^ 23 < 2" using m0 by (simp add: less_mult_imp_div_less)
    then have "odd (m0 div 2 ^ 23) \<longleftrightarrow> m0 div 2 ^ 23 = 1" by (auto simp: less_2_cases_iff)
    also have "\<dots> \<longleftrightarrow> 2 ^ 23 \<le> m0" using m0 by (auto intro!: div_nat_eqI)
    finally show ?thesis by (simp only: and_bit23 n0)
  qed
  define n1 :: u32 where "n1 = (if 2 ^ 23 \<le> m0 then drop_bit 8 n0 else n0)"
  have norm': "(m, S) = (if 2 ^ 23 \<le> m0 then (m0 div 256, S0 + 1) else (m0, S0))"
    using norm by (simp add: compact_norm_def X_def [symmetric] S0_def [symmetric] m0_def [symmetric] Let_def)
  have n1: "unat n1 = m" using norm' n0 by (auto simp: n1_def unat_drop_bit_word split: if_splits)
  have m: "m < 2 ^ 23" and S: "S \<le> 33" using norm' m0 S0 by (auto split: if_splits)
  have push: "unat (push_bit 24 (of_nat S :: u32)) = S * 2 ^ 24"
    using S unsigned_push_bit_eq [of 24 "of_nat S :: u32", where ?'a = nat]
    by (simp add: unat_of_nat_small push_bit_eq_mult take_bit_nat_eq_self)
  have "n1 OR push_bit 24 (of_nat S) = n1 + push_bit 24 (of_nat S)"
  proof (rule disjunctive_add [symmetric])
    have "\<not> bit n1 k" if "24 \<le> k" for k
    proof -
      have "unat n1 < 2 ^ k" using n1 m power_increasing [OF that, of "2::nat"] by simp
      then have "\<not> bit (unat n1) k" by (simp add: bit_iff_odd)
      then show ?thesis by (simp add: bit_unsigned_iff)
    qed
    then show "\<And>k. \<not> bit n1 k \<or> \<not> bit (push_bit 24 (of_nat S) :: u32) k"
      by (auto simp: bit_push_bit_iff not_le)
  qed
  then have c: "unat (n1 OR push_bit 24 (of_nat S)) = m + S * 2 ^ 24"
    using m S by (simp add: unat_word_ariths n1 push del: push_bit_of_nat)
  have "GetCompact False pn = Some (n1 OR push_bit 24 (of_nat S))"
  proof -
    have eq: "(if n0 AND 0x00800000 \<noteq> 0 then (drop_bit 8 n0, S0 + 1) else (n0, S0)) = (n1, S)"
      using norm' by (simp add: b23 n1_def split: if_splits)
    have "\<not> n1 AND NOT 0x007fffff \<noteq> 0" using m n1 by (simp only: and_not_low23 not_not)
    with S show ?thesis
      unfolding GetCompact_def S0_def [symmetric] n0_def [symmetric] Let_def eq by simp
  qed
  with c m S show ?thesis by auto
qed

lemma bu_byte_size:
  assumes "256 ^ n \<le> bu_val pn" "bu_val pn < 256 ^ Suc n"
  shows "(bu_bits pn + 7) div 8 = Suc n"
proof -
  have pos: "0 < bu_val pn" using assms(1) by (rule less_le_trans [rotated]) simp
  have "2 ^ (bu_bits pn - 1) < (2::nat) ^ (8 * Suc n)"
    using bu_bits_spec(3) [OF pos] assms(2) by (simp only: pow256)
  then have "bu_bits pn - 1 < 8 * Suc n" by (rule power_less_imp_less_exp [rotated]) simp
  moreover have "(2::nat) ^ (8 * n) < 2 ^ bu_bits pn"
    using bu_bits_spec(1) [of pn] assms(1) by (simp only: pow256)
  then have "8 * n < bu_bits pn" by (rule power_less_imp_less_exp [rotated]) simp
  ultimately show ?thesis by (intro div_nat_eqI) auto
qed

lemma compact_parts:
  assumes "unat c = m + S * 2 ^ 24" "m < 2 ^ 23"
  shows "compact_size c = S" "compact_mantissa c = m" "even (unat c div 2 ^ 23)"
proof -
  have c: "unat c = m + (2 * S) * 2 ^ 23" by (simp add: assms(1))
  have "unat c mod 2 ^ 23 = m" "unat c div 2 ^ 23 = 2 * S"
    unfolding c using assms(2) by (simp_all only: mod_mult_self1 div_mult_self1 mod_less div_less add_0)
  then show "compact_mantissa c = m" "even (unat c div 2 ^ 23)"
    by (simp_all only: compact_mantissa_def) simp
  show "compact_size c = S" using assms by (simp add: compact_size_def)
qed

theorem GetCompact_SetCompact_floor:
  assumes "length x = 8"
  shows "\<exists>c v k. GetCompact False x = Some c \<and> SetCompact c = (v, False, False) \<and>
    bu_val v = bu_val x div 256 ^ k * 256 ^ k \<and> (k = 0 \<or> 2 ^ 15 * 256 ^ k \<le> bu_val x)"
proof -
  define S0 where "S0 = (bu_bits x + 7) div 8"
  obtain m S where mS: "compact_norm (bu_val x) S0 = (m, S)" by fastforce
  obtain c where c: "GetCompact False x = Some c" "unat c = m + S * 2 ^ 24" "m < 2 ^ 23"
    using GetCompact_eq [OF assms mS [unfolded S0_def]] by blast
  obtain v neg ovf where v: "SetCompact c = (v, neg, ovf)" by (metis prod_cases3)
  note parts = compact_parts [OF c(2,3)]
  note fl = compact_norm_floor [OF bu_byte_size_bounds [of x, folded S0_def] mS]
  have "bu_val v = bu_val x div 256 ^ (S - 3) * 256 ^ (S - 3) \<and> \<not> ovf"
  proof (cases "S \<le> 3")
    case True
    then show ?thesis using SetCompact_spec(1,4) [OF v] fl(2) by (simp add: parts)
  next
    case False
    have "m * 256 ^ (S - 3) \<le> bu_val x" using fl(3) False by (simp add: div_times_less_eq_dividend)
    also have "\<dots> < 2 ^ 256" using bu_val_lt [of x] assms by simp
    finally have "m * 256 ^ (S - 3) < 2 ^ 256" .
    then show ?thesis using SetCompact_spec(1,3) [OF v] fl(3) False by (simp add: parts not_le)
  qed
  moreover have "\<not> neg" using SetCompact_spec(5) [OF v] parts(3) by blast
  moreover have "S - 3 = 0 \<or> 2 ^ 15 * 256 ^ (S - 3) \<le> bu_val x" using fl(3) by (cases "3 < S") auto
  ultimately show ?thesis using c(1) v by (intro exI [of _ c] exI [of _ v] exI [of _ "S - 3"]) simp
qed

theorem SetCompact_GetCompact_id:
  assumes m: "2 ^ 15 \<le> compact_mantissa c" and S: "3 \<le> compact_size c" "compact_size c \<le> 32"
    and sign: "even (unat c div 2 ^ 23)" and v: "SetCompact c = (v, neg, ovf)"
  shows "GetCompact False v = Some c"
proof -
  define m S where "m = compact_mantissa c" and "S = compact_size c"
  have m23: "m < 2 ^ 23" by (simp add: m_def compact_mantissa_def)
  have split: "unat c mod 8388608 + unat c div 8388608 * 8388608 = unat c" by (rule mod_div_mult_eq)
  have "unat c div 8388608 = 2 * (unat c div 16777216)"
    using sign by (auto simp: div_mult2_eq [of "unat c" "2 ^ 23" 2, simplified] elim!: evenE)
  with split have "unat c mod 8388608 + 2 * (unat c div 16777216) * 8388608 = unat c" by (simp only:)
  then have c: "unat c = m + S * 2 ^ 24"
    unfolding m_def S_def compact_mantissa_def compact_size_def by simp
  have "m * 256 ^ (S - 3) < 2 ^ 256"
  proof -
    have "m * 256 ^ (S - 3) < 2 ^ 23 * 256 ^ (S - 3)" using m23 by simp
    also have "\<dots> \<le> 2 ^ 23 * 256 ^ 29" using S by (intro mult_le_mono2 power_increasing) (auto simp: S_def)
    also have "\<dots> < (2::nat) ^ 256" by simp
    finally show ?thesis .
  qed
  then have X: "bu_val v = m * 256 ^ (S - 3)"
    using SetCompact_spec(1) [OF v] S(1) by (cases "S = 3") (auto simp: m_def S_def)
  have len: "length v = 8" by (rule SetCompact_spec(2) [OF v])
  have "compact_norm (bu_val v) ((bu_bits v + 7) div 8) = (m, S)"
  proof (cases "2 ^ 16 \<le> m")
    case True
    have "256 ^ (S - 1) \<le> bu_val v"
    proof -
      have "S - 1 = 2 + (S - 3)" using S(1) by (simp add: S_def)
      then have "256 ^ (S - 1) = (256::nat) ^ 2 * 256 ^ (S - 3)" by (simp only: power_add)
      then show ?thesis using True X by simp
    qed
    moreover have "bu_val v < 256 ^ Suc (S - 1)"
    proof -
      have "256 ^ Suc (S - 1) = (256::nat) ^ 3 * 256 ^ (S - 3)"
        using S(1) power_add [of "256::nat" 3 "S - 3"] by (simp add: S_def)
      moreover have "m < 256 ^ 3" using m23 by simp
      ultimately show ?thesis using X by simp
    qed
    ultimately have "(bu_bits v + 7) div 8 = S" using bu_byte_size [of "S - 1" v] S(1) by (simp add: S_def)
    then show ?thesis using X m23 S(1) by (cases "S = 3") (auto simp: compact_norm_def Let_def S_def)
  next
    case False
    have "256 ^ (S - 2) \<le> bu_val v"
    proof -
      have "S - 2 = Suc (S - 3)" using S(1) by (simp add: S_def)
      then have "256 ^ (S - 2) = (256::nat) * 256 ^ (S - 3)" by (simp only: power_Suc)
      moreover have "256 \<le> m" using assms(1) by (simp add: m_def)
      ultimately show ?thesis using X by simp
    qed
    moreover have "bu_val v < 256 ^ Suc (S - 2)"
    proof -
      have "Suc (S - 2) = 2 + (S - 3)" using S(1) by (simp add: S_def)
      then have "256 ^ Suc (S - 2) = (256::nat) ^ 2 * 256 ^ (S - 3)" by (simp only: power_add)
      moreover have "m < 256 ^ 2" using False by simp
      ultimately show ?thesis using X by simp
    qed
    ultimately have S0: "(bu_bits v + 7) div 8 = S - 1"
      using bu_byte_size [of "S - 2" v] S(1) by (simp add: S_def)
    have "(if S - 1 \<le> 3 then bu_val v * 256 ^ (3 - (S - 1)) else bu_val v div 256 ^ (S - 1 - 3)) = m * 256"
    proof (cases "S \<le> 4")
      case True
      then have "S = 3 \<or> S = 4" using S(1) by (auto simp: S_def)
      then show ?thesis using X by auto
    next
      case F: False
      then have "S - 3 = Suc (S - 1 - 3)" by simp
      then have "(256::nat) ^ (S - 3) = 256 ^ (S - 1 - 3) * 256" by (simp only: power_Suc2)
      then show ?thesis using X F by auto
    qed
    moreover have "2 ^ 23 \<le> m * 256" using assms(1) by (simp add: m_def)
    moreover have "S - 1 + 1 = S" using S(1) by (simp add: S_def)
    ultimately show ?thesis unfolding compact_norm_def S0 Let_def by simp
  qed
  then obtain c' where c': "GetCompact False v = Some c'" "unat c' = m + S * 2 ^ 24"
    using GetCompact_eq [OF len] by blast
  from c c'(2) have "unat c' = unat c" by (simp only:)
  then have "c' = c" by (rule unsigned_word_eqI)
  with c'(1) show ?thesis by simp
qed

section \<open>Serialization\<close>

lemma bu_limbs_Serialize: "bu_limbs (length pn) (bu_Serialize pn @ r) = pn"
proof (induction pn)
  case (Cons w pn)
  have "le_nat (to_le 4 (unat w)) = unat w"
    using unat_u32_lt [of w] by (simp add: le_nat_to_le)
  with Cons show ?case by (simp add: bu_Serialize_def)
qed (simp add: bu_Serialize_def)

lemma length_bu_Serialize [simp]: "length (bu_Serialize pn) = 4 * length pn"
  by (induction pn) (auto simp: bu_Serialize_def)

theorem bu_Unserialize_Serialize: "bu_Unserialize (length pn) (bu_Serialize pn @ r) = Some (pn, r)"
  using bu_limbs_Serialize [of pn "[]"] by (simp add: bu_Unserialize_def)

lemma bu_Serialize_limbs: "length s = 4 * W \<Longrightarrow> bu_Serialize (bu_limbs W s) = s"
proof (induction W arbitrary: s)
  case (Suc W)
  have 4: "length (take 4 s) = 4" using Suc.prems by simp
  then have "le_nat (take 4 s) < 2 ^ 32" using le_nat_lt [of "take 4 s"] by simp
  then have "unat (of_nat (le_nat (take 4 s)) :: u32) = le_nat (take 4 s)"
    by (simp add: unat_of_nat_small)
  moreover have "to_le 4 (le_nat (take 4 s)) = take 4 s" using to_le_le_nat [of "take 4 s"] 4 by simp
  ultimately show ?case using Suc by (simp add: bu_Serialize_def)
qed (simp add: bu_Serialize_def)

lemma bu_Serialize_inj: "length a = length b \<Longrightarrow> bu_Serialize a = bu_Serialize b \<longleftrightarrow> a = b"
  by (metis append_Nil2 bu_limbs_Serialize)

section \<open>Properties\<close>

text \<open>
  C1: on two numbers of the same number of limbs, \<open>+=\<close>, \<open>-=\<close>, \<open>*=\<close> and \<open>*= uint32_t\<close> compute the sum, the
  difference and the products modulo two to the width, whatever carries the limb loops propagate, and the
  results keep the width.
\<close>

theorem uint_ring_operations:
  assumes "length a = length b"
  shows "bu_val (bu_add a b) = (bu_val a + bu_val b) mod 2 ^ (32 * length a) \<and>
    int (bu_val (bu_sub a b)) = (int (bu_val a) - int (bu_val b)) mod 2 ^ (32 * length a) \<and>
    bu_val (bu_mul a b) = (bu_val a * bu_val b) mod 2 ^ (32 * length a) \<and>
    bu_val (bu_mul32 a k) = (bu_val a * unat k) mod 2 ^ (32 * length a)"
  using assms by (simp add: bu_add_val bu_sub_val bu_mul_val bu_mul32_val)

theorem uint_ring_operations_witness:
  "bu_val (bu_add [4294967295, 4294967295] [1, 0]) = 0 \<and>
   int (bu_val (bu_sub [0, 1] [1, 0])) = 4294967295 \<and>
   bu_val (bu_mul [0, 1] [0, 1]) = 0 \<and> bu_val (bu_mul32 [0, 1] 4294967295) = 4294967295 * 4294967296"
  using uint_ring_operations [of "[4294967295, 4294967295]" "[1, 0]"]
    uint_ring_operations [of "[0, 1]" "[1, 0]"] uint_ring_operations [of "[0, 1]" "[0, 1]" 4294967295]
  by simp

text \<open>
  C2: \<open>/=\<close> fails exactly on a zero divisor and otherwise its shift-and-subtract loop returns the exact quotient,
  at the width of the operands.
\<close>

theorem uint_division_exact:
  assumes "length a = length b"
  shows "case bu_div a b of None \<Rightarrow> bu_val b = 0
    | Some q \<Rightarrow> bu_val b \<noteq> 0 \<and> bu_val q = bu_val a div bu_val b \<and> length q = length a"
proof (cases "bu_val b = 0")
  case True
  then have "bu_div a b = None" by (simp add: bu_div_none)
  with True show ?thesis by simp
next
  case False
  from bu_div_val [OF assms False] show ?thesis using False by auto
qed

theorem uint_division_exact_witness:
  "case bu_div [100, 0] [7, 0] of None \<Rightarrow> False | Some q \<Rightarrow> bu_val q = 14 \<and> length q = 2"
  using uint_division_exact [of "[100, 0]" "[7, 0]"] by (simp split: option.splits)

text \<open>
  \<open><<=\<close> and \<open>>>=\<close> are multiplication and division by the power of two at every shift count, \<open>CompareTo\<close>
  is the three-way comparison of the values, and \<open>bits\<close> is the position of the highest set bit plus one.
\<close>

theorem uint_shift_compare_bits:
  assumes "length a = length b"
  shows "bu_val (bu_shl a sh) = (bu_val a * 2 ^ sh) mod 2 ^ (32 * length a) \<and>
    bu_val (bu_shr a sh) = bu_val a div 2 ^ sh \<and>
    bu_CompareTo a b = (if bu_val a < bu_val b then - 1 else if bu_val a > bu_val b then 1 else 0) \<and>
    bu_val a < 2 ^ bu_bits a \<and> (0 < bu_val a \<longrightarrow> 2 ^ (bu_bits a - 1) \<le> bu_val a)"
  using assms bu_bits_spec(3) [of a] by (simp add: bu_shl_val bu_shr_val bu_CompareTo_val bu_bits_spec(1))

theorem uint_shift_compare_bits_witness:
  "bu_val (bu_shl [0, 1] 31) = 2 ^ 63 \<and> bu_val (bu_shr [0, 1] 31) = 2 \<and> bu_CompareTo [0, 1] [5, 0] = 1"
  using uint_shift_compare_bits [of "[0, 1]" "[5, 0]" 31] by simp

text \<open>
  \<open>GetCompact\<close> never trips its assertions on a 256-bit number, and \<open>SetCompact\<close> of its result sets neither
  the sign nor the overflow flag and yields the number with its low bytes cleared: nothing is lost unless at
  least fifteen significant bits stay above the cleared bytes.
\<close>

theorem compact_of_number:
  assumes "length x = 8"
  shows "\<exists>c v k. GetCompact False x = Some c \<and> SetCompact c = (v, False, False) \<and>
    bu_val v = bu_val x div 256 ^ k * 256 ^ k \<and> (k = 0 \<or> 2 ^ 15 * 256 ^ k \<le> bu_val x)"
  using GetCompact_SetCompact_floor [OF assms] .

theorem compact_of_number_witness:
  "\<exists>c v k. GetCompact False [0x12345678, 0, 0, 0, 0, 0, 0, 0] = Some c \<and> SetCompact c = (v, False, False) \<and>
    bu_val v = 0x12345678 div 256 ^ k * 256 ^ k \<and> (k = 0 \<or> 2 ^ 15 * 256 ^ k \<le> (0x12345678 :: nat))"
  using compact_of_number [of "[0x12345678, 0, 0, 0, 0, 0, 0, 0]"] by simp

text \<open>
  \<open>GetCompact\<close> is the inverse of \<open>SetCompact\<close> on every normalised compact target: a positive one whose
  exponent is between 3 and 32 and whose mantissa uses at least sixteen bits.
\<close>

theorem compact_normal_form:
  assumes "2 ^ 15 \<le> compact_mantissa c" and "3 \<le> compact_size c" "compact_size c \<le> 32"
    and "even (unat c div 2 ^ 23)"
  shows "GetCompact False (fst (SetCompact c)) = Some c"
  using SetCompact_GetCompact_id [OF assms] by (metis prod.exhaust_sel)

theorem compact_normal_form_witness:
  "GetCompact False (fst (SetCompact 0x1e0ffff0)) = Some 0x1e0ffff0"
  by (rule compact_normal_form) (simp_all add: compact_mantissa_def compact_size_def)

end
