(* ===== verification/Serialize.thy ===== *)
theory Serialize
  imports Uint256
begin

text \<open>
  The serialization layer of \<open>src/src/serialize.h\<close>: fixed-width integers, compact sizes,
  variable-length integers, byte vectors and vectors of elements.  A writer is a function to
  bytes; a reader takes the remaining stream and returns the value with the rest of the
  stream, or \<open>None\<close> where the code throws \<open>ios_base::failure\<close>.  The locale \<open>codec\<close> is the
  contract of a writer and a reader (what is written is read back and the rest of the stream
  is untouched); \<open>strict_codec\<close> adds that nothing but an encoding is accepted.  Vectors
  inherit both contracts from their elements.
\<close>

section \<open>Definitions\<close>

definition MAX_SIZE :: nat where
  "MAX_SIZE = 0x02000000"

subsection \<open>Fixed-width integers\<close>

definition Serialize_u32 :: "u32 \<Rightarrow> bytes" where
  "Serialize_u32 a = to_le 4 (unat a)"

definition Unserialize_u32 :: "bytes \<Rightarrow> (u32 \<times> bytes) option" where
  "Unserialize_u32 s = map_option (\<lambda>(xs, r). (of_nat (le_nat xs), r)) (take_bytes 4 s)"

text \<open>Signed integers are written in two's complement.\<close>

definition Serialize_int :: "nat \<Rightarrow> int \<Rightarrow> bytes" where
  "Serialize_int w a = to_le w (nat (a mod 256 ^ w))"

definition Unserialize_int :: "nat \<Rightarrow> bytes \<Rightarrow> (int \<times> bytes) option" where
  "Unserialize_int w s =
     map_option (\<lambda>(xs, r). (let v = int (le_nat xs) in if 2 * v < 256 ^ w then v else v - 256 ^ w, r))
       (take_bytes w s)"

subsection \<open>Compact sizes\<close>

definition GetSizeOfCompactSize :: "nat \<Rightarrow> nat" where
  "GetSizeOfCompactSize nSize =
     (if nSize < 253 then 1 else if nSize \<le> 0xffff then 1 + 2
      else if nSize \<le> 0xffffffff then 1 + 4 else 1 + 8)"

definition WriteCompactSize :: "nat \<Rightarrow> bytes" where
  "WriteCompactSize nSize =
     (if nSize < 253 then to_le 1 nSize
      else if nSize \<le> 0xffff then 253 # to_le 2 nSize
      else if nSize \<le> 0xffffffff then 254 # to_le 4 nSize
      else 255 # to_le 8 nSize)"

definition read_sized :: "nat \<Rightarrow> nat \<Rightarrow> bytes \<Rightarrow> (nat \<times> bytes) option" where
  "read_sized w lo s =
     (case take_bytes w s of None \<Rightarrow> None
      | Some (xs, r) \<Rightarrow>
          (let nSizeRet = le_nat xs
           in if nSizeRet < lo then None
              else if nSizeRet > MAX_SIZE then None else Some (nSizeRet, r)))"

definition ReadCompactSize :: "bytes \<Rightarrow> (nat \<times> bytes) option" where
  "ReadCompactSize s =
     (case s of [] \<Rightarrow> None
      | chSize # r \<Rightarrow>
          if chSize < 253 then Some (unat chSize, r)
          else if chSize = 253 then read_sized 2 253 r
          else if chSize = 254 then read_sized 4 0x10000 r
          else read_sized 8 0x100000000 r)"

subsection \<open>Variable-length integers\<close>

text \<open>
  \<open>varint_tmp\<close> fills the array \<open>tmp\<close> of \<open>WriteVarInt\<close>, which is written last entry first.
  The reader works at the width \<open>w\<close> of the integer type \<open>I\<close>, wrapping as its shifts do.
\<close>

fun varint_tmp :: "nat \<Rightarrow> nat \<Rightarrow> bytes" where
  "varint_tmp n len =
     (let t = of_nat (n mod 128 + (if len \<noteq> 0 then 128 else 0))
      in if n \<le> 0x7F then [t] else t # varint_tmp (n div 128 - 1) (len + 1))"

declare varint_tmp.simps [simp del]

definition WriteVarInt :: "nat \<Rightarrow> bytes" where
  "WriteVarInt n = rev (varint_tmp n 0)"

fun ReadVarInt :: "nat \<Rightarrow> nat \<Rightarrow> bytes \<Rightarrow> (nat \<times> bytes) option" where
  "ReadVarInt w n [] = None"
| "ReadVarInt w n (chData # r) =
     (let n1 = (n * 128) mod 2 ^ w + unat chData mod 128
      in if unat chData \<ge> 128 then ReadVarInt w ((n1 + 1) mod 2 ^ w) r else Some (n1, r))"

fun GetSizeOfVarInt :: "nat \<Rightarrow> nat" where
  "GetSizeOfVarInt n = (if n \<le> 0x7F then 1 else 1 + GetSizeOfVarInt (n div 128 - 1))"

declare GetSizeOfVarInt.simps [simp del]

subsection \<open>Byte vectors and vectors of elements\<close>

definition Serialize_bytes :: "bytes \<Rightarrow> bytes" where
  "Serialize_bytes v = WriteCompactSize (length v) @ v"

text \<open>The reading loop takes at most 5000000 bytes at a time.\<close>

function read_blocks :: "nat \<Rightarrow> bytes \<Rightarrow> bytes \<Rightarrow> (bytes \<times> bytes) option" where
  "read_blocks nSize v s =
     (if length v < nSize
      then (case take_bytes (min (nSize - length v) (1 + 4999999)) s of
              None \<Rightarrow> None
            | Some (blk, r) \<Rightarrow> read_blocks nSize (v @ blk) r)
      else Some (v, s))"
  by pat_completeness auto
termination
  by (relation "measure (\<lambda>(nSize, v, s). nSize - length v)") (auto simp: take_bytes_Some)

declare read_blocks.simps [simp del]

definition Unserialize_bytes :: "bytes \<Rightarrow> (bytes \<times> bytes) option" where
  "Unserialize_bytes s =
     (case ReadCompactSize s of None \<Rightarrow> None | Some (nSize, r) \<Rightarrow> read_blocks nSize [] r)"

definition Serialize_vector :: "('a \<Rightarrow> bytes) \<Rightarrow> 'a list \<Rightarrow> bytes" where
  "Serialize_vector enc v = WriteCompactSize (length v) @ concat (map enc v)"

fun read_elems :: "(bytes \<Rightarrow> ('a \<times> bytes) option) \<Rightarrow> nat \<Rightarrow> bytes \<Rightarrow> ('a list \<times> bytes) option" where
  "read_elems dec 0 s = Some ([], s)"
| "read_elems dec (Suc k) s =
     (case dec s of None \<Rightarrow> None
      | Some (x, r) \<Rightarrow> (case read_elems dec k r of None \<Rightarrow> None | Some (xs, r') \<Rightarrow> Some (x # xs, r')))"

definition Unserialize_vector :: "(bytes \<Rightarrow> ('a \<times> bytes) option) \<Rightarrow> bytes \<Rightarrow> ('a list \<times> bytes) option" where
  "Unserialize_vector dec s =
     (case ReadCompactSize s of None \<Rightarrow> None | Some (nSize, r) \<Rightarrow> read_elems dec nSize r)"

definition Serialize_pair :: "('a \<Rightarrow> bytes) \<Rightarrow> ('b \<Rightarrow> bytes) \<Rightarrow> 'a \<times> 'b \<Rightarrow> bytes" where
  "Serialize_pair enc1 enc2 = (\<lambda>(x, y). enc1 x @ enc2 y)"

definition Unserialize_pair ::
  "(bytes \<Rightarrow> ('a \<times> bytes) option) \<Rightarrow> (bytes \<Rightarrow> ('b \<times> bytes) option) \<Rightarrow> bytes \<Rightarrow> (('a \<times> 'b) \<times> bytes) option"
where
  "Unserialize_pair dec1 dec2 s =
     (case dec1 s of None \<Rightarrow> None
      | Some (x, r) \<Rightarrow> (case dec2 r of None \<Rightarrow> None | Some (y, r') \<Rightarrow> Some ((x, y), r')))"

section \<open>Compact sizes\<close>

lemma length_WriteCompactSize: "length (WriteCompactSize n) = GetSizeOfCompactSize n"
  by (simp add: WriteCompactSize_def GetSizeOfCompactSize_def)

lemma read_sized_to_le:
  "n < 256 ^ w \<Longrightarrow> lo \<le> n \<Longrightarrow> n \<le> MAX_SIZE \<Longrightarrow> read_sized w lo (to_le w n @ r) = Some (n, r)"
  by (simp add: read_sized_def le_simps Let_def)

lemma read_sized_Some:
  "read_sized w lo s = Some (n, r) \<longleftrightarrow> s = to_le w n @ r \<and> n < 256 ^ w \<and> lo \<le> n \<and> n \<le> MAX_SIZE"
proof
  assume "read_sized w lo s = Some (n, r)"
  then obtain xs where "s = xs @ r" "length xs = w" "n = le_nat xs" "lo \<le> n" "n \<le> MAX_SIZE"
    by (auto simp: read_sized_def take_bytes_Some Let_def not_less split: option.splits if_splits)
  then show "s = to_le w n @ r \<and> n < 256 ^ w \<and> lo \<le> n \<and> n \<le> MAX_SIZE"
    using to_le_le_nat [of xs] le_nat_lt [of xs] by auto
qed (auto intro: read_sized_to_le)

theorem ReadCompactSize_Write:
  "n \<le> MAX_SIZE \<Longrightarrow> ReadCompactSize (WriteCompactSize n @ r) = Some (n, r)"
proof -
  assume n: "n \<le> MAX_SIZE"
  have "unat (of_nat n :: byte) = n" "of_nat n < (253 :: byte)" if "n < 253"
  proof -
    show *: "unat (of_nat n :: byte) = n" using that by (simp add: unat_of_nat_byte)
    show "of_nat n < (253 :: byte)" using that by (simp add: word_less_nat_alt *)
  qed
  moreover have "n < 2 ^ 32" using n by (simp add: MAX_SIZE_def)
  ultimately show ?thesis using n
    by (auto simp: WriteCompactSize_def ReadCompactSize_def read_sized_to_le)
qed

text \<open>A stream that starts with a compact size starts with its canonical encoding.\<close>

theorem ReadCompactSize_canonical:
  assumes "ReadCompactSize s = Some (n, r)"
  shows "s = WriteCompactSize n @ r \<and> n \<le> MAX_SIZE"
proof -
  obtain c t where s: "s = c # t" using assms by (cases s) (auto simp: ReadCompactSize_def)
  consider "c < 253" | "c = 253" | "c = 254" | "\<not> c < 253" "c \<noteq> 253" "c \<noteq> 254" by blast
  then show ?thesis
  proof cases
    case 1
    then have "unat c < 253" by (simp add: word_less_nat_alt)
    with 1 assms s show ?thesis by (auto simp: ReadCompactSize_def WriteCompactSize_def MAX_SIZE_def)
  next
    case 2
    with assms s show ?thesis by (auto simp: ReadCompactSize_def WriteCompactSize_def read_sized_Some)
  next
    case 3
    with assms s show ?thesis by (auto simp: ReadCompactSize_def WriteCompactSize_def read_sized_Some)
  next
    case 4
    have "unat c \<ge> 253" "unat c \<noteq> 253" "unat c \<noteq> 254"
      using 4 by (auto simp: word_less_nat_alt unat_eq_byte)
    then have "unat c = 255" using unat_byte_lt [of c] by linarith
    then have "c = 255" by (simp add: unat_eq_byte)
    with 4 assms s show ?thesis
      by (auto simp: ReadCompactSize_def WriteCompactSize_def read_sized_Some MAX_SIZE_def)
  qed
qed

section \<open>Variable-length integers\<close>

lemma length_WriteVarInt: "length (WriteVarInt n) = GetSizeOfVarInt n"
proof -
  have "length (varint_tmp n len) = GetSizeOfVarInt n" for len
    by (induction n len rule: varint_tmp.induct)
      (subst varint_tmp.simps, subst GetSizeOfVarInt.simps, auto simp: Let_def)
  then show ?thesis by (simp add: WriteVarInt_def)
qed

lemma ReadVarInt_tmp:
  "0 < len \<Longrightarrow> n + 1 < 2 ^ w \<Longrightarrow> 7 \<le> w \<Longrightarrow>
   ReadVarInt w 0 (rev (varint_tmp n len) @ r) = ReadVarInt w (n + 1) r"
proof (induction n len arbitrary: r rule: varint_tmp.induct)
  case (1 n len)
  define t :: byte where "t = of_nat (n mod 128 + 128)"
  have t: "unat t = n mod 128 + 128" unfolding t_def by (rule unat_of_nat_small) simp
  have step: "varint_tmp n len = t # (if n \<le> 0x7F then [] else varint_tmp (n div 128 - 1) (len + 1))"
    using "1.prems"(1) by (subst varint_tmp.simps) (simp add: Let_def t_def del: of_nat_add)
  show ?case
  proof (cases "n \<le> 0x7F")
    case True
    then show ?thesis using "1.prems" t by (simp add: step)
  next
    case False
    have "n div 128 - 1 + 1 < 2 ^ w" using False "1.prems" by (auto intro: le_less_trans [of _ n])
    then have "ReadVarInt w 0 (rev (varint_tmp (n div 128 - 1) (len + 1)) @ t # r) =
        ReadVarInt w (n div 128) (t # r)"
      using "1.IH" [of _ "t # r"] False "1.prems" by simp
    moreover have "(n div 128 * 128) mod 2 ^ w + n mod 128 = n"
    proof -
      have "n div 128 * 128 \<le> n" by (rule div_times_less_eq_dividend)
      then have "n div 128 * 128 < 2 ^ w" using "1.prems" by linarith
      then show ?thesis by simp
    qed
    ultimately show ?thesis using False "1.prems" t by (simp add: step)
  qed
qed

theorem ReadVarInt_Write:
  assumes "n < 2 ^ w" "7 \<le> w"
  shows "ReadVarInt w 0 (WriteVarInt n @ r) = Some (n, r)"
proof -
  define t :: byte where "t = of_nat (n mod 128)"
  have t: "unat t = n mod 128" unfolding t_def by (rule unat_of_nat_small) (simp add: less_trans [of _ 128])
  have step: "varint_tmp n 0 = t # (if n \<le> 0x7F then [] else varint_tmp (n div 128 - 1) 1)"
    by (subst varint_tmp.simps) (simp add: Let_def t_def)
  show ?thesis
  proof (cases "n \<le> 0x7F")
    case True
    then show ?thesis using t by (simp add: WriteVarInt_def step)
  next
    case False
    have "n div 128 - 1 + 1 < 2 ^ w" using False assms by (auto intro: le_less_trans [of _ n])
    then have "ReadVarInt w 0 (rev (varint_tmp (n div 128 - 1) 1) @ t # r) = ReadVarInt w (n div 128) (t # r)"
      using ReadVarInt_tmp [of 1 "n div 128 - 1" w "t # r"] False assms by simp
    moreover have "n div 128 * 128 < 2 ^ w"
      using div_times_less_eq_dividend [of n 128] assms by linarith
    moreover have "\<not> 128 \<le> n mod 128" by (simp add: not_le)
    ultimately show ?thesis using False t by (simp add: WriteVarInt_def step)
  qed
qed

section \<open>The codec contract\<close>

locale codec =
  fixes enc :: "'a \<Rightarrow> bytes"
    and dec :: "bytes \<Rightarrow> ('a \<times> bytes) option"
    and valid :: "'a \<Rightarrow> bool"
  assumes dec_enc: "valid x \<Longrightarrow> dec (enc x @ r) = Some (x, r)"
begin

lemma prefix_free: "valid x \<Longrightarrow> valid y \<Longrightarrow> enc x @ r = enc y @ s \<Longrightarrow> x = y \<and> r = s"
  by (metis dec_enc option.inject prod.inject)

lemma enc_inj: "valid x \<Longrightarrow> valid y \<Longrightarrow> enc x = enc y \<Longrightarrow> x = y"
  using prefix_free [of x y "[]" "[]"] by simp

lemma read_elems_concat:
  "list_all valid xs \<Longrightarrow> read_elems dec (length xs) (concat (map enc xs) @ r) = Some (xs, r)"
  by (induction xs) (auto simp: dec_enc)

lemma vector_dec_enc:
  "list_all valid xs \<Longrightarrow> length xs \<le> MAX_SIZE \<Longrightarrow>
   Unserialize_vector dec (Serialize_vector enc xs @ r) = Some (xs, r)"
  by (simp add: Unserialize_vector_def Serialize_vector_def ReadCompactSize_Write read_elems_concat)

end

locale strict_codec = codec +
  assumes dec_Some: "dec s = Some (x, r) \<Longrightarrow> s = enc x @ r \<and> valid x"
begin

lemma dec_iff: "dec s = Some (x, r) \<longleftrightarrow> s = enc x @ r \<and> valid x"
  using dec_Some dec_enc by blast

lemma read_elems_Some:
  "read_elems dec k s = Some (xs, r) \<Longrightarrow> s = concat (map enc xs) @ r \<and> list_all valid xs \<and> length xs = k"
  by (induction k arbitrary: s xs) (fastforce split: option.splits prod.splits simp: dec_iff)+

lemma vector_dec_Some:
  "Unserialize_vector dec s = Some (xs, r) \<Longrightarrow>
   s = Serialize_vector enc xs @ r \<and> list_all valid xs \<and> length xs \<le> MAX_SIZE"
  by (auto simp: Unserialize_vector_def Serialize_vector_def split: option.splits
      dest!: ReadCompactSize_canonical read_elems_Some)

lemma strict_vector:
  "strict_codec (Serialize_vector enc) (Unserialize_vector dec) (\<lambda>xs. list_all valid xs \<and> length xs \<le> MAX_SIZE)"
  by unfold_locales (auto dest: vector_dec_Some simp: vector_dec_enc)

lemma strict_pair:
  assumes "strict_codec enc2 dec2 valid2"
  shows "strict_codec (Serialize_pair enc enc2) (Unserialize_pair dec dec2) (\<lambda>(x, y). valid x \<and> valid2 y)"
proof
  fix p r s
  show "(case p of (x, y) \<Rightarrow> valid x \<and> valid2 y) \<Longrightarrow>
      Unserialize_pair dec dec2 (Serialize_pair enc enc2 p @ r) = Some (p, r)"
    using dec_enc codec.dec_enc [OF strict_codec.axioms(1) [OF assms]]
    by (auto simp: Serialize_pair_def Unserialize_pair_def split: prod.splits)
  show "Unserialize_pair dec dec2 s = Some (p, r) \<Longrightarrow>
      s = Serialize_pair enc enc2 p @ r \<and> (case p of (x, y) \<Rightarrow> valid x \<and> valid2 y)"
    using dec_Some strict_codec.dec_Some [OF assms]
    by (fastforce simp: Serialize_pair_def Unserialize_pair_def split: option.splits)
qed

end

interpretation u32_codec: strict_codec Serialize_u32 Unserialize_u32 "\<lambda>_. True"
proof
  fix x r s
  show "Unserialize_u32 (Serialize_u32 x @ r) = Some (x, r)"
    using unat_u32_lt [of x] by (simp add: Unserialize_u32_def Serialize_u32_def le_nat_to_le)
  assume "Unserialize_u32 s = Some (x, r)"
  then obtain xs where xs: "s = xs @ r" "length xs = 4" "x = of_nat (le_nat xs)"
    by (auto simp: Unserialize_u32_def take_bytes_Some)
  then have "le_nat xs < 2 ^ 32" using le_nat_lt [of xs] by simp
  then have "unat x = le_nat xs" using xs by (simp add: unat_of_nat_small)
  then show "s = Serialize_u32 x @ r \<and> True" using xs to_le_le_nat [of xs] by (simp add: Serialize_u32_def)
qed

lemma Serialize_int_strict:
  "0 < w \<Longrightarrow> strict_codec (Serialize_int w) (Unserialize_int w) (\<lambda>a. - (256 ^ w) \<le> 2 * a \<and> 2 * a < 256 ^ w)"
proof
  fix a r s
  let ?M = "256 ^ w :: int"
  have le: "int (nat (a mod ?M) mod 256 ^ w) = a mod ?M"
    by (simp add: nat_less_iff zmod_int)
  show "Unserialize_int w (Serialize_int w a @ r) = Some (a, r)" if "- ?M \<le> 2 * a \<and> 2 * a < ?M"
  proof (cases "0 \<le> a")
    case True
    with that have "a mod ?M = a" by (intro mod_pos_pos_trivial) auto
    with that le show ?thesis by (simp add: Unserialize_int_def Serialize_int_def le_simps Let_def)
  next
    case False
    have "a mod ?M = (a + ?M) mod ?M" by simp
    also have "\<dots> = a + ?M" using that False by (intro mod_pos_pos_trivial) auto
    finally show ?thesis using that le False
      by (simp add: Unserialize_int_def Serialize_int_def le_simps Let_def)
  qed
  assume "Unserialize_int w s = Some (a, r)"
  then obtain xs where xs: "s = xs @ r" "length xs = w"
    "a = (if 2 * int (le_nat xs) < ?M then int (le_nat xs) else int (le_nat xs) - ?M)"
    by (auto simp: Unserialize_int_def take_bytes_Some Let_def)
  have lt: "int (le_nat xs) < ?M"
    using le_nat_lt [of xs] xs(2) by (metis of_nat_less_iff of_nat_power of_nat_numeral)
  then have "a mod ?M = int (le_nat xs)" using xs(3) by auto
  then have "Serialize_int w a = xs" using xs(2) to_le_le_nat [of xs] by (simp add: Serialize_int_def)
  moreover define v M where "v = int (le_nat xs)" and "M = ?M"
  have "0 \<le> v" "v < M" "a = (if 2 * v < M then v else v - M)" using lt xs(3) by (simp_all add: v_def M_def)
  then have "- M \<le> 2 * a \<and> 2 * a < M" by (auto split: if_splits)
  ultimately show "s = Serialize_int w a @ r \<and> - ?M \<le> 2 * a \<and> 2 * a < ?M" using xs(1) by (simp add: M_def)
qed

interpretation int32_codec: strict_codec "Serialize_int 4" "Unserialize_int 4"
  "\<lambda>a. - (256 ^ 4) \<le> 2 * a \<and> 2 * a < 256 ^ 4"
  by (rule Serialize_int_strict) simp

interpretation int64_codec: strict_codec "Serialize_int 8" "Unserialize_int 8"
  "\<lambda>a. - (256 ^ 8) \<le> 2 * a \<and> 2 * a < 256 ^ 8"
  by (rule Serialize_int_strict) simp

interpretation compact_codec: strict_codec WriteCompactSize ReadCompactSize "\<lambda>n. n \<le> MAX_SIZE"
  by unfold_locales (auto simp: ReadCompactSize_Write dest: ReadCompactSize_canonical)

text \<open>\<open>ReadVarInt\<close> accepts encodings that wrap, so only the reading-back law holds.\<close>

interpretation varint64: codec WriteVarInt "ReadVarInt 64 0" "\<lambda>n. n < 2 ^ 64"
  by unfold_locales (simp add: ReadVarInt_Write)

interpretation varint32: codec WriteVarInt "ReadVarInt 32 0" "\<lambda>n. n < 2 ^ 32"
  by unfold_locales (simp add: ReadVarInt_Write)

interpretation uint256_codec: strict_codec bu_Serialize "bu_Unserialize 8" "\<lambda>x. length x = 8"
proof
  fix x r s
  show "length x = 8 \<Longrightarrow> bu_Unserialize 8 (bu_Serialize x @ r) = Some (x, r)"
    using bu_Unserialize_Serialize [of x r] by simp
  have "length (bu_limbs n t) = n" for n t by (induction n arbitrary: t) auto
  then show "bu_Unserialize 8 s = Some (x, r) \<Longrightarrow> s = bu_Serialize x @ r \<and> length x = 8"
    by (auto simp: bu_Unserialize_def take_bytes_Some bu_Serialize_limbs split: option.splits)
qed

section \<open>Byte vectors\<close>

lemma read_blocks_eq:
  "read_blocks nSize v s =
     (if length v < nSize
      then map_option (\<lambda>(xs, r). (v @ xs, r)) (take_bytes (nSize - length v) s) else Some (v, s))"
proof (induction nSize v s rule: read_blocks.induct)
  case (1 nSize v s)
  show ?case
  proof (cases "length v < nSize")
    case True
    let ?k = "min (nSize - length v) (1 + 4999999)"
    show ?thesis
    proof (cases "length s < ?k")
      case L: True
      then show ?thesis using True by (subst read_blocks.simps) (simp add: take_bytes_def)
    next
      case L: False
      have IH: "read_blocks nSize (v @ take ?k s) (drop ?k s) =
          (if length (v @ take ?k s) < nSize
           then map_option (\<lambda>(xs, r). ((v @ take ?k s) @ xs, r))
             (take_bytes (nSize - length (v @ take ?k s)) (drop ?k s))
           else Some (v @ take ?k s, drop ?k s))"
        by (rule "1" [OF True]) (use L in \<open>simp_all add: take_bytes_def\<close>)
      have "read_blocks nSize v s = read_blocks nSize (v @ take ?k s) (drop ?k s)"
        using True L by (subst read_blocks.simps) (auto simp: take_bytes_def)
      also have "\<dots> = map_option (\<lambda>(xs, r). (v @ xs, r)) (take_bytes (nSize - length v) s)"
        unfolding IH using True L
        by (auto simp: take_bytes_def min_def take_add [symmetric] split: if_splits)
      finally show ?thesis using True by simp
    qed
  qed (simp add: read_blocks.simps)
qed

interpretation bytes_codec: strict_codec Serialize_bytes Unserialize_bytes "\<lambda>v. length v \<le> MAX_SIZE"
proof
  fix x r s
  show "length x \<le> MAX_SIZE \<Longrightarrow> Unserialize_bytes (Serialize_bytes x @ r) = Some (x, r)"
    by (simp add: Unserialize_bytes_def Serialize_bytes_def ReadCompactSize_Write read_blocks_eq)
  show "Unserialize_bytes s = Some (x, r) \<Longrightarrow> s = Serialize_bytes x @ r \<and> length x \<le> MAX_SIZE"
    by (auto simp: Unserialize_bytes_def Serialize_bytes_def read_blocks_eq take_bytes_Some
        split: option.splits if_splits dest!: ReadCompactSize_canonical)
qed

section \<open>Properties\<close>

text \<open>
  \<open>ReadCompactSize\<close> accepts a stream exactly when it starts with what \<open>WriteCompactSize\<close> writes for a size
  within \<open>MAX_SIZE\<close>: the round trip holds and every non-canonical, truncated or oversized encoding is refused.
\<close>

theorem compact_size_codec:
  "ReadCompactSize s = Some (n, r) \<longleftrightarrow> s = WriteCompactSize n @ r \<and> n \<le> MAX_SIZE"
  by (rule compact_codec.dec_iff)

text \<open>
  \<open>ReadVarInt\<close> inverts \<open>WriteVarInt\<close> on every 64-bit value whatever follows in the stream, and the bytes written
  are as many as \<open>GetSizeOfVarInt\<close> says.
\<close>

theorem varint_roundtrip:
  "n < 2 ^ 64 \<Longrightarrow> ReadVarInt 64 0 (WriteVarInt n @ r) = Some (n, r) \<and> length (WriteVarInt n) = GetSizeOfVarInt n"
  by (simp add: varint64.dec_enc length_WriteVarInt)

theorem varint_roundtrip_witness:
  "ReadVarInt 64 0 (WriteVarInt 70000 @ [7]) = Some (70000, [7]) \<and> length (WriteVarInt 70000) = GetSizeOfVarInt 70000"
  by (rule varint_roundtrip) simp

text \<open>
  Reading a byte vector in blocks accepts exactly the streams that start with its serialization, so that a
  length prefix larger than the data left is refused and no data past the vector is consumed.
\<close>

theorem byte_vector_codec:
  "Unserialize_bytes s = Some (v, r) \<longleftrightarrow> s = Serialize_bytes v @ r \<and> length v \<le> MAX_SIZE"
  by (rule bytes_codec.dec_iff)

end
