(* ===== verification/Script.thy ===== *)
theory Script
  imports Serialize
begin

text \<open>
  Scripts (\<open>src/script/script.h\<close>, \<open>src/script/script.cpp\<close>): the opcode numbers, the script numbers of
  \<open>CScriptNum\<close>, the push operators of \<open>CScript\<close>, the instruction decoder \<open>GetOp2\<close> and the routines
  that walk a script with it.

  A script is its byte list.  An iterator \<open>pc\<close> into a script is the suffix that it points at, \<open>pc >= end()\<close>
  being the empty suffix.  An opcode is the natural number of its byte, as in the \<open>unsigned int opcode\<close> of
  \<open>GetOp2\<close>, so that the enumeration's casts from arbitrary bytes are values too.  A script number is the
  \<open>int64_t m_value\<close> it holds, as an \<open>int\<close>; \<open>scriptnum_error\<close> is the result \<open>None\<close>.
\<close>

type_synonym valtype = bytes
type_synonym CScript = bytes

section \<open>Opcodes\<close>

abbreviation (input) OP_0 :: nat where "OP_0 \<equiv> 0x00"
abbreviation (input) OP_FALSE :: nat where "OP_FALSE \<equiv> OP_0"
abbreviation (input) OP_PUSHDATA1 :: nat where "OP_PUSHDATA1 \<equiv> 0x4c"
abbreviation (input) OP_PUSHDATA2 :: nat where "OP_PUSHDATA2 \<equiv> 0x4d"
abbreviation (input) OP_PUSHDATA4 :: nat where "OP_PUSHDATA4 \<equiv> 0x4e"
abbreviation (input) OP_1NEGATE :: nat where "OP_1NEGATE \<equiv> 0x4f"
abbreviation (input) OP_RESERVED :: nat where "OP_RESERVED \<equiv> 0x50"
abbreviation (input) OP_1 :: nat where "OP_1 \<equiv> 0x51"
abbreviation (input) OP_TRUE :: nat where "OP_TRUE \<equiv> OP_1"
abbreviation (input) OP_2 :: nat where "OP_2 \<equiv> 0x52"
abbreviation (input) OP_3 :: nat where "OP_3 \<equiv> 0x53"
abbreviation (input) OP_4 :: nat where "OP_4 \<equiv> 0x54"
abbreviation (input) OP_5 :: nat where "OP_5 \<equiv> 0x55"
abbreviation (input) OP_6 :: nat where "OP_6 \<equiv> 0x56"
abbreviation (input) OP_7 :: nat where "OP_7 \<equiv> 0x57"
abbreviation (input) OP_8 :: nat where "OP_8 \<equiv> 0x58"
abbreviation (input) OP_9 :: nat where "OP_9 \<equiv> 0x59"
abbreviation (input) OP_10 :: nat where "OP_10 \<equiv> 0x5a"
abbreviation (input) OP_11 :: nat where "OP_11 \<equiv> 0x5b"
abbreviation (input) OP_12 :: nat where "OP_12 \<equiv> 0x5c"
abbreviation (input) OP_13 :: nat where "OP_13 \<equiv> 0x5d"
abbreviation (input) OP_14 :: nat where "OP_14 \<equiv> 0x5e"
abbreviation (input) OP_15 :: nat where "OP_15 \<equiv> 0x5f"
abbreviation (input) OP_16 :: nat where "OP_16 \<equiv> 0x60"
abbreviation (input) OP_NOP :: nat where "OP_NOP \<equiv> 0x61"
abbreviation (input) OP_VER :: nat where "OP_VER \<equiv> 0x62"
abbreviation (input) OP_IF :: nat where "OP_IF \<equiv> 0x63"
abbreviation (input) OP_NOTIF :: nat where "OP_NOTIF \<equiv> 0x64"
abbreviation (input) OP_VERIF :: nat where "OP_VERIF \<equiv> 0x65"
abbreviation (input) OP_VERNOTIF :: nat where "OP_VERNOTIF \<equiv> 0x66"
abbreviation (input) OP_ELSE :: nat where "OP_ELSE \<equiv> 0x67"
abbreviation (input) OP_ENDIF :: nat where "OP_ENDIF \<equiv> 0x68"
abbreviation (input) OP_VERIFY :: nat where "OP_VERIFY \<equiv> 0x69"
abbreviation (input) OP_RETURN :: nat where "OP_RETURN \<equiv> 0x6a"
abbreviation (input) OP_TOALTSTACK :: nat where "OP_TOALTSTACK \<equiv> 0x6b"
abbreviation (input) OP_FROMALTSTACK :: nat where "OP_FROMALTSTACK \<equiv> 0x6c"
abbreviation (input) OP_2DROP :: nat where "OP_2DROP \<equiv> 0x6d"
abbreviation (input) OP_2DUP :: nat where "OP_2DUP \<equiv> 0x6e"
abbreviation (input) OP_3DUP :: nat where "OP_3DUP \<equiv> 0x6f"
abbreviation (input) OP_2OVER :: nat where "OP_2OVER \<equiv> 0x70"
abbreviation (input) OP_2ROT :: nat where "OP_2ROT \<equiv> 0x71"
abbreviation (input) OP_2SWAP :: nat where "OP_2SWAP \<equiv> 0x72"
abbreviation (input) OP_IFDUP :: nat where "OP_IFDUP \<equiv> 0x73"
abbreviation (input) OP_DEPTH :: nat where "OP_DEPTH \<equiv> 0x74"
abbreviation (input) OP_DROP :: nat where "OP_DROP \<equiv> 0x75"
abbreviation (input) OP_DUP :: nat where "OP_DUP \<equiv> 0x76"
abbreviation (input) OP_NIP :: nat where "OP_NIP \<equiv> 0x77"
abbreviation (input) OP_OVER :: nat where "OP_OVER \<equiv> 0x78"
abbreviation (input) OP_PICK :: nat where "OP_PICK \<equiv> 0x79"
abbreviation (input) OP_ROLL :: nat where "OP_ROLL \<equiv> 0x7a"
abbreviation (input) OP_ROT :: nat where "OP_ROT \<equiv> 0x7b"
abbreviation (input) OP_SWAP :: nat where "OP_SWAP \<equiv> 0x7c"
abbreviation (input) OP_TUCK :: nat where "OP_TUCK \<equiv> 0x7d"
abbreviation (input) OP_CAT :: nat where "OP_CAT \<equiv> 0x7e"
abbreviation (input) OP_SUBSTR :: nat where "OP_SUBSTR \<equiv> 0x7f"
abbreviation (input) OP_LEFT :: nat where "OP_LEFT \<equiv> 0x80"
abbreviation (input) OP_RIGHT :: nat where "OP_RIGHT \<equiv> 0x81"
abbreviation (input) OP_SIZE :: nat where "OP_SIZE \<equiv> 0x82"
abbreviation (input) OP_INVERT :: nat where "OP_INVERT \<equiv> 0x83"
abbreviation (input) OP_AND :: nat where "OP_AND \<equiv> 0x84"
abbreviation (input) OP_OR :: nat where "OP_OR \<equiv> 0x85"
abbreviation (input) OP_XOR :: nat where "OP_XOR \<equiv> 0x86"
abbreviation (input) OP_EQUAL :: nat where "OP_EQUAL \<equiv> 0x87"
abbreviation (input) OP_EQUALVERIFY :: nat where "OP_EQUALVERIFY \<equiv> 0x88"
abbreviation (input) OP_RESERVED1 :: nat where "OP_RESERVED1 \<equiv> 0x89"
abbreviation (input) OP_RESERVED2 :: nat where "OP_RESERVED2 \<equiv> 0x8a"
abbreviation (input) OP_1ADD :: nat where "OP_1ADD \<equiv> 0x8b"
abbreviation (input) OP_1SUB :: nat where "OP_1SUB \<equiv> 0x8c"
abbreviation (input) OP_2MUL :: nat where "OP_2MUL \<equiv> 0x8d"
abbreviation (input) OP_2DIV :: nat where "OP_2DIV \<equiv> 0x8e"
abbreviation (input) OP_NEGATE :: nat where "OP_NEGATE \<equiv> 0x8f"
abbreviation (input) OP_ABS :: nat where "OP_ABS \<equiv> 0x90"
abbreviation (input) OP_NOT :: nat where "OP_NOT \<equiv> 0x91"
abbreviation (input) OP_0NOTEQUAL :: nat where "OP_0NOTEQUAL \<equiv> 0x92"
abbreviation (input) OP_ADD :: nat where "OP_ADD \<equiv> 0x93"
abbreviation (input) OP_SUB :: nat where "OP_SUB \<equiv> 0x94"
abbreviation (input) OP_MUL :: nat where "OP_MUL \<equiv> 0x95"
abbreviation (input) OP_DIV :: nat where "OP_DIV \<equiv> 0x96"
abbreviation (input) OP_MOD :: nat where "OP_MOD \<equiv> 0x97"
abbreviation (input) OP_LSHIFT :: nat where "OP_LSHIFT \<equiv> 0x98"
abbreviation (input) OP_RSHIFT :: nat where "OP_RSHIFT \<equiv> 0x99"
abbreviation (input) OP_BOOLAND :: nat where "OP_BOOLAND \<equiv> 0x9a"
abbreviation (input) OP_BOOLOR :: nat where "OP_BOOLOR \<equiv> 0x9b"
abbreviation (input) OP_NUMEQUAL :: nat where "OP_NUMEQUAL \<equiv> 0x9c"
abbreviation (input) OP_NUMEQUALVERIFY :: nat where "OP_NUMEQUALVERIFY \<equiv> 0x9d"
abbreviation (input) OP_NUMNOTEQUAL :: nat where "OP_NUMNOTEQUAL \<equiv> 0x9e"
abbreviation (input) OP_LESSTHAN :: nat where "OP_LESSTHAN \<equiv> 0x9f"
abbreviation (input) OP_GREATERTHAN :: nat where "OP_GREATERTHAN \<equiv> 0xa0"
abbreviation (input) OP_LESSTHANOREQUAL :: nat where "OP_LESSTHANOREQUAL \<equiv> 0xa1"
abbreviation (input) OP_GREATERTHANOREQUAL :: nat where "OP_GREATERTHANOREQUAL \<equiv> 0xa2"
abbreviation (input) OP_MIN :: nat where "OP_MIN \<equiv> 0xa3"
abbreviation (input) OP_MAX :: nat where "OP_MAX \<equiv> 0xa4"
abbreviation (input) OP_WITHIN :: nat where "OP_WITHIN \<equiv> 0xa5"
abbreviation (input) OP_RIPEMD160 :: nat where "OP_RIPEMD160 \<equiv> 0xa6"
abbreviation (input) OP_SHA1 :: nat where "OP_SHA1 \<equiv> 0xa7"
abbreviation (input) OP_SHA256 :: nat where "OP_SHA256 \<equiv> 0xa8"
abbreviation (input) OP_HASH160 :: nat where "OP_HASH160 \<equiv> 0xa9"
abbreviation (input) OP_HASH256 :: nat where "OP_HASH256 \<equiv> 0xaa"
abbreviation (input) OP_CODESEPARATOR :: nat where "OP_CODESEPARATOR \<equiv> 0xab"
abbreviation (input) OP_CHECKSIG :: nat where "OP_CHECKSIG \<equiv> 0xac"
abbreviation (input) OP_CHECKSIGVERIFY :: nat where "OP_CHECKSIGVERIFY \<equiv> 0xad"
abbreviation (input) OP_CHECKMULTISIG :: nat where "OP_CHECKMULTISIG \<equiv> 0xae"
abbreviation (input) OP_CHECKMULTISIGVERIFY :: nat where "OP_CHECKMULTISIGVERIFY \<equiv> 0xaf"
abbreviation (input) OP_NOP1 :: nat where "OP_NOP1 \<equiv> 0xb0"
abbreviation (input) OP_NOP2 :: nat where "OP_NOP2 \<equiv> 0xb1"
abbreviation (input) OP_NOP3 :: nat where "OP_NOP3 \<equiv> 0xb2"
abbreviation (input) OP_NOP4 :: nat where "OP_NOP4 \<equiv> 0xb3"
abbreviation (input) OP_NOP5 :: nat where "OP_NOP5 \<equiv> 0xb4"
abbreviation (input) OP_NOP6 :: nat where "OP_NOP6 \<equiv> 0xb5"
abbreviation (input) OP_NOP7 :: nat where "OP_NOP7 \<equiv> 0xb6"
abbreviation (input) OP_NOP8 :: nat where "OP_NOP8 \<equiv> 0xb7"
abbreviation (input) OP_NOP9 :: nat where "OP_NOP9 \<equiv> 0xb8"
abbreviation (input) OP_NOP10 :: nat where "OP_NOP10 \<equiv> 0xb9"
abbreviation (input) OP_PROOFOFSTAKE :: nat where "OP_PROOFOFSTAKE \<equiv> 0xc0"
abbreviation (input) OP_ZEROCOINMINT :: nat where "OP_ZEROCOINMINT \<equiv> 0xc1"
abbreviation (input) OP_ZEROCOINSPEND :: nat where "OP_ZEROCOINSPEND \<equiv> 0xc2"
abbreviation (input) OP_SMALLINTEGER :: nat where "OP_SMALLINTEGER \<equiv> 0xfa"
abbreviation (input) OP_PUBKEYS :: nat where "OP_PUBKEYS \<equiv> 0xfb"
abbreviation (input) OP_PUBKEYHASH :: nat where "OP_PUBKEYHASH \<equiv> 0xfd"
abbreviation (input) OP_PUBKEY :: nat where "OP_PUBKEY \<equiv> 0xfe"
abbreviation (input) OP_INVALIDOPCODE :: nat where "OP_INVALIDOPCODE \<equiv> 0xff"

definition MAX_SCRIPT_ELEMENT_SIZE :: nat where
  "MAX_SCRIPT_ELEMENT_SIZE = 520"

section \<open>Script numbers\<close>

definition nMaxNumSize :: nat where
  "nMaxNumSize = 4"

fun abs_bytes :: "nat \<Rightarrow> bytes" where
  "abs_bytes absvalue = (if absvalue = 0 then [] else of_nat (absvalue mod 256) # abs_bytes (absvalue div 256))"

declare abs_bytes.simps [simp del]

definition ScriptNum_serialize :: "int \<Rightarrow> valtype" where
  "ScriptNum_serialize value =
     (if value = 0 then []
      else let neg = value < 0; result = abs_bytes (nat \<bar>value\<bar>)
           in if 0x80 \<le> unat (last result) then result @ [if neg then 0x80 else 0]
              else if neg then butlast result @ [last result + 0x80]
              else result)"

definition set_vch :: "valtype \<Rightarrow> int" where
  "set_vch vch =
     (if vch = [] then 0
      else let result = int (le_nat vch)
           in if 0x80 \<le> unat (last vch) then - (result - 0x80 * 256 ^ (length vch - 1)) else result)"

definition CScriptNum :: "valtype \<Rightarrow> bool \<Rightarrow> int option" where
  "CScriptNum vch fRequireMinimal =
     (if length vch > nMaxNumSize then None
      else if fRequireMinimal \<and> length vch > 0 \<and> unat (last vch) mod 0x80 = 0 \<and>
              (length vch \<le> 1 \<or> unat (vch ! (length vch - 2)) < 0x80) then None
      else Some (set_vch vch))"

definition getint :: "int \<Rightarrow> int" where
  "getint m_value = (if m_value > int32_max then int32_max else if m_value < int32_min then int32_min else m_value)"

section \<open>Pushing onto a script\<close>

definition push_data :: "valtype \<Rightarrow> CScript" where
  "push_data b =
     (if length b < OP_PUSHDATA1 then [of_nat (length b)]
      else if length b \<le> 0xff then [of_nat OP_PUSHDATA1, of_nat (length b)]
      else if length b \<le> 0xffff then of_nat OP_PUSHDATA2 # to_le 2 (length b)
      else of_nat OP_PUSHDATA4 # to_le 4 (length b)) @ b"

definition push_opcode :: "nat \<Rightarrow> CScript option" where
  "push_opcode opcode = (if opcode > 0xff then None else Some [of_nat opcode])"

definition push_int64 :: "int \<Rightarrow> CScript" where
  "push_int64 n =
     (if n = -1 \<or> (1 \<le> n \<and> n \<le> 16) then [of_int (n + (int OP_1 - 1))]
      else if n = 0 then [of_nat OP_0]
      else push_data (ScriptNum_serialize n))"

definition DecodeOP_N :: "nat \<Rightarrow> nat option" where
  "DecodeOP_N opcode =
     (if opcode = OP_0 then Some 0
      else if OP_1 \<le> opcode \<and> opcode \<le> OP_16 then Some (opcode - (OP_1 - 1)) else None)"

definition EncodeOP_N :: "int \<Rightarrow> nat option" where
  "EncodeOP_N n =
     (if 0 \<le> n \<and> n \<le> 16 then Some (if n = 0 then OP_0 else nat (int OP_1 + n - 1)) else None)"

section \<open>The instruction decoder\<close>

text \<open>
  \<open>GetOp2\<close> returns its Boolean, \<open>opcodeRet\<close>, \<open>*pvchRet\<close> and the iterator it leaves behind, also when it
  fails: a failing read leaves \<open>OP_INVALIDOPCODE\<close>, no data, and the iterator past what it has read.
\<close>

definition getop_size :: "nat \<Rightarrow> bytes \<Rightarrow> (nat \<times> bytes) option" where
  "getop_size opcode pc =
     (if opcode < OP_PUSHDATA1 then Some (opcode, pc)
      else let w = (if opcode = OP_PUSHDATA1 then 1 else if opcode = OP_PUSHDATA2 then 2 else 4)
           in if length pc < w then None else Some (le_nat (take w pc), drop w pc))"

definition GetOp2 :: "bytes \<Rightarrow> bool \<times> nat \<times> valtype \<times> bytes" where
  "GetOp2 pc = (case pc of [] \<Rightarrow> (False, OP_INVALIDOPCODE, [], [])
     | b # pc \<Rightarrow>
       (let opcode = unat b
        in if opcode \<le> OP_PUSHDATA4 then
             (case getop_size opcode pc of None \<Rightarrow> (False, OP_INVALIDOPCODE, [], pc)
              | Some (nSize, pc) \<Rightarrow>
                  if length pc < nSize then (False, OP_INVALIDOPCODE, [], pc)
                  else (True, opcode, take nSize pc, drop nSize pc))
           else (True, opcode, [], pc)))"

lemma getop_size_length: "getop_size opcode pc = Some (n, pc') \<Longrightarrow> length pc' \<le> length pc"
  by (auto simp: getop_size_def Let_def split: if_splits)

lemma GetOp2_progress: "pc \<noteq> [] \<Longrightarrow> GetOp2 pc = (ok, opcode, vch, pc') \<Longrightarrow> length pc' < length pc"
  by (cases pc) (auto simp: GetOp2_def Let_def less_Suc_eq_le split: if_splits option.splits dest!: getop_size_length)

lemma GetOp2_True: "GetOp2 pc = (True, opcode, vch, pc') \<Longrightarrow> length pc' < length pc"
  by (cases "pc = []") (auto dest: GetOp2_progress simp: GetOp2_def)

section \<open>Walking a script\<close>

function strip_prefixes :: "bytes \<Rightarrow> bytes \<Rightarrow> nat \<times> bytes" where
  "strip_prefixes b pc =
     (if b \<noteq> [] \<and> length b \<le> length pc \<and> take (length b) pc = b
      then (let (n, r) = strip_prefixes b (drop (length b) pc) in (Suc n, r))
      else (0, pc))"
  by pat_completeness auto
termination by (relation "measure (\<lambda>(b, pc). length pc)") (auto simp flip: length_greater_0_conv)

declare strip_prefixes.simps [simp del]

lemma strip_prefixes_length: "strip_prefixes b pc = (n, r) \<Longrightarrow> n * length b + length r = length pc"
proof (induction b pc arbitrary: n r rule: strip_prefixes.induct)
  case (1 b pc)
  show ?case
  proof (cases "b \<noteq> [] \<and> length b \<le> length pc \<and> take (length b) pc = b")
    case True
    obtain m q where mq: "strip_prefixes b (drop (length b) pc) = (m, q)" by fastforce
    with True 1(2) have "n = Suc m" "r = q" by (auto simp: strip_prefixes.simps [of b pc])
    moreover have "length b \<le> length pc" using True by simp
    ultimately show ?thesis using 1(1) [OF True mq] by simp
  qed (use 1(2) in \<open>auto simp: strip_prefixes.simps [of b pc]\<close>)
qed

function fad_loop :: "CScript \<Rightarrow> bytes \<Rightarrow> nat \<times> CScript" where
  "fad_loop b pc =
     (let (n, pc) = strip_prefixes b pc; (ok, opcode, vch, pc') = GetOp2 pc
      in if ok then (let (m, r) = fad_loop b pc' in (n + m, take (length pc - length pc') pc @ r))
         else (n, pc))"
  by pat_completeness auto
termination
proof (relation "measure (\<lambda>(b, pc). length pc)")
  fix b pc x n pc1 y ok z opcode u vch pc'
  assume "x = strip_prefixes b pc" "(n, pc1) = x" "y = GetOp2 pc1" "(ok, z) = y" "(opcode, u) = z"
    "(vch, pc') = u" "ok"
  then have "strip_prefixes b pc = (n, pc1)" "GetOp2 pc1 = (True, opcode, vch, pc')" by auto
  with strip_prefixes_length [of b pc n pc1] GetOp2_True [of pc1 opcode vch pc']
  show "((b, pc'), (b, pc)) \<in> measure (\<lambda>(b, pc). length pc)" by simp
qed simp

declare fad_loop.simps [simp del]

definition FindAndDelete :: "CScript \<Rightarrow> CScript \<Rightarrow> nat \<times> CScript" where
  "FindAndDelete this b = (if b = [] then (0, this) else fad_loop b this)"

function Find :: "nat \<Rightarrow> bytes \<Rightarrow> nat" where
  "Find op pc =
     (let (ok, opcode, vch, pc') = GetOp2 pc
      in if pc \<noteq> [] \<and> ok then (if opcode = op then 1 else 0) + Find op pc' else 0)"
  by pat_completeness auto
termination by (relation "measure (\<lambda>(op, pc). length pc)") (auto dest: GetOp2_True [OF sym])

function sigop_loop :: "bool \<Rightarrow> nat \<Rightarrow> bytes \<Rightarrow> nat" where
  "sigop_loop fAccurate lastOpcode pc =
     (let (ok, opcode, vch, pc') = GetOp2 pc
      in if pc = [] \<or> \<not> ok then 0
         else (if opcode = OP_CHECKSIG \<or> opcode = OP_CHECKSIGVERIFY then 1
               else if opcode = OP_CHECKMULTISIG \<or> opcode = OP_CHECKMULTISIGVERIFY then
                 (if fAccurate \<and> OP_1 \<le> lastOpcode \<and> lastOpcode \<le> OP_16
                  then the (DecodeOP_N lastOpcode) else 20)
               else 0) + sigop_loop fAccurate opcode pc')"
  by pat_completeness auto
termination by (relation "measure (\<lambda>(f, l, pc). length pc)") (auto dest: GetOp2_True [OF sym])

declare Find.simps [simp del] sigop_loop.simps [simp del]

definition GetSigOpCount :: "bool \<Rightarrow> CScript \<Rightarrow> nat" where
  "GetSigOpCount fAccurate this = sigop_loop fAccurate OP_INVALIDOPCODE this"

definition IsPayToScriptHash :: "CScript \<Rightarrow> bool" where
  "IsPayToScriptHash this \<longleftrightarrow> length this = 23 \<and> unat (this ! 0) = OP_HASH160 \<and>
     unat (this ! 1) = 0x14 \<and> unat (this ! 22) = OP_EQUAL"

definition IsZerocoinMint :: "CScript \<Rightarrow> bool" where
  "IsZerocoinMint this \<longleftrightarrow> length this > 0 \<and> unat (this ! 0) = OP_ZEROCOINMINT"

definition IsZerocoinSpend :: "CScript \<Rightarrow> bool" where
  "IsZerocoinSpend this \<longleftrightarrow> length this > 0 \<and> unat (this ! 0) = OP_ZEROCOINSPEND"

definition IsProofOfStakeMarker :: "CScript \<Rightarrow> bool" where
  "IsProofOfStakeMarker this \<longleftrightarrow> length this > 0 \<and> unat (this ! 0) = OP_PROOFOFSTAKE"

definition IsUnspendable :: "CScript \<Rightarrow> bool" where
  "IsUnspendable this \<longleftrightarrow> length this > 0 \<and> unat (this ! 0) = OP_RETURN"

function IsPushOnly :: "bytes \<Rightarrow> bool" where
  "IsPushOnly pc =
     (let (ok, opcode, vch, pc') = GetOp2 pc
      in if pc = [] then True else if \<not> ok then False else if opcode > OP_16 then False else IsPushOnly pc')"
  by pat_completeness auto
termination by (relation "measure length") (auto dest: GetOp2_True [OF sym])

function last_push :: "valtype \<Rightarrow> bytes \<Rightarrow> valtype option" where
  "last_push data pc =
     (let (ok, opcode, vch, pc') = GetOp2 pc
      in if pc = [] then Some data else if \<not> ok then None else if opcode > OP_16 then None else last_push vch pc')"
  by pat_completeness auto
termination by (relation "measure (\<lambda>(d, pc). length pc)") (auto dest: GetOp2_True [OF sym])

declare IsPushOnly.simps [simp del] last_push.simps [simp del]

definition GetSigOpCount_P2SH :: "CScript \<Rightarrow> CScript \<Rightarrow> nat" where
  "GetSigOpCount_P2SH this scriptSig =
     (if \<not> IsPayToScriptHash this then GetSigOpCount True this
      else case last_push [] scriptSig of None \<Rightarrow> 0 | Some data \<Rightarrow> GetSigOpCount True data)"

text \<open>\<open>IsNormalPaymentScript\<close> ignores the Boolean of \<open>GetOp\<close> and stops at the fifth further instruction.\<close>

function normal_loop :: "nat \<Rightarrow> bytes \<Rightarrow> bool" where
  "normal_loop i pc =
     (if pc = [] then True
      else let (ok, opcode, vch, pc') = GetOp2 pc
           in if i = 0 \<and> opcode \<noteq> OP_DUP then False
              else if i = 1 \<and> opcode \<noteq> OP_HASH160 then False
              else if i = 3 \<and> opcode \<noteq> OP_EQUALVERIFY then False
              else if i = 4 \<and> opcode \<noteq> OP_CHECKSIG then False
              else if i = 5 then False
              else normal_loop (i + 1) pc')"
  by pat_completeness auto
termination by (relation "measure (\<lambda>(i, pc). length pc)") (auto dest: GetOp2_progress [OF _ sym])

declare normal_loop.simps [simp del]

definition IsNormalPaymentScript :: "CScript \<Rightarrow> bool" where
  "IsNormalPaymentScript this \<longleftrightarrow> length this = 25 \<and> normal_loop 0 this"

section \<open>Script numbers are minimal sign-magnitude encodings\<close>

lemma le_nat_snoc: "le_nat (xs @ [t]) = le_nat xs + unat t * 256 ^ length xs"
  by (simp add: le_nat_append mult.commute)

lemma abs_bytes_0 [simp]: "abs_bytes 0 = []"
  by (simp add: abs_bytes.simps)

lemma abs_bytes_eq_Nil [simp]: "abs_bytes n = [] \<longleftrightarrow> n = 0"
  by (simp add: abs_bytes.simps [of n])

lemma le_nat_abs_bytes [simp]: "le_nat (abs_bytes n) = n"
proof (induction n rule: abs_bytes.induct)
  case (1 n)
  then show ?case by (cases "n = 0") (simp_all add: abs_bytes.simps [of n] unat_of_nat_byte)
qed

lemma last_abs_bytes: "n \<noteq> 0 \<Longrightarrow> last (abs_bytes n) \<noteq> 0"
proof (induction n rule: abs_bytes.induct)
  case (1 n)
  show ?case
  proof (cases "n div 256 = 0")
    case True
    with 1(2) have "n mod 256 \<noteq> 0" by (metis div_mult_mod_eq add_cancel_left_left mult_eq_0_iff)
    then have "(of_nat (n mod 256) :: byte) \<noteq> 0" by (metis unat_of_nat_byte mod_mod_trivial unat_0)
    with True 1(2) show ?thesis by (simp add: abs_bytes.simps [of n])
  next
    case False
    with 1 show ?thesis by (simp add: abs_bytes.simps [of n])
  qed
qed

lemma length_abs_bytes: "n < 256 ^ k \<Longrightarrow> length (abs_bytes n) \<le> k"
proof (induction n arbitrary: k rule: abs_bytes.induct)
  case (1 n)
  show ?case
  proof (cases "n = 0")
    case False
    with 1(2) obtain j where k: "k = Suc j" by (cases k) auto
    then have "n div 256 < 256 ^ j" using 1(2) by (simp add: less_mult_imp_div_less mult.commute)
    with 1(1) False k show ?thesis by (simp add: abs_bytes.simps [of n])
  qed simp
qed

lemma abs_bytes_le_nat: "vch = [] \<or> last vch \<noteq> 0 \<Longrightarrow> abs_bytes (le_nat vch) = vch"
proof (induction vch)
  case (Cons t vch)
  have t: "unat t < 256" by (rule unat_byte_lt)
  have ne: "le_nat (t # vch) \<noteq> 0"
  proof (cases vch)
    case Nil with Cons.prems show ?thesis by (simp add: unat_eq_zero)
  next
    case (Cons a list)
    with Cons.IH Cons.prems have "abs_bytes (le_nat vch) \<noteq> []" by auto
    then show ?thesis by auto
  qed
  have "abs_bytes (le_nat vch) = vch" using Cons by (cases vch) auto
  then show ?case using ne t by (subst abs_bytes.simps) simp
qed simp

lemma set_vch_snoc:
  "set_vch (xs @ [t]) = (if 128 \<le> unat t then - 1 else 1) * int (le_nat xs + (unat t mod 128) * 256 ^ length xs)"
proof (cases "128 \<le> unat t")
  case True
  have "unat t < 256" by (rule unat_byte_lt)
  with True have "unat t mod 128 = unat t - 128" by (simp add: mod_if)
  moreover have "unat t * 256 ^ length xs = (unat t - 128) * 256 ^ length xs + 128 * 256 ^ length xs"
    using True by (simp flip: add_mult_distrib)
  ultimately have "int (le_nat (xs @ [t])) - 128 * 256 ^ length xs = int (le_nat xs + (unat t mod 128) * 256 ^ length xs)"
    by (simp only: le_nat_snoc) simp
  then show ?thesis using True by (simp add: set_vch_def Let_def)
qed (simp add: set_vch_def le_nat_snoc Let_def)

lemma unat_plus_128: "unat (t :: byte) < 128 \<Longrightarrow> unat (t + 0x80) = unat t + 128"
  by (simp add: unat_word_ariths)

lemma ScriptNum_serialize_cases:
  assumes "v \<noteq> 0"
  obtains (extend) xs where "xs = abs_bytes (nat \<bar>v\<bar>)" "xs \<noteq> []" "128 \<le> unat (last xs)"
      "ScriptNum_serialize v = xs @ [if v < 0 then 0x80 else 0]"
  | (fold) xs t where "xs @ [t] = abs_bytes (nat \<bar>v\<bar>)" "unat t < 128" "t \<noteq> 0"
      "ScriptNum_serialize v = xs @ [if v < 0 then t + 0x80 else t]"
proof -
  define r where "r = abs_bytes (nat \<bar>v\<bar>)"
  have r: "r \<noteq> []" "last r \<noteq> 0" using assms last_abs_bytes [of "nat \<bar>v\<bar>"] by (auto simp: r_def)
  show thesis
  proof (cases "128 \<le> unat (last r)")
    case True
    with r extend [of r] assms show ?thesis by (simp add: ScriptNum_serialize_def Let_def r_def)
  next
    case False
    have "ScriptNum_serialize v = butlast r @ [if v < 0 then last r + 0x80 else last r]"
      using False r assms by (simp add: ScriptNum_serialize_def Let_def flip: r_def)
    with False r fold [of "butlast r" "last r"] show ?thesis by (simp add: r_def)
  qed
qed

lemma set_vch_serialize: "set_vch (ScriptNum_serialize v) = v"
proof (cases "v = 0")
  case False
  then show ?thesis
  proof (cases rule: ScriptNum_serialize_cases)
    case (extend xs)
    then have "int (le_nat xs) = \<bar>v\<bar>" by simp
    with extend show ?thesis by (simp add: set_vch_snoc)
  next
    case (fold xs t)
    then have "int (le_nat xs + unat t * 256 ^ length xs) = \<bar>v\<bar>"
      using le_nat_abs_bytes [of "nat \<bar>v\<bar>"] fold(1) by (simp flip: le_nat_snoc)
    moreover have "set_vch (ScriptNum_serialize v) =
        (if v < 0 then - 1 else 1) * int (le_nat xs + unat t * 256 ^ length xs)"
      using fold(2) unfolding fold(4) set_vch_snoc by (simp add: unat_plus_128)
    ultimately show ?thesis by simp
  qed
qed (simp add: ScriptNum_serialize_def set_vch_def)

definition minimal_num :: "valtype \<Rightarrow> bool" where
  "minimal_num vch \<longleftrightarrow> (vch = [] \<or> unat (last vch) mod 0x80 \<noteq> 0 \<or>
     (1 < length vch \<and> 0x80 \<le> unat (vch ! (length vch - 2))))"

lemma minimal_serialize: "minimal_num (ScriptNum_serialize v)"
proof (cases "v = 0")
  case False
  then show ?thesis
  proof (cases rule: ScriptNum_serialize_cases)
    case (extend xs)
    then have "xs ! (length xs - 1) = last xs" by (simp add: last_conv_nth)
    with extend show ?thesis by (simp add: minimal_num_def nth_append)
  next
    case (fold xs t)
    then have "unat t \<noteq> 0" by (simp add: unat_eq_zero)
    with fold show ?thesis by (simp add: minimal_num_def unat_plus_128)
  qed
qed (simp add: ScriptNum_serialize_def minimal_num_def)

lemma serialize_set_vch: "minimal_num vch \<Longrightarrow> ScriptNum_serialize (set_vch vch) = vch"
proof (cases vch rule: rev_cases)
  case (snoc xs t)
  assume min: "minimal_num vch"
  have t: "unat t < 256" by (rule unat_byte_lt)
  show ?thesis
  proof (cases "unat t mod 128 = 0")
    case True
    with min snoc have xs: "xs \<noteq> []" "128 \<le> unat (last xs)"
      by (auto simp: minimal_num_def nth_append last_conv_nth split: if_splits)
    then have "last xs \<noteq> 0" by auto
    then have abs: "abs_bytes (le_nat xs) = xs" by (simp add: abs_bytes_le_nat)
    have pos: "le_nat xs \<noteq> 0" using xs abs by (metis abs_bytes_0)
    have "unat t = 0 \<or> unat t = 128" using True t by presburger
    then have "t = 0 \<or> t = 0x80" by (auto simp: unat_eq_byte)
    then show ?thesis using snoc abs pos xs by (auto simp: set_vch_snoc ScriptNum_serialize_def Let_def)
  next
    case False
    define u :: byte where "u = of_nat (unat t mod 128)"
    have u: "unat u = unat t mod 128" by (simp add: u_def unat_of_nat_byte mod_less less_trans [of _ 128])
    then have u0: "u \<noteq> 0" "unat u < 128" using False by auto
    have abs: "abs_bytes (le_nat (xs @ [u])) = xs @ [u]" using u0 by (simp add: abs_bytes_le_nat)
    have pos: "le_nat (xs @ [u]) \<noteq> 0" using abs by (metis abs_bytes_0 snoc_eq_iff_butlast)
    have "int (le_nat (xs @ [u])) = int (le_nat xs + unat t mod 128 * 256 ^ length xs)" by (simp add: le_nat_snoc u)
    then have v: "set_vch vch = (if 128 \<le> unat t then - 1 else 1) * int (le_nat (xs @ [u]))"
      using snoc by (simp only: set_vch_snoc)
    have "t = (if 128 \<le> unat t then u + 0x80 else u)"
    proof (cases "128 \<le> unat t")
      case True
      then have "unat t mod 128 = unat t - 128" using t by (simp add: mod_if)
      then have "unat (u + 0x80) = unat t" using True u u0 by (simp add: unat_plus_128)
      then show ?thesis using True by (simp add: word_unat_eq_iff)
    qed (use u in \<open>simp add: unat_eq_byte\<close>)
    then show ?thesis using snoc abs pos u0 unfolding v by (auto simp: ScriptNum_serialize_def Let_def)
  qed
qed (simp add: set_vch_def ScriptNum_serialize_def)

lemma set_vch_bound: "length vch \<le> 4 \<Longrightarrow> \<bar>set_vch vch\<bar> < 2 ^ 31"
proof (cases vch rule: rev_cases)
  case (snoc xs t)
  assume "length vch \<le> 4"
  with snoc have xs: "length xs \<le> 3" by simp
  have "le_nat xs + (unat t mod 128) * 256 ^ length xs < 256 ^ length xs + 127 * 256 ^ length xs"
    using le_nat_lt [of xs] by (intro add_less_le_mono mult_right_mono) auto
  also have "\<dots> = 128 * 256 ^ length xs" by simp
  also have "\<dots> \<le> 128 * 256 ^ 3" using xs by (intro mult_left_mono power_increasing) auto
  finally have "le_nat xs + (unat t mod 128) * 256 ^ length xs < 2 ^ 31" by simp
  then have "int (le_nat xs + (unat t mod 128) * 256 ^ length xs) < int (2 ^ 31)" by (simp only: of_nat_less_iff)
  moreover have "\<bar>(if 128 \<le> unat t then - 1 else 1) * int n\<bar> = int n" for n by simp
  ultimately show ?thesis unfolding snoc set_vch_snoc by (simp only:) simp
qed (simp add: set_vch_def)

lemma length_ScriptNum_serialize: "\<bar>v\<bar> < 2 ^ 31 \<Longrightarrow> length (ScriptNum_serialize v) \<le> 4"
proof (cases "v = 0")
  case False
  assume v: "\<bar>v\<bar> < 2 ^ 31"
  then have len: "length (abs_bytes (nat \<bar>v\<bar>)) \<le> 4" by (intro length_abs_bytes) simp
  from False show ?thesis
  proof (cases rule: ScriptNum_serialize_cases)
    case (extend xs)
    have "length xs \<noteq> 4"
    proof
      assume 4: "length xs = 4"
      then obtain ys t where ys: "xs = ys @ [t]" "length ys = 3" by (cases xs rule: rev_cases) auto
      have "128 * 256 ^ 3 \<le> unat t * 256 ^ 3" using extend(3) ys by (intro mult_right_mono) auto
      also have "\<dots> \<le> le_nat xs" using ys by (simp add: le_nat_snoc)
      finally show False using extend(1) v by simp
    qed
    with extend len show ?thesis by simp
  next
    case (fold xs t)
    with len show ?thesis by (metis length_append_singleton)
  qed
qed (simp add: ScriptNum_serialize_def)

lemma CScriptNum_iff: "CScriptNum vch True = Some v \<longleftrightarrow> vch = ScriptNum_serialize v \<and> \<bar>v\<bar> < 2 ^ 31"
proof -
  have "CScriptNum vch True = (if length vch \<le> 4 \<and> minimal_num vch then Some (set_vch vch) else None)"
    by (auto simp: CScriptNum_def nMaxNumSize_def minimal_num_def)
  then show ?thesis
    using serialize_set_vch [of vch] set_vch_bound [of vch] length_ScriptNum_serialize [of v]
      minimal_serialize [of v] set_vch_serialize [of v] by auto
qed


section \<open>Instructions as a codec\<close>

text \<open>
  The bytes of an instruction, and which pairs of an opcode and its immediate data are instructions: this is
  the inverse of the decoder, so that the decoder is an interpretation of the codec contract.
\<close>

fun op_bytes :: "nat \<times> valtype \<Rightarrow> CScript" where
  "op_bytes (opcode, vch) = of_nat opcode #
     (if opcode = OP_PUSHDATA1 then to_le 1 (length vch)
      else if opcode = OP_PUSHDATA2 then to_le 2 (length vch)
      else if opcode = OP_PUSHDATA4 then to_le 4 (length vch) else []) @ vch"

fun valid_op :: "nat \<times> valtype \<Rightarrow> bool" where
  "valid_op (opcode, vch) \<longleftrightarrow> opcode < 256 \<and>
     (if opcode < OP_PUSHDATA1 then length vch = opcode
      else if opcode = OP_PUSHDATA1 then length vch < 256
      else if opcode = OP_PUSHDATA2 then length vch < 256 ^ 2
      else if opcode = OP_PUSHDATA4 then length vch < 256 ^ 4
      else vch = [])"

definition get_op :: "bytes \<Rightarrow> ((nat \<times> valtype) \<times> bytes) option" where
  "get_op pc = (case GetOp2 pc of (ok, opcode, vch, pc') \<Rightarrow> if ok then Some ((opcode, vch), pc') else None)"

lemma getop_size_iff:
  "opcode \<le> OP_PUSHDATA4 \<Longrightarrow> getop_size opcode pc = Some (n, r) \<longleftrightarrow>
     (if opcode < OP_PUSHDATA1 then n = opcode \<and> r = pc
      else let w = (if opcode = OP_PUSHDATA1 then 1 else if opcode = OP_PUSHDATA2 then 2 else 4)
           in n < 256 ^ w \<and> pc = to_le w n @ r)"
proof -
  assume op: "opcode \<le> OP_PUSHDATA4"
  have *: "(w \<le> length pc \<and> n = le_nat (take w pc) \<and> r = drop w pc) \<longleftrightarrow> n < 256 ^ w \<and> pc = to_le w n @ r" for w
    using to_le_le_nat [of "take w pc"] le_nat_lt [of "take w pc"]
    by (auto simp: le_nat_to_le min_def split: if_splits)
  show ?thesis
    by (auto simp: getop_size_def Let_def * [symmetric] not_less)
qed

lemma get_op_iff: "get_op s = Some (x, r) \<longleftrightarrow> s = op_bytes x @ r \<and> valid_op x"
proof (cases s)
  case Nil
  then show ?thesis by (cases x) (auto simp: get_op_def GetOp2_def)
next
  case (Cons b pc)
  obtain opcode vch where x: "x = (opcode, vch)" by (cases x)
  have b: "unat b < 256" by (rule unat_byte_lt)
  have hd: "b = of_nat opcode \<and> opcode < 256 \<longleftrightarrow> unat b = opcode"
    using b by (auto simp: unat_of_nat_byte)
  show ?thesis
  proof (cases "unat b \<le> OP_PUSHDATA4")
    case False
    then show ?thesis using Cons x b hd by (auto simp: get_op_def GetOp2_def Let_def split: if_splits)
  next
    case True
    have "get_op s = Some (x, r) \<longleftrightarrow> unat b = opcode \<and>
        (\<exists>n q. getop_size (unat b) pc = Some (n, q) \<and> q = vch @ r \<and> length vch = n)"
      using True Cons x
      by (auto simp: get_op_def GetOp2_def Let_def split: option.splits if_splits)
    also have "\<dots> \<longleftrightarrow> s = op_bytes x @ r \<and> valid_op x"
      using True Cons x hd by (auto simp: getop_size_iff Let_def split: if_splits)
    finally show ?thesis .
  qed
qed

interpretation op_codec: strict_codec op_bytes get_op valid_op
  by unfold_locales (auto simp: get_op_iff)


definition valid_ops :: "(nat \<times> valtype) list \<Rightarrow> bool" where
  "valid_ops ops \<longleftrightarrow> list_all valid_op ops"

definition script_of_ops :: "(nat \<times> valtype) list \<Rightarrow> CScript" where
  "script_of_ops ops = concat (map op_bytes ops)"

lemma op_bytes_not_Nil [simp]: "op_bytes x \<noteq> []"
  by (cases x) simp

lemma push_data_op:
  assumes "length b < 2 ^ 32"
  shows "\<exists>opcode. push_data b = op_bytes (opcode, b) \<and> valid_op (opcode, b) \<and> opcode \<le> OP_PUSHDATA4"
proof -
  consider "length b < 76" | "76 \<le> length b" "length b \<le> 255" | "255 < length b" "length b \<le> 65535"
    | "65535 < length b" by linarith
  then show ?thesis
  proof cases
    case 1 then show ?thesis by (intro exI [of _ "length b"]) (simp add: push_data_def)
  next
    case 2 then show ?thesis by (intro exI [of _ OP_PUSHDATA1]) (simp add: push_data_def)
  next
    case 3 then show ?thesis by (intro exI [of _ OP_PUSHDATA2]) (simp add: push_data_def)
  next
    case 4 then show ?thesis using assms by (intro exI [of _ OP_PUSHDATA4]) (simp add: push_data_def)
  qed
qed

declare op_bytes.simps [simp del] valid_op.simps [simp del]

lemma GetOp2_op_bytes [simp]: "valid_op (opcode, vch) \<Longrightarrow> GetOp2 (op_bytes (opcode, vch) @ r) = (True, opcode, vch, r)"
  using op_codec.dec_enc [of "(opcode, vch)" r]
  by (auto simp: get_op_def split: prod.splits if_splits)

lemma GetOp2_decode: "GetOp2 pc = (True, opcode, vch, r) \<Longrightarrow> pc = op_bytes (opcode, vch) @ r \<and> valid_op (opcode, vch)"
  using get_op_iff [of pc "(opcode, vch)" r] by (simp add: get_op_def)

lemma walk_Cons:
  assumes "valid_op (opcode, vch)"
  shows "IsPushOnly (op_bytes (opcode, vch) @ r) \<longleftrightarrow> opcode \<le> OP_16 \<and> IsPushOnly r"
    and "Find op (op_bytes (opcode, vch) @ r) = (if opcode = op then 1 else 0) + Find op r"
  using assms
  by (simp_all add: IsPushOnly.simps [of "op_bytes (opcode, vch) @ r"] Find.simps [of op "op_bytes (opcode, vch) @ r"] not_less)

lemma IsPushOnly_Nil [simp]: "IsPushOnly []"
  by (simp add: IsPushOnly.simps GetOp2_def)

lemma IsPushOnly_iff:
  "IsPushOnly s \<longleftrightarrow> (\<exists>ops. s = script_of_ops ops \<and> valid_ops ops \<and> (\<forall>(opcode, vch) \<in> set ops. opcode \<le> OP_16))"
proof
  show "IsPushOnly s \<Longrightarrow> \<exists>ops. s = script_of_ops ops \<and> valid_ops ops \<and> (\<forall>(opcode, vch) \<in> set ops. opcode \<le> OP_16)"
  proof (induction s rule: IsPushOnly.induct)
    case (1 pc)
    show ?case
    proof (cases "pc = []")
      case True then show ?thesis by (intro exI [of _ "[]"]) (simp add: script_of_ops_def valid_ops_def)
    next
      case False
      obtain ok opcode vch pc' where g: "GetOp2 pc = (ok, opcode, vch, pc')" by (metis prod_cases4)
      with 1(2) False have *: ok "opcode \<le> OP_16" "IsPushOnly pc'"
        by (auto simp: IsPushOnly.simps [of pc] split: if_splits)
      with 1(1) g False obtain ops where ops: "pc' = script_of_ops ops" "valid_ops ops"
        "\<forall>(opcode, vch) \<in> set ops. opcode \<le> OP_16" by fastforce
      from g * have "pc = op_bytes (opcode, vch) @ pc'" "valid_op (opcode, vch)" by (auto dest!: GetOp2_decode)
      with ops * show ?thesis
        by (intro exI [of _ "(opcode, vch) # ops"]) (simp add: script_of_ops_def valid_ops_def)
    qed
  qed
  have "valid_ops ops \<Longrightarrow> \<forall>(opcode, vch) \<in> set ops. opcode \<le> OP_16 \<Longrightarrow> IsPushOnly (script_of_ops ops)" for ops
    by (induction ops) (auto simp: script_of_ops_def valid_ops_def walk_Cons)
  then show "\<exists>ops. s = script_of_ops ops \<and> valid_ops ops \<and> (\<forall>(opcode, vch) \<in> set ops. opcode \<le> OP_16) \<Longrightarrow> IsPushOnly s"
    by auto
qed

section \<open>Signature operation counts and FindAndDelete\<close>

lemma sigop_step: "(if fAccurate \<and> OP_1 \<le> l \<and> l \<le> OP_16 then the (DecodeOP_N l) else 20) \<le> 20"
  by (auto simp: DecodeOP_N_def)

lemma sigop_loop_bound: "sigop_loop fAccurate l pc \<le> 20 * length pc"
proof (induction fAccurate l pc rule: sigop_loop.induct)
  case (1 f l pc)
  obtain ok opcode vch pc' where g: "GetOp2 pc = (ok, opcode, vch, pc')" by (metis prod_cases4)
  show ?case
  proof (cases "pc = [] \<or> \<not> ok")
    case False
    then have "sigop_loop f opcode pc' \<le> 20 * length pc'" using 1 g by auto
    moreover have "length pc' < length pc" using GetOp2_True g False by auto
    moreover have "sigop_loop f l pc \<le> 20 + sigop_loop f opcode pc'"
      using False g sigop_step [of f l] by (simp add: sigop_loop.simps [of f l pc])
    ultimately show ?thesis by simp
  qed (use g in \<open>simp add: sigop_loop.simps [of f l pc]\<close>)
qed

lemma sigop_loop_accurate: "sigop_loop True l pc \<le> sigop_loop False l pc"
proof (induction True l pc rule: sigop_loop.induct)
  case (1 l pc)
  obtain ok opcode vch pc' where g: "GetOp2 pc = (ok, opcode, vch, pc')" by (metis prod_cases4)
  show ?case
  proof (cases "pc = [] \<or> \<not> ok")
    case False
    then have "sigop_loop True opcode pc' \<le> sigop_loop False opcode pc'" using 1 g by auto
    then show ?thesis
      using False g sigop_step [of True l] by (simp add: sigop_loop.simps [of _ l pc])
  qed (use g in \<open>simp add: sigop_loop.simps [of _ l pc]\<close>)
qed

lemma fad_loop_length: "fad_loop b pc = (n, r) \<Longrightarrow> n * length b + length r = length pc"
proof (induction b pc arbitrary: n r rule: fad_loop.induct)
  case (1 b pc)
  obtain k pc1 where k: "strip_prefixes b pc = (k, pc1)" by fastforce
  obtain ok opcode vch pc' where g: "GetOp2 pc1 = (ok, opcode, vch, pc')" by (metis prod_cases4)
  show ?case
  proof (cases ok)
    case False
    with 1(2) k g strip_prefixes_length [OF k] show ?thesis by (simp add: fad_loop.simps [of b pc])
  next
    case True
    obtain m q where mq: "fad_loop b pc' = (m, q)" by fastforce
    then have "m * length b + length q = length pc'" using 1(1) k g True by auto
    moreover have "length pc' < length pc1" using g True GetOp2_True by auto
    ultimately show ?thesis using 1(2) k g True mq strip_prefixes_length [OF k]
      by (auto simp: fad_loop.simps [of b pc] add_mult_distrib)
  qed
qed

section \<open>Standard templates\<close>

lemma IsNormalPaymentScript_p2pkh:
  "length h = 20 \<Longrightarrow> IsNormalPaymentScript ([of_nat OP_DUP, of_nat OP_HASH160, 20] @ h @ [of_nat OP_EQUALVERIFY, of_nat OP_CHECKSIG])"
  by (simp add: IsNormalPaymentScript_def normal_loop.simps GetOp2_def getop_size_def Let_def)


section \<open>Properties\<close>

text \<open>
  \<open>CScriptNum\<close> with \<open>fRequireMinimal\<close> accepts exactly the byte vectors that \<open>CScriptNum::serialize\<close> produces for
  the numbers of absolute value below two to the 31, and returns that number; without it every vector of at most
  four bytes is read, and a serialized number is read back.
\<close>

theorem script_number_codec:
  "(CScriptNum vch True = Some v \<longleftrightarrow> vch = ScriptNum_serialize v \<and> \<bar>v\<bar> < 2 ^ 31) \<and>
   (CScriptNum w False = None \<longleftrightarrow> 4 < length w) \<and> set_vch (ScriptNum_serialize u) = u"
  by (simp add: CScriptNum_iff set_vch_serialize) (simp add: CScriptNum_def nMaxNumSize_def)

text \<open>
  C3: \<open>GetOp2\<close> succeeds with an opcode, its immediate data and the rest of the script exactly when the script
  starts with the bytes of that instruction, and pushing data with \<open>operator<<\<close> is decoded to the same data.
\<close>

theorem instruction_codec:
  assumes "length b < 2 ^ 32"
  shows "(GetOp2 s = (True, opcode, vch, r) \<longleftrightarrow> s = op_bytes (opcode, vch) @ r \<and> valid_op (opcode, vch)) \<and>
    (\<exists>op \<le> OP_PUSHDATA4. GetOp2 (push_data b @ r) = (True, op, b, r))"
proof -
  from push_data_op [OF assms] obtain op where "push_data b = op_bytes (op, b)" "valid_op (op, b)" "op \<le> OP_PUSHDATA4"
    by auto
  then have "\<exists>op \<le> OP_PUSHDATA4. GetOp2 (push_data b @ r) = (True, op, b, r)" by (intro exI [of _ op]) simp
  then show ?thesis by (auto dest!: GetOp2_decode)
qed

theorem instruction_codec_witness:
  "\<exists>op \<le> OP_PUSHDATA4. GetOp2 (push_data [1, 2, 3] @ [0xac]) = (True, op, [1, 2, 3], [0xac])"
  using instruction_codec [of "[1, 2, 3]" "[]" 0 "[]" "[0xac]"] by simp

text \<open>
  A script is \<open>IsPushOnly\<close> exactly when all of it decodes into instructions whose opcodes are at most \<open>OP_16\<close>.
\<close>

theorem push_only_scripts:
  "IsPushOnly s \<longleftrightarrow> (\<exists>ops. s = script_of_ops ops \<and> valid_ops ops \<and> list_all (\<lambda>(opcode, vch). opcode \<le> OP_16) ops)"
  by (simp add: IsPushOnly_iff list_all_iff)

text \<open>
  The accurate signature operation count never exceeds the legacy count, which is at most twenty per byte of
  the script; and \<open>FindAndDelete\<close> removes exactly the bytes of the occurrences that it counts.
\<close>

theorem sigop_and_delete_bounds:
  "GetSigOpCount True s \<le> GetSigOpCount False s \<and> GetSigOpCount False s \<le> 20 * length s \<and>
   fst (FindAndDelete s b) * length b + length (snd (FindAndDelete s b)) = length s"
  using fad_loop_length [of b s "fst (fad_loop b s)" "snd (fad_loop b s)"]
  by (simp add: GetSigOpCount_def sigop_loop_accurate sigop_loop_bound FindAndDelete_def)

end
