(* ===== verification/Money.thy ===== *)
theory Money
  imports Agouti_Prelude
begin

text \<open>
  Amounts (\<open>src/amount.h\<close>, \<open>src/amount.cpp\<close>) and their text form (\<open>src/utilmoneystr.cpp\<close>).  A \<open>CAmount\<close> is the
  integer value of its \<open>int64_t\<close>; the products with a \<open>size_t\<close> in \<open>CFeeRate\<close> are unsigned 64-bit, and their
  reduction modulo two to the 64 is written out.  A string is a character list without its terminating NUL, and the
  pointer \<open>p\<close> of \<open>ParseMoney\<close> is the suffix that it points at.
\<close>

type_synonym CAmount = int

definition COIN :: CAmount where "COIN = 100000000"
definition CENT :: CAmount where "CENT = 10000000"

section \<open>Fee rates\<close>

definition CFeeRate :: "CAmount \<Rightarrow> nat \<Rightarrow> CAmount" where
  "CFeeRate nFeePaid nSize =
     (if nSize > 0 then wrap64 (((wrap64 (nFeePaid * 1000)) mod 2 ^ 64) div int nSize) else 0)"

definition GetFee :: "CAmount \<Rightarrow> nat \<Rightarrow> CAmount" where
  "GetFee nSatoshisPerK nSize =
     (let nFee = ((nSatoshisPerK mod 2 ^ 64) * int nSize) mod 2 ^ 64 div 1000
      in if nFee = 0 \<and> nSatoshisPerK > 0 then nSatoshisPerK else nFee)"

section \<open>Printing and parsing amounts\<close>

fun trim_count :: "string \<Rightarrow> nat" where
  "trim_count (c0 # c1 # c2 # r) = (if c0 = CHR ''0'' \<and> isdigit c2 then Suc (trim_count (c1 # c2 # r)) else 0)"
| "trim_count _ = 0"

definition FormatMoney :: "CAmount \<Rightarrow> bool \<Rightarrow> string" where
  "FormatMoney n fPlus =
     (let n_abs = (if n > 0 then n else - n);
          quotient = n_abs div COIN;
          remainder = n_abs mod COIN;
          str = dec_nat (nat quotient) @ ''.'' @ dec_pad 8 (nat remainder);
          nTrim = trim_count (rev str);
          str = take (length str - nTrim) str
      in if n < 0 then CHR ''-'' # str else if fPlus \<and> n > 0 then CHR ''+'' # str else str)"

text \<open>\<open>strtoll\<close> in base ten: white space, a sign, then the digits, saturating at the ends of the range.\<close>

definition strtoll :: "string \<Rightarrow> int" where
  "strtoll s =
     (let s = dropWhile isspace s;
          (neg, ds) = (case s of [] \<Rightarrow> (False, []) | c # t \<Rightarrow>
             if c = CHR ''-'' then (True, t) else if c = CHR ''+'' then (False, t) else (False, c # t));
          v = int (dec_val (takeWhile isdigit ds))
      in if neg then max int64_min (- v) else min int64_max v)"

definition atoi64 :: "string \<Rightarrow> int" where
  "atoi64 s = strtoll s"

fun parse_frac :: "int \<Rightarrow> int \<Rightarrow> string \<Rightarrow> int \<times> string" where
  "parse_frac nMult nUnits [] = (nUnits, [])"
| "parse_frac nMult nUnits (c # p) =
     (if isdigit c \<and> nMult > 0 then parse_frac (nMult div 10) (nUnits + nMult * int (digit_val c)) p
      else (nUnits, c # p))"

fun parse_whole :: "string \<Rightarrow> string \<Rightarrow> (string \<times> int \<times> string) option" where
  "parse_whole strWhole [] = Some (strWhole, 0, [])"
| "parse_whole strWhole (c # p) =
     (if c = CHR ''.'' then (let (nUnits, p) = parse_frac (CENT * 10) 0 p in Some (strWhole, nUnits, p))
      else if isspace c then Some (strWhole, 0, c # p)
      else if \<not> isdigit c then None
      else parse_whole (strWhole @ [c]) p)"

definition ParseMoney :: "string \<Rightarrow> CAmount option" where
  "ParseMoney pszIn =
     (case parse_whole [] (dropWhile isspace pszIn) of None \<Rightarrow> None
      | Some (strWhole, nUnits, p) \<Rightarrow>
          if \<not> list_all isspace p then None
          else if length strWhole > 10 then None
          else if nUnits < 0 \<or> nUnits > COIN then None
          else Some (atoi64 strWhole * COIN + nUnits))"

section \<open>Fees\<close>

lemma GetFee_exact:
  assumes "0 \<le> n" "n * int nSize < 2 ^ 64"
  shows "GetFee n nSize = (if n > 0 \<and> n * int nSize < 1000 then n else n * int nSize div 1000)"
proof (cases "nSize = 0")
  case False
  have "n * 1 \<le> n * int nSize" using assms False by (intro mult_left_mono) auto
  then have "n mod 2 ^ 64 = n" using assms by (intro mod_pos_pos_trivial) auto
  moreover have "n * int nSize mod 2 ^ 64 = n * int nSize" using assms by (intro mod_pos_pos_trivial) auto
  moreover have "n * int nSize div 1000 = 0 \<longleftrightarrow> n * int nSize < 1000"
    using assms by (auto simp: zdiv_eq_0_iff)
  ultimately show ?thesis by (simp add: GetFee_def Let_def)
qed (use assms in \<open>simp add: GetFee_def\<close>)

lemma CFeeRate_exact:
  assumes "0 \<le> fee" "fee * 1000 \<le> int64_max" "0 < nSize"
  shows "CFeeRate fee nSize = fee * 1000 div int nSize"
proof -
  have w: "wrap64 (fee * 1000) = fee * 1000" using assms by (intro wrap64_id) auto
  have "fee * 1000 mod 2 ^ 64 = fee * 1000" using assms by (intro mod_pos_pos_trivial) auto
  moreover have "0 \<le> fee * 1000 div int nSize" using assms by (simp add: pos_imp_zdiv_nonneg_iff)
  moreover have "fee * 1000 div int nSize \<le> fee * 1000"
    using assms int_div_less_self [of "fee * 1000" "int nSize"]
    by (cases "fee = 0 \<or> nSize = 1") (auto intro: less_imp_le)
  ultimately show ?thesis using assms w by (simp add: CFeeRate_def wrap64_id)
qed

section \<open>What ParseMoney reads\<close>

lemma isdigit_not_dot [simp]: "isdigit c \<Longrightarrow> c \<noteq> CHR ''.''"
  by (auto simp: isdigit_def)

lemma isdigit_not_space [simp]: "isdigit c \<Longrightarrow> \<not> isspace c"
  by (auto simp: isdigit_def isspace_def)

lemma parse_frac_digits:
  "list_all isdigit ds \<Longrightarrow> length ds \<le> j \<Longrightarrow>
   parse_frac (10 ^ j) u ds = (u + 10 ^ (j + 1 - length ds) * int (dec_val ds), [])"
proof (induction ds arbitrary: j u)
  case (Cons c ds)
  then obtain i where j: "j = Suc i" by (cases j) auto
  with Cons.prems have len: "length ds \<le> i" by simp
  have "(10 :: int) ^ i * 10 = 10 ^ (i + 1 - length ds) * 10 ^ length ds"
    using len by (simp flip: power_add power_Suc2)
  moreover have "parse_frac (10 ^ i) (u + 10 * 10 ^ i * int (digit_val c)) ds =
      (u + 10 * 10 ^ i * int (digit_val c) + 10 ^ (i + 1 - length ds) * int (dec_val ds), [])"
    using Cons.IH [of i] Cons.prems len by simp
  moreover have "parse_frac (10 ^ j) u (c # ds) = parse_frac (10 ^ i) (u + 10 * 10 ^ i * int (digit_val c)) ds"
    using Cons.prems j by simp
  moreover have "10 ^ (j + 1 - length (c # ds)) * int (dec_val (c # ds)) =
      int (digit_val c) * (10 ^ (i + 1 - length ds) * 10 ^ length ds) + 10 ^ (i + 1 - length ds) * int (dec_val ds)"
    by (simp add: j algebra_simps)
  ultimately show ?case by (simp only:) (simp add: mult.commute)
qed simp

lemma parse_whole_digits:
  "list_all isdigit ds \<Longrightarrow> parse_whole w (ds @ CHR ''.'' # p) =
     (let (u, r) = parse_frac (CENT * 10) 0 p in Some (w @ ds, u, r))"
  by (induction ds arbitrary: w) simp_all

lemma strtoll_digits:
  assumes "list_all isdigit ds" "int (dec_val ds) \<le> int64_max"
  shows "strtoll ds = int (dec_val ds)"
proof -
  have tw: "takeWhile isdigit ds = ds" using assms by (simp add: takeWhile_eq_all_conv list_all_iff)
  have "hd ds \<noteq> CHR ''-'' \<and> hd ds \<noteq> CHR ''+''" if "ds \<noteq> []"
    using that assms by (cases ds) (auto simp: isdigit_def)
  moreover have "dropWhile isspace ds = ds" using assms by (cases ds) auto
  ultimately have "strtoll ds = min int64_max (int (dec_val (takeWhile isdigit ds)))"
    by (cases ds) (auto simp only: strtoll_def Let_def split: list.splits, simp_all)
  then show ?thesis using assms(2) tw by simp
qed

lemma trim_count_spec:
  "2 \<le> length xs \<Longrightarrow> trim_count (xs @ CHR ''.'' # rs) + 2 \<le> length xs \<and>
     take (trim_count (xs @ CHR ''.'' # rs)) xs = replicate (trim_count (xs @ CHR ''.'' # rs)) (CHR ''0'')"
proof (induction xs)
  case (Cons c xs)
  show ?case
  proof (cases "length xs = 1")
    case True
    then obtain d where "xs = [d]" by (cases xs) auto
    then show ?thesis by (simp add: isdigit_def)
  next
    case False
    with Cons.prems obtain d e ys where "xs = d # e # ys" by (cases xs; cases "tl xs") auto
    with Cons show ?thesis by simp
  qed
qed simp

lemma FormatMoney_shape:
  assumes "0 \<le> n"
  obtains ds k where "FormatMoney n False = dec_nat (nat (n div COIN)) @ CHR ''.'' # ds"
    "list_all isdigit ds" "length ds + k = 8" "dec_val ds * 10 ^ k = nat (n mod COIN)"
proof -
  define q r where "q = dec_nat (nat (n div COIN))" and "r = dec_pad 8 (nat (n mod COIN))"
  have "nat (n mod COIN) < 10 ^ 8" by (simp add: COIN_def nat_less_iff)
  then have len: "length r = 8" and dig: "list_all isdigit r" and val: "dec_val r = nat (n mod COIN)"
    by (simp_all add: r_def dec_pad_props)
  define k where "k = trim_count (rev r @ CHR ''.'' # rev q)"
  have k: "k + 2 \<le> 8" "take k (rev r) = replicate k (CHR ''0'')"
    using trim_count_spec [of "rev r" "rev q"] len by (simp_all add: k_def)
  have "drop (8 - k) r = replicate k (CHR ''0'')" using k(2) len
    by (metis length_rev rev_drop rev_replicate rev_rev_ident rev_swap take_rev)
  then have split: "r = take (8 - k) r @ replicate k (CHR ''0'')" by (metis append_take_drop_id)
  define str where "str = q @ ''.'' @ r"
  have abs: "(if n > 0 then n else - n) = n" using assms by simp
  have tk: "trim_count (rev str) = k" by (simp add: str_def k_def)
  have "FormatMoney n False = take (length str - k) str"
    using assms unfolding FormatMoney_def Let_def abs q_def [symmetric] r_def [symmetric] str_def [symmetric] tk by simp
  also have "length str - k = length q + Suc (8 - k)" using k len by (simp add: str_def)
  also have "take (length q + Suc (8 - k)) str = q @ CHR ''.'' # take (8 - k) r" by (simp add: str_def)
  finally have "FormatMoney n False = q @ CHR ''.'' # take (8 - k) r" .
  moreover have "list_all isdigit (take (8 - k) r)" using dig by (auto simp: list_all_iff dest: in_set_takeD)
  moreover have "dec_val (take (8 - k) r) * 10 ^ k = nat (n mod COIN)"
    using val split by (metis add.right_neutral dec_val_append dec_val_zeros length_replicate)
  ultimately show thesis using that [of "take (8 - k) r" k] len k by (simp add: q_def)
qed

lemma ParseMoney_FormatMoney:
  assumes "0 \<le> n" "n < 10 ^ 10 * COIN"
  shows "ParseMoney (FormatMoney n False) =
    (if 10 * (n mod COIN) \<le> COIN then Some (n div COIN * COIN + 10 * (n mod COIN)) else None)"
proof -
  from FormatMoney_shape [OF assms(1)] obtain ds k where
    fm: "FormatMoney n False = dec_nat (nat (n div COIN)) @ CHR ''.'' # ds" and
    ds: "list_all isdigit ds" "length ds + k = 8" "dec_val ds * 10 ^ k = nat (n mod COIN)" .
  define q where "q = dec_nat (nat (n div COIN))"
  have q: "list_all isdigit q" "dec_val q = nat (n div COIN)" by (simp_all add: q_def dec_nat_digits)
  have lt: "n div COIN < 10 ^ 10" using assms by (simp add: COIN_def)
  then have "nat (n div COIN) < 10 ^ Suc 9" by simp
  then have len: "length q \<le> 10" using length_dec_nat_le [of "nat (n div COIN)" 9] by (simp add: q_def)
  have at: "atoi64 q = n div COIN"
  proof -
    have "0 \<le> n div COIN" using assms by (simp add: COIN_def)
    then show ?thesis using strtoll_digits [OF q(1)] q(2) lt by (simp add: atoi64_def)
  qed
  have "q \<noteq> []" by (simp add: q_def dec_nat.simps)
  then have "dropWhile isspace (q @ CHR ''.'' # ds) = q @ CHR ''.'' # ds" using q by (cases q) auto
  moreover have "parse_frac (CENT * 10) 0 ds = (10 * (n mod COIN), [])"
  proof -
    have "9 - length ds = Suc k" using ds(2) by simp
    then have "10 ^ (8 + 1 - length ds) * int (dec_val ds) = 10 * int (dec_val ds * 10 ^ k)" by simp
    also have "\<dots> = 10 * (n mod COIN)" using ds(3) by (simp add: COIN_def)
    finally show ?thesis using parse_frac_digits [OF ds(1), of 8 0] ds(2) by (simp add: CENT_def)
  qed
  moreover have "0 \<le> 10 * (n mod COIN)" by (simp add: COIN_def)
  ultimately show ?thesis unfolding fm q_def [symmetric] using q len at
    by (simp add: ParseMoney_def parse_whole_digits)
qed

section \<open>Properties\<close>

text \<open>
  C4: what \<open>ParseMoney\<close> makes of the text that \<open>FormatMoney\<close> prints, for every amount whose whole part has at most ten
  digits: the whole coins are read back, but every decimal digit counts ten times its worth, because the parser
  starts at \<open>CENT * 10\<close> and \<open>CENT\<close> is a tenth of a coin; the text is refused when ten times the fraction exceeds
  a coin.  The amount is read back exactly when it is a whole number of coins.
\<close>

theorem parse_of_format_money:
  assumes "0 \<le> n" "n < 10 ^ 10 * COIN"
  shows "ParseMoney (FormatMoney n False) =
      (if 10 * (n mod COIN) \<le> COIN then Some (n div COIN * COIN + 10 * (n mod COIN)) else None) \<and>
    (ParseMoney (FormatMoney n False) = Some n \<longleftrightarrow> n mod COIN = 0)"
proof -
  have "n div COIN * COIN + 10 * (n mod COIN) = n \<longleftrightarrow> n mod COIN = 0"
    using div_mult_mod_eq [of n COIN] by linarith
  then show ?thesis using ParseMoney_FormatMoney [OF assms] by (auto simp: COIN_def)
qed

theorem parse_of_format_money_witness:
  "ParseMoney (FormatMoney 10000000 False) = Some 100000000 \<and> ParseMoney (FormatMoney 20000000 False) = None \<and>
   ParseMoney (FormatMoney 700000000 False) = Some 700000000"
  using parse_of_format_money [of 10000000] parse_of_format_money [of 20000000] parse_of_format_money [of 700000000]
  by (simp add: COIN_def)

text \<open>
  As long as the unsigned product does not wrap, \<open>GetFee\<close> is the rate times the size over a thousand, rounded
  down, except that a positive rate never yields a zero fee: the whole rate is charged instead.
\<close>

theorem fee_of_rate:
  assumes "0 \<le> rate" "rate * int nSize < 2 ^ 64"
  shows "GetFee rate nSize = (if rate > 0 \<and> rate * int nSize < 1000 then rate else rate * int nSize div 1000) \<and>
    (GetFee rate nSize = 0 \<longleftrightarrow> rate = 0)"
  using assms by (auto simp: GetFee_exact zdiv_eq_0_iff)

theorem fee_of_rate_witness: "GetFee 10000 250 = 2500 \<and> GetFee 3 10 = 3"
  using fee_of_rate [of 10000 250] fee_of_rate [of 3 10] by simp

end
