(* ===== verification/Transaction.thy ===== *)
theory Transaction
  imports Script Money
begin

text \<open>
  Transactions (\<open>src/primitives/transaction.h\<close>, \<open>src/primitives/transaction.cpp\<close>): the outpoint, input, output
  and transaction classes with their serialization, the coinbase, coinstake and zerocoin predicates, and the value
  and size computations.

  The cached \<open>hash\<close> of a \<open>CTransaction\<close> is not a field: every constructor, assignment and read sets it to
  \<open>SerializeHash\<close> of the other fields, so it is the function \<open>tx_GetHash\<close> of a parameter for that hash.
  \<open>CMutableTransaction\<close> has the same fields and the same serialization and is the same record.  \<open>prevPubKey\<close> of an
  input is neither serialized nor compared and is left out; \<open>nRounds\<close> of an output is not serialized either, but
  it is compared, and reading an output leaves its initial value, minus ten.
\<close>

section \<open>Data\<close>

record COutPoint =
  op_hash :: base_uint
  op_n :: u32

record CTxIn =
  prevout :: COutPoint
  scriptSig :: CScript
  nSequence :: u32

record CTxOut =
  nValue :: CAmount
  scriptPubKey :: CScript
  nRounds :: int

record CTransaction =
  tx_nVersion :: int
  vin :: "CTxIn list"
  vout :: "CTxOut list"
  tx_nLockTime :: u32

definition outpoint_SetNull :: COutPoint where
  "outpoint_SetNull = \<lparr>op_hash = bu_zero WIDTH256, op_n = - 1\<rparr>"

definition outpoint_IsNull :: "COutPoint \<Rightarrow> bool" where
  "outpoint_IsNull o1 \<longleftrightarrow> bu_IsNull (op_hash o1) \<and> op_n o1 = - 1"

definition outpoint_less :: "COutPoint \<Rightarrow> COutPoint \<Rightarrow> bool" where
  "outpoint_less a b \<longleftrightarrow> bu_CompareTo (op_hash a) (op_hash b) < 0 \<or> (op_hash a = op_hash b \<and> op_n a < op_n b)"

definition txin_IsFinal :: "CTxIn \<Rightarrow> bool" where
  "txin_IsFinal i \<longleftrightarrow> nSequence i = - 1"

definition new_CTxIn :: "COutPoint \<Rightarrow> CScript \<Rightarrow> u32 \<Rightarrow> CTxIn" where
  "new_CTxIn prevoutIn scriptSigIn nSequenceIn =
     \<lparr>prevout = prevoutIn, scriptSig = scriptSigIn, nSequence = nSequenceIn\<rparr>"

definition new_CTxOut :: "CAmount \<Rightarrow> CScript \<Rightarrow> CTxOut" where
  "new_CTxOut nValueIn scriptPubKeyIn = \<lparr>nValue = nValueIn, scriptPubKey = scriptPubKeyIn, nRounds = - 10\<rparr>"

definition txout_SetNull :: CTxOut where
  "txout_SetNull = \<lparr>nValue = - 1, scriptPubKey = [], nRounds = - 10\<rparr>"

definition txout_IsNull :: "CTxOut \<Rightarrow> bool" where
  "txout_IsNull out \<longleftrightarrow> nValue out = - 1"

definition txout_SetEmpty :: "CTxOut \<Rightarrow> CTxOut" where
  "txout_SetEmpty out = out\<lparr>nValue := 0, scriptPubKey := []\<rparr>"

definition txout_IsEmpty :: "CTxOut \<Rightarrow> bool" where
  "txout_IsEmpty out \<longleftrightarrow> nValue out = 0 \<and> scriptPubKey out = []"

definition txout_IsZerocoinMint :: "CTxOut \<Rightarrow> bool" where
  "txout_IsZerocoinMint out \<longleftrightarrow> scriptPubKey out \<noteq> [] \<and> IsZerocoinMint (scriptPubKey out)"

definition CURRENT_VERSION :: int where
  "CURRENT_VERSION = 1"

definition new_CMutableTransaction :: CTransaction where
  "new_CMutableTransaction = \<lparr>tx_nVersion = CURRENT_VERSION, vin = [], vout = [], tx_nLockTime = 0\<rparr>"

section \<open>Serialization\<close>

definition Serialize_outpoint :: "COutPoint \<Rightarrow> bytes" where
  "Serialize_outpoint o1 = bu_Serialize (op_hash o1) @ Serialize_u32 (op_n o1)"

definition Unserialize_outpoint :: "bytes \<Rightarrow> (COutPoint \<times> bytes) option" where
  "Unserialize_outpoint s =
     (case bu_Unserialize WIDTH256 s of None \<Rightarrow> None | Some (h, s) \<Rightarrow>
      case Unserialize_u32 s of None \<Rightarrow> None | Some (n, s) \<Rightarrow> Some (\<lparr>op_hash = h, op_n = n\<rparr>, s))"

definition Serialize_txin :: "CTxIn \<Rightarrow> bytes" where
  "Serialize_txin i = Serialize_outpoint (prevout i) @ Serialize_bytes (scriptSig i) @ Serialize_u32 (nSequence i)"

definition Unserialize_txin :: "bytes \<Rightarrow> (CTxIn \<times> bytes) option" where
  "Unserialize_txin s =
     (case Unserialize_outpoint s of None \<Rightarrow> None | Some (p, s) \<Rightarrow>
      case Unserialize_bytes s of None \<Rightarrow> None | Some (sig, s) \<Rightarrow>
      case Unserialize_u32 s of None \<Rightarrow> None | Some (q, s) \<Rightarrow>
        Some (\<lparr>prevout = p, scriptSig = sig, nSequence = q\<rparr>, s))"

definition Serialize_txout :: "CTxOut \<Rightarrow> bytes" where
  "Serialize_txout out = Serialize_int 8 (nValue out) @ Serialize_bytes (scriptPubKey out)"

definition Unserialize_txout :: "bytes \<Rightarrow> (CTxOut \<times> bytes) option" where
  "Unserialize_txout s =
     (case Unserialize_int 8 s of None \<Rightarrow> None | Some (v, s) \<Rightarrow>
      case Unserialize_bytes s of None \<Rightarrow> None | Some (k, s) \<Rightarrow>
        Some (\<lparr>nValue = v, scriptPubKey = k, nRounds = nRounds txout_SetNull\<rparr>, s))"

definition Serialize_tx :: "CTransaction \<Rightarrow> bytes" where
  "Serialize_tx tx = Serialize_int 4 (tx_nVersion tx) @ Serialize_vector Serialize_txin (vin tx) @
     Serialize_vector Serialize_txout (vout tx) @ Serialize_u32 (tx_nLockTime tx)"

definition Unserialize_tx :: "bytes \<Rightarrow> (CTransaction \<times> bytes) option" where
  "Unserialize_tx s =
     (case Unserialize_int 4 s of None \<Rightarrow> None | Some (v, s) \<Rightarrow>
      case Unserialize_vector Unserialize_txin s of None \<Rightarrow> None | Some (ins, s) \<Rightarrow>
      case Unserialize_vector Unserialize_txout s of None \<Rightarrow> None | Some (outs, s) \<Rightarrow>
      case Unserialize_u32 s of None \<Rightarrow> None | Some (l, s) \<Rightarrow>
        Some (\<lparr>tx_nVersion = v, vin = ins, vout = outs, tx_nLockTime = l\<rparr>, s))"

definition tx_GetHash :: "(bytes \<Rightarrow> base_uint) \<Rightarrow> CTransaction \<Rightarrow> base_uint" where
  "tx_GetHash SerializeHash tx = SerializeHash (Serialize_tx tx)"

section \<open>Predicates\<close>

definition tx_IsNull :: "CTransaction \<Rightarrow> bool" where
  "tx_IsNull tx \<longleftrightarrow> vin tx = [] \<and> vout tx = []"

definition tx_IsZerocoinSpend :: "CTransaction \<Rightarrow> bool" where
  "tx_IsZerocoinSpend tx \<longleftrightarrow> length (vin tx) > 0 \<and> outpoint_IsNull (prevout (vin tx ! 0)) \<and>
     IsZerocoinSpend (scriptSig (vin tx ! 0))"

definition tx_IsZerocoinMint :: "CTransaction \<Rightarrow> bool" where
  "tx_IsZerocoinMint tx \<longleftrightarrow> list_ex (\<lambda>txout. IsZerocoinMint (scriptPubKey txout)) (vout tx)"

definition ContainsZerocoins :: "CTransaction \<Rightarrow> bool" where
  "ContainsZerocoins tx \<longleftrightarrow> tx_IsZerocoinSpend tx \<or> tx_IsZerocoinMint tx"

definition IsCoinBase :: "CTransaction \<Rightarrow> bool" where
  "IsCoinBase tx \<longleftrightarrow> length (vin tx) = 1 \<and> outpoint_IsNull (prevout (vin tx ! 0)) \<and>
     \<not> IsProofOfStakeMarker (scriptSig (vin tx ! 0)) \<and> \<not> ContainsZerocoins tx"

definition IsV5CoinStake :: "CTransaction \<Rightarrow> bool" where
  "IsV5CoinStake tx \<longleftrightarrow> length (vin tx) = 1 \<and> outpoint_IsNull (prevout (vin tx ! 0)) \<and>
     IsProofOfStakeMarker (scriptSig (vin tx ! 0)) \<and> length (vout tx) \<ge> 2 \<and> txout_IsEmpty (vout tx ! 0)"

definition IsCoinStake :: "CTransaction \<Rightarrow> bool" where
  "IsCoinStake tx \<longleftrightarrow>
     (if length (vin tx) > 0 \<and> \<not> outpoint_IsNull (prevout (vin tx ! 0)) \<and> length (vout tx) \<ge> 2 \<and>
         txout_IsEmpty (vout tx ! 0) then True
      else if length (vin tx) = 1 \<and> outpoint_IsNull (prevout (vin tx ! 0)) \<and>
         IsProofOfStakeMarker (scriptSig (vin tx ! 0)) \<and> length (vout tx) \<ge> 2 \<and> txout_IsEmpty (vout tx ! 0) then True
      else False)"

definition IsMasternodeReward :: "COutPoint \<Rightarrow> CTransaction \<Rightarrow> bool" where
  "IsMasternodeReward this tx \<longleftrightarrow>
     (if \<not> IsCoinStake tx then False
      else unat (op_n this) = length (vout tx) - 1 \<and>
           scriptPubKey (vout tx ! 1) \<noteq> scriptPubKey (vout tx ! unat (op_n this)))"

definition UsesUTXO :: "CTransaction \<Rightarrow> COutPoint \<Rightarrow> bool" where
  "UsesUTXO tx out \<longleftrightarrow> list_ex (\<lambda>i. prevout i = out) (vin tx)"

definition GetOutPoints :: "(bytes \<Rightarrow> base_uint) \<Rightarrow> CTransaction \<Rightarrow> COutPoint list" where
  "GetOutPoints SerializeHash tx =
     (let txHash = tx_GetHash SerializeHash tx
      in map (\<lambda>i. \<lparr>op_hash = txHash, op_n = of_nat i\<rparr>) [0..<length (vout tx)])"

section \<open>Values and sizes\<close>

datatype value_error = ValueLessThanZero | ValueWraps

fun value_out_loop :: "CAmount \<Rightarrow> CTxOut list \<Rightarrow> value_error + CAmount" where
  "value_out_loop nValueOut [] = Inr nValueOut"
| "value_out_loop nValueOut (it # outs) =
     (if nValue it < 0 then Inl ValueLessThanZero
      else if wrap64 (nValueOut + nValue it) < nValueOut then Inl ValueWraps
      else value_out_loop (wrap64 (nValueOut + nValue it)) outs)"

definition GetValueOut :: "CTransaction \<Rightarrow> value_error + CAmount" where
  "GetValueOut tx = value_out_loop 0 (vout tx)"

fun minted_loop :: "CTxOut list \<Rightarrow> CAmount" where
  "minted_loop [] = 0"
| "minted_loop (txOut # outs) =
     (if \<not> IsZerocoinMint (scriptPubKey txOut) then minted_loop outs else nValue txOut)"

definition GetZerocoinMinted :: "CTransaction \<Rightarrow> CAmount" where
  "GetZerocoinMinted tx = minted_loop (vout tx)"

definition GetZerocoinSpent :: "CTransaction \<Rightarrow> CAmount" where
  "GetZerocoinSpent tx =
     (if \<not> tx_IsZerocoinSpend tx then 0
      else foldl (\<lambda>nValueOut txin.
             if IsZerocoinSpend (scriptSig txin) then wrap64 (nValueOut + int (unat (nSequence txin)) * COIN)
             else nValueOut) 0 (vin tx))"

definition GetZerocoinMintCount :: "CTransaction \<Rightarrow> nat" where
  "GetZerocoinMintCount tx = length (filter (\<lambda>out. IsZerocoinMint (scriptPubKey out)) (vout tx))"

definition tx_size :: "CTransaction \<Rightarrow> nat" where
  "tx_size tx = length (Serialize_tx tx)"

definition CalculateModifiedSize :: "CTransaction \<Rightarrow> nat \<Rightarrow> nat" where
  "CalculateModifiedSize tx nTxSize =
     foldl (\<lambda>nTxSize it. let offset = 41 + min 110 (length (scriptSig it))
                         in if nTxSize > offset then nTxSize - offset else nTxSize)
       (if nTxSize = 0 then tx_size tx else nTxSize) (vin tx)"

definition IsDust :: "CTxOut \<Rightarrow> CAmount \<Rightarrow> bool" where
  "IsDust out minRelayTxFee \<longleftrightarrow>
     nValue out < wrap64 (3 * GetFee minRelayTxFee (length (Serialize_txout out) + 148))"

section \<open>The codecs\<close>

definition valid_outpoint :: "COutPoint \<Rightarrow> bool" where
  "valid_outpoint o1 \<longleftrightarrow> length (op_hash o1) = WIDTH256"

definition valid_txin :: "CTxIn \<Rightarrow> bool" where
  "valid_txin i \<longleftrightarrow> valid_outpoint (prevout i) \<and> length (scriptSig i) \<le> MAX_SIZE"

definition valid_txout :: "CTxOut \<Rightarrow> bool" where
  "valid_txout out \<longleftrightarrow> int64_min \<le> nValue out \<and> nValue out \<le> int64_max \<and> length (scriptPubKey out) \<le> MAX_SIZE \<and>
     nRounds out = - 10"

definition valid_tx :: "CTransaction \<Rightarrow> bool" where
  "valid_tx tx \<longleftrightarrow> int32_min \<le> tx_nVersion tx \<and> tx_nVersion tx \<le> int32_max \<and>
     list_all valid_txin (vin tx) \<and> length (vin tx) \<le> MAX_SIZE \<and>
     list_all valid_txout (vout tx) \<and> length (vout tx) \<le> MAX_SIZE"

lemmas base_dec_iffs = u32_codec.dec_iff int32_codec.dec_iff int64_codec.dec_iff uint256_codec.dec_iff bytes_codec.dec_iff

interpretation outpoint_codec: strict_codec Serialize_outpoint Unserialize_outpoint valid_outpoint
proof
  fix x :: COutPoint and r s
  show "valid_outpoint x \<Longrightarrow> Unserialize_outpoint (Serialize_outpoint x @ r) = Some (x, r)"
    by (simp add: valid_outpoint_def Unserialize_outpoint_def Serialize_outpoint_def uint256_codec.dec_enc u32_codec.dec_enc)
  show "Unserialize_outpoint s = Some (x, r) \<Longrightarrow> s = Serialize_outpoint x @ r \<and> valid_outpoint x"
    by (auto simp: valid_outpoint_def Unserialize_outpoint_def Serialize_outpoint_def base_dec_iffs split: option.splits)
qed

interpretation txin_codec: strict_codec Serialize_txin Unserialize_txin valid_txin
proof
  fix x :: CTxIn and r s
  show "valid_txin x \<Longrightarrow> Unserialize_txin (Serialize_txin x @ r) = Some (x, r)"
    by (simp add: valid_txin_def Unserialize_txin_def Serialize_txin_def outpoint_codec.dec_enc bytes_codec.dec_enc u32_codec.dec_enc)
  show "Unserialize_txin s = Some (x, r) \<Longrightarrow> s = Serialize_txin x @ r \<and> valid_txin x"
    by (auto simp: valid_txin_def Unserialize_txin_def Serialize_txin_def base_dec_iffs outpoint_codec.dec_iff split: option.splits)
qed

interpretation txout_codec: strict_codec Serialize_txout Unserialize_txout valid_txout
proof
  fix x :: CTxOut and r s
  show "valid_txout x \<Longrightarrow> Unserialize_txout (Serialize_txout x @ r) = Some (x, r)"
    by (simp add: valid_txout_def Unserialize_txout_def Serialize_txout_def txout_SetNull_def int64_codec.dec_enc bytes_codec.dec_enc)
  show "Unserialize_txout s = Some (x, r) \<Longrightarrow> s = Serialize_txout x @ r \<and> valid_txout x"
    by (auto simp: valid_txout_def Unserialize_txout_def Serialize_txout_def txout_SetNull_def base_dec_iffs split: option.splits)
qed

interpretation txins_codec: strict_codec "Serialize_vector Serialize_txin" "Unserialize_vector Unserialize_txin"
  "\<lambda>xs. list_all valid_txin xs \<and> length xs \<le> MAX_SIZE"
  by (rule txin_codec.strict_vector)

interpretation txouts_codec: strict_codec "Serialize_vector Serialize_txout" "Unserialize_vector Unserialize_txout"
  "\<lambda>xs. list_all valid_txout xs \<and> length xs \<le> MAX_SIZE"
  by (rule txout_codec.strict_vector)

interpretation tx_codec: strict_codec Serialize_tx Unserialize_tx valid_tx
proof
  fix x :: CTransaction and r s
  show "valid_tx x \<Longrightarrow> Unserialize_tx (Serialize_tx x @ r) = Some (x, r)"
    by (simp add: valid_tx_def Unserialize_tx_def Serialize_tx_def int32_codec.dec_enc txins_codec.dec_enc
        txouts_codec.dec_enc u32_codec.dec_enc)
  show "Unserialize_tx s = Some (x, r) \<Longrightarrow> s = Serialize_tx x @ r \<and> valid_tx x"
    by (auto simp: valid_tx_def Unserialize_tx_def Serialize_tx_def base_dec_iffs txins_codec.dec_iff txouts_codec.dec_iff
        split: option.splits)
qed

section \<open>Value out\<close>

lemma value_out_loop_iff:
  assumes "0 \<le> acc" "acc \<le> int64_max" "list_all (\<lambda>o1. nValue o1 \<le> int64_max) outs"
  shows "value_out_loop acc outs = Inr v \<longleftrightarrow>
     list_all (\<lambda>o1. 0 \<le> nValue o1) outs \<and> acc + sum_list (map nValue outs) \<le> int64_max \<and>
     v = acc + sum_list (map nValue outs)"
  using assms
proof (induction outs arbitrary: acc)
  case (Cons o1 outs)
  have pos: "0 \<le> sum_list (map nValue outs)" if "list_all (\<lambda>o1. 0 \<le> nValue o1) outs"
    using that by (intro sum_list_nonneg) (auto simp: list_all_iff)
  consider "nValue o1 < 0" | "0 \<le> nValue o1" "acc + nValue o1 \<le> int64_max" | "0 \<le> nValue o1" "int64_max < acc + nValue o1"
    by linarith
  then show ?case
  proof cases
    case 2
    then have "wrap64 (acc + nValue o1) = acc + nValue o1" using Cons.prems by (intro wrap64_id) auto
    then show ?thesis using 2 Cons.IH [of "acc + nValue o1"] Cons.prems by (simp add: add.assoc)
  next
    case 3
    then have "wrap64 (acc + nValue o1) = acc + nValue o1 - 2 ^ 64" using Cons.prems by (intro wrap64_overflow) auto
    then have "value_out_loop acc (o1 # outs) = Inl ValueWraps" using 3 Cons.prems by simp
    then show ?thesis using 3 pos by auto
  qed simp
qed auto

section \<open>Classes of transactions\<close>

lemma IsCoinStake_alt:
  "IsCoinStake tx \<longleftrightarrow> IsV5CoinStake tx \<or>
     (vin tx \<noteq> [] \<and> \<not> outpoint_IsNull (prevout (hd (vin tx))) \<and> 2 \<le> length (vout tx) \<and> txout_IsEmpty (hd (vout tx)))"
  by (cases "vin tx"; cases "vout tx") (auto simp: IsCoinStake_def IsV5CoinStake_def)

lemma script_markers_disjoint:
  "IsZerocoinSpend s \<Longrightarrow> \<not> IsProofOfStakeMarker s"
  by (simp add: IsZerocoinSpend_def IsProofOfStakeMarker_def)

section \<open>Properties\<close>

text \<open>
  Reading a transaction accepts a byte stream exactly when it starts with the serialization of a transaction
  within the limits of the format, returns that transaction and leaves the rest: the serialization is injective,
  and no two byte strings are read as the same transaction.
\<close>

theorem transaction_codec:
  "Unserialize_tx s = Some (tx, r) \<longleftrightarrow> s = Serialize_tx tx @ r \<and> valid_tx tx"
  by (rule tx_codec.dec_iff)

text \<open>
  On outputs whose values are 64-bit integers, \<open>GetValueOut\<close> returns exactly when no output is negative and the
  exact sum fits an \<open>int64_t\<close>, and then it returns that sum; in every other case it raises one of its two errors.
\<close>

theorem value_out_exact:
  assumes "list_all (\<lambda>out. nValue out \<le> int64_max) (vout tx)"
  shows "GetValueOut tx = Inr v \<longleftrightarrow> list_all (\<lambda>out. 0 \<le> nValue out) (vout tx) \<and>
    sum_list (map nValue (vout tx)) \<le> int64_max \<and> v = sum_list (map nValue (vout tx))"
  using value_out_loop_iff [of 0 "vout tx" v] assms by (simp add: GetValueOut_def)

theorem value_out_exact_witness:
  "GetValueOut \<lparr>tx_nVersion = 1, vin = [], vout = [new_CTxOut 5 [], new_CTxOut 7 []], tx_nLockTime = 0\<rparr> = Inr 12 \<and>
   GetValueOut \<lparr>tx_nVersion = 1, vin = [], vout = [new_CTxOut int64_max [], new_CTxOut 1 []], tx_nLockTime = 0\<rparr> \<noteq> Inr (2 ^ 63)"
  using value_out_exact [of "\<lparr>tx_nVersion = 1, vin = [], vout = [new_CTxOut 5 [], new_CTxOut 7 []], tx_nLockTime = 0\<rparr>" 12]
    value_out_exact [of "\<lparr>tx_nVersion = 1, vin = [], vout = [new_CTxOut int64_max [], new_CTxOut 1 []], tx_nLockTime = 0\<rparr>" "2 ^ 63"]
  by (simp add: new_CTxOut_def)

text \<open>
  The classes of special transactions are disjoint: no transaction is both a coinbase and a coinstake, a version-5
  coinstake spends no zerocoins, and only a version-5 coinstake is a coinstake with a null first prevout.
\<close>

theorem special_transactions_disjoint:
  "\<not> (IsCoinBase tx \<and> IsCoinStake tx) \<and> \<not> (IsCoinBase tx \<and> ContainsZerocoins tx) \<and>
   \<not> (IsV5CoinStake tx \<and> tx_IsZerocoinSpend tx) \<and>
   (IsV5CoinStake tx \<longleftrightarrow> IsCoinStake tx \<and> outpoint_IsNull (prevout (vin tx ! 0)))"
  by (cases "vin tx") (auto simp: IsCoinBase_def IsCoinStake_alt IsV5CoinStake_def tx_IsZerocoinSpend_def
      script_markers_disjoint)

end
