(* ===== verification/Sig_Encoding.thy ===== *)
theory Sig_Encoding
  imports Script
begin

unbundle bit_operations_syntax

text \<open>
  The encoding checks of \<open>src/script/interpreter.cpp\<close> on signatures, public keys and pushes, the big-endian
  comparison of \<open>src/eccryptoverify.cpp\<close> that the low-S rule uses, the script error codes of
  \<open>src/script/script_error.h\<close> and the verification flags of \<open>src/script/interpreter.h\<close>.  A check that reports
  through \<open>serror\<close> returns \<open>Inl\<close> of the error that it sets, or \<open>Inr ()\<close>.
\<close>

section \<open>Errors and flags\<close>

datatype ScriptError = SCRIPT_ERR_OK | SCRIPT_ERR_UNKNOWN_ERROR | SCRIPT_ERR_EVAL_FALSE | SCRIPT_ERR_OP_RETURN
  | SCRIPT_ERR_SCRIPT_SIZE | SCRIPT_ERR_PUSH_SIZE | SCRIPT_ERR_OP_COUNT | SCRIPT_ERR_STACK_SIZE
  | SCRIPT_ERR_SIG_COUNT | SCRIPT_ERR_PUBKEY_COUNT
  | SCRIPT_ERR_VERIFY | SCRIPT_ERR_EQUALVERIFY | SCRIPT_ERR_CHECKMULTISIGVERIFY | SCRIPT_ERR_CHECKSIGVERIFY
  | SCRIPT_ERR_NUMEQUALVERIFY
  | SCRIPT_ERR_BAD_OPCODE | SCRIPT_ERR_DISABLED_OPCODE | SCRIPT_ERR_INVALID_STACK_OPERATION
  | SCRIPT_ERR_INVALID_ALTSTACK_OPERATION | SCRIPT_ERR_UNBALANCED_CONDITIONAL
  | SCRIPT_ERR_SIG_HASHTYPE | SCRIPT_ERR_SIG_DER | SCRIPT_ERR_MINIMALDATA | SCRIPT_ERR_SIG_PUSHONLY
  | SCRIPT_ERR_SIG_HIGH_S | SCRIPT_ERR_SIG_NULLDUMMY | SCRIPT_ERR_PUBKEYTYPE
  | SCRIPT_ERR_DISCOURAGE_UPGRADABLE_NOPS | SCRIPT_ERR_ERROR_COUNT

definition SIGHASH_ALL :: nat where "SIGHASH_ALL = 1"
definition SIGHASH_NONE :: nat where "SIGHASH_NONE = 2"
definition SIGHASH_SINGLE :: nat where "SIGHASH_SINGLE = 3"
definition SIGHASH_ANYONECANPAY :: nat where "SIGHASH_ANYONECANPAY = 0x80"

definition SCRIPT_VERIFY_NONE :: u32 where "SCRIPT_VERIFY_NONE = 0"
definition SCRIPT_VERIFY_P2SH :: u32 where "SCRIPT_VERIFY_P2SH = push_bit 0 1"
definition SCRIPT_VERIFY_STRICTENC :: u32 where "SCRIPT_VERIFY_STRICTENC = push_bit 1 1"
definition SCRIPT_VERIFY_DERSIG :: u32 where "SCRIPT_VERIFY_DERSIG = push_bit 2 1"
definition SCRIPT_VERIFY_LOW_S :: u32 where "SCRIPT_VERIFY_LOW_S = push_bit 3 1"
definition SCRIPT_VERIFY_NULLDUMMY :: u32 where "SCRIPT_VERIFY_NULLDUMMY = push_bit 4 1"
definition SCRIPT_VERIFY_SIGPUSHONLY :: u32 where "SCRIPT_VERIFY_SIGPUSHONLY = push_bit 5 1"
definition SCRIPT_VERIFY_MINIMALDATA :: u32 where "SCRIPT_VERIFY_MINIMALDATA = push_bit 6 1"
definition SCRIPT_VERIFY_DISCOURAGE_UPGRADABLE_NOPS :: u32 where
  "SCRIPT_VERIFY_DISCOURAGE_UPGRADABLE_NOPS = push_bit 7 1"

section \<open>Big-endian comparison\<close>

function CompareBigEndian :: "bytes \<Rightarrow> bytes \<Rightarrow> int" where
  "CompareBigEndian c1 c2 =
     (if length c1 > length c2 then (if hd c1 \<noteq> 0 then 1 else CompareBigEndian (tl c1) c2)
      else if length c2 > length c1 then (if hd c2 \<noteq> 0 then - 1 else CompareBigEndian c1 (tl c2))
      else if length c1 > 0 then
        (if hd c1 > hd c2 then 1 else if hd c2 > hd c1 then - 1 else CompareBigEndian (tl c1) (tl c2))
      else 0)"
  by pat_completeness auto
termination by (relation "measure (\<lambda>(c1, c2). length c1 + length c2)") (auto simp: neq_Nil_conv)

declare CompareBigEndian.simps [simp del]

definition vchMaxModOrder :: bytes where
  "vchMaxModOrder =
    [0xFF, 0xFF, 0xFF, 0xFF, 0xFF, 0xFF, 0xFF, 0xFF,
     0xFF, 0xFF, 0xFF, 0xFF, 0xFF, 0xFF, 0xFF, 0xFE,
     0xBA, 0xAE, 0xDC, 0xE6, 0xAF, 0x48, 0xA0, 0x3B,
     0xBF, 0xD2, 0x5E, 0x8C, 0xD0, 0x36, 0x41, 0x40]"

definition vchMaxModHalfOrder :: bytes where
  "vchMaxModHalfOrder =
    [0x7F, 0xFF, 0xFF, 0xFF, 0xFF, 0xFF, 0xFF, 0xFF,
     0xFF, 0xFF, 0xFF, 0xFF, 0xFF, 0xFF, 0xFF, 0xFF,
     0x5D, 0x57, 0x6E, 0x73, 0x57, 0xA4, 0x50, 0x1D,
     0xDF, 0xE9, 0x2F, 0x46, 0x68, 0x1B, 0x20, 0xA0]"

definition eccrypto_Check :: "bytes \<Rightarrow> bool" where
  "eccrypto_Check vch \<longleftrightarrow> CompareBigEndian (take 32 vch) [] > 0 \<and> CompareBigEndian (take 32 vch) vchMaxModOrder \<le> 0"

definition CheckSignatureElement :: "bytes \<Rightarrow> bool \<Rightarrow> bool" where
  "CheckSignatureElement vch half \<longleftrightarrow> CompareBigEndian vch [] > 0 \<and>
     CompareBigEndian vch (if half then vchMaxModHalfOrder else vchMaxModOrder) \<le> 0"

section \<open>Encoding checks\<close>

definition IsCompressedOrUncompressedPubKey :: "valtype \<Rightarrow> bool" where
  "IsCompressedOrUncompressedPubKey vchPubKey =
     (if length vchPubKey < 33 then False
      else if vchPubKey ! 0 = 0x04 then (if length vchPubKey \<noteq> 65 then False else True)
      else if vchPubKey ! 0 = 0x02 \<or> vchPubKey ! 0 = 0x03 then (if length vchPubKey \<noteq> 33 then False else True)
      else False)"

definition IsValidSignatureEncoding :: "valtype \<Rightarrow> bool" where
  "IsValidSignatureEncoding sig =
     (if length sig < 9 then False
      else if length sig > 73 then False
      else if sig ! 0 \<noteq> 0x30 then False
      else if unat (sig ! 1) \<noteq> length sig - 3 then False
      else let lenR = unat (sig ! 3)
      in if 5 + lenR \<ge> length sig then False
      else let lenS = unat (sig ! (5 + lenR))
      in if lenR + lenS + 7 \<noteq> length sig then False
      else if sig ! 2 \<noteq> 0x02 then False
      else if lenR = 0 then False
      else if sig ! 4 AND 0x80 \<noteq> 0 then False
      else if lenR > 1 \<and> sig ! 4 = 0x00 \<and> \<not> (sig ! 5 AND 0x80 \<noteq> 0) then False
      else if sig ! (lenR + 4) \<noteq> 0x02 then False
      else if lenS = 0 then False
      else if sig ! (lenR + 6) AND 0x80 \<noteq> 0 then False
      else if lenS > 1 \<and> sig ! (lenR + 6) = 0x00 \<and> \<not> (sig ! (lenR + 7) AND 0x80 \<noteq> 0) then False
      else True)"

definition IsLowDERSignature :: "valtype \<Rightarrow> ScriptError + unit" where
  "IsLowDERSignature vchSig =
     (if \<not> IsValidSignatureEncoding vchSig then Inl SCRIPT_ERR_SIG_DER
      else let nLenR = unat (vchSig ! 3);
               nLenS = unat (vchSig ! (5 + nLenR));
               S = take nLenS (drop (6 + nLenR) vchSig)
           in if \<not> CheckSignatureElement S True then Inl SCRIPT_ERR_SIG_HIGH_S else Inr ())"

definition IsDefinedHashtypeSignature :: "valtype \<Rightarrow> bool" where
  "IsDefinedHashtypeSignature vchSig =
     (if length vchSig = 0 then False
      else let nHashType = unat (vchSig ! (length vchSig - 1) AND NOT 0x80)
           in if nHashType < SIGHASH_ALL \<or> nHashType > SIGHASH_SINGLE then False else True)"

definition CheckSignatureEncoding :: "valtype \<Rightarrow> u32 \<Rightarrow> ScriptError + unit" where
  "CheckSignatureEncoding vchSig flags =
     (if length vchSig = 0 then Inr ()
      else if flags AND (SCRIPT_VERIFY_DERSIG OR SCRIPT_VERIFY_LOW_S OR SCRIPT_VERIFY_STRICTENC) \<noteq> 0 \<and>
              \<not> IsValidSignatureEncoding vchSig then Inl SCRIPT_ERR_SIG_DER
      else if flags AND SCRIPT_VERIFY_LOW_S \<noteq> 0 \<and> isl (IsLowDERSignature vchSig) then IsLowDERSignature vchSig
      else if flags AND SCRIPT_VERIFY_STRICTENC \<noteq> 0 \<and> \<not> IsDefinedHashtypeSignature vchSig
           then Inl SCRIPT_ERR_SIG_HASHTYPE
      else Inr ())"

definition CheckPubKeyEncoding :: "valtype \<Rightarrow> u32 \<Rightarrow> ScriptError + unit" where
  "CheckPubKeyEncoding vchSig flags =
     (if flags AND SCRIPT_VERIFY_STRICTENC \<noteq> 0 \<and> \<not> IsCompressedOrUncompressedPubKey vchSig
      then Inl SCRIPT_ERR_PUBKEYTYPE else Inr ())"

definition CheckMinimalPush :: "valtype \<Rightarrow> nat \<Rightarrow> bool" where
  "CheckMinimalPush data opcode =
     (if length data = 0 then opcode = OP_0
      else if length data = 1 \<and> 1 \<le> unat (data ! 0) \<and> unat (data ! 0) \<le> 16 then opcode = OP_1 + (unat (data ! 0) - 1)
      else if length data = 1 \<and> data ! 0 = 0x81 then opcode = OP_1NEGATE
      else if length data \<le> 75 then opcode = length data
      else if length data \<le> 255 then opcode = OP_PUSHDATA1
      else if length data \<le> 65535 then opcode = OP_PUSHDATA2
      else True)"

section \<open>Big-endian values\<close>

definition be_nat :: "bytes \<Rightarrow> nat" where
  "be_nat v = le_nat (rev v)"

lemma be_nat_Nil [simp]: "be_nat [] = 0"
  by (simp add: be_nat_def)

lemma be_nat_Cons: "be_nat (x # v) = unat x * 256 ^ length v + be_nat v"
  by (simp add: be_nat_def le_nat_snoc)

lemma be_nat_lt: "be_nat v < 256 ^ length v"
  using le_nat_lt [of "rev v"] by (simp add: be_nat_def)

lemma be_nat_Cons_pos: "x \<noteq> 0 \<Longrightarrow> length w \<le> length v \<Longrightarrow> be_nat w < be_nat (x # v)"
proof -
  assume x: "x \<noteq> 0" and len: "length w \<le> length v"
  have "be_nat w < 256 ^ length w" by (rule be_nat_lt)
  also have "\<dots> \<le> 1 * 256 ^ length v" using len by (simp add: power_increasing)
  also have "\<dots> \<le> unat x * 256 ^ length v" using x by (intro mult_right_mono) (simp_all add: Suc_le_eq unat_gt_0)
  also have "\<dots> \<le> be_nat (x # v)" by (simp add: be_nat_Cons)
  finally show ?thesis .
qed

lemma be_nat_Cons_less:
  assumes "x < y" "length v = length w"
  shows "be_nat (x # v) < be_nat (y # w)"
proof -
  have "be_nat (x # v) < unat x * 256 ^ length v + 256 ^ length v" using be_nat_lt [of v] by (simp add: be_nat_Cons)
  also have "\<dots> = (unat x + 1) * 256 ^ length v" by simp
  also have "\<dots> \<le> unat y * 256 ^ length w" using assms by (intro mult_mono) (simp_all add: word_less_nat_alt)
  also have "\<dots> \<le> be_nat (y # w)" by (simp add: be_nat_Cons)
  finally show ?thesis .
qed

lemma CompareBigEndian_val:
  "CompareBigEndian c1 c2 = (if be_nat c1 < be_nat c2 then - 1 else if be_nat c1 > be_nat c2 then 1 else 0)"
proof (induction c1 c2 rule: CompareBigEndian.induct)
  case (1 c1 c2)
  consider "length c1 > length c2" | "length c2 > length c1" | "length c1 = length c2" by linarith
  then show ?case
  proof cases
    case 1
    then obtain x v where v: "c1 = x # v" "length c2 \<le> length v" by (cases c1) auto
    with 1 "1.IH"(1) be_nat_Cons_pos [of x c2 v] show ?thesis
      by (subst CompareBigEndian.simps) (auto simp: be_nat_Cons)
  next
    case 2
    then obtain x v where v: "c2 = x # v" "length c1 \<le> length v" by (cases c2) auto
    with 2 "1.IH"(2) be_nat_Cons_pos [of x c1 v] show ?thesis
      by (subst CompareBigEndian.simps) (auto simp: be_nat_Cons)
  next
    case 3
    show ?thesis
    proof (cases c1)
      case Nil
      with 3 show ?thesis by (subst CompareBigEndian.simps) simp
    next
      case (Cons x v)
      with 3 obtain y w where w: "c2 = y # w" "length v = length w" by (cases c2) auto
      with Cons "1.IH"(3) 3 be_nat_Cons_less [of x y v w] be_nat_Cons_less [of y x w v] show ?thesis
        by (subst CompareBigEndian.simps) (cases "x = y"; auto simp: be_nat_Cons)
    qed
  qed
qed

lemma CheckSignatureElement_val:
  "CheckSignatureElement v half \<longleftrightarrow>
     0 < be_nat v \<and> be_nat v \<le> be_nat (if half then vchMaxModHalfOrder else vchMaxModOrder)"
  by (auto simp: CheckSignatureElement_def CompareBigEndian_val)

lemma half_order: "be_nat vchMaxModOrder = 2 * be_nat vchMaxModHalfOrder"
  by (simp add: vchMaxModOrder_def vchMaxModHalfOrder_def be_nat_Cons)

section \<open>The DER grammar\<close>

definition der_int :: "bytes \<Rightarrow> bool" where
  "der_int v \<longleftrightarrow> v \<noteq> [] \<and> unat (hd v) < 128 \<and> (1 < length v \<and> hd v = 0 \<longrightarrow> 128 \<le> unat (v ! 1))"

definition der_sig :: "bytes \<Rightarrow> bytes \<Rightarrow> byte \<Rightarrow> valtype" where
  "der_sig R S ht = [0x30, of_nat (length R + length S + 4), 0x02, of_nat (length R)] @ R @
     [0x02, of_nat (length S)] @ S @ [ht]"

lemma byte_and_80: "(x :: byte) AND 0x80 \<noteq> 0 \<longleftrightarrow> 128 \<le> unat x"
proof -
  have "x AND 0x80 \<noteq> 0 \<longleftrightarrow> bit x 7" using and_exp_eq_0_iff_not_bit [of x 7] by simp
  also have "\<dots> \<longleftrightarrow> bit (unat x) 7" by (simp add: bit_unsigned_iff)
  also have "\<dots> \<longleftrightarrow> odd (unat x div 2 ^ 7)" by (rule bit_iff_odd)
  also have "\<dots> \<longleftrightarrow> 128 \<le> unat x" 
  proof -
    have "unat x div 128 = (if 128 \<le> unat x then 1 else 0)"
      using unat_byte_lt [of x] by (auto simp: div_if [of "unat x"])
    then show ?thesis by simp
  qed
  finally show ?thesis .
qed

lemma valid_sig_parts:
  "IsValidSignatureEncoding (a0 # a1 # a2 # a3 # t) \<longleftrightarrow>
     (let n = unat a3; m = unat (t ! (n + 1))
      in 5 \<le> length t \<and> length t \<le> 69 \<and> a0 = 0x30 \<and> unat a1 = length t + 1 \<and> n + m + 3 = length t \<and> a2 = 0x02 \<and>
         0 < n \<and> unat (t ! 0) < 128 \<and> \<not> (1 < n \<and> t ! 0 = 0 \<and> unat (t ! 1) < 128) \<and> t ! n = 0x02 \<and>
         0 < m \<and> unat (t ! (n + 2)) < 128 \<and> \<not> (1 < m \<and> t ! (n + 2) = 0 \<and> unat (t ! (n + 3)) < 128))"
proof -
  define s where "s = a0 # a1 # a2 # a3 # t"
  have nth: "s ! 0 = a0" "s ! 1 = a1" "s ! 2 = a2" "s ! 3 = a3" "s ! 4 = t ! 0" "s ! 5 = t ! 1" "length s = length t + 4"
    by (simp_all add: s_def)
  have nth': "s ! (5 + n) = t ! (n + 1)" "s ! (n + 4) = t ! n" "s ! (n + 6) = t ! (n + 2)" "s ! (n + 7) = t ! (n + 3)" for n
    by (simp_all add: s_def nth_Cons' add.commute)
  show ?thesis unfolding s_def [symmetric] IsValidSignatureEncoding_def nth nth' Let_def byte_and_80 by auto
qed

lemma der_int_nth:
  assumes "length v = n" "\<And>i. i < n \<Longrightarrow> v ! i = t ! (k + i)"
  shows "der_int v \<longleftrightarrow> 0 < n \<and> unat (t ! k) < 128 \<and> \<not> (1 < n \<and> t ! k = 0 \<and> unat (t ! (k + 1)) < 128)"
  using assms(1) assms(2) [of 0] assms(2) [of 1] by (cases v) (auto simp: der_int_def)

lemma IsValidSignatureEncoding_iff:
  "IsValidSignatureEncoding sig \<longleftrightarrow> (\<exists>R S ht. sig = der_sig R S ht \<and> der_int R \<and> der_int S \<and> length sig \<le> 73)"
proof
  assume v: "IsValidSignatureEncoding sig"
  then have "9 \<le> length sig" by (auto simp: IsValidSignatureEncoding_def split: if_splits)
  then obtain a0 a1 a2 a3 t where sig: "sig = a0 # a1 # a2 # a3 # t"
    by (metis Suc_le_length_iff numeral_eq_Suc pred_numeral_simps(2,3) semiring_norm(26,27,28))
  define n m where "n = unat a3" and "m = unat (t ! (n + 1))"
  have p: "length t \<le> 69" "a0 = 0x30" "unat a1 = length t + 1" "n + m + 3 = length t" "a2 = 0x02" "0 < n" "0 < m"
    "t ! n = 0x02" "unat (t ! 0) < 128" "\<not> (1 < n \<and> t ! 0 = 0 \<and> unat (t ! 1) < 128)" "unat (t ! (n + 2)) < 128"
    "\<not> (1 < m \<and> t ! (n + 2) = 0 \<and> unat (t ! (n + 3)) < 128)"
    using v unfolding sig valid_sig_parts Let_def n_def [symmetric] m_def [symmetric] by blast+
  define R S ht where "R = take n t" and "S = take m (drop (n + 2) t)" and "ht = t ! (n + m + 2)"
  have len: "length R = n" "length S = m" using p by (auto simp: R_def S_def)
  have "t = R @ drop n t" by (simp add: R_def)
  also have "drop n t = t ! n # t ! (n + 1) # drop (n + 2) t"
    using p(4) Cons_nth_drop_Suc [of n t] Cons_nth_drop_Suc [of "Suc n" t] by simp
  also have "drop (n + 2) t = S @ drop (n + m + 2) t" 
    using append_take_drop_id [of m "drop (n + 2) t"] by (simp add: S_def add.commute add.left_commute)
  also have "drop (n + m + 2) t = [ht]" using p(4)
    by (metis Cons_nth_drop_Suc add_Suc_right drop_all ht_def le_refl lessI numeral_2_eq_2 numeral_3_eq_3)
  finally have t: "t = R @ [0x02, t ! (n + 1)] @ S @ [ht]" using p(8) by simp
  have "t ! (n + 1) = of_nat (length S)" "a3 = of_nat (length R)" by (simp_all add: len m_def n_def)
  moreover have "a1 = of_nat (length R + length S + 4)"
  proof -
    have "unat a1 = length R + length S + 4" using p(3,4) len by simp
    then show ?thesis by (metis word_of_nat_eq_iff unat_of_nat word_unat_eq_iff of_nat_unat ucast_id)
  qed
  ultimately have "sig = der_sig R S ht" using sig t p by (simp add: der_sig_def)
  moreover have "der_int R" using der_int_nth [of R n t 0] len p by (simp add: R_def)
  moreover have "der_int S" using der_int_nth [of S m t "n + 2"] len p by (simp add: S_def nth_drop add.commute numeral_3_eq_3)
  moreover have "length sig \<le> 73" using p(1) sig by simp
  ultimately show "\<exists>R S ht. sig = der_sig R S ht \<and> der_int R \<and> der_int S \<and> length sig \<le> 73" by blast
next
  assume "\<exists>R S ht. sig = der_sig R S ht \<and> der_int R \<and> der_int S \<and> length sig \<le> 73"
  then obtain R S ht where sig: "sig = der_sig R S ht" and d: "der_int R" "der_int S" and l: "length sig \<le> 73" by auto
  define t where "t = R @ [0x02, of_nat (length S)] @ S @ [ht]"
  define a1 a3 :: byte where "a1 = of_nat (length R + length S + 4)" and "a3 = of_nat (length R)"
  have len: "length R + length S \<le> 66" using l sig by (simp add: der_sig_def)
  have u: "unat a1 = length R + length S + 4" "unat a3 = length R" "unat (of_nat (length S) :: byte) = length S"
    unfolding a1_def a3_def using len by (simp_all only: unat_of_nat_byte) auto
  have pos: "0 < length R" "0 < length S" using d by (simp_all add: der_int_def)
  have nth: "t ! length R = 0x02" "t ! (length R + 1) = of_nat (length S)" by (simp_all add: t_def nth_append)
  have "der_int R \<longleftrightarrow> unat (t ! 0) < 128 \<and> \<not> (1 < length R \<and> t ! 0 = 0 \<and> unat (t ! 1) < 128)"
    using der_int_nth [of R "length R" t 0] pos by (simp add: t_def nth_append)
  moreover have "der_int S \<longleftrightarrow> unat (t ! (length R + 2)) < 128 \<and>
      \<not> (1 < length S \<and> t ! (length R + 2) = 0 \<and> unat (t ! (length R + 3)) < 128)"
    using der_int_nth [of S "length S" t "length R + 2"] pos by (simp add: t_def nth_append)
  moreover have "sig = 0x30 # a1 # 0x02 # a3 # t" by (simp add: sig der_sig_def t_def a1_def a3_def)
  moreover have "length t = length R + length S + 3" by (simp add: t_def)
  moreover have "unat (t ! Suc (length R)) = length S" using nth(2) u(3) by simp_all
  ultimately show "IsValidSignatureEncoding sig" using d len pos
    by (simp add: valid_sig_parts Let_def u nth del: length_greater_0_conv)
qed


lemma der_sig_S:
  assumes "length S < 256" "length R < 256"
  shows "unat (der_sig R S ht ! 3) = length R" "unat (der_sig R S ht ! (5 + length R)) = length S"
    "take (length S) (drop (6 + length R) (der_sig R S ht)) = S"
proof -
  define P :: bytes where "P = [0x30, of_nat (length R + length S + 4), 0x02, of_nat (length R)] @ R @ [0x02, of_nat (length S)]"
  have "der_sig R S ht = P @ S @ [ht]" "length P = 6 + length R" by (simp_all add: P_def der_sig_def)
  then show "take (length S) (drop (6 + length R) (der_sig R S ht)) = S" by simp
qed (use assms in \<open>simp_all add: der_sig_def unat_of_nat_byte nth_Cons' nth_append\<close>)

lemma IsLowDERSignature_iff:
  "IsLowDERSignature sig = Inr () \<longleftrightarrow> (\<exists>R S ht. sig = der_sig R S ht \<and> der_int R \<and> der_int S \<and> length sig \<le> 73 \<and>
     0 < be_nat S \<and> be_nat S \<le> be_nat vchMaxModHalfOrder)"
proof (cases "IsValidSignatureEncoding sig")
  case True
  then obtain R S ht where sig: "sig = der_sig R S ht" "der_int R" "der_int S" "length sig \<le> 73"
    by (auto simp: IsValidSignatureEncoding_iff)
  then have len: "length S < 256" "length R < 256" by (simp_all add: der_sig_def)
  have inj: "S' = S" if "sig = der_sig R' S' ht'" "length sig \<le> 73" for R' S' ht'
  proof -
    have "length S' < 256" "length R' < 256" using that by (simp_all add: der_sig_def)
    from der_sig_S [OF this, of ht'] der_sig_S [OF len, of ht] show ?thesis using that sig by metis
  qed
  have "IsLowDERSignature sig = Inr () \<longleftrightarrow> CheckSignatureElement S True"
    using True der_sig_S [OF len, of ht] sig(1) by (simp add: IsLowDERSignature_def Let_def)
  moreover have "CheckSignatureElement S True \<longleftrightarrow> 0 < be_nat S \<and> be_nat S \<le> be_nat vchMaxModHalfOrder"
    by (simp add: CheckSignatureElement_val)
  ultimately show ?thesis using sig inj by metis
qed (auto simp: IsLowDERSignature_def IsValidSignatureEncoding_iff)

section \<open>Properties\<close>

text \<open>
  A signature passes \<open>IsValidSignatureEncoding\<close> exactly when it is the DER encoding of two non-negative, minimally
  encoded integers followed by one hash type byte, in at most 73 bytes; and it passes \<open>IsLowDERSignature\<close> exactly when
  moreover its S is between one and half of the group order.
\<close>

theorem signature_encoding_grammar:
  "(IsValidSignatureEncoding sig \<longleftrightarrow> (\<exists>R S ht. sig = der_sig R S ht \<and> der_int R \<and> der_int S \<and> length sig \<le> 73)) \<and>
   (IsLowDERSignature sig = Inr () \<longleftrightarrow> (\<exists>R S ht. sig = der_sig R S ht \<and> der_int R \<and> der_int S \<and> length sig \<le> 73 \<and>
      0 < be_nat S \<and> 2 * be_nat S \<le> be_nat vchMaxModOrder))"
  using IsValidSignatureEncoding_iff [of sig] IsLowDERSignature_iff [of sig] by (simp add: half_order)

end
