(* ===== verification/Interpreter.thy ===== *)
theory Interpreter
  imports Sig_Encoding "HOL-Library.Sublist"
begin

unbundle bit_operations_syntax

text \<open>
  The script interpreter (\<open>EvalScript\<close> and \<open>VerifyScript\<close> of \<open>src/script/interpreter.cpp\<close>).

  The main and the alternative stack are lists whose head is \<open>stacktop(-1)\<close>, so \<open>stacktop(-n-1)\<close> is element \<open>n\<close>;
  \<open>vfExec\<close> is a list whose head is \<open>vfExec.back()\<close>; \<open>pbegincodehash\<close> and \<open>pc\<close> are the suffixes of the script that
  they point at.  A \<open>return set_error(e)\<close> is \<open>Inl e\<close>, and what the surrounding \<open>catch (...)\<close> turns into an error, a
  \<open>scriptnum_error\<close>, is \<open>Inl SCRIPT_ERR_UNKNOWN_ERROR\<close>.  The signature checker and the hash functions that opcodes call
  are fields of the environment.
\<close>

section \<open>State and environment\<close>

record script_env =
  env_flags :: u32
  env_CheckSig :: "valtype \<Rightarrow> valtype \<Rightarrow> CScript \<Rightarrow> bool"
  env_RIPEMD160 :: "bytes \<Rightarrow> bytes"
  env_SHA1 :: "bytes \<Rightarrow> bytes"
  env_SHA256 :: "bytes \<Rightarrow> bytes"
  env_HASH160 :: "bytes \<Rightarrow> bytes"
  env_HASH256 :: "bytes \<Rightarrow> bytes"

record eval_state =
  es_stack :: "valtype list"
  es_altstack :: "valtype list"
  vfExec :: "bool list"
  nOpCount :: nat
  pbegincodehash :: CScript

type_synonym 'a script_result = "ScriptError + 'a"

definition flag_set :: "script_env \<Rightarrow> u32 \<Rightarrow> bool" where
  "flag_set env f \<longleftrightarrow> env_flags env AND f \<noteq> 0"

definition vchFalse :: valtype where "vchFalse = []"
definition vchTrue :: valtype where "vchTrue = [1]"

definition bool_vch :: "bool \<Rightarrow> valtype" where
  "bool_vch b = (if b then vchTrue else vchFalse)"

fun CastToBool :: "valtype \<Rightarrow> bool" where
  "CastToBool [] = False"
| "CastToBool (b # vch) = (if b \<noteq> 0 then (if vch = [] \<and> b = 0x80 then False else True) else CastToBool vch)"

definition script_num :: "script_env \<Rightarrow> valtype \<Rightarrow> int script_result" where
  "script_num env vch =
     (case CScriptNum vch (flag_set env SCRIPT_VERIFY_MINIMALDATA) of
        None \<Rightarrow> Inl SCRIPT_ERR_UNKNOWN_ERROR | Some n \<Rightarrow> Inr n)"

fun bind_result :: "'a script_result \<Rightarrow> ('a \<Rightarrow> 'b script_result) \<Rightarrow> 'b script_result" where
  "bind_result (Inl e) f = Inl e"
| "bind_result (Inr x) f = f x"

section \<open>Stack operations\<close>

abbreviation (input) bad_stack :: "'a script_result" where
  "bad_stack \<equiv> Inl SCRIPT_ERR_INVALID_STACK_OPERATION"

fun st_2DROP :: "valtype list \<Rightarrow> valtype list script_result" where
  "st_2DROP (x2 # x1 # s) = Inr s"
| "st_2DROP _ = bad_stack"

fun st_2DUP :: "valtype list \<Rightarrow> valtype list script_result" where
  "st_2DUP (x2 # x1 # s) = Inr (x2 # x1 # x2 # x1 # s)"
| "st_2DUP _ = bad_stack"

fun st_3DUP :: "valtype list \<Rightarrow> valtype list script_result" where
  "st_3DUP (x3 # x2 # x1 # s) = Inr (x3 # x2 # x1 # x3 # x2 # x1 # s)"
| "st_3DUP _ = bad_stack"

fun st_2OVER :: "valtype list \<Rightarrow> valtype list script_result" where
  "st_2OVER (x4 # x3 # x2 # x1 # s) = Inr (x2 # x1 # x4 # x3 # x2 # x1 # s)"
| "st_2OVER _ = bad_stack"

fun st_2ROT :: "valtype list \<Rightarrow> valtype list script_result" where
  "st_2ROT (x6 # x5 # x4 # x3 # x2 # x1 # s) = Inr (x2 # x1 # x6 # x5 # x4 # x3 # s)"
| "st_2ROT _ = bad_stack"

fun st_2SWAP :: "valtype list \<Rightarrow> valtype list script_result" where
  "st_2SWAP (x4 # x3 # x2 # x1 # s) = Inr (x2 # x1 # x4 # x3 # s)"
| "st_2SWAP _ = bad_stack"

fun st_IFDUP :: "valtype list \<Rightarrow> valtype list script_result" where
  "st_IFDUP (x # s) = Inr (if CastToBool x then x # x # s else x # s)"
| "st_IFDUP _ = bad_stack"

definition st_DEPTH :: "valtype list \<Rightarrow> valtype list script_result" where
  "st_DEPTH s = Inr (ScriptNum_serialize (int (length s)) # s)"

fun st_DROP :: "valtype list \<Rightarrow> valtype list script_result" where
  "st_DROP (x # s) = Inr s"
| "st_DROP _ = bad_stack"

fun st_DUP :: "valtype list \<Rightarrow> valtype list script_result" where
  "st_DUP (x # s) = Inr (x # x # s)"
| "st_DUP _ = bad_stack"

fun st_NIP :: "valtype list \<Rightarrow> valtype list script_result" where
  "st_NIP (x2 # x1 # s) = Inr (x2 # s)"
| "st_NIP _ = bad_stack"

fun st_OVER :: "valtype list \<Rightarrow> valtype list script_result" where
  "st_OVER (x2 # x1 # s) = Inr (x1 # x2 # x1 # s)"
| "st_OVER _ = bad_stack"

fun st_PICK_ROLL :: "script_env \<Rightarrow> bool \<Rightarrow> valtype list \<Rightarrow> valtype list script_result" where
  "st_PICK_ROLL env roll (x # y # s) =
     bind_result (script_num env x) (\<lambda>bn.
       let n = getint bn; s = y # s
       in if n < 0 \<or> n \<ge> int (length s) then bad_stack
          else let vch = s ! nat n;
                   s = (if roll then take (nat n) s @ drop (nat n + 1) s else s)
               in Inr (vch # s))"
| "st_PICK_ROLL env roll _ = bad_stack"

fun st_ROT :: "valtype list \<Rightarrow> valtype list script_result" where
  "st_ROT (x3 # x2 # x1 # s) = Inr (x1 # x3 # x2 # s)"
| "st_ROT _ = bad_stack"

fun st_SWAP :: "valtype list \<Rightarrow> valtype list script_result" where
  "st_SWAP (x2 # x1 # s) = Inr (x1 # x2 # s)"
| "st_SWAP _ = bad_stack"

fun st_TUCK :: "valtype list \<Rightarrow> valtype list script_result" where
  "st_TUCK (x2 # x1 # s) = Inr (x2 # x1 # x2 # s)"
| "st_TUCK _ = bad_stack"

fun st_SIZE :: "valtype list \<Rightarrow> valtype list script_result" where
  "st_SIZE (x # s) = Inr (ScriptNum_serialize (int (length x)) # x # s)"
| "st_SIZE _ = bad_stack"

fun st_EQUAL :: "bool \<Rightarrow> valtype list \<Rightarrow> valtype list script_result" where
  "st_EQUAL verify (vch2 # vch1 # s) =
     (let fEqual = (vch1 = vch2)
      in if verify then (if fEqual then Inr s else Inl SCRIPT_ERR_EQUALVERIFY) else Inr (bool_vch fEqual # s))"
| "st_EQUAL verify _ = bad_stack"

section \<open>Arithmetic\<close>

definition bn_bool :: "bool \<Rightarrow> int" where
  "bn_bool b = (if b then 1 else 0)"

definition unary_op :: "nat \<Rightarrow> int \<Rightarrow> int" where
  "unary_op opcode bn =
     (if opcode = OP_1ADD then bn + 1
      else if opcode = OP_1SUB then bn - 1
      else if opcode = OP_NEGATE then - bn
      else if opcode = OP_ABS then (if bn < 0 then - bn else bn)
      else if opcode = OP_NOT then bn_bool (bn = 0)
      else bn_bool (bn \<noteq> 0))"

fun st_unary :: "script_env \<Rightarrow> nat \<Rightarrow> valtype list \<Rightarrow> valtype list script_result" where
  "st_unary env opcode (x # s) =
     bind_result (script_num env x) (\<lambda>bn. Inr (ScriptNum_serialize (unary_op opcode bn) # s))"
| "st_unary env opcode _ = bad_stack"

definition binary_op :: "nat \<Rightarrow> int \<Rightarrow> int \<Rightarrow> int" where
  "binary_op opcode bn1 bn2 =
     (if opcode = OP_ADD then bn1 + bn2
      else if opcode = OP_SUB then bn1 - bn2
      else if opcode = OP_BOOLAND then bn_bool (bn1 \<noteq> 0 \<and> bn2 \<noteq> 0)
      else if opcode = OP_BOOLOR then bn_bool (bn1 \<noteq> 0 \<or> bn2 \<noteq> 0)
      else if opcode = OP_NUMEQUAL then bn_bool (bn1 = bn2)
      else if opcode = OP_NUMEQUALVERIFY then bn_bool (bn1 = bn2)
      else if opcode = OP_NUMNOTEQUAL then bn_bool (bn1 \<noteq> bn2)
      else if opcode = OP_LESSTHAN then bn_bool (bn1 < bn2)
      else if opcode = OP_GREATERTHAN then bn_bool (bn1 > bn2)
      else if opcode = OP_LESSTHANOREQUAL then bn_bool (bn1 \<le> bn2)
      else if opcode = OP_GREATERTHANOREQUAL then bn_bool (bn1 \<ge> bn2)
      else if opcode = OP_MIN then (if bn1 < bn2 then bn1 else bn2)
      else (if bn1 > bn2 then bn1 else bn2))"

fun st_binary :: "script_env \<Rightarrow> nat \<Rightarrow> valtype list \<Rightarrow> valtype list script_result" where
  "st_binary env opcode (x2 # x1 # s) =
     bind_result (script_num env x1) (\<lambda>bn1.
     bind_result (script_num env x2) (\<lambda>bn2.
       let v = ScriptNum_serialize (binary_op opcode bn1 bn2)
       in if opcode = OP_NUMEQUALVERIFY
          then (if CastToBool v then Inr s else Inl SCRIPT_ERR_NUMEQUALVERIFY)
          else Inr (v # s)))"
| "st_binary env opcode _ = bad_stack"

fun st_WITHIN :: "script_env \<Rightarrow> valtype list \<Rightarrow> valtype list script_result" where
  "st_WITHIN env (x3 # x2 # x1 # s) =
     bind_result (script_num env x1) (\<lambda>bn1.
     bind_result (script_num env x2) (\<lambda>bn2.
     bind_result (script_num env x3) (\<lambda>bn3.
       Inr (bool_vch (bn2 \<le> bn1 \<and> bn1 < bn3) # s))))"
| "st_WITHIN env _ = bad_stack"

section \<open>Hashing and signatures\<close>

fun st_hash :: "script_env \<Rightarrow> nat \<Rightarrow> valtype list \<Rightarrow> valtype list script_result" where
  "st_hash env opcode (vch # s) =
     Inr ((if opcode = OP_RIPEMD160 then env_RIPEMD160 env vch
           else if opcode = OP_SHA1 then env_SHA1 env vch
           else if opcode = OP_SHA256 then env_SHA256 env vch
           else if opcode = OP_HASH160 then env_HASH160 env vch
           else env_HASH256 env vch) # s)"
| "st_hash env opcode _ = bad_stack"

definition check_encodings :: "script_env \<Rightarrow> valtype \<Rightarrow> valtype \<Rightarrow> unit script_result" where
  "check_encodings env vchSig vchPubKey =
     bind_result (CheckSignatureEncoding vchSig (env_flags env)) (\<lambda>_. CheckPubKeyEncoding vchPubKey (env_flags env))"

fun st_CHECKSIG :: "script_env \<Rightarrow> bool \<Rightarrow> CScript \<Rightarrow> valtype list \<Rightarrow> valtype list script_result" where
  "st_CHECKSIG env verify codehash (vchPubKey # vchSig # s) =
     (let scriptCode = snd (FindAndDelete codehash (push_data vchSig))
      in bind_result (check_encodings env vchSig vchPubKey) (\<lambda>_.
           let fSuccess = env_CheckSig env vchSig vchPubKey scriptCode
           in if verify then (if fSuccess then Inr s else Inl SCRIPT_ERR_CHECKSIGVERIFY)
              else Inr (bool_vch fSuccess # s)))"
| "st_CHECKSIG env verify codehash _ = bad_stack"

text \<open>
  The matching loop of \<open>OP_CHECKMULTISIG\<close>: the signatures and the keys that are left, in the order in which the
  loop takes them.  It is entered with at most as many signatures as keys, and stops with \<open>fSuccess = false\<close> as soon
  as more signatures than keys are left, so it never reads a key past the last one.
\<close>

fun multisig_loop :: "script_env \<Rightarrow> CScript \<Rightarrow> valtype list \<Rightarrow> valtype list \<Rightarrow> bool script_result" where
  "multisig_loop env scriptCode [] keys = Inr True"
| "multisig_loop env scriptCode (vchSig # sigs) [] = Inr False"
| "multisig_loop env scriptCode (vchSig # sigs) (vchPubKey # keys) =
     bind_result (check_encodings env vchSig vchPubKey) (\<lambda>_.
       let fOk = env_CheckSig env vchSig vchPubKey scriptCode;
           sigs' = (if fOk then sigs else vchSig # sigs)
       in if length sigs' > length keys then Inr False
          else multisig_loop env scriptCode sigs' keys)"

text \<open>The counts of keys and signatures, with the checks on them, on the operation count and on the stack size.\<close>

definition multisig_args :: "script_env \<Rightarrow> eval_state \<Rightarrow> (nat \<times> nat) script_result" where
  "multisig_args env st =
     (let stack = es_stack st
      in if length stack < 1 then bad_stack
      else bind_result (script_num env (stack ! 0)) (\<lambda>bnKeys.
        if getint bnKeys < 0 \<or> getint bnKeys > 20 then Inl SCRIPT_ERR_PUBKEY_COUNT
        else let nKeysCount = nat (getint bnKeys)
        in if nOpCount st + nKeysCount > 201 then Inl SCRIPT_ERR_OP_COUNT
        else if length stack < 2 + nKeysCount then bad_stack
        else bind_result (script_num env (stack ! (1 + nKeysCount))) (\<lambda>bnSigs.
          if getint bnSigs < 0 \<or> getint bnSigs > int nKeysCount then Inl SCRIPT_ERR_SIG_COUNT
          else let nSigsCount = nat (getint bnSigs)
          in if length stack < 3 + nKeysCount + nSigsCount then bad_stack
          else Inr (nKeysCount, nSigsCount))))"

definition multisig_code :: "CScript \<Rightarrow> valtype list \<Rightarrow> CScript" where
  "multisig_code codehash sigs = foldl (\<lambda>code vchSig. snd (FindAndDelete code (push_data vchSig))) codehash sigs"

text \<open>\<open>rest\<close> is the stack after the arguments are popped: the dummy element, then what lies below.\<close>

fun multisig_finish :: "script_env \<Rightarrow> bool \<Rightarrow> bool \<Rightarrow> valtype list \<Rightarrow> valtype list script_result" where
  "multisig_finish env verify fSuccess (dummy # s) =
     (if flag_set env SCRIPT_VERIFY_NULLDUMMY \<and> length dummy > 0 then Inl SCRIPT_ERR_SIG_NULLDUMMY
      else if verify then (if fSuccess then Inr s else Inl SCRIPT_ERR_CHECKMULTISIGVERIFY)
      else Inr (bool_vch fSuccess # s))"
| "multisig_finish env verify fSuccess [] = bad_stack"

definition op_CHECKMULTISIG :: "script_env \<Rightarrow> bool \<Rightarrow> eval_state \<Rightarrow> eval_state script_result" where
  "op_CHECKMULTISIG env verify st =
     bind_result (multisig_args env st) (\<lambda>(nKeysCount, nSigsCount).
       let stack = es_stack st;
           keys = take nKeysCount (drop 1 stack);
           sigs = take nSigsCount (drop (2 + nKeysCount) stack)
       in bind_result (multisig_loop env (multisig_code (pbegincodehash st) sigs) sigs keys) (\<lambda>fSuccess.
          bind_result (multisig_finish env verify fSuccess (drop (2 + nKeysCount + nSigsCount) stack)) (\<lambda>s.
            Inr (st\<lparr>nOpCount := nOpCount st + nKeysCount, es_stack := s\<rparr>))))"

section \<open>Control flow and the other stack\<close>

definition fExec :: "eval_state \<Rightarrow> bool" where
  "fExec st \<longleftrightarrow> \<not> (\<exists>b \<in> set (vfExec st). \<not> b)"

definition op_IF :: "bool \<Rightarrow> eval_state \<Rightarrow> eval_state script_result" where
  "op_IF notif st =
     (if fExec st then
        (case es_stack st of [] \<Rightarrow> Inl SCRIPT_ERR_UNBALANCED_CONDITIONAL
         | vch # s \<Rightarrow>
             let fValue = CastToBool vch; fValue = (if notif then \<not> fValue else fValue)
             in Inr (st\<lparr>es_stack := s, vfExec := fValue # vfExec st\<rparr>))
      else Inr (st\<lparr>vfExec := False # vfExec st\<rparr>))"

definition op_ELSE :: "eval_state \<Rightarrow> eval_state script_result" where
  "op_ELSE st = (case vfExec st of [] \<Rightarrow> Inl SCRIPT_ERR_UNBALANCED_CONDITIONAL
     | b # bs \<Rightarrow> Inr (st\<lparr>vfExec := (\<not> b) # bs\<rparr>))"

definition op_ENDIF :: "eval_state \<Rightarrow> eval_state script_result" where
  "op_ENDIF st = (case vfExec st of [] \<Rightarrow> Inl SCRIPT_ERR_UNBALANCED_CONDITIONAL
     | b # bs \<Rightarrow> Inr (st\<lparr>vfExec := bs\<rparr>))"

fun st_VERIFY :: "valtype list \<Rightarrow> valtype list script_result" where
  "st_VERIFY (x # s) = (if CastToBool x then Inr s else Inl SCRIPT_ERR_VERIFY)"
| "st_VERIFY _ = bad_stack"

definition op_TOALTSTACK :: "eval_state \<Rightarrow> eval_state script_result" where
  "op_TOALTSTACK st = (case es_stack st of [] \<Rightarrow> bad_stack
     | x # s \<Rightarrow> Inr (st\<lparr>es_stack := s, es_altstack := x # es_altstack st\<rparr>))"

definition op_FROMALTSTACK :: "eval_state \<Rightarrow> eval_state script_result" where
  "op_FROMALTSTACK st = (case es_altstack st of [] \<Rightarrow> Inl SCRIPT_ERR_INVALID_ALTSTACK_OPERATION
     | x # a \<Rightarrow> Inr (st\<lparr>es_stack := x # es_stack st, es_altstack := a\<rparr>))"

section \<open>One instruction\<close>

definition on_stack :: "(valtype list \<Rightarrow> valtype list script_result) \<Rightarrow> eval_state \<Rightarrow> eval_state script_result" where
  "on_stack f st = bind_result (f (es_stack st)) (\<lambda>s. Inr (st\<lparr>es_stack := s\<rparr>))"

definition stack_opcode :: "script_env \<Rightarrow> nat \<Rightarrow> (valtype list \<Rightarrow> valtype list script_result) option" where
  "stack_opcode env opcode =
     (if opcode = OP_2DROP then Some st_2DROP
      else if opcode = OP_2DUP then Some st_2DUP
      else if opcode = OP_3DUP then Some st_3DUP
      else if opcode = OP_2OVER then Some st_2OVER
      else if opcode = OP_2ROT then Some st_2ROT
      else if opcode = OP_2SWAP then Some st_2SWAP
      else if opcode = OP_IFDUP then Some st_IFDUP
      else if opcode = OP_DEPTH then Some st_DEPTH
      else if opcode = OP_DROP then Some st_DROP
      else if opcode = OP_DUP then Some st_DUP
      else if opcode = OP_NIP then Some st_NIP
      else if opcode = OP_OVER then Some st_OVER
      else if opcode = OP_PICK \<or> opcode = OP_ROLL then Some (st_PICK_ROLL env (opcode = OP_ROLL))
      else if opcode = OP_ROT then Some st_ROT
      else if opcode = OP_SWAP then Some st_SWAP
      else if opcode = OP_TUCK then Some st_TUCK
      else if opcode = OP_SIZE then Some st_SIZE
      else if opcode = OP_EQUAL \<or> opcode = OP_EQUALVERIFY then Some (st_EQUAL (opcode = OP_EQUALVERIFY))
      else if opcode = OP_1ADD \<or> opcode = OP_1SUB \<or> opcode = OP_NEGATE \<or> opcode = OP_ABS \<or> opcode = OP_NOT \<or>
              opcode = OP_0NOTEQUAL then Some (st_unary env opcode)
      else if opcode = OP_ADD \<or> opcode = OP_SUB \<or> (OP_BOOLAND \<le> opcode \<and> opcode \<le> OP_MAX) then Some (st_binary env opcode)
      else if opcode = OP_WITHIN then Some (st_WITHIN env)
      else if OP_RIPEMD160 \<le> opcode \<and> opcode \<le> OP_HASH256 then Some (st_hash env opcode)
      else None)"

definition exec_op :: "script_env \<Rightarrow> nat \<Rightarrow> CScript \<Rightarrow> eval_state \<Rightarrow> eval_state script_result" where
  "exec_op env opcode pc st =
     (if opcode = OP_1NEGATE \<or> (OP_1 \<le> opcode \<and> opcode \<le> OP_16) then
        Inr (st\<lparr>es_stack := ScriptNum_serialize (int opcode - (int OP_1 - 1)) # es_stack st\<rparr>)
      else if opcode = OP_NOP then Inr st
      else if OP_NOP1 \<le> opcode \<and> opcode \<le> OP_NOP10 then
        (if flag_set env SCRIPT_VERIFY_DISCOURAGE_UPGRADABLE_NOPS then Inl SCRIPT_ERR_DISCOURAGE_UPGRADABLE_NOPS else Inr st)
      else if opcode = OP_IF \<or> opcode = OP_NOTIF then op_IF (opcode = OP_NOTIF) st
      else if opcode = OP_ELSE then op_ELSE st
      else if opcode = OP_ENDIF then op_ENDIF st
      else if opcode = OP_VERIFY then on_stack st_VERIFY st
      else if opcode = OP_RETURN then Inl SCRIPT_ERR_OP_RETURN
      else if opcode = OP_TOALTSTACK then op_TOALTSTACK st
      else if opcode = OP_FROMALTSTACK then op_FROMALTSTACK st
      else if opcode = OP_CODESEPARATOR then Inr (st\<lparr>pbegincodehash := pc\<rparr>)
      else if opcode = OP_CHECKSIG \<or> opcode = OP_CHECKSIGVERIFY then
        on_stack (st_CHECKSIG env (opcode = OP_CHECKSIGVERIFY) (pbegincodehash st)) st
      else if opcode = OP_CHECKMULTISIG \<or> opcode = OP_CHECKMULTISIGVERIFY then
        op_CHECKMULTISIG env (opcode = OP_CHECKMULTISIGVERIFY) st
      else (case stack_opcode env opcode of Some f \<Rightarrow> on_stack f st | None \<Rightarrow> Inl SCRIPT_ERR_BAD_OPCODE))"

definition disabled_opcode :: "nat \<Rightarrow> bool" where
  "disabled_opcode opcode \<longleftrightarrow>
     opcode = OP_CAT \<or> opcode = OP_SUBSTR \<or> opcode = OP_LEFT \<or> opcode = OP_RIGHT \<or> opcode = OP_INVERT \<or>
     opcode = OP_AND \<or> opcode = OP_OR \<or> opcode = OP_XOR \<or> opcode = OP_2MUL \<or> opcode = OP_2DIV \<or> opcode = OP_MUL \<or>
     opcode = OP_DIV \<or> opcode = OP_MOD \<or> opcode = OP_LSHIFT \<or> opcode = OP_RSHIFT"

definition exec_instruction :: "script_env \<Rightarrow> nat \<Rightarrow> valtype \<Rightarrow> CScript \<Rightarrow> eval_state \<Rightarrow> eval_state script_result" where
  "exec_instruction env opcode vchPushValue pc st =
     (if fExec st \<and> opcode \<le> OP_PUSHDATA4 then
        (if flag_set env SCRIPT_VERIFY_MINIMALDATA \<and> \<not> CheckMinimalPush vchPushValue opcode then Inl SCRIPT_ERR_MINIMALDATA
         else Inr (st\<lparr>es_stack := vchPushValue # es_stack st\<rparr>))
      else if fExec st \<or> (OP_IF \<le> opcode \<and> opcode \<le> OP_ENDIF) then exec_op env opcode pc st
      else Inr st)"

definition eval_op :: "script_env \<Rightarrow> nat \<Rightarrow> valtype \<Rightarrow> CScript \<Rightarrow> eval_state \<Rightarrow> eval_state script_result" where
  "eval_op env opcode vchPushValue pc st =
     (if length vchPushValue > MAX_SCRIPT_ELEMENT_SIZE then Inl SCRIPT_ERR_PUSH_SIZE
      else let st = (if opcode > OP_16 then st\<lparr>nOpCount := nOpCount st + 1\<rparr> else st)
      in if opcode > OP_16 \<and> nOpCount st > 201 then Inl SCRIPT_ERR_OP_COUNT
      else if disabled_opcode opcode then Inl SCRIPT_ERR_DISABLED_OPCODE
      else bind_result (exec_instruction env opcode vchPushValue pc st) (\<lambda>st.
        if length (es_stack st) + length (es_altstack st) > 1000 then Inl SCRIPT_ERR_STACK_SIZE else Inr st))"

section \<open>The loop\<close>

function eval_loop :: "script_env \<Rightarrow> CScript \<Rightarrow> eval_state \<Rightarrow> eval_state script_result" where
  "eval_loop env pc st =
     (if pc = [] then Inr st
      else case GetOp2 pc of (ok, opcode, vchPushValue, pc') \<Rightarrow>
        if \<not> ok then Inl SCRIPT_ERR_BAD_OPCODE
        else bind_result (eval_op env opcode vchPushValue pc' st) (eval_loop env pc'))"
  by pat_completeness auto
termination by (relation "measure (\<lambda>(env, pc, st). length pc)") (auto dest: GetOp2_True [OF sym])

declare eval_loop.simps [simp del]

definition EvalScript :: "script_env \<Rightarrow> valtype list \<Rightarrow> CScript \<Rightarrow> valtype list script_result" where
  "EvalScript env stack script =
     (if length script > 10000 then Inl SCRIPT_ERR_SCRIPT_SIZE
      else bind_result
        (eval_loop env script \<lparr>es_stack = stack, es_altstack = [], vfExec = [], nOpCount = 0, pbegincodehash = script\<rparr>)
        (\<lambda>st. if vfExec st \<noteq> [] then Inl SCRIPT_ERR_UNBALANCED_CONDITIONAL else Inr (es_stack st)))"

text \<open>\<open>None\<close> is the failure of \<open>assert(!stackCopy.empty())\<close>.\<close>

definition VerifyScript :: "script_env \<Rightarrow> CScript \<Rightarrow> CScript \<Rightarrow> (unit script_result) option" where
  "VerifyScript env scriptSig scriptPubKey =
     (if flag_set env SCRIPT_VERIFY_SIGPUSHONLY \<and> \<not> IsPushOnly scriptSig then Some (Inl SCRIPT_ERR_SIG_PUSHONLY)
      else case EvalScript env [] scriptSig of Inl e \<Rightarrow> Some (Inl e) | Inr stackCopy \<Rightarrow>
      case EvalScript env stackCopy scriptPubKey of Inl e \<Rightarrow> Some (Inl e) | Inr stack \<Rightarrow>
      if stack = [] then Some (Inl SCRIPT_ERR_EVAL_FALSE)
      else if CastToBool (hd stack) = False then Some (Inl SCRIPT_ERR_EVAL_FALSE)
      else if flag_set env SCRIPT_VERIFY_P2SH \<and> IsPayToScriptHash scriptPubKey then
        (if \<not> IsPushOnly scriptSig then Some (Inl SCRIPT_ERR_SIG_PUSHONLY)
         else case stackCopy of [] \<Rightarrow> None | pubKey2 # stackCopy \<Rightarrow>
           (case EvalScript env stackCopy pubKey2 of Inl e \<Rightarrow> Some (Inl e) | Inr stackCopy \<Rightarrow>
            if stackCopy = [] then Some (Inl SCRIPT_ERR_EVAL_FALSE)
            else if \<not> CastToBool (hd stackCopy) then Some (Inl SCRIPT_ERR_EVAL_FALSE)
            else Some (Inr ())))
      else Some (Inr ()))"

section \<open>Results\<close>

lemma bind_result_Inr: "bind_result x f = Inr y \<longleftrightarrow> (\<exists>z. x = Inr z \<and> f z = Inr y)"
  and bind_result_Inr': "Inr y = bind_result x f \<longleftrightarrow> (\<exists>z. x = Inr z \<and> f z = Inr y)"
  by (cases x; auto)+

fun_cases st_2DROP_Inr: "st_2DROP s = Inr s'"
fun_cases st_2DUP_Inr: "st_2DUP s = Inr s'"
fun_cases st_3DUP_Inr: "st_3DUP s = Inr s'"
fun_cases st_2OVER_Inr: "st_2OVER s = Inr s'"
fun_cases st_2ROT_Inr: "st_2ROT s = Inr s'"
fun_cases st_2SWAP_Inr: "st_2SWAP s = Inr s'"
fun_cases st_IFDUP_Inr: "st_IFDUP s = Inr s'"
fun_cases st_DROP_Inr: "st_DROP s = Inr s'"
fun_cases st_DUP_Inr: "st_DUP s = Inr s'"
fun_cases st_NIP_Inr: "st_NIP s = Inr s'"
fun_cases st_OVER_Inr: "st_OVER s = Inr s'"
fun_cases st_PICK_ROLL_Inr: "st_PICK_ROLL env roll s = Inr s'"
fun_cases st_ROT_Inr: "st_ROT s = Inr s'"
fun_cases st_SWAP_Inr: "st_SWAP s = Inr s'"
fun_cases st_TUCK_Inr: "st_TUCK s = Inr s'"
fun_cases st_SIZE_Inr: "st_SIZE s = Inr s'"
fun_cases st_EQUAL_Inr: "st_EQUAL verify s = Inr s'"
fun_cases st_unary_Inr: "st_unary env opcode s = Inr s'"
fun_cases st_binary_Inr: "st_binary env opcode s = Inr s'"
fun_cases st_WITHIN_Inr: "st_WITHIN env s = Inr s'"
fun_cases st_hash_Inr: "st_hash env opcode s = Inr s'"
fun_cases st_CHECKSIG_Inr: "st_CHECKSIG env verify code s = Inr s'"
fun_cases st_VERIFY_Inr: "st_VERIFY s = Inr s'"
fun_cases multisig_finish_Inr: "multisig_finish env verify b s = Inr s'"

section \<open>Element sizes\<close>

definition elem_ok :: "valtype \<Rightarrow> bool" where
  "elem_ok x \<longleftrightarrow> length x \<le> MAX_SCRIPT_ELEMENT_SIZE"

definition hashes_ok :: "script_env \<Rightarrow> bool" where
  "hashes_ok env \<longleftrightarrow> (\<forall>v. elem_ok (env_RIPEMD160 env v) \<and> elem_ok (env_SHA1 env v) \<and> elem_ok (env_SHA256 env v) \<and>
     elem_ok (env_HASH160 env v) \<and> elem_ok (env_HASH256 env v))"

lemma length_serialize_Suc: "length (ScriptNum_serialize v) \<le> Suc (length (abs_bytes (nat \<bar>v\<bar>)))"
proof (cases "v = 0")
  case False
  then show ?thesis
    by (cases rule: ScriptNum_serialize_cases) (auto dest: arg_cong [of _ _ length])
qed (simp add: ScriptNum_serialize_def)

lemma elem_ok_num: "\<bar>v\<bar> < 256 ^ 4 \<Longrightarrow> elem_ok (ScriptNum_serialize v)"
proof -
  assume "\<bar>v\<bar> < 256 ^ 4"
  then have "nat \<bar>v\<bar> < 256 ^ 4" by simp
  then show ?thesis using length_serialize_Suc [of v] length_abs_bytes [of "nat \<bar>v\<bar>" 4]
    by (simp add: elem_ok_def MAX_SCRIPT_ELEMENT_SIZE_def)
qed

lemma elem_ok_bool [simp]: "elem_ok (bool_vch b)"
  by (simp add: elem_ok_def bool_vch_def vchTrue_def vchFalse_def MAX_SCRIPT_ELEMENT_SIZE_def)

lemma script_num_bound: "script_num env x = Inr n \<Longrightarrow> \<bar>n\<bar> < 2 ^ 31"
  using set_vch_bound [of x]
  by (auto simp: script_num_def CScriptNum_def nMaxNumSize_def split: option.splits if_splits)

lemma unary_op_bound: "\<bar>n\<bar> < 2 ^ 31 \<Longrightarrow> \<bar>unary_op opcode n\<bar> < 256 ^ 4"
proof -
  have "unary_op opcode n \<in> {n + 1, n - 1, - n, n, 0, 1}" by (simp add: unary_op_def bn_bool_def)
  then show "\<bar>n\<bar> < 2 ^ 31 \<Longrightarrow> \<bar>unary_op opcode n\<bar> < 256 ^ 4" by auto
qed

lemma binary_op_bound: "\<bar>n\<bar> < 2 ^ 31 \<Longrightarrow> \<bar>m\<bar> < 2 ^ 31 \<Longrightarrow> \<bar>binary_op opcode n m\<bar> < 256 ^ 4"
proof -
  have "binary_op opcode n m \<in> {n + m, n - m, n, m, 0, 1}" by (simp add: binary_op_def bn_bool_def)
  then show "\<bar>n\<bar> < 2 ^ 31 \<Longrightarrow> \<bar>m\<bar> < 2 ^ 31 \<Longrightarrow> \<bar>binary_op opcode n m\<bar> < 256 ^ 4" by auto
qed

lemma unary_elem_ok: "script_num env x = Inr n \<Longrightarrow> elem_ok (ScriptNum_serialize (unary_op opcode n))"
  by (intro elem_ok_num unary_op_bound script_num_bound)

lemma binary_elem_ok:
  "script_num env x = Inr n \<Longrightarrow> script_num env y = Inr m \<Longrightarrow> elem_ok (ScriptNum_serialize (binary_op opcode n m))"
  by (intro elem_ok_num binary_op_bound script_num_bound)

abbreviation stack_ok :: "valtype list \<Rightarrow> bool" where
  "stack_ok s \<equiv> list_all elem_ok s"

lemma st_shuffle_ok:
  "st_2DROP s = Inr s' \<Longrightarrow> stack_ok s \<Longrightarrow> stack_ok s'" "st_2DUP s = Inr s' \<Longrightarrow> stack_ok s \<Longrightarrow> stack_ok s'"
  "st_3DUP s = Inr s' \<Longrightarrow> stack_ok s \<Longrightarrow> stack_ok s'" "st_2OVER s = Inr s' \<Longrightarrow> stack_ok s \<Longrightarrow> stack_ok s'"
  "st_2ROT s = Inr s' \<Longrightarrow> stack_ok s \<Longrightarrow> stack_ok s'" "st_2SWAP s = Inr s' \<Longrightarrow> stack_ok s \<Longrightarrow> stack_ok s'"
  "st_IFDUP s = Inr s' \<Longrightarrow> stack_ok s \<Longrightarrow> stack_ok s'" "st_DROP s = Inr s' \<Longrightarrow> stack_ok s \<Longrightarrow> stack_ok s'"
  "st_DUP s = Inr s' \<Longrightarrow> stack_ok s \<Longrightarrow> stack_ok s'" "st_NIP s = Inr s' \<Longrightarrow> stack_ok s \<Longrightarrow> stack_ok s'"
  "st_OVER s = Inr s' \<Longrightarrow> stack_ok s \<Longrightarrow> stack_ok s'" "st_ROT s = Inr s' \<Longrightarrow> stack_ok s \<Longrightarrow> stack_ok s'"
  "st_SWAP s = Inr s' \<Longrightarrow> stack_ok s \<Longrightarrow> stack_ok s'" "st_TUCK s = Inr s' \<Longrightarrow> stack_ok s \<Longrightarrow> stack_ok s'"
  "st_VERIFY s = Inr s' \<Longrightarrow> stack_ok s \<Longrightarrow> stack_ok s'" "st_EQUAL b s = Inr s' \<Longrightarrow> stack_ok s \<Longrightarrow> stack_ok s'"
  "st_CHECKSIG env b code s = Inr s' \<Longrightarrow> stack_ok s \<Longrightarrow> stack_ok s'"
  by ((erule st_2DROP_Inr | erule st_2DUP_Inr | erule st_3DUP_Inr | erule st_2OVER_Inr | erule st_2ROT_Inr |
      erule st_2SWAP_Inr | erule st_IFDUP_Inr | erule st_DROP_Inr | erule st_DUP_Inr | erule st_NIP_Inr | erule st_OVER_Inr |
      erule st_ROT_Inr | erule st_SWAP_Inr | erule st_TUCK_Inr | erule st_VERIFY_Inr | erule st_EQUAL_Inr |
      erule st_CHECKSIG_Inr), auto simp: Let_def bind_result_Inr' split: if_splits)+

lemma st_PICK_ROLL_ok: "st_PICK_ROLL env b s = Inr s' \<Longrightarrow> stack_ok s \<Longrightarrow> stack_ok s'"
proof -
  assume h: "st_PICK_ROLL env b s = Inr s'" and ok: "stack_ok s"
  from h obtain x y t where s: "s = x # y # t" by (elim st_PICK_ROLL_Inr)
  from h
    obtain z where "\<not> (getint z < 0 \<or> getint z \<ge> int (length (y # t)))"
    and "s' = (y # t) ! nat (getint z) #
      (if b then take (nat (getint z)) (y # t) @ drop (nat (getint z) + 1) (y # t) else y # t)"
    by (auto simp: s bind_result_Inr Let_def split: if_splits)
  then obtain n where n: "0 \<le> n" "n < int (length (y # t))"
    and s': "s' = (y # t) ! nat n # (if b then take (nat n) (y # t) @ drop (nat n + 1) (y # t) else y # t)"
    using that [of "getint z"] by linarith
  have "(y # t) ! nat n \<in> set (y # t)" using n by (intro nth_mem) linarith
  then have "set s' \<subseteq> set (y # t)"
    using set_take_subset [of "nat n" "y # t"] set_drop_subset [of "nat n + 1" "y # t"] unfolding s'
    by (cases b) (simp_all del: take_Cons' drop_Suc_Cons add: subset_iff)
  with s ok show "stack_ok s'" by (auto simp: list_all_iff)
qed

lemma st_number_ok:
  "st_unary env opcode s = Inr s' \<Longrightarrow> stack_ok s \<Longrightarrow> stack_ok s'"
  "st_binary env opcode s = Inr s' \<Longrightarrow> stack_ok s \<Longrightarrow> stack_ok s'"
  "st_WITHIN env s = Inr s' \<Longrightarrow> stack_ok s \<Longrightarrow> stack_ok s'"
  "st_hash env opcode s = Inr s' \<Longrightarrow> hashes_ok env \<Longrightarrow> stack_ok s \<Longrightarrow> stack_ok s'"
  "st_DEPTH s = Inr s' \<Longrightarrow> length s \<le> 1000 \<Longrightarrow> stack_ok s \<Longrightarrow> stack_ok s'"
  "st_SIZE s = Inr s' \<Longrightarrow> stack_ok s \<Longrightarrow> stack_ok s'"
  by (auto elim!: st_unary_Inr st_binary_Inr st_WITHIN_Inr st_hash_Inr st_SIZE_Inr simp: Let_def bind_result_Inr bind_result_Inr' hashes_ok_def
      st_DEPTH_def unary_elem_ok binary_elem_ok split: if_splits intro!: elem_ok_num)
    (simp add: elem_ok_def MAX_SCRIPT_ELEMENT_SIZE_def)

lemma stack_opcode_ok:
  "stack_opcode env opcode = Some f \<Longrightarrow> f s = Inr s' \<Longrightarrow> hashes_ok env \<Longrightarrow> length s \<le> 1000 \<Longrightarrow> stack_ok s \<Longrightarrow> stack_ok s'"
  by (auto simp: stack_opcode_def split: if_splits dest: st_shuffle_ok st_PICK_ROLL_ok st_number_ok)

section \<open>What one instruction changes\<close>

lemma on_stack_Inr: "on_stack f st = Inr st' \<longleftrightarrow> (\<exists>s. f (es_stack st) = Inr s \<and> st' = st\<lparr>es_stack := s\<rparr>)"
  by (auto simp: on_stack_def bind_result_Inr)

lemma multisig_args_Inr:
  "multisig_args env st = Inr (n, m) \<Longrightarrow> nOpCount st + n \<le> 201 \<and> m \<le> n \<and> n \<le> 20 \<and> 3 + n + m \<le> length (es_stack st)"
  by (auto simp: multisig_args_def Let_def bind_result_Inr split: if_splits)

lemma op_CHECKMULTISIG_Inr:
  assumes "op_CHECKMULTISIG env verify st = Inr st'"
  obtains n m b s where "multisig_args env st = Inr (n, m)"
    "multisig_finish env verify b (drop (2 + n + m) (es_stack st)) = Inr s"
    "st' = st\<lparr>nOpCount := nOpCount st + n, es_stack := s\<rparr>"
  using assms by (auto simp: op_CHECKMULTISIG_def Let_def bind_result_Inr)

lemma multisig_finish_ok: "multisig_finish env verify b s = Inr s' \<Longrightarrow> stack_ok s \<Longrightarrow> stack_ok s'"
  by (elim multisig_finish_Inr) (auto split: if_splits)

lemma same_stack: "\<exists>s. st = (st :: eval_state)\<lparr>es_stack := s\<rparr>"
  by (intro exI [of _ "es_stack st"]) simp

definition frame_opcodes :: "nat list" where
  "frame_opcodes = [OP_IF, OP_NOTIF, OP_ELSE, OP_ENDIF, OP_TOALTSTACK, OP_FROMALTSTACK, OP_CODESEPARATOR,
     OP_CHECKMULTISIG, OP_CHECKMULTISIGVERIFY]"

lemma exec_op_stack_only:
  assumes "exec_op env opcode pc st = Inr st'" "opcode \<notin> set frame_opcodes"
  shows "\<exists>s. st' = st\<lparr>es_stack := s\<rparr>"
proof -
  have [simp]: "opcode \<noteq> OP_IF" "opcode \<noteq> OP_NOTIF" "opcode \<noteq> OP_ELSE" "opcode \<noteq> OP_ENDIF" "opcode \<noteq> OP_TOALTSTACK"
    "opcode \<noteq> OP_FROMALTSTACK" "opcode \<noteq> OP_CODESEPARATOR" "opcode \<noteq> OP_CHECKMULTISIG" "opcode \<noteq> OP_CHECKMULTISIGVERIFY"
    using assms(2) by (simp_all add: frame_opcodes_def)
  have os: "on_stack f st = Inr st' \<Longrightarrow> \<exists>s. st' = st\<lparr>es_stack := s\<rparr>" for f by (auto simp: on_stack_Inr)
  show ?thesis using assms(1) unfolding exec_op_def
    by (simp split: if_splits option.splits add: same_stack) (auto dest: os intro: same_stack)
qed


lemma exec_op_frame_simps:
  "exec_op env OP_IF pc st = op_IF False st" "exec_op env OP_NOTIF pc st = op_IF True st"
  "exec_op env OP_ELSE pc st = op_ELSE st" "exec_op env OP_ENDIF pc st = op_ENDIF st"
  "exec_op env OP_TOALTSTACK pc st = op_TOALTSTACK st" "exec_op env OP_FROMALTSTACK pc st = op_FROMALTSTACK st"
  "exec_op env OP_CODESEPARATOR pc st = Inr (st\<lparr>pbegincodehash := pc\<rparr>)"
  "exec_op env OP_CHECKMULTISIG pc st = op_CHECKMULTISIG env False st"
  "exec_op env OP_CHECKMULTISIGVERIFY pc st = op_CHECKMULTISIG env True st"
  "exec_op env OP_VERIF pc st = Inl SCRIPT_ERR_BAD_OPCODE" "exec_op env OP_VERNOTIF pc st = Inl SCRIPT_ERR_BAD_OPCODE"
  "exec_op env OP_RETURN pc st = Inl SCRIPT_ERR_OP_RETURN"
  by (simp_all add: exec_op_def stack_opcode_def)

definition depth_after :: "nat \<Rightarrow> nat \<Rightarrow> nat" where
  "depth_after opcode d = (if opcode = OP_IF \<or> opcode = OP_NOTIF then d + 1 else if opcode = OP_ENDIF then d - 1 else d)"

lemma op_IF_Inr: "op_IF b st = Inr st' \<Longrightarrow> \<exists>v s. st' = st\<lparr>es_stack := s, vfExec := v # vfExec st\<rparr> \<and> set s \<subseteq> set (es_stack st)"
proof (cases "fExec st")
  case False
  moreover assume "op_IF b st = Inr st'"
  ultimately have "st' = st\<lparr>es_stack := es_stack st, vfExec := False # vfExec st\<rparr>" by (cases st) (simp add: op_IF_def)
  then show ?thesis by blast
qed (auto simp: op_IF_def Let_def split: list.splits)

lemma exec_op_frame:
  assumes ex: "exec_op env opcode pc st = Inr st'"
  shows "nOpCount st \<le> nOpCount st' \<and> nOpCount st' \<le> max 201 (nOpCount st) \<and>
    length (vfExec st') = depth_after opcode (length (vfExec st)) \<and>
    (opcode = OP_ELSE \<or> opcode = OP_ENDIF \<longrightarrow> vfExec st \<noteq> []) \<and> opcode \<noteq> OP_VERIF \<and> opcode \<noteq> OP_VERNOTIF"
proof (cases "opcode \<in> set frame_opcodes")
  case True
  then consider "opcode = OP_IF" | "opcode = OP_NOTIF" | "opcode = OP_ELSE" | "opcode = OP_ENDIF" | "opcode = OP_TOALTSTACK"
    | "opcode = OP_FROMALTSTACK" | "opcode = OP_CODESEPARATOR" | b where "op_CHECKMULTISIG env b st = Inr st'"
      "opcode = OP_CHECKMULTISIG \<or> opcode = OP_CHECKMULTISIGVERIFY"
    using ex by (auto simp: frame_opcodes_def exec_op_frame_simps)
  then show ?thesis
  proof cases
    case 8
    from 8(1) show ?thesis
    proof (rule op_CHECKMULTISIG_Inr)
      fix n m c s
      assume a: "multisig_args env st = Inr (n, m)" and st': "st' = st\<lparr>nOpCount := nOpCount st + n, es_stack := s\<rparr>"
      from multisig_args_Inr [OF a] st' 8(2) show ?thesis by (auto simp: depth_after_def)
    qed
  qed (use ex in \<open>auto simp: exec_op_frame_simps op_ELSE_def op_ENDIF_def op_TOALTSTACK_def op_FROMALTSTACK_def depth_after_def
        dest!: op_IF_Inr split: list.splits\<close>)
next
  case False
  from exec_op_stack_only [OF ex False] obtain s where st': "st' = st\<lparr>es_stack := s\<rparr>" ..
  have "opcode \<noteq> OP_VERIF \<and> opcode \<noteq> OP_VERNOTIF" using ex by (auto simp: exec_op_frame_simps)
  with st' False show ?thesis by (simp add: depth_after_def frame_opcodes_def)
qed

lemma exec_instruction_frame:
  assumes ex: "exec_instruction env opcode vch pc st = Inr st'"
  shows "nOpCount st \<le> nOpCount st' \<and> nOpCount st' \<le> max 201 (nOpCount st) \<and>
    length (vfExec st') = depth_after opcode (length (vfExec st)) \<and>
    (opcode = OP_ELSE \<or> opcode = OP_ENDIF \<longrightarrow> vfExec st \<noteq> []) \<and> opcode \<noteq> OP_VERIF \<and> opcode \<noteq> OP_VERNOTIF"
proof (cases "(fExec st \<and> opcode \<le> OP_PUSHDATA4) \<or> \<not> (fExec st \<or> (OP_IF \<le> opcode \<and> opcode \<le> OP_ENDIF))")
  case True
  with ex have "nOpCount st' = nOpCount st \<and> vfExec st' = vfExec st" by (auto simp: exec_instruction_def split: if_splits)
  with True show ?thesis by (auto simp: depth_after_def)
next
  case False
  with ex have "exec_op env opcode pc st = Inr st'" by (auto simp: exec_instruction_def)
  then show ?thesis by (rule exec_op_frame)
qed

lemma eval_op_frame:
  assumes ex: "eval_op env opcode vch pc st = Inr st'"
  shows "nOpCount st + (if opcode > OP_16 then 1 else 0) \<le> nOpCount st' \<and> nOpCount st' \<le> max 201 (nOpCount st) \<and>
    length (vfExec st') = depth_after opcode (length (vfExec st)) \<and>
    (opcode = OP_ELSE \<or> opcode = OP_ENDIF \<longrightarrow> vfExec st \<noteq> []) \<and> opcode \<noteq> OP_VERIF \<and> opcode \<noteq> OP_VERNOTIF \<and>
    \<not> disabled_opcode opcode \<and> length vch \<le> MAX_SCRIPT_ELEMENT_SIZE \<and> length (es_stack st') + length (es_altstack st') \<le> 1000"
proof -
  define st1 where "st1 = (if opcode > OP_16 then st\<lparr>nOpCount := nOpCount st + 1\<rparr> else st)"
  from ex have "exec_instruction env opcode vch pc st1 = Inr st'" and "\<not> (opcode > OP_16 \<and> nOpCount st1 > 201)"
    and "\<not> disabled_opcode opcode" "length vch \<le> MAX_SCRIPT_ELEMENT_SIZE" "length (es_stack st') + length (es_altstack st') \<le> 1000"
    by (auto simp: eval_op_def Let_def bind_result_Inr st1_def split: if_splits)
  with exec_instruction_frame [of env opcode vch pc st1 st'] show ?thesis
    by (cases "opcode > OP_16") (auto simp: st1_def)
qed


section \<open>What a successful evaluation shows of the script\<close>

text \<open>The nesting of conditionals over a list of instructions, \<open>None\<close> when one closes what is not open.\<close>

fun cond_depth :: "nat \<Rightarrow> (nat \<times> valtype) list \<Rightarrow> nat option" where
  "cond_depth d [] = Some d"
| "cond_depth d ((opcode, vch) # ops) =
     (if (opcode = OP_ELSE \<or> opcode = OP_ENDIF) \<and> d = 0 then None else cond_depth (depth_after opcode d) ops)"

definition op_permitted :: "nat \<times> valtype \<Rightarrow> bool" where
  "op_permitted x \<longleftrightarrow> (case x of (opcode, vch) \<Rightarrow> \<not> disabled_opcode opcode \<and> opcode \<noteq> OP_VERIF \<and> opcode \<noteq> OP_VERNOTIF \<and>
     length vch \<le> MAX_SCRIPT_ELEMENT_SIZE)"

definition counted_ops :: "(nat \<times> valtype) list \<Rightarrow> nat" where
  "counted_ops ops = length (filter (\<lambda>(opcode, vch). opcode > OP_16) ops)"

lemma eval_loop_Nil [simp]: "eval_loop env [] st = Inr st"
  by (simp add: eval_loop.simps)

definition run_shape :: "CScript \<Rightarrow> eval_state \<Rightarrow> eval_state \<Rightarrow> (nat \<times> valtype) list \<Rightarrow> bool" where
  "run_shape pc st st' ops \<longleftrightarrow> pc = script_of_ops ops \<and> valid_ops ops \<and> list_all op_permitted ops \<and>
     nOpCount st + counted_ops ops \<le> nOpCount st' \<and> nOpCount st' \<le> max 201 (nOpCount st) \<and>
     cond_depth (length (vfExec st)) ops = Some (length (vfExec st')) \<and>
     (pc \<noteq> [] \<longrightarrow> length (es_stack st') + length (es_altstack st') \<le> 1000)"

lemma eval_loop_step:
  assumes "pc \<noteq> []" "eval_loop env pc st = Inr st'"
  obtains opcode vch pc' st1 where "GetOp2 pc = (True, opcode, vch, pc')" "eval_op env opcode vch pc' st = Inr st1"
    "eval_loop env pc' st1 = Inr st'"
proof -
  obtain ok opcode vch pc' where g: "GetOp2 pc = (ok, opcode, vch, pc')" by (metis prod_cases4)
  with assms obtain st1 where ok and "eval_op env opcode vch pc' st = Inr st1" "eval_loop env pc' st1 = Inr st'"
    by (auto simp: eval_loop.simps [of env pc] bind_result_Inr split: if_splits)
  with g that show thesis by auto
qed

lemma eval_loop_shape: "eval_loop env pc st = Inr st' \<Longrightarrow> \<exists>ops. run_shape pc st st' ops"
proof (induction "length pc" arbitrary: pc st rule: less_induct)
  case less
  show ?case
  proof (cases "pc = []")
    case True
    with less.prems show ?thesis
      by (intro exI [of _ "[]"]) (simp add: run_shape_def script_of_ops_def valid_ops_def counted_ops_def)
  next
    case False
    from eval_loop_step [OF False less.prems] obtain opcode vch pc' st1 where g: "GetOp2 pc = (True, opcode, vch, pc')"
      and op: "eval_op env opcode vch pc' st = Inr st1" and rest: "eval_loop env pc' st1 = Inr st'" .
    from less.hyps [OF GetOp2_True [OF g] rest] obtain ops where ops: "run_shape pc' st1 st' ops" ..
    from g have pc: "pc = op_bytes (opcode, vch) @ pc'" "valid_op (opcode, vch)" by (auto dest!: GetOp2_decode)
    note f = eval_op_frame [OF op]
    have sz: "length (es_stack st') + length (es_altstack st') \<le> 1000"
      using ops f rest by (cases "pc' = []") (auto simp: run_shape_def)
    show ?thesis
      using pc ops f sz by (intro exI [of _ "(opcode, vch) # ops"])
        (auto simp: run_shape_def script_of_ops_def valid_ops_def op_permitted_def counted_ops_def split: if_splits)
  qed
qed

lemma EvalScript_shape:
  assumes "EvalScript env stack script = Inr stack'"
  shows "\<exists>ops. script = script_of_ops ops \<and> valid_ops ops \<and> list_all op_permitted ops \<and> counted_ops ops \<le> 201 \<and>
    cond_depth 0 ops = Some 0 \<and> length script \<le> 10000 \<and> (script \<noteq> [] \<longrightarrow> length stack' \<le> 1000)"
proof -
  define st where "st = \<lparr>es_stack = stack, es_altstack = [], vfExec = [], nOpCount = 0, pbegincodehash = script\<rparr>"
  from assms obtain st' where st': "eval_loop env script st = Inr st'" "vfExec st' = []" "stack' = es_stack st'"
    "length script \<le> 10000"
    by (auto simp: EvalScript_def st_def bind_result_Inr split: if_splits)
  from eval_loop_shape [OF st'(1)] st' show ?thesis by (auto simp: st_def run_shape_def)
qed

section \<open>Element sizes are kept\<close>

definition state_ok :: "eval_state \<Rightarrow> bool" where
  "state_ok st \<longleftrightarrow> stack_ok (es_stack st) \<and> stack_ok (es_altstack st) \<and> length (es_stack st) \<le> 1000"

lemma stack_ok_drop: "stack_ok s \<Longrightarrow> stack_ok (drop n s)"
  by (auto simp: list_all_iff dest: in_set_dropD)

lemma exec_op_elems:
  assumes ex: "exec_op env opcode pc st = Inr st'" and h: "hashes_ok env" and ok: "state_ok st"
  shows "stack_ok (es_stack st') \<and> stack_ok (es_altstack st')"
proof (cases "opcode \<in> set frame_opcodes")
  case True
  then consider "opcode = OP_IF" | "opcode = OP_NOTIF" | "opcode = OP_ELSE" | "opcode = OP_ENDIF" | "opcode = OP_TOALTSTACK"
    | "opcode = OP_FROMALTSTACK" | "opcode = OP_CODESEPARATOR" | b where "op_CHECKMULTISIG env b st = Inr st'"
    using ex by (auto simp: frame_opcodes_def exec_op_frame_simps)
  then show ?thesis
  proof cases
    case 8
    then show ?thesis
      by (rule op_CHECKMULTISIG_Inr) (use ok in \<open>auto simp: state_ok_def stack_ok_drop dest!: multisig_finish_ok\<close>)
  qed (use ex ok in \<open>auto simp: exec_op_frame_simps op_ELSE_def op_ENDIF_def op_TOALTSTACK_def op_FROMALTSTACK_def state_ok_def
        list_all_iff dest!: op_IF_Inr split: list.splits\<close>)
next
  case False
  have n: "elem_ok (ScriptNum_serialize (int opcode - 80))" if "opcode \<le> 96"
    using that by (intro elem_ok_num) simp
  have os: "stack_ok (es_stack st') \<and> stack_ok (es_altstack st')"
    if "on_stack f st = Inr st'" "\<And>s'. f (es_stack st) = Inr s' \<Longrightarrow> stack_ok s'" for f
    using that ok by (auto simp: on_stack_Inr state_ok_def)
  have same: "stack_ok (es_stack st) \<and> stack_ok (es_altstack st)" "stack_ok (es_stack st)" "length (es_stack st) \<le> 1000"
    using ok by (simp_all add: state_ok_def)
  show ?thesis using ex False n same unfolding exec_op_def
    by (simp split: if_splits option.splits add: frame_opcodes_def)
      (auto elim!: os dest: st_shuffle_ok stack_opcode_ok [OF _ _ h])
qed

lemma eval_op_state_ok:
  assumes ex: "eval_op env opcode vch pc st = Inr st'" and h: "hashes_ok env" and ok: "state_ok st"
  shows "state_ok st'"
proof -
  define st1 where "st1 = (if opcode > OP_16 then st\<lparr>nOpCount := nOpCount st + 1\<rparr> else st)"
  from ex have ei: "exec_instruction env opcode vch pc st1 = Inr st'" and len: "length vch \<le> MAX_SCRIPT_ELEMENT_SIZE"
    "length (es_stack st') + length (es_altstack st') \<le> 1000"
    by (auto simp: eval_op_def Let_def bind_result_Inr st1_def split: if_splits)
  have ok1: "state_ok st1" using ok by (simp add: st1_def state_ok_def)
  have "stack_ok (es_stack st') \<and> stack_ok (es_altstack st')"
  proof (cases "\<not> (fExec st1 \<and> opcode \<le> OP_PUSHDATA4) \<and> (fExec st1 \<or> (OP_IF \<le> opcode \<and> opcode \<le> OP_ENDIF))")
    case True
    with ei have "exec_op env opcode pc st1 = Inr st'" by (auto simp: exec_instruction_def)
    from exec_op_elems [OF this h ok1] show ?thesis .
  next
    case False
    with ei ok1 len show ?thesis by (auto simp: exec_instruction_def state_ok_def elem_ok_def split: if_splits)
  qed
  with len show ?thesis by (simp add: state_ok_def)
qed

lemma eval_loop_state_ok:
  "eval_loop env pc st = Inr st' \<Longrightarrow> hashes_ok env \<Longrightarrow> state_ok st \<Longrightarrow> state_ok st'"
proof (induction "length pc" arbitrary: pc st rule: less_induct)
  case less
  show ?case
  proof (cases "pc = []")
    case False
    from eval_loop_step [OF False less.prems(1)] obtain opcode vch pc' st1 where g: "GetOp2 pc = (True, opcode, vch, pc')"
      and op: "eval_op env opcode vch pc' st = Inr st1" and rest: "eval_loop env pc' st1 = Inr st'" .
    from less.hyps [OF GetOp2_True [OF g] rest less.prems(2)] eval_op_state_ok [OF op less.prems(2,3)] show ?thesis by simp
  qed (use less in simp)
qed

lemma EvalScript_elems:
  assumes "EvalScript env stack script = Inr stack'" "hashes_ok env" "stack_ok stack" "length stack \<le> 1000"
  shows "stack_ok stack' \<and> length stack' \<le> 1000"
  using assms eval_loop_state_ok
    [of env script "\<lparr>es_stack = stack, es_altstack = [], vfExec = [], nOpCount = 0, pbegincodehash = script\<rparr>"]
  by (auto simp: EvalScript_def bind_result_Inr state_ok_def split: if_splits)

section \<open>Multi-signature matching\<close>

definition sigs_match :: "('s \<Rightarrow> 'k \<Rightarrow> bool) \<Rightarrow> 's list \<Rightarrow> 'k list \<Rightarrow> bool" where
  "sigs_match P sigs keys \<longleftrightarrow> (\<exists>ks. subseq ks keys \<and> list_all2 P sigs ks)"

lemma sigs_match_Nil [simp]: "sigs_match P [] keys"
  by (auto simp: sigs_match_def)

lemma sigs_match_length: "sigs_match P sigs keys \<Longrightarrow> length sigs \<le> length keys"
  by (metis sigs_match_def list_all2_lengthD list_emb_length)

lemma sigs_match_Cons_Cons:
  "sigs_match P (s # sigs) (k # keys) \<longleftrightarrow> (P s k \<and> sigs_match P sigs keys) \<or> sigs_match P (s # sigs) keys"
proof
  assume "sigs_match P (s # sigs) (k # keys)"
  then obtain x xs where "subseq (x # xs) (k # keys)" "P s x" "list_all2 P sigs xs"
    by (auto simp: sigs_match_def list_all2_Cons1)
  then show "(P s k \<and> sigs_match P sigs keys) \<or> sigs_match P (s # sigs) keys"
    by (cases "x = k") (auto simp: sigs_match_def list_all2_Cons1)
next
  assume "(P s k \<and> sigs_match P sigs keys) \<or> sigs_match P (s # sigs) keys"
  then show "sigs_match P (s # sigs) (k # keys)" unfolding sigs_match_def
    by (metis list_all2_Cons subseq_Cons2 subseq_Cons' list_emb_Cons)
qed

lemma sigs_match_tl: "sigs_match P (s # sigs) keys \<Longrightarrow> sigs_match P sigs keys"
  by (auto simp: sigs_match_def list_all2_Cons1 dest: subseq_Cons')

text \<open>The loop either meets a pair of a signature and a key with a bad encoding, or finds the matching.\<close>

lemma multisig_loop_cases:
  "length sigs \<le> length keys \<Longrightarrow>
   (case multisig_loop env code sigs keys of
      Inl e \<Rightarrow> \<exists>s\<in>set sigs. \<exists>k\<in>set keys. check_encodings env s k = Inl e
    | Inr b \<Rightarrow> b = sigs_match (\<lambda>s k. env_CheckSig env s k code) sigs keys)"
proof (induction keys arbitrary: sigs)
  case (Cons k keys)
  show ?case
  proof (cases sigs)
    case (Cons s ss)
    define P where "P = (\<lambda>s k. env_CheckSig env s k code)"
    define r where "r = (if P s k then ss else s # ss)"
    have m: "sigs_match P (s # ss) (k # keys) \<longleftrightarrow> sigs_match P r keys"
      by (auto simp: r_def sigs_match_Cons_Cons dest: sigs_match_tl)
    have sub: "set r \<subseteq> set sigs" by (auto simp: r_def Cons)
    show ?thesis
    proof (cases "check_encodings env s k")
      case (Inl e)
      then show ?thesis by (simp add: Cons)
    next
      case (Inr u)
      then have step: "multisig_loop env code sigs (k # keys) =
          (if length r > length keys then Inr False else multisig_loop env code r keys)"
        by (simp add: Cons r_def P_def Let_def)
      show ?thesis
      proof (cases "length r > length keys")
        case True
        then show ?thesis using step m sigs_match_length [of P r keys] by (auto simp: Cons P_def)
      next
        case False
        then have IH: "case multisig_loop env code r keys of Inl e \<Rightarrow> \<exists>s\<in>set r. \<exists>k\<in>set keys. check_encodings env s k = Inl e
            | Inr b \<Rightarrow> b = sigs_match P r keys"
          using Cons.IH [of r] unfolding P_def by simp
        show ?thesis
        proof (cases "multisig_loop env code r keys")
          case (Inl e)
          then show ?thesis using IH step False sub by auto
        next
          case (Inr b)
          then show ?thesis using IH step False m by (simp add: Cons P_def)
        qed
      qed
    qed
  qed simp
qed simp

section \<open>Evaluating concrete scripts\<close>

lemma eval_loop_op:
  "valid_op (opcode, vch) \<Longrightarrow>
   eval_loop env (op_bytes (opcode, vch) @ r) st = bind_result (eval_op env opcode vch r st) (eval_loop env r)"
  by (simp add: eval_loop.simps [of env "op_bytes (opcode, vch) @ r"])

lemma IsUnspendable_fails: "IsUnspendable script \<Longrightarrow> isl (EvalScript env stack script)"
proof -
  assume "IsUnspendable script"
  then obtain b r where s: "script = b # r" "unat b = OP_RETURN" by (cases script) (auto simp: IsUnspendable_def)
  have "GetOp2 script = (True, OP_RETURN, [], r)" by (simp add: s GetOp2_def Let_def)
  then show ?thesis
    by (simp add: EvalScript_def s(1) eval_loop.simps [of env script] eval_loop.simps [of env "b # r"] eval_op_def Let_def
        disabled_opcode_def exec_instruction_def fExec_def exec_op_frame_simps)
qed


lemma P2SH_empty_stack: "IsPayToScriptHash script \<Longrightarrow> isl (EvalScript env [] script)"
proof -
  assume p: "IsPayToScriptHash script"
  then obtain b r where s: "script = b # r" by (cases script) (auto simp: IsPayToScriptHash_def)
  then have b: "unat b = OP_HASH160" "length script \<le> 10000" using p by (auto simp: IsPayToScriptHash_def)
  then have g: "GetOp2 script = (True, OP_HASH160, [], r)" by (simp add: s GetOp2_def Let_def)
  define st where "st = \<lparr>es_stack = [], es_altstack = [], vfExec = [], nOpCount = 0, pbegincodehash = script\<rparr>"
  have "eval_op env OP_HASH160 [] r st = bad_stack"
    by (simp add: eval_op_def Let_def disabled_opcode_def exec_instruction_def fExec_def st_def exec_op_def stack_opcode_def on_stack_def)
  then have "eval_loop env script st = bad_stack" using g by (simp add: s eval_loop.simps [of env "b # r"])
  then show ?thesis using b(2) by (simp add: EvalScript_def flip: st_def)
qed

lemma VerifyScript_no_assert: "VerifyScript env scriptSig scriptPubKey \<noteq> None"
  using P2SH_empty_stack [of scriptPubKey env]
  by (auto simp: VerifyScript_def split: sum.splits list.splits)

section \<open>Pay to public key hash\<close>

definition p2pkh_script :: "bytes \<Rightarrow> CScript" where
  "p2pkh_script h = [of_nat OP_DUP, of_nat OP_HASH160] @ push_data h @ [of_nat OP_EQUALVERIFY, of_nat OP_CHECKSIG]"

lemma push_data_direct: "2 \<le> length b \<Longrightarrow> length b \<le> 75 \<Longrightarrow> push_data b = op_bytes (length b, b) \<and> valid_op (length b, b)"
  by (simp add: push_data_def op_bytes.simps valid_op.simps)

lemma eval_push:
  assumes "2 \<le> length b" "length b \<le> 75" "fExec st" "length (es_stack st) + length (es_altstack st) < 1000"
  shows "eval_loop env (push_data b @ r) st = eval_loop env r (st\<lparr>es_stack := b # es_stack st\<rparr>)"
proof -
  have "\<not> disabled_opcode (length b)" using assms by (auto simp: disabled_opcode_def)
  moreover have "CheckMinimalPush b (length b)" using assms by (auto simp: CheckMinimalPush_def)
  ultimately show ?thesis using push_data_direct [OF assms(1,2)] assms
    by (simp add: eval_loop_op eval_op_def exec_instruction_def MAX_SCRIPT_ELEMENT_SIZE_def)
qed

lemma eval_simple_op:
  assumes "OP_16 < unat b" "\<not> disabled_opcode (unat b)" "fExec st" "nOpCount st < 201"
  shows "eval_loop env (b # r) st =
    bind_result (exec_op env (unat b) r (st\<lparr>nOpCount := nOpCount st + 1\<rparr>)) (\<lambda>st.
      if length (es_stack st) + length (es_altstack st) > 1000 then Inl SCRIPT_ERR_STACK_SIZE else eval_loop env r st)"
proof -
  have g: "GetOp2 (b # r) = (True, unat b, [], r)" using assms by (simp add: GetOp2_def)
  have "fExec (st\<lparr>nOpCount := nOpCount st + 1\<rparr>)" using assms by (simp add: fExec_def)
  then have "eval_op env (unat b) [] r st =
    bind_result (exec_op env (unat b) r (st\<lparr>nOpCount := nOpCount st + 1\<rparr>)) (\<lambda>st.
      if length (es_stack st) + length (es_altstack st) > 1000 then Inl SCRIPT_ERR_STACK_SIZE else Inr st)"
    using assms by (simp add: eval_op_def exec_instruction_def)
  then show ?thesis using g
    by (cases "exec_op env (unat b) r (st\<lparr>nOpCount := nOpCount st + 1\<rparr>)") (simp_all add: eval_loop.simps [of env "b # r"])
qed

definition p2pkh_code :: "valtype \<Rightarrow> bytes \<Rightarrow> CScript" where
  "p2pkh_code sig h = snd (FindAndDelete (p2pkh_script h) (push_data sig))"

lemma EvalScript_two_pushes:
  assumes "2 \<le> length sig" "length sig \<le> 75" "2 \<le> length pk" "length pk \<le> 75"
  shows "EvalScript env [] (push_data sig @ push_data pk) = Inr [pk, sig]"
proof -
  have "length (push_data sig @ push_data pk) \<le> 10000" using assms by (simp add: push_data_def)
  then show ?thesis using assms eval_push [of pk _ env "[]"]
    by (simp add: EvalScript_def eval_push fExec_def)
qed

lemma EvalScript_p2pkh:
  assumes "length h = 20"
  shows "EvalScript env [pk, sig] (p2pkh_script h) =
    (if env_HASH160 env pk \<noteq> h then Inl SCRIPT_ERR_EQUALVERIFY
     else bind_result (check_encodings env sig pk) (\<lambda>_. Inr [bool_vch (env_CheckSig env sig pk (p2pkh_code sig h))]))"
proof -
  have len: "length (p2pkh_script h) \<le> 10000" using assms by (simp add: p2pkh_script_def push_data_def)
  show ?thesis using assms len
    by (cases "check_encodings env sig pk") (simp_all add: EvalScript_def p2pkh_script_def [of h] eval_simple_op disabled_opcode_def fExec_def exec_op_def
        stack_opcode_def on_stack_def eval_push Let_def p2pkh_code_def)
qed


lemma CastToBool_bool_vch [simp]: "CastToBool (bool_vch b) = b"
  by (simp add: bool_vch_def vchTrue_def vchFalse_def)

lemma IsPushOnly_pushes:
  assumes "2 \<le> length sig" "length sig \<le> 75" "2 \<le> length pk" "length pk \<le> 75"
  shows "IsPushOnly (push_data sig @ push_data pk)"
proof -
  have "IsPushOnly (push_data pk @ [])" using push_data_direct [of pk] assms walk_Cons(1) [of "length pk" pk "[]"] by simp
  then show ?thesis using push_data_direct [of sig] assms walk_Cons(1) [of "length sig" sig "push_data pk"] by simp
qed

lemma p2pkh_not_P2SH: "length h = 20 \<Longrightarrow> \<not> IsPayToScriptHash (p2pkh_script h)"
  by (simp add: IsPayToScriptHash_def p2pkh_script_def push_data_def)

section \<open>Properties\<close>

text \<open>
  C5: a script that \<open>EvalScript\<close> accepts decodes completely into instructions, has at most 10000 bytes and 201 counted
  operations, contains no disabled opcode and no \<open>OP_VERIF\<close> or \<open>OP_VERNOTIF\<close> even in branches that are not taken,
  pushes no element above 520 bytes, and its conditionals are balanced.
\<close>

theorem accepted_script_shape:
  assumes "EvalScript env stack script = Inr stack'"
  shows "\<exists>ops. script = script_of_ops ops \<and> valid_ops ops \<and> list_all op_permitted ops \<and> counted_ops ops \<le> 201 \<and>
    cond_depth 0 ops = Some 0 \<and> length script \<le> 10000"
  using EvalScript_shape [OF assms] by blast

theorem accepted_script_shape_witness:
  "\<exists>ops. push_data [1, 2] @ push_data [3, 4] = script_of_ops ops \<and> valid_ops ops \<and> list_all op_permitted ops \<and>
    counted_ops ops \<le> 201 \<and> cond_depth 0 ops = Some 0 \<and> length (push_data [1, 2] @ push_data [3, 4]) \<le> 10000"
proof -
  define env where "env = \<lparr>env_flags = 0, env_CheckSig = (\<lambda>_ _ _. False), env_RIPEMD160 = id, env_SHA1 = id, env_SHA256 = id,
    env_HASH160 = id, env_HASH256 = id\<rparr>"
  have "EvalScript env [] (push_data [1, 2] @ push_data [3, 4]) = Inr [[3, 4], [1, 2]]" by (rule EvalScript_two_pushes) simp_all
  from accepted_script_shape [OF this] show ?thesis .
qed

text \<open>
  C6: with hash functions whose digests fit a stack element, \<open>EvalScript\<close> keeps the stack within its limits: at most
  1000 elements, each of at most 520 bytes.
\<close>

theorem stack_limits_kept:
  assumes "EvalScript env stack script = Inr stack'" "hashes_ok env" "stack_ok stack" "length stack \<le> 1000"
  shows "stack_ok stack' \<and> length stack' \<le> 1000"
  using EvalScript_elems [OF assms] .

theorem stack_limits_kept_witness: "stack_ok [[3, 4], [1, 2 :: byte]] \<and> length [[3, 4], [1, 2 :: byte]] \<le> 1000"
proof -
  define env where "env = \<lparr>env_flags = 0, env_CheckSig = (\<lambda>_ _ _. False), env_RIPEMD160 = take 20, env_SHA1 = take 20,
    env_SHA256 = take 32, env_HASH160 = take 20, env_HASH256 = take 32\<rparr>"
  have e: "EvalScript env [] (push_data [1, 2] @ push_data [3, 4]) = Inr [[3, 4], [1, 2]]" by (rule EvalScript_two_pushes) simp_all
  have h: "hashes_ok env" by (auto simp: env_def hashes_ok_def elem_ok_def MAX_SCRIPT_ELEMENT_SIZE_def)
  from stack_limits_kept [OF e h] show ?thesis by simp
qed

text \<open>
  C7: the matching loop of \<open>OP_CHECKMULTISIG\<close>, which tries each key once against the next signature.  It fails with an error
  only if that is the error of the encoding check on one of the signatures with one of the keys.  If it returns, it returns
  true exactly when the signatures, in their order, are valid for some subsequence of the keys: no assignment is missed by
  the greedy choice.
\<close>

theorem multisig_greedy_complete:
  assumes "length sigs \<le> length keys"
  shows "case multisig_loop env code sigs keys of
    Inl e \<Rightarrow> \<exists>s\<in>set sigs. \<exists>k\<in>set keys. check_encodings env s k = Inl e
  | Inr b \<Rightarrow> b \<longleftrightarrow> (\<exists>ks. subseq ks keys \<and> list_all2 (\<lambda>s k. env_CheckSig env s k code) sigs ks)"
  using multisig_loop_cases [OF assms, of env code] unfolding sigs_match_def .

theorem multisig_greedy_complete_witness:
  "multisig_loop \<lparr>env_flags = 0, env_CheckSig = (\<lambda>s k _. s = k), env_RIPEMD160 = id, env_SHA1 = id, env_SHA256 = id,
     env_HASH160 = id, env_HASH256 = id\<rparr> [] [[2], [3]] [[1], [2], [3]] = Inr True"
proof -
  define env where "env = \<lparr>env_flags = 0, env_CheckSig = (\<lambda>s k _. s = k), env_RIPEMD160 = id, env_SHA1 = id, env_SHA256 = id,
     env_HASH160 = id, env_HASH256 = id\<rparr>"
  have enc: "check_encodings env s k = Inr ()" for s k
    by (simp add: env_def check_encodings_def CheckSignatureEncoding_def CheckPubKeyEncoding_def)
  have "\<exists>ks. subseq ks [[1], [2], [3]] \<and> list_all2 (\<lambda>s k. env_CheckSig env s k []) [[2], [3]] ks"
    by (intro exI [of _ "[[2], [3]]"]) (simp add: env_def)
  then have "multisig_loop env [] [[2], [3]] [[1], [2], [3]] = Inr True"
    using multisig_greedy_complete [of "[[2], [3]]" "[[1], [2], [3]]" env "[]"] by (auto simp add: enc simp del: multisig_loop.simps split: sum.splits)
  then show ?thesis by (simp add: env_def)
qed

text \<open>
  C8: verifying a pay-to-public-key-hash output against a signature and a key: the key must hash to the committed
  value, both encodings must pass, and the signature checker decides on the signature, the key and the output script
  without the signature; every other outcome is the error that the code names.
\<close>

theorem p2pkh_verification:
  assumes "2 \<le> length sig" "length sig \<le> 75" "2 \<le> length pk" "length pk \<le> 75" "length h = 20"
  shows "VerifyScript env (push_data sig @ push_data pk) (p2pkh_script h) =
    Some (if env_HASH160 env pk \<noteq> h then Inl SCRIPT_ERR_EQUALVERIFY
      else bind_result (check_encodings env sig pk) (\<lambda>_.
        if env_CheckSig env sig pk (snd (FindAndDelete (p2pkh_script h) (push_data sig)))
        then Inr () else Inl SCRIPT_ERR_EVAL_FALSE))"
  using EvalScript_two_pushes [of sig pk env] EvalScript_p2pkh [of h env pk sig] IsPushOnly_pushes [of sig pk]
    p2pkh_not_P2SH [of h] assms
  by (cases "check_encodings env sig pk") (simp_all add: VerifyScript_def p2pkh_code_def)

theorem p2pkh_verification_witness:
  "VerifyScript \<lparr>env_flags = 0, env_CheckSig = (\<lambda>_ _ _. True), env_RIPEMD160 = id, env_SHA1 = id, env_SHA256 = id,
     env_HASH160 = (\<lambda>_. replicate 20 7), env_HASH256 = id\<rparr>
     (push_data [1, 2] @ push_data [3, 4]) (p2pkh_script (replicate 20 7)) = Some (Inr ())"
  by (subst p2pkh_verification) (simp_all add: check_encodings_def CheckSignatureEncoding_def CheckPubKeyEncoding_def)

text \<open>
  C9: \<open>VerifyScript\<close> never reaches a failing assertion, and an output whose script \<open>IsUnspendable\<close> is refused whatever
  the spender supplies.
\<close>

theorem verify_total_and_unspendable:
  "VerifyScript env sigScript outScript \<noteq> None \<and>
   (IsUnspendable outScript \<longrightarrow> VerifyScript env sigScript outScript \<noteq> Some (Inr ()))"
proof -
  have "VerifyScript env sigScript outScript \<noteq> Some (Inr ())" if "IsUnspendable outScript"
  proof -
    have "EvalScript env stack outScript \<noteq> Inr s" for stack s using IsUnspendable_fails [OF that, of env stack] by auto
    then show ?thesis by (auto simp: VerifyScript_def split: sum.splits)
  qed
  then show ?thesis using VerifyScript_no_assert by blast
qed

theorem verify_total_and_unspendable_witness:
  "VerifyScript \<lparr>env_flags = 0, env_CheckSig = (\<lambda>_ _ _. True), env_RIPEMD160 = id, env_SHA1 = id, env_SHA256 = id,
     env_HASH160 = id, env_HASH256 = id\<rparr> [0x51] [of_nat OP_RETURN] \<noteq> Some (Inr ())"
  using verify_total_and_unspendable [of _ "[0x51]" "[of_nat OP_RETURN]"] by (simp add: IsUnspendable_def)

end
