(* ===== verification/Sig_Hash.thy ===== *)
theory Sig_Hash
  imports Transaction Interpreter
begin

unbundle bit_operations_syntax

text \<open>
  The signature hash and the transaction signature checker (the second half of \<open>src/script/interpreter.cpp\<close>, with the
  key format of \<open>src/pubkey.h\<close>).  \<open>CHashWriter\<close>'s hash of the written bytes and the elliptic-curve verification
  \<open>CPubKey::Verify\<close> are parameters.  The hash type is the \<open>int\<close> of one byte.
\<close>

section \<open>Public key format\<close>

definition pubkey_GetLen :: "byte \<Rightarrow> nat" where
  "pubkey_GetLen chHeader =
     (if chHeader = 2 \<or> chHeader = 3 then 33
      else if chHeader = 4 \<or> chHeader = 6 \<or> chHeader = 7 then 65 else 0)"

text \<open>The bytes of the key, \<open>[]\<close> for a key that is invalidated.\<close>

definition CPubKey_Set :: "bytes \<Rightarrow> bytes" where
  "CPubKey_Set v = (let len = (if v = [] then 0 else pubkey_GetLen (v ! 0)) in if len \<noteq> 0 \<and> len = length v then v else [])"

definition CPubKey_size :: "bytes \<Rightarrow> nat" where
  "CPubKey_size k = (if k = [] then 0 else pubkey_GetLen (k ! 0))"

definition CPubKey_IsValid :: "bytes \<Rightarrow> bool" where
  "CPubKey_IsValid k \<longleftrightarrow> CPubKey_size k > 0"

section \<open>The signature serializer\<close>

definition fAnyoneCanPay :: "nat \<Rightarrow> bool" where
  "fAnyoneCanPay nHashType \<longleftrightarrow> nHashType AND SIGHASH_ANYONECANPAY \<noteq> 0"

definition fHashSingle :: "nat \<Rightarrow> bool" where
  "fHashSingle nHashType \<longleftrightarrow> nHashType AND 0x1f = SIGHASH_SINGLE"

definition fHashNone :: "nat \<Rightarrow> bool" where
  "fHashNone nHashType \<longleftrightarrow> nHashType AND 0x1f = SIGHASH_NONE"

function count_separators :: "bytes \<Rightarrow> nat" where
  "count_separators it =
     (case GetOp2 it of (ok, opcode, vch, it') \<Rightarrow>
        if ok then (if opcode = OP_CODESEPARATOR then 1 else 0) + count_separators it' else 0)"
  by pat_completeness auto
termination by (relation "measure length") (auto dest: GetOp2_True [OF sym])

function write_code :: "bytes \<Rightarrow> bytes \<Rightarrow> bytes" where
  "write_code itBegin it =
     (case GetOp2 it of (ok, opcode, vch, it') \<Rightarrow>
        if ok then
          (if opcode = OP_CODESEPARATOR then take (length itBegin - length it' - 1) itBegin @ write_code it' it'
           else write_code itBegin it')
        else (if itBegin \<noteq> [] then take (length itBegin - length it') itBegin else []))"
  by pat_completeness auto
termination by (relation "measure (\<lambda>(b, it). length it)") (auto dest: GetOp2_True [OF sym])

declare count_separators.simps [simp del] write_code.simps [simp del]

definition SerializeScriptCode :: "CScript \<Rightarrow> bytes" where
  "SerializeScriptCode scriptCode =
     WriteCompactSize (length scriptCode - count_separators scriptCode) @ write_code scriptCode scriptCode"

definition SerializeInput :: "CScript \<Rightarrow> CTransaction \<Rightarrow> nat \<Rightarrow> nat \<Rightarrow> nat \<Rightarrow> bytes" where
  "SerializeInput scriptCode txTo nIn nHashType nInput =
     (let nInput = (if fAnyoneCanPay nHashType then nIn else nInput)
      in Serialize_outpoint (prevout (vin txTo ! nInput)) @
         (if nInput \<noteq> nIn then Serialize_bytes [] else SerializeScriptCode scriptCode) @
         (if nInput \<noteq> nIn \<and> (fHashSingle nHashType \<or> fHashNone nHashType) then Serialize_int 4 0
          else Serialize_u32 (nSequence (vin txTo ! nInput))))"

definition SerializeOutput :: "CTransaction \<Rightarrow> nat \<Rightarrow> nat \<Rightarrow> nat \<Rightarrow> bytes" where
  "SerializeOutput txTo nIn nHashType nOutput =
     (if fHashSingle nHashType \<and> nOutput \<noteq> nIn then Serialize_txout txout_SetNull
      else Serialize_txout (vout txTo ! nOutput))"

definition sig_serialize :: "CScript \<Rightarrow> CTransaction \<Rightarrow> nat \<Rightarrow> nat \<Rightarrow> bytes" where
  "sig_serialize scriptCode txTo nIn nHashType =
     (let nInputs = (if fAnyoneCanPay nHashType then 1 else length (vin txTo));
          nOutputs = (if fHashNone nHashType then 0 else if fHashSingle nHashType then nIn + 1 else length (vout txTo))
      in Serialize_int 4 (tx_nVersion txTo) @
         WriteCompactSize nInputs @ concat (map (SerializeInput scriptCode txTo nIn nHashType) [0..<nInputs]) @
         WriteCompactSize nOutputs @ concat (map (SerializeOutput txTo nIn nHashType) [0..<nOutputs]) @
         Serialize_u32 (tx_nLockTime txTo))"

definition SignatureHash :: "(bytes \<Rightarrow> base_uint) \<Rightarrow> CScript \<Rightarrow> CTransaction \<Rightarrow> nat \<Rightarrow> nat \<Rightarrow> base_uint" where
  "SignatureHash Hash scriptCode txTo nIn nHashType =
     (if nIn \<ge> length (vin txTo) then bu_of_uint64 WIDTH256 1
      else if nHashType AND 0x1f = SIGHASH_SINGLE \<and> nIn \<ge> length (vout txTo) then bu_of_uint64 WIDTH256 1
      else Hash (sig_serialize scriptCode txTo nIn nHashType @ Serialize_int 4 (int nHashType)))"

definition tx_CheckSig ::
  "(bytes \<Rightarrow> base_uint) \<Rightarrow> (bytes \<Rightarrow> base_uint \<Rightarrow> bytes \<Rightarrow> bool) \<Rightarrow> CTransaction \<Rightarrow> nat \<Rightarrow> valtype \<Rightarrow> valtype \<Rightarrow> CScript \<Rightarrow> bool"
  where
  "tx_CheckSig Hash Verify txTo nIn vchSigIn vchPubKey scriptCode =
     (let pubkey = CPubKey_Set vchPubKey
      in if \<not> CPubKey_IsValid pubkey then False
         else if vchSigIn = [] then False
         else let nHashType = unat (last vchSigIn);
                  vchSig = butlast vchSigIn;
                  sighash = SignatureHash Hash scriptCode txTo nIn nHashType
              in if \<not> Verify pubkey sighash vchSig then False else True)"

section \<open>Code separators\<close>

definition drop_separators :: "(nat \<times> valtype) list \<Rightarrow> (nat \<times> valtype) list" where
  "drop_separators ops = filter (\<lambda>(opcode, vch). opcode \<noteq> OP_CODESEPARATOR) ops"

lemma walk_sig_Nil: "count_separators [] = 0" "write_code b [] = b"
  by (simp_all add: count_separators.simps write_code.simps GetOp2_def)

lemma walk_sig_Cons:
  assumes "valid_op (opcode, vch)"
  shows "count_separators (op_bytes (opcode, vch) @ r) = (if opcode = OP_CODESEPARATOR then 1 else 0) + count_separators r"
    and "write_code b (op_bytes (opcode, vch) @ r) =
      (if opcode = OP_CODESEPARATOR then take (length b - length r - 1) b @ write_code r r else write_code b r)"
  using assms
  by (simp_all add: count_separators.simps [of "op_bytes (opcode, vch) @ r"] write_code.simps [of b "op_bytes (opcode, vch) @ r"])

lemma valid_separator: "valid_op (OP_CODESEPARATOR, vch) \<Longrightarrow> vch = [] \<and> op_bytes (OP_CODESEPARATOR, vch) = [of_nat OP_CODESEPARATOR]"
  by (simp add: valid_op.simps op_bytes.simps)

lemma write_code_ops:
  "valid_ops ops \<Longrightarrow> write_code (p @ script_of_ops ops) (script_of_ops ops) = p @ script_of_ops (drop_separators ops)"
proof (induction ops arbitrary: p)
  case (Cons x ops)
  obtain opcode vch where x: "x = (opcode, vch)" by (cases x)
  have v: "valid_op (opcode, vch)" "valid_ops ops" using Cons.prems x by (simp_all add: valid_ops_def)
  show ?case
  proof (cases "opcode = OP_CODESEPARATOR")
    case True
    then have "vch = []" "op_bytes (opcode, vch) = [of_nat OP_CODESEPARATOR]" using v(1) valid_separator by auto
    then show ?thesis using Cons.IH [of "[]"] v x True walk_sig_Cons(2) [OF v(1), of "p @ script_of_ops (x # ops)" "script_of_ops ops"]
      by (simp add: script_of_ops_def drop_separators_def)
  next
    case False
    then show ?thesis using Cons.IH [of "p @ op_bytes x"] v x walk_sig_Cons(2) [OF v(1), of "p @ script_of_ops (x # ops)" "script_of_ops ops"]
      by (simp add: script_of_ops_def drop_separators_def)
  qed
qed (simp add: script_of_ops_def drop_separators_def walk_sig_Nil)

lemma count_separators_ops:
  "valid_ops ops \<Longrightarrow> length (script_of_ops ops) - count_separators (script_of_ops ops) = length (script_of_ops (drop_separators ops))
    \<and> count_separators (script_of_ops ops) \<le> length (script_of_ops ops)"
proof (induction ops)
  case (Cons x ops)
  obtain opcode vch where x: "x = (opcode, vch)" by (cases x)
  have v: "valid_op (opcode, vch)" "valid_ops ops" using Cons.prems x by (simp_all add: valid_ops_def)
  show ?case using Cons.IH v x walk_sig_Cons(1) [OF v(1), of "script_of_ops ops"] valid_separator [of vch]
    by (auto simp: script_of_ops_def drop_separators_def)
qed (simp add: script_of_ops_def drop_separators_def walk_sig_Nil)

lemma SerializeScriptCode_ops:
  "valid_ops ops \<Longrightarrow> SerializeScriptCode (script_of_ops ops) = Serialize_bytes (script_of_ops (drop_separators ops))"
  using write_code_ops [of ops "[]"] count_separators_ops [of ops]
  by (simp add: SerializeScriptCode_def Serialize_bytes_def)

section \<open>What the signature hash commits to\<close>

definition blank_inputs :: "CScript \<Rightarrow> nat \<Rightarrow> CTransaction \<Rightarrow> CTransaction" where
  "blank_inputs code nIn tx = tx\<lparr>vin := map (\<lambda>i. (vin tx ! i)\<lparr>scriptSig := (if i = nIn then code else [])\<rparr>) [0..<length (vin tx)]\<rparr>"

lemma sig_serialize_all:
  assumes "\<not> fAnyoneCanPay ht" "\<not> fHashSingle ht" "\<not> fHashNone ht" "valid_ops ops"
  shows "sig_serialize (script_of_ops ops) tx nIn ht = Serialize_tx (blank_inputs (script_of_ops (drop_separators ops)) nIn tx)"
proof -
  define code where "code = script_of_ops (drop_separators ops)"
  have "SerializeInput (script_of_ops ops) tx nIn ht = (\<lambda>i. Serialize_txin ((vin tx ! i)\<lparr>scriptSig := (if i = nIn then code else [])\<rparr>))"
    using assms by (auto simp: SerializeInput_def Serialize_txin_def SerializeScriptCode_ops code_def Let_def)
  moreover have "SerializeOutput tx nIn ht = (\<lambda>i. Serialize_txout (vout tx ! i))" using assms by (auto simp: SerializeOutput_def)
  moreover have "map (\<lambda>i. Serialize_txout (vout tx ! i)) [0..<length (vout tx)] = map Serialize_txout (vout tx)"
    by (rule nth_equalityI) simp_all
  ultimately show ?thesis using assms
    by (simp add: sig_serialize_def Serialize_tx_def Serialize_vector_def blank_inputs_def comp_def Let_def flip: code_def)
qed

lemma valid_blank_inputs:
  "valid_tx tx \<Longrightarrow> length code \<le> MAX_SIZE \<Longrightarrow> valid_tx (blank_inputs code nIn tx)"
  by (auto simp: valid_tx_def blank_inputs_def list_all_iff valid_txin_def)

lemma blank_inputs_inj:
  assumes eq: "blank_inputs c nIn tx = blank_inputs d nIn tx'" and n: "nIn < length (vin tx)"
  shows "c = d \<and> tx_nVersion tx = tx_nVersion tx' \<and> tx_nLockTime tx = tx_nLockTime tx' \<and> vout tx = vout tx' \<and>
    map prevout (vin tx) = map prevout (vin tx') \<and> map nSequence (vin tx) = map nSequence (vin tx')"
proof -
  have vins: "vin (blank_inputs c nIn tx) = vin (blank_inputs d nIn tx')" using eq by simp
  have len: "length (vin tx) = length (vin tx')" using arg_cong [OF vins, of length] by (simp add: blank_inputs_def)
  have i: "(vin tx ! i)\<lparr>scriptSig := (if i = nIn then c else [])\<rparr> = (vin tx' ! i)\<lparr>scriptSig := (if i = nIn then d else [])\<rparr>"
    if "i < length (vin tx)" for i
    using arg_cong [OF vins, of "\<lambda>v. v ! i"] that len by (simp add: blank_inputs_def)
  have "prevout (vin tx ! i) = prevout (vin tx' ! i) \<and> nSequence (vin tx ! i) = nSequence (vin tx' ! i)" if "i < length (vin tx)" for i
    using arg_cong [OF i [OF that], of prevout] arg_cong [OF i [OF that], of nSequence] by simp
  then have "map prevout (vin tx) = map prevout (vin tx')" "map nSequence (vin tx) = map nSequence (vin tx')"
    using len by (auto intro!: nth_equalityI)
  moreover have "c = d" using arg_cong [OF i [OF n], of scriptSig] by simp
  moreover have "tx_nVersion tx = tx_nVersion tx' \<and> tx_nLockTime tx = tx_nLockTime tx' \<and> vout tx = vout tx'"
    using arg_cong [OF eq, of tx_nVersion] arg_cong [OF eq, of tx_nLockTime] arg_cong [OF eq, of vout]
    by (simp add: blank_inputs_def)
  ultimately show ?thesis by simp
qed

section \<open>Properties\<close>

text \<open>
  C10: for a hash type that is neither \<open>SIGHASH_NONE\<close>, \<open>SIGHASH_SINGLE\<close> nor \<open>SIGHASH_ANYONECANPAY\<close>, and script codes that
  decode completely into instructions, two transactions with equal signature preimages for the same input agree on the version,
  on every prevout and sequence number, on every output and on the lock time: a signature commits to all of the transaction
  but the inputs' scripts.  The two script codes are equal once their code separators are dropped; the preimage leaves those
  out, so that different script codes can have one preimage.
\<close>

theorem sighash_all_commits:
  assumes "\<not> fAnyoneCanPay ht" "\<not> fHashSingle ht" "\<not> fHashNone ht"
    and "valid_tx tx" "valid_tx tx'" "valid_ops ops" "valid_ops ops'" "nIn < length (vin tx)"
    and "length (script_of_ops (drop_separators ops)) \<le> MAX_SIZE" "length (script_of_ops (drop_separators ops')) \<le> MAX_SIZE"
    and "sig_serialize (script_of_ops ops) tx nIn ht = sig_serialize (script_of_ops ops') tx' nIn ht"
  shows "tx_nVersion tx = tx_nVersion tx' \<and> map prevout (vin tx) = map prevout (vin tx') \<and>
    map nSequence (vin tx) = map nSequence (vin tx') \<and> vout tx = vout tx' \<and> tx_nLockTime tx = tx_nLockTime tx' \<and>
    script_of_ops (drop_separators ops) = script_of_ops (drop_separators ops')"
proof -
  have "blank_inputs (script_of_ops (drop_separators ops)) nIn tx = blank_inputs (script_of_ops (drop_separators ops')) nIn tx'"
    using assms by (intro tx_codec.enc_inj) (simp_all add: valid_blank_inputs sig_serialize_all)
  from blank_inputs_inj [OF this assms(8)] show ?thesis by blast
qed

theorem sighash_all_commits_witness:
  "script_of_ops (drop_separators [(OP_CODESEPARATOR, []), (OP_1, [])]) = script_of_ops (drop_separators [(OP_1, [])])"
proof -
  define i where "i = \<lparr>prevout = outpoint_SetNull, scriptSig = [], nSequence = 0\<rparr>"
  define tx where "tx = \<lparr>tx_nVersion = 1, vin = [i], vout = [], tx_nLockTime = 0\<rparr>"
  define ops ops' :: "(nat \<times> valtype) list" where "ops = [(OP_CODESEPARATOR, []), (OP_1, [])]" and "ops' = [(OP_1, [])]"
  have v: "valid_tx tx" "valid_ops ops" "valid_ops ops'" "0 < length (vin tx)"
    by (simp_all add: tx_def i_def valid_tx_def valid_txin_def valid_outpoint_def outpoint_SetNull_def MAX_SIZE_def bu_zero_def
        ops_def ops'_def valid_ops_def valid_op.simps)
  have code: "script_of_ops (drop_separators ops) = [0x51]" "script_of_ops (drop_separators ops') = [0x51]"
    by (simp_all add: ops_def ops'_def drop_separators_def script_of_ops_def op_bytes.simps)
  have ht: "\<not> fAnyoneCanPay 1" "\<not> fHashSingle 1" "\<not> fHashNone 1"
    by (simp_all add: fAnyoneCanPay_def fHashSingle_def fHashNone_def SIGHASH_ANYONECANPAY_def SIGHASH_SINGLE_def SIGHASH_NONE_def)
  have "sig_serialize (script_of_ops ops) tx 0 1 = sig_serialize (script_of_ops ops') tx 0 1"
    unfolding sig_serialize_all [OF ht v(2)] sig_serialize_all [OF ht v(3)] code ..
  moreover have "length (script_of_ops (drop_separators ops)) \<le> MAX_SIZE" "length (script_of_ops (drop_separators ops')) \<le> MAX_SIZE"
    by (simp_all add: code MAX_SIZE_def)
  ultimately show ?thesis
    using sighash_all_commits [OF ht v(1) v(1) v(2,3,4)] unfolding ops_def ops'_def by blast
qed

text \<open>
  The two early returns of \<open>SignatureHash\<close>: an input index out of range, and \<open>SIGHASH_SINGLE\<close> with no output at the
  index of the input, yield the constant one whatever the rest of the transaction is.
\<close>

theorem sighash_out_of_range:
  assumes "length (vin tx) \<le> nIn \<or> (fHashSingle ht \<and> length (vout tx) \<le> nIn)"
  shows "bu_val (SignatureHash Hash code tx nIn ht) = 1"
  using assms by (auto simp: SignatureHash_def fHashSingle_def bu_of_uint64_val)

theorem sighash_out_of_range_witness:
  "bu_val (SignatureHash (\<lambda>_. bu_zero 8) [] \<lparr>tx_nVersion = 1, vin = [], vout = [], tx_nLockTime = 0\<rparr> 0 1) = 1"
  by (rule sighash_out_of_range) simp

end
