(* ===== verification/Standard.thy ===== *)
theory Standard
  imports Sig_Hash
begin

text \<open>
  Standard output scripts (\<open>src/script/standard.h\<close>, \<open>src/script/standard.cpp\<close>): the template matcher \<open>Solver\<close>, the
  extraction of destinations and the scripts built for them.

  \<open>Solver\<close> returns its Boolean, \<open>typeRet\<close> and \<open>vSolutionsRet\<close>; \<open>None\<close> is the exception raised by the vector that it
  builds from \<open>begin()+2\<close> to \<open>end()\<close> when a zerocoin mint script has a single byte.  A 160-bit hash is its byte vector.
  \<open>CPubKey::GetID\<close>'s hash is a parameter.
\<close>

section \<open>Data\<close>

datatype txnouttype = TX_NONSTANDARD | TX_PUBKEY | TX_PUBKEYHASH | TX_SCRIPTHASH | TX_MULTISIG | TX_NULL_DATA | TX_ZEROCOINMINT

datatype CTxDestination = CNoDestination | CKeyID bytes | CScriptID bytes

definition MAX_OP_RETURN_RELAY :: nat where
  "MAX_OP_RETURN_RELAY = 83"

section \<open>Template matching\<close>

definition tplate_PUBKEY :: CScript where
  "tplate_PUBKEY = [of_nat OP_PUBKEY, of_nat OP_CHECKSIG]"

definition tplate_PUBKEYHASH :: CScript where
  "tplate_PUBKEYHASH = [of_nat OP_DUP, of_nat OP_HASH160, of_nat OP_PUBKEYHASH, of_nat OP_EQUALVERIFY, of_nat OP_CHECKSIG]"

definition tplate_MULTISIG :: CScript where
  "tplate_MULTISIG = [of_nat OP_SMALLINTEGER, of_nat OP_PUBKEYS, of_nat OP_SMALLINTEGER, of_nat OP_CHECKMULTISIG]"

definition mTemplates :: "(txnouttype \<times> CScript) list" where
  "mTemplates = [(TX_PUBKEY, tplate_PUBKEY), (TX_PUBKEYHASH, tplate_PUBKEYHASH), (TX_MULTISIG, tplate_MULTISIG)]"

text \<open>The inner loop on \<open>OP_PUBKEYS\<close>: the last instruction read, the iterator after it and the solutions.\<close>

function pubkeys_loop :: "nat \<Rightarrow> valtype \<Rightarrow> bytes \<Rightarrow> valtype list \<Rightarrow> nat \<times> valtype \<times> bytes \<times> valtype list" where
  "pubkeys_loop opcode1 vch1 pc1 vSolutionsRet =
     (if 33 \<le> length vch1 \<and> length vch1 \<le> 65 then
        (let vSolutionsRet = vSolutionsRet @ [vch1]; (ok, opcode1, vch1, pc1') = GetOp2 pc1
         in if \<not> ok then (opcode1, vch1, pc1', vSolutionsRet) else pubkeys_loop opcode1 vch1 pc1' vSolutionsRet)
      else (opcode1, vch1, pc1, vSolutionsRet))"
  by pat_completeness auto
termination by (relation "measure (\<lambda>(o1, v, pc, s). length pc)") (auto dest: GetOp2_True [OF sym])

declare pubkeys_loop.simps [simp del]

text \<open>One instruction against one template instruction: the solutions after it, \<open>None\<close> for no match.\<close>

definition match_op :: "nat \<Rightarrow> valtype \<Rightarrow> nat \<Rightarrow> valtype \<Rightarrow> valtype list \<Rightarrow> valtype list option" where
  "match_op opcode1 vch1 opcode2 vch2 vSolutionsRet =
     (if opcode2 = OP_PUBKEY then (if length vch1 < 33 \<or> length vch1 > 65 then None else Some (vSolutionsRet @ [vch1]))
      else if opcode2 = OP_PUBKEYHASH then (if length vch1 \<noteq> 20 then None else Some (vSolutionsRet @ [vch1]))
      else if opcode2 = OP_SMALLINTEGER then
        (if opcode1 = OP_0 \<or> (OP_1 \<le> opcode1 \<and> opcode1 \<le> OP_16)
         then Some (vSolutionsRet @ [[of_nat (the (DecodeOP_N opcode1))]]) else None)
      else if opcode1 \<noteq> opcode2 \<or> vch1 \<noteq> vch2 then None
      else Some vSolutionsRet)"

text \<open>The \<open>while (true)\<close> loop on one template: the solutions when both scripts end together.\<close>

function match_loop :: "bytes \<Rightarrow> bytes \<Rightarrow> valtype list \<Rightarrow> valtype list option" where
  "match_loop pc1 pc2 vSolutionsRet =
     (if pc1 = [] \<and> pc2 = [] then Some vSolutionsRet
      else case GetOp2 pc1 of (ok1, opcode1, vch1, pc1) \<Rightarrow>
        if \<not> ok1 then None
        else case GetOp2 pc2 of (ok2, opcode2, vch2, pc2) \<Rightarrow>
        if \<not> ok2 then None
        else if opcode2 = OP_PUBKEYS then
          (case pubkeys_loop opcode1 vch1 pc1 vSolutionsRet of (opcode1, vch1, pc1, vSolutionsRet) \<Rightarrow>
           case GetOp2 pc2 of (ok2, opcode2, vch2, pc2) \<Rightarrow>
             if \<not> ok2 then None
             else case match_op opcode1 vch1 opcode2 vch2 vSolutionsRet of None \<Rightarrow> None
               | Some vSolutionsRet \<Rightarrow> match_loop pc1 pc2 vSolutionsRet)
        else (case match_op opcode1 vch1 opcode2 vch2 vSolutionsRet of None \<Rightarrow> None
              | Some vSolutionsRet \<Rightarrow> match_loop pc1 pc2 vSolutionsRet))"
  by pat_completeness auto
termination
  by (relation "measure (\<lambda>(pc1, pc2, s). length pc2)") (auto dest!: GetOp2_True [OF sym] intro: less_trans)

declare match_loop.simps [simp del]

definition match_accept :: "txnouttype \<Rightarrow> valtype list \<Rightarrow> bool" where
  "match_accept typeRet vSolutionsRet =
     (if typeRet = TX_MULTISIG then
        (let m = unat (hd (hd vSolutionsRet)); n = unat (hd (last vSolutionsRet))
         in if m < 1 \<or> n < 1 \<or> m > n \<or> length vSolutionsRet - 2 \<noteq> n then False else True)
      else True)"

fun scan_templates :: "CScript \<Rightarrow> (txnouttype \<times> CScript) list \<Rightarrow> bool \<times> txnouttype \<times> valtype list" where
  "scan_templates script1 [] = (False, TX_NONSTANDARD, [])"
| "scan_templates script1 ((typeRet, script2) # tplates) =
     (case match_loop script1 script2 [] of
        Some vSolutionsRet \<Rightarrow> (match_accept typeRet vSolutionsRet, typeRet, vSolutionsRet)
      | None \<Rightarrow> scan_templates script1 tplates)"

definition Solver :: "CScript \<Rightarrow> (bool \<times> txnouttype \<times> valtype list) option" where
  "Solver this =
     (if IsPayToScriptHash this then Some (True, TX_SCRIPTHASH, [take 20 (drop 2 this)])
      else if IsZerocoinMint this then
        (if length this > 150 then Some (False, TX_ZEROCOINMINT, [])
         else if length this < 2 then None
         else Some (True, TX_ZEROCOINMINT, [drop 2 this]))
      else if length this \<ge> 1 \<and> unat (this ! 0) = OP_RETURN \<and> IsPushOnly (drop 1 this) then Some (True, TX_NULL_DATA, [])
      else Some (scan_templates this mTemplates))"

section \<open>Destinations\<close>

definition ScriptSigArgsExpected :: "txnouttype \<Rightarrow> valtype list \<Rightarrow> int" where
  "ScriptSigArgsExpected t vSolutions =
     (case t of TX_NONSTANDARD \<Rightarrow> - 1 | TX_NULL_DATA \<Rightarrow> - 1 | TX_ZEROCOINMINT \<Rightarrow> - 1
      | TX_PUBKEY \<Rightarrow> 1 | TX_PUBKEYHASH \<Rightarrow> 2
      | TX_MULTISIG \<Rightarrow> if length vSolutions < 1 \<or> length (vSolutions ! 0) < 1 then - 1 else int (unat (vSolutions ! 0 ! 0)) + 1
      | TX_SCRIPTHASH \<Rightarrow> 1)"

definition IsStandard :: "bool \<Rightarrow> nat \<Rightarrow> CScript \<Rightarrow> (bool \<times> txnouttype) option" where
  "IsStandard datacarrier nMaxDatacarrierBytes this =
     (case Solver this of None \<Rightarrow> None
      | Some (ok, whichType, vSolutions) \<Rightarrow>
          Some (if \<not> ok then (False, whichType)
            else if whichType = TX_MULTISIG then
              (let m = unat (hd (hd vSolutions)); n = unat (hd (last vSolutions))
               in if n < 1 \<or> n > 3 then (False, whichType)
                  else if m < 1 \<or> m > n then (False, whichType)
                  else (True, whichType))
            else if whichType = TX_NULL_DATA \<and> (\<not> datacarrier \<or> length this > nMaxDatacarrierBytes) then (False, whichType)
            else (whichType \<noteq> TX_NONSTANDARD, whichType)))"

definition ExtractDestination :: "(bytes \<Rightarrow> bytes) \<Rightarrow> CScript \<Rightarrow> CTxDestination option option" where
  "ExtractDestination GetID this =
     (case Solver this of None \<Rightarrow> None
      | Some (ok, whichType, vSolutions) \<Rightarrow>
          Some (if \<not> ok then None
            else if whichType = TX_PUBKEY then
              (let pubKey = CPubKey_Set (vSolutions ! 0) in if \<not> CPubKey_IsValid pubKey then None else Some (CKeyID (GetID pubKey)))
            else if whichType = TX_PUBKEYHASH then Some (CKeyID (vSolutions ! 0))
            else if whichType = TX_SCRIPTHASH then Some (CScriptID (vSolutions ! 0))
            else None))"

fun GetScriptForDestination :: "CTxDestination \<Rightarrow> CScript" where
  "GetScriptForDestination CNoDestination = []"
| "GetScriptForDestination (CKeyID keyID) =
     [of_nat OP_DUP, of_nat OP_HASH160] @ push_data keyID @ [of_nat OP_EQUALVERIFY, of_nat OP_CHECKSIG]"
| "GetScriptForDestination (CScriptID scriptID) = [of_nat OP_HASH160] @ push_data scriptID @ [of_nat OP_EQUAL]"

definition GetScriptForMultisig :: "int \<Rightarrow> bytes list \<Rightarrow> CScript option" where
  "GetScriptForMultisig nRequired keys =
     (case EncodeOP_N nRequired of None \<Rightarrow> None | Some m \<Rightarrow>
      case EncodeOP_N (int (length keys)) of None \<Rightarrow> None | Some n \<Rightarrow>
        Some ([of_nat m] @ concat (map push_data keys) @ [of_nat n, of_nat OP_CHECKMULTISIG]))"

section \<open>Matching the scripts that are built\<close>

lemma GetOp2_plain: "OP_PUSHDATA4 < unat b \<Longrightarrow> GetOp2 (b # r) = (True, unat b, [], r)"
  by (simp add: GetOp2_def Let_def)

lemma GetOp2_push: "2 \<le> length b \<Longrightarrow> length b \<le> 75 \<Longrightarrow> GetOp2 (push_data b @ r) = (True, length b, b, r)"
  using push_data_direct [of b] by simp

lemma match_loop_Nil [simp]: "match_loop [] [] sols = Some sols"
  by (simp add: match_loop.simps)

lemma match_loop_step:
  assumes "GetOp2 pc1 = (True, opcode1, vch1, r1)" "OP_PUSHDATA4 < unat b" "unat b \<noteq> OP_PUBKEYS"
  shows "match_loop pc1 (b # r2) sols =
    (case match_op opcode1 vch1 (unat b) [] sols of None \<Rightarrow> None | Some sols' \<Rightarrow> match_loop r1 r2 sols')"
  using assms GetOp2_plain [OF assms(2), of r2] by (simp add: match_loop.simps [of pc1] split: option.splits)

lemma Solver_keyid:
  assumes "length h = 20"
  shows "Solver (GetScriptForDestination (CKeyID h)) = Some (True, TX_PUBKEYHASH, [h])"
proof -
  define s where "s = GetScriptForDestination (CKeyID h)"
  have s: "s = 0x76 # 0xa9 # push_data h @ [0x88, 0xac]" by (simp add: s_def)
  have len: "length s = 25" using assms by (simp add: s push_data_def)
  have pk: "match_loop s tplate_PUBKEY [] = None"
    unfolding tplate_PUBKEY_def s by (subst match_loop_step [OF GetOp2_plain]) (simp_all add: match_op_def)
  have pkh: "match_loop s tplate_PUBKEYHASH [] = Some [h]"
    using assms unfolding tplate_PUBKEYHASH_def s
    by (simp add: match_loop_step [OF GetOp2_plain] match_loop_step [OF GetOp2_push] match_op_def)
  have "scan_templates s mTemplates = (True, TX_PUBKEYHASH, [h])" by (simp add: mTemplates_def pk pkh match_accept_def)
  then show ?thesis using len
    by (simp add: Solver_def IsPayToScriptHash_def IsZerocoinMint_def s flip: s_def)
qed

lemma Solver_scriptid:
  assumes "length h = 20"
  shows "Solver (GetScriptForDestination (CScriptID h)) = Some (True, TX_SCRIPTHASH, [h])"
  using assms by (simp add: Solver_def IsPayToScriptHash_def push_data_def nth_append)

section \<open>Multi-signature scripts\<close>

lemma pubkeys_loop_keys:
  assumes "33 \<le> length k" "length k \<le> 65" "\<forall>x \<in> set keys. 33 \<le> length x \<and> length x \<le> 65" "OP_PUSHDATA4 < unat b"
  shows "pubkeys_loop o1 k (concat (map push_data keys) @ b # r) sols = (unat b, [], r, sols @ k # keys)"
  using assms
proof (induction keys arbitrary: k o1 sols)
  case Nil
  then show ?case by (simp add: pubkeys_loop.simps [of o1 k] pubkeys_loop.simps [of "unat b" "[]"] GetOp2_plain)
next
  case (Cons x keys)
  then show ?case by (simp add: pubkeys_loop.simps [of o1 k] GetOp2_push)
qed

lemma match_loop_keys:
  assumes "keys \<noteq> []" "\<forall>x \<in> set keys. 33 \<le> length x \<and> length x \<le> 65" "OP_PUSHDATA4 < unat b"
    "OP_PUSHDATA4 < unat c" "OP_PUSHDATA4 < unat d" "unat d = OP_PUBKEYS"
  shows "match_loop (concat (map push_data keys) @ b # r1) (d # c # r2) sols =
    (case match_op (unat b) [] (unat c) [] (sols @ keys) of None \<Rightarrow> None | Some sols' \<Rightarrow> match_loop r1 r2 sols')"
proof -
  obtain k ks where k: "keys = k # ks" using assms by (cases keys) auto
  then have "33 \<le> length k" "length k \<le> 65" using assms by auto
  then show ?thesis using assms k pubkeys_loop_keys [of k ks b "length k" r1 sols]
    by (simp add: match_loop.simps [of "push_data k @ concat (map push_data ks) @ b # r1"] GetOp2_push GetOp2_plain
        split: option.splits)
qed

lemma Solver_multisig:
  assumes m: "1 \<le> m" "m \<le> int (length keys)" "length keys \<le> 16" and k: "\<forall>x \<in> set keys. 33 \<le> length x \<and> length x \<le> 65"
    and s: "GetScriptForMultisig m keys = Some s"
  shows "Solver s = Some (True, TX_MULTISIG, [of_int m] # keys @ [[of_nat (length keys)]])"
proof -
  define b c :: byte where "b = of_nat (nat (int OP_1 + m - 1))" and "c = of_nat (OP_1 + length keys - 1)"
  have ub: "unat b = nat (80 + m)" and uc: "unat c = 80 + length keys"
    unfolding b_def c_def unat_of_nat_byte using m by auto
  have ne: "keys \<noteq> []" using m by auto
  have s: "s = b # concat (map push_data keys) @ [c, 0xae]"
    using s m ne by (auto simp: GetScriptForMultisig_def EncodeOP_N_def b_def c_def nat_add_distrib split: if_splits)
  have bm: "DecodeOP_N (unat b) = Some (nat m)" "DecodeOP_N (unat c) = Some (length keys)"
    using m ne unfolding ub uc by (auto simp: DecodeOP_N_def nat_add_distrib Suc_le_eq)
  have bb: "OP_PUSHDATA4 < unat b" "OP_1 \<le> unat b" "unat b \<le> OP_16" using ub m by auto
  have pk: "match_loop s tplate_PUBKEY [] = None" "match_loop s tplate_PUBKEYHASH [] = None"
    unfolding tplate_PUBKEY_def tplate_PUBKEYHASH_def s
    by (subst match_loop_step [OF GetOp2_plain]; use bb in \<open>simp add: match_op_def\<close>)+
  have ms: "match_loop s tplate_MULTISIG [] = Some ([of_int m] # keys @ [[of_nat (length keys)]])"
    unfolding tplate_MULTISIG_def s
    apply (subst match_loop_step [OF GetOp2_plain])
    using bb uc m ne k bm by (simp_all add: match_op_def match_loop_keys match_loop_step [OF GetOp2_plain])
  have um: "unat (of_int m :: byte) = nat m" "unat (of_nat (length keys) :: byte) = length keys"
    using m by (simp_all add: unat_of_nat_byte flip: of_nat_nat)
  have "scan_templates s mTemplates = (True, TX_MULTISIG, [of_int m] # keys @ [[of_nat (length keys)]])"
    using m um ne by (auto simp: mTemplates_def pk ms match_accept_def Let_def nat_le_iff not_less)
  moreover have "\<not> IsPayToScriptHash s" "\<not> IsZerocoinMint s" "unat (s ! 0) \<noteq> OP_RETURN"
    using ub m by (auto simp: IsPayToScriptHash_def IsZerocoinMint_def s)
  ultimately show ?thesis by (simp add: Solver_def)
qed

section \<open>Properties\<close>

text \<open>
  The destination of the script that is built for a destination is that destination, for every key and script
  hash of twenty bytes; nothing is extracted from the empty script of \<open>CNoDestination\<close>.
\<close>

theorem destination_roundtrip:
  assumes "length h = 20"
  shows "ExtractDestination GetID (GetScriptForDestination (CKeyID h)) = Some (Some (CKeyID h)) \<and>
    ExtractDestination GetID (GetScriptForDestination (CScriptID h)) = Some (Some (CScriptID h)) \<and>
    ExtractDestination GetID (GetScriptForDestination CNoDestination) = Some None"
  using Solver_keyid [OF assms] Solver_scriptid [OF assms]
  by (simp add: ExtractDestination_def del: GetScriptForDestination.simps(2,3))
    (simp add: Solver_def IsPayToScriptHash_def IsZerocoinMint_def mTemplates_def match_loop.simps GetOp2_def tplate_PUBKEY_def
      tplate_PUBKEYHASH_def tplate_MULTISIG_def)

theorem destination_roundtrip_witness:
  "ExtractDestination (take 20) (GetScriptForDestination (CKeyID (replicate 20 5))) = Some (Some (CKeyID (replicate 20 5)))"
  using destination_roundtrip [of "replicate 20 5" "take 20"] by simp

text \<open>
  \<open>Solver\<close> recognises the m-of-n script that \<open>GetScriptForMultisig\<close> builds, for every m and n with at most sixteen
  keys of 33 to 65 bytes, and returns the threshold, the keys in order and their number.
\<close>

theorem multisig_script_roundtrip:
  assumes "1 \<le> m" "m \<le> int (length keys)" "length keys \<le> 16" "\<forall>x \<in> set keys. 33 \<le> length x \<and> length x \<le> 65"
  shows "\<exists>s. GetScriptForMultisig m keys = Some s \<and>
    Solver s = Some (True, TX_MULTISIG, [of_int m] # keys @ [[of_nat (length keys)]])"
proof -
  obtain s where s: "GetScriptForMultisig m keys = Some s" using assms by (auto simp: GetScriptForMultisig_def EncodeOP_N_def)
  with Solver_multisig [OF assms s] show ?thesis by blast
qed

theorem multisig_script_roundtrip_witness:
  "\<exists>s. GetScriptForMultisig 2 [replicate 33 1, replicate 33 2] = Some s \<and>
    Solver s = Some (True, TX_MULTISIG, [[2], replicate 33 1, replicate 33 2, [2]])"
  using multisig_script_roundtrip [of 2 "[replicate 33 1, replicate 33 2]"] by simp

end
