(* ===== verification/Merkle.thy ===== *)
theory Merkle
  imports Agouti_Prelude
begin

text \<open>
  The merkle tree of a block (\<open>BuildMerkleTree\<close>, \<open>GetMerkleBranch\<close> and \<open>CheckMerkleBranch\<close> of
  \<open>src/primitives/block.cpp\<close>).  The tree is the flat vector \<open>vMerkleTree\<close> of the code: the leaves, then each level
  after the one it is computed from, with \<open>j\<close> the offset of the current level.  The functions take the hash \<open>H\<close> of
  two nodes and the null hash as arguments; \<open>Block\<close> supplies the transaction hashes.

  The reference definitions \<open>next_level\<close>, \<open>merkle_root\<close> and \<open>merkle_mutated\<close> work on one level at a time, and the
  flat-array loops are shown to compute them.  The indices of the code are \<open>int\<close>; \<open>GetMerkleBranch\<close> indexes the vector
  with its argument, so it takes a natural number, and \<open>CheckMerkleBranch\<close>, which tests for minus one, an integer.
\<close>

section \<open>The flat tree\<close>

function level_loop ::
  "('h \<Rightarrow> 'h \<Rightarrow> 'h) \<Rightarrow> nat \<Rightarrow> nat \<Rightarrow> nat \<Rightarrow> 'h list \<Rightarrow> bool \<Rightarrow> 'h list \<times> bool" where
  "level_loop H j nSize i vMerkleTree mutated =
     (if i < nSize then
        (let i2 = min (i + 1) (nSize - 1);
             mutated = (if i2 = i + 1 \<and> i2 + 1 = nSize \<and> vMerkleTree ! (j + i) = vMerkleTree ! (j + i2) then True else mutated)
         in level_loop H j nSize (i + 2) (vMerkleTree @ [H (vMerkleTree ! (j + i)) (vMerkleTree ! (j + i2))]) mutated)
      else (vMerkleTree, mutated))"
  by pat_completeness auto
termination by (relation "measure (\<lambda>(H, j, n, i, t, m). n - i)") auto

function merkle_loop :: "('h \<Rightarrow> 'h \<Rightarrow> 'h) \<Rightarrow> nat \<Rightarrow> nat \<Rightarrow> 'h list \<Rightarrow> bool \<Rightarrow> 'h list \<times> bool" where
  "merkle_loop H j nSize vMerkleTree mutated =
     (if nSize > 1 then
        (case level_loop H j nSize 0 vMerkleTree mutated of
           (vMerkleTree, mutated) \<Rightarrow> merkle_loop H (j + nSize) ((nSize + 1) div 2) vMerkleTree mutated)
      else (vMerkleTree, mutated))"
  by pat_completeness auto
termination by (relation "measure (\<lambda>(H, j, n, t, m). n)") auto

text \<open>The root, the flag \<open>*fMutated\<close> and \<open>vMerkleTree\<close>.\<close>

definition BuildMerkleTree :: "('h \<Rightarrow> 'h \<Rightarrow> 'h) \<Rightarrow> 'h \<Rightarrow> 'h list \<Rightarrow> 'h \<times> bool \<times> 'h list" where
  "BuildMerkleTree H zero hashes =
     (case merkle_loop H 0 (length hashes) hashes False of
        (vMerkleTree, mutated) \<Rightarrow> (if vMerkleTree = [] then zero else last vMerkleTree, mutated, vMerkleTree))"

function branch_loop :: "'h list \<Rightarrow> nat \<Rightarrow> nat \<Rightarrow> nat \<Rightarrow> 'h list" where
  "branch_loop vMerkleTree j nSize nIndex =
     (if nSize > 1 then
        (let i = min (nIndex XOR 1) (nSize - 1)
         in vMerkleTree ! (j + i) # branch_loop vMerkleTree (j + nSize) ((nSize + 1) div 2) (drop_bit 1 nIndex))
      else [])"
  by pat_completeness auto
termination by (relation "measure (\<lambda>(t, j, n, i). n)") auto

declare level_loop.simps [simp del] merkle_loop.simps [simp del] branch_loop.simps [simp del]

definition GetMerkleBranch :: "'h list \<Rightarrow> nat \<Rightarrow> nat \<Rightarrow> 'h list" where
  "GetMerkleBranch vMerkleTree nTx nIndex = branch_loop vMerkleTree 0 nTx nIndex"

fun check_branch_loop :: "('h \<Rightarrow> 'h \<Rightarrow> 'h) \<Rightarrow> 'h \<Rightarrow> 'h list \<Rightarrow> int \<Rightarrow> 'h" where
  "check_branch_loop H hash [] nIndex = hash"
| "check_branch_loop H hash (it # vMerkleBranch) nIndex =
     check_branch_loop H (if nIndex AND 1 \<noteq> 0 then H it hash else H hash it) vMerkleBranch (drop_bit 1 nIndex)"

definition CheckMerkleBranch :: "('h \<Rightarrow> 'h \<Rightarrow> 'h) \<Rightarrow> 'h \<Rightarrow> 'h \<Rightarrow> 'h list \<Rightarrow> int \<Rightarrow> 'h" where
  "CheckMerkleBranch H zero hash vMerkleBranch nIndex =
     (if nIndex = - 1 then zero else check_branch_loop H hash vMerkleBranch nIndex)"

section \<open>The reference tree, level by level\<close>

fun next_level :: "('h \<Rightarrow> 'h \<Rightarrow> 'h) \<Rightarrow> 'h list \<Rightarrow> 'h list" where
  "next_level H [] = []"
| "next_level H [x] = [H x x]"
| "next_level H (x # y # xs) = H x y # next_level H xs"

fun end_dup :: "'h list \<Rightarrow> bool" where
  "end_dup (x # y # z # zs) = end_dup (z # zs)"
| "end_dup [x, y] = (x = y)"
| "end_dup xs = False"

lemma length_next_level [simp]: "length (next_level H xs) = (length xs + 1) div 2"
  by (induction H xs rule: next_level.induct) auto

lemma next_level_Nil_iff: "next_level H xs = [] \<longleftrightarrow> xs = []"
  by (induction H xs rule: next_level.induct) auto

function merkle_root :: "('h \<Rightarrow> 'h \<Rightarrow> 'h) \<Rightarrow> 'h list \<Rightarrow> 'h" where
  "merkle_root H xs = (if length xs > 1 then merkle_root H (next_level H xs) else hd xs)"
  by pat_completeness auto
termination by (relation "measure (\<lambda>(H, xs). length xs)") auto

function merkle_mutated :: "('h \<Rightarrow> 'h \<Rightarrow> 'h) \<Rightarrow> 'h list \<Rightarrow> bool" where
  "merkle_mutated H xs \<longleftrightarrow> (if length xs > 1 then end_dup xs \<or> merkle_mutated H (next_level H xs) else False)"
  by pat_completeness auto
termination by (relation "measure (\<lambda>(H, xs). length xs)") auto

function merkle_levels :: "('h \<Rightarrow> 'h \<Rightarrow> 'h) \<Rightarrow> 'h list \<Rightarrow> 'h list list" where
  "merkle_levels H xs = (if length xs > 1 then xs # merkle_levels H (next_level H xs) else [xs])"
  by pat_completeness auto
termination by (relation "measure (\<lambda>(H, xs). length xs)") auto

declare merkle_root.simps [simp del] merkle_mutated.simps [simp del] merkle_levels.simps [simp del]

section \<open>The loops compute the reference tree\<close>

lemma end_dup_two: "length xs = 2 \<Longrightarrow> end_dup xs \<longleftrightarrow> xs ! 0 = xs ! 1"
  by (cases xs rule: end_dup.cases) auto

lemma drop_two_cases:
  assumes "i < length xs"
  obtains (one) "drop i xs = [xs ! i]" "Suc i = length xs"
  | (more) "drop i xs = xs ! i # xs ! Suc i # drop (i + 2) xs" "Suc i < length xs"
  using assms by (cases "Suc i < length xs") (auto simp: Cons_nth_drop_Suc [symmetric])

lemma end_dup_drop:
  "Suc i < length xs \<Longrightarrow>
   end_dup (drop i xs) \<longleftrightarrow> (if Suc (Suc i) = length xs then xs ! i = xs ! Suc i else end_dup (drop (i + 2) xs))"
  by (auto simp: Cons_nth_drop_Suc [symmetric])

lemma level_loop_next_level:
  "level_loop H (length pre) (length xs) i (pre @ xs @ post) m =
     (pre @ xs @ post @ next_level H (drop i xs), m \<or> end_dup (drop i xs))"
proof (induction "length xs - i" arbitrary: i post m rule: less_induct)
  case less
  show ?case
  proof (cases "i < length xs")
    case True
    then have IH: "level_loop H (length pre) (length xs) (i + 2) (pre @ xs @ post') m' =
        (pre @ xs @ post' @ next_level H (drop (i + 2) xs), m' \<or> end_dup (drop (i + 2) xs))" for post' m'
      by (intro less) simp
    have nth: "(xs @ post) ! k = xs ! k" if "k < length xs" for k
      using that by (simp add: nth_append)
    from True show ?thesis
    proof (cases rule: drop_two_cases)
      case one
      then have "length xs - 1 = i" by simp
      with one show ?thesis using True IH [of "post @ [H (xs ! i) (xs ! i)]"]
        by (simp add: level_loop.simps [of _ _ _ i] nth del: One_nat_def)
    next
      case more
      then have "min (i + 1) (length xs - 1) = i + 1" by simp
      with more show ?thesis using True IH [of "post @ [H (xs ! i) (xs ! Suc i)]"] end_dup_drop [OF more(2)]
        by (simp add: level_loop.simps [of _ _ _ i] nth)
    qed
  qed (simp add: level_loop.simps [of _ _ _ i])
qed

lemma merkle_loop_levels:
  "merkle_loop H (length pre) (length xs) (pre @ xs) m =
     (pre @ concat (merkle_levels H xs), m \<or> merkle_mutated H xs)"
proof (induction H xs arbitrary: pre m rule: merkle_root.induct)
  case (1 H xs)
  then show ?case using level_loop_next_level [of H pre xs 0 "[]" m] "1.IH" [of "pre @ xs" "m \<or> end_dup xs"]
    by (auto simp: merkle_loop.simps [of _ _ "length xs"] merkle_levels.simps [of H xs] merkle_mutated.simps [of H xs])
qed

lemma last_merkle_levels: "xs \<noteq> [] \<Longrightarrow> concat (merkle_levels H xs) \<noteq> [] \<and> last (concat (merkle_levels H xs)) = merkle_root H xs"
proof (induction H xs rule: merkle_root.induct)
  case (1 H xs)
  show ?case
  proof (cases "length xs > 1")
    case True
    then have "next_level H xs \<noteq> []" by (auto simp: next_level_Nil_iff)
    with 1 True show ?thesis by (simp add: merkle_levels.simps [of H xs] merkle_root.simps [of H xs])
  next
    case False
    with 1 show ?thesis by (cases xs) (auto simp: merkle_levels.simps [of H "[_]"] merkle_root.simps [of H "[_]"])
  qed
qed

lemma BuildMerkleTree_eq:
  "BuildMerkleTree H zero xs =
     (if xs = [] then zero else merkle_root H xs, merkle_mutated H xs, concat (merkle_levels H xs))"
  using merkle_loop_levels [of H "[]" xs False] last_merkle_levels [of xs H]
  by (auto simp: BuildMerkleTree_def merkle_levels.simps [of H "[]"])

unbundle bit_operations_syntax

section \<open>Branches\<close>

function merkle_branch :: "('h \<Rightarrow> 'h \<Rightarrow> 'h) \<Rightarrow> 'h list \<Rightarrow> nat \<Rightarrow> 'h list" where
  "merkle_branch H xs i =
     (if length xs > 1 then xs ! min (i XOR 1) (length xs - 1) # merkle_branch H (next_level H xs) (i div 2) else [])"
  by pat_completeness auto
termination by (relation "measure (\<lambda>(H, xs, i). length xs)") auto

declare merkle_branch.simps [simp del]

lemma branch_loop_levels:
  "branch_loop (pre @ concat (merkle_levels H xs)) (length pre) (length xs) i = merkle_branch H xs i"
proof (induction H xs i arbitrary: pre rule: merkle_branch.induct)
  case (1 H xs i)
  show ?case
  proof (cases "length xs > 1")
    case True
    define k where "k = min (i XOR 1) (length xs - 1)"
    have "k < length xs" using True by (simp add: k_def)
    then show ?thesis using True "1.IH" [OF True, of "pre @ xs"]
      by (simp add: branch_loop.simps [of _ _ "length xs"] merkle_branch.simps [of H xs] merkle_levels.simps [of H xs]
          k_def [symmetric] nth_append drop_bit_eq_div del: One_nat_def)
  qed (simp add: branch_loop.simps [of _ _ "length xs"] merkle_branch.simps [of H xs])
qed

lemma GetMerkleBranch_eq: "GetMerkleBranch (snd (snd (BuildMerkleTree H zero xs))) (length xs) i = merkle_branch H xs i"
  using branch_loop_levels [of "[]" H xs i] by (simp add: GetMerkleBranch_def BuildMerkleTree_eq)

lemma nth_next_level:
  "k < (length xs + 1) div 2 \<Longrightarrow> next_level H xs ! k = H (xs ! (2 * k)) (xs ! min (2 * k + 1) (length xs - 1))"
proof (induction H xs arbitrary: k rule: next_level.induct)
  case (3 H x y xs)
  show ?case
  proof (cases k)
    case (Suc m)
    with 3 have "m < (length xs + 1) div 2" by simp
    moreover have "min (2 * k + 1) (length (x # y # xs) - 1) = Suc (Suc (min (2 * m + 1) (length xs - 1)))"
      using Suc calculation by auto
    ultimately show ?thesis using Suc 3 by simp
  qed simp
qed auto

lemma xor_one_nat: "(i :: nat) XOR 1 = (if even i then i + 1 else i - 1)"
proof -
  have "int (i XOR 1) = int (if even i then i + 1 else i - 1)"
    by (auto simp: of_nat_xor_eq xor_one_eq of_nat_diff Suc_leI odd_pos)
  then show ?thesis by (simp only: of_nat_eq_iff)
qed

lemmas xor_Suc_0_nat = xor_one_nat [unfolded One_nat_def]

lemma next_level_sibling:
  assumes "i < length xs"
  defines "b \<equiv> xs ! min (i XOR 1) (length xs - 1)"
  shows "next_level H xs ! (i div 2) = (if odd i then H b (xs ! i) else H (xs ! i) b)"
proof -
  have k: "i div 2 < (length xs + 1) div 2" using assms(1) by linarith
  show ?thesis using assms(1)
    by (auto simp: nth_next_level [OF k] b_def xor_Suc_0_nat elim!: evenE oddE)
qed

lemma int_index_step: "drop_bit 1 (int i) = int (i div 2)" "int i AND 1 \<noteq> 0 \<longleftrightarrow> odd i"
  by (simp_all add: drop_bit_eq_div zdiv_int and_one_eq mod_2_eq_odd)

lemma merkle_branch_root:
  "i < length xs \<Longrightarrow> check_branch_loop H (xs ! i) (merkle_branch H xs i) (int i) = merkle_root H xs"
proof (induction H xs i rule: merkle_branch.induct)
  case (1 H xs i)
  show ?case
  proof (cases "length xs > 1")
    case True
    then have "i div 2 < length (next_level H xs)" using "1.prems" by simp
    with "1.IH" [OF True] next_level_sibling [OF "1.prems", of H] True show ?thesis
      by (simp add: merkle_branch.simps [of H xs i] merkle_root.simps [of H xs] int_index_step del: One_nat_def)
  next
    case False
    with "1.prems" show ?thesis by (cases xs) (auto simp: merkle_branch.simps [of H "[_]"] merkle_root.simps [of H "[_]"])
  qed
qed

lemma merkle_branch_unique:
  assumes inj: "\<And>a b c d. H a b = H c d \<longleftrightarrow> a = c \<and> b = d"
  shows "i < length xs \<Longrightarrow> length br = length (merkle_branch H xs i) \<Longrightarrow>
    check_branch_loop H h br (int i) = merkle_root H xs \<Longrightarrow> h = xs ! i \<and> br = merkle_branch H xs i"
proof (induction br arbitrary: h xs i)
  case Nil
  then have "length xs \<le> 1" by (cases "length xs > 1") (auto simp: merkle_branch.simps [of H xs])
  with Nil show ?case by (cases xs) (auto simp: merkle_branch.simps [of H "[_]"] merkle_root.simps [of H "[_]"])
next
  case (Cons b br)
  from Cons.prems(2) have len: "length xs > 1" by (cases "length xs > 1") (auto simp: merkle_branch.simps [of H xs])
  let ?h = "if odd i then H b h else H h b"
  have "?h = next_level H xs ! (i div 2) \<and> br = merkle_branch H (next_level H xs) (i div 2)"
    using Cons.prems len by (intro Cons.IH)
      (auto simp: merkle_branch.simps [of H xs i] merkle_root.simps [of H xs] int_index_step int_index_step [unfolded One_nat_def] split: if_splits)
  then show ?case using len inj next_level_sibling [OF Cons.prems(1), of H]
    by (auto simp: merkle_branch.simps [of H xs i] split: if_splits)
qed


section \<open>Mutated lists\<close>

fun merkle_depth :: "nat \<Rightarrow> nat" where
  "merkle_depth n = (if n > 1 then Suc (merkle_depth ((n + 1) div 2)) else 0)"

declare merkle_depth.simps [simp del]

definition is_node :: "('h \<Rightarrow> 'h \<Rightarrow> 'h) \<Rightarrow> 'h \<Rightarrow> bool" where
  "is_node H x \<longleftrightarrow> (\<exists>a b. x = H a b)"

lemma next_level_nodes: "x \<in> set (next_level H xs) \<Longrightarrow> is_node H x"
  by (induction H xs rule: next_level.induct) (auto simp: is_node_def)

lemma next_level_inj:
  assumes inj: "\<And>a b c d. H a b = H c d \<longleftrightarrow> a = c \<and> b = d"
  shows "next_level H xs = next_level H ys \<Longrightarrow> \<not> end_dup xs \<Longrightarrow> \<not> end_dup ys \<Longrightarrow> xs = ys"
proof (induction xs arbitrary: ys rule: end_dup.induct)
  case (1 x y z zs)
  then show ?case by (cases ys rule: end_dup.cases) (auto simp: inj next_level_Nil_iff)
qed (case_tac ys rule: end_dup.cases; auto simp: inj next_level_Nil_iff next_level_Nil_iff [THEN eq_iff_swap])+

lemma merkle_step:
  assumes "length xs > 1"
  shows "next_level H xs \<noteq> []" "merkle_depth (length xs) = Suc (merkle_depth (length (next_level H xs)))"
    "merkle_root H xs = merkle_root H (next_level H xs)"
    "merkle_mutated H xs \<longleftrightarrow> end_dup xs \<or> merkle_mutated H (next_level H xs)"
  using assms by (auto simp: next_level_Nil_iff merkle_depth.simps [of "length xs"] merkle_root.simps [of H xs]
      merkle_mutated.simps [of H xs])

lemma merkle_depth_0: "merkle_depth n = 0 \<longleftrightarrow> n \<le> 1"
  by (simp add: merkle_depth.simps [of n])

lemma merkle_root_inj_depth:
  assumes inj: "\<And>a b c d. H a b = H c d \<longleftrightarrow> a = c \<and> b = d"
  shows "xs \<noteq> [] \<Longrightarrow> ys \<noteq> [] \<Longrightarrow> merkle_depth (length xs) = merkle_depth (length ys) \<Longrightarrow>
    \<not> merkle_mutated H xs \<Longrightarrow> \<not> merkle_mutated H ys \<Longrightarrow> merkle_root H xs = merkle_root H ys \<Longrightarrow> xs = ys"
proof (induction "length xs" arbitrary: xs ys rule: less_induct)
  case less
  show ?case
  proof (cases "length xs > 1")
    case True
    with less.prems(3) have ys: "length ys > 1" by (metis merkle_depth_0 not_le)
    note steps = merkle_step [OF True, of H] merkle_step [OF ys, of H]
    have "length (next_level H xs) < length xs" using True by simp
    then have "next_level H xs = next_level H ys" using less.prems steps by (intro less.hyps) simp_all
    then show ?thesis using less.prems steps next_level_inj [OF inj, of xs ys] by simp
  next
    case False
    with less.prems(3) have ys: "\<not> length ys > 1" by (metis merkle_depth_0 not_le)
    from False less.prems(1) obtain x where "xs = [x]" by (cases xs) auto
    moreover from ys less.prems(2) obtain y where "ys = [y]" by (cases ys) auto
    ultimately show ?thesis using less.prems(6) by (simp add: merkle_root.simps [of H "[_]"])
  qed
qed

lemma merkle_root_depth_eq:
  assumes inj: "\<And>a b c d. H a b = H c d \<longleftrightarrow> a = c \<and> b = d"
    and xs: "xs \<noteq> []" "\<And>x. x \<in> set xs \<Longrightarrow> \<not> is_node H x" "\<not> merkle_mutated H xs"
  shows "ys \<noteq> [] \<Longrightarrow> \<not> merkle_mutated H ys \<Longrightarrow> merkle_root H xs = merkle_root H ys \<Longrightarrow>
    merkle_depth (length ys) \<le> merkle_depth (length xs)"
proof (induction "length ys" arbitrary: ys rule: less_induct)
  case less
  show ?case
  proof (rule ccontr)
    assume lt: "\<not> ?thesis"
    then have ys: "length ys > 1" by (cases "length ys > 1") (auto simp: merkle_depth.simps [of "length ys"])
    let ?ys = "next_level H ys"
    note step = merkle_step [OF ys, of H]
    have less: "length ?ys < length ys" using ys by simp
    have "merkle_depth (length ?ys) \<le> merkle_depth (length xs)" using step less.prems less by (intro less.hyps) simp_all
    then have "xs = ?ys" using lt xs step less.prems by (intro merkle_root_inj_depth [OF inj]) simp_all
    then show False using xs step(1) next_level_nodes [of "hd ?ys" H ys] by (metis list.set_sel(1))
  qed
qed

lemma merkle_root_inj:
  assumes inj: "\<And>a b c d. H a b = H c d \<longleftrightarrow> a = c \<and> b = d"
    and "xs \<noteq> []" "\<And>x. x \<in> set xs \<Longrightarrow> \<not> is_node H x" "\<not> merkle_mutated H xs"
    and "ys \<noteq> []" "\<And>x. x \<in> set ys \<Longrightarrow> \<not> is_node H x" "\<not> merkle_mutated H ys"
    and "merkle_root H xs = merkle_root H ys"
  shows "xs = ys"
  using assms(2-) merkle_root_depth_eq [OF inj, of xs ys] merkle_root_depth_eq [OF inj, of ys xs]
  by (intro merkle_root_inj_depth [OF inj]) (auto intro: order_antisym)

section \<open>Properties\<close>

text \<open>
  C11: \<open>BuildMerkleTree\<close> fills its flat vector with the leaves and then, level after level, the hashes of adjacent
  pairs (the last hash of an odd level paired with itself); it returns the one hash of the last level, the null
  hash for an empty list, and flags the list exactly when some level of two or more hashes ends in an identical pair.
\<close>

theorem merkle_tree_levels:
  "BuildMerkleTree H zero xs =
     (if xs = [] then zero else merkle_root H xs, merkle_mutated H xs, concat (merkle_levels H xs))"
  by (rule BuildMerkleTree_eq)

text \<open>
  C12: merkle branches are complete and, for an injective node hash, sound: the branch that \<open>GetMerkleBranch\<close> extracts
  for a position makes \<open>CheckMerkleBranch\<close> compute the root of the tree from the hash at that position, and no other
  hash and no other branch of that length does.
\<close>

theorem merkle_branch_sound_complete:
  assumes "\<And>a b c d. H a b = H c d \<longleftrightarrow> a = c \<and> b = d" and "i < length xs"
    and "BuildMerkleTree H zero xs = (root, m, tree)" and "length br = length (GetMerkleBranch tree (length xs) i)"
  shows "CheckMerkleBranch H zero h br (int i) = root \<longleftrightarrow> h = xs ! i \<and> br = GetMerkleBranch tree (length xs) i"
proof -
  have "GetMerkleBranch tree (length xs) i = merkle_branch H xs i"
    using GetMerkleBranch_eq [of H zero xs i] assms(3) by simp
  moreover have "root = merkle_root H xs" using assms by (cases xs) (auto simp: BuildMerkleTree_eq)
  ultimately show ?thesis using merkle_branch_root [of i xs H] merkle_branch_unique [of H i xs br h] assms
    by (auto simp: CheckMerkleBranch_def)
qed

definition pair_nodes :: "nat list \<Rightarrow> nat list \<Rightarrow> nat list" where
  "pair_nodes a b = length a # a @ b"

lemma pair_nodes_inj: "pair_nodes a b = pair_nodes c d \<longleftrightarrow> a = c \<and> b = d"
  by (auto simp: pair_nodes_def)

theorem merkle_branch_sound_complete_witness:
  "CheckMerkleBranch pair_nodes [] [3] [[3], pair_nodes [1] [2]] 2 = fst (BuildMerkleTree pair_nodes [] [[1], [2], [3]])"
  using merkle_branch_sound_complete [OF pair_nodes_inj, of 2 "[[1], [2], [3]]" "[]" "pair_nodes (pair_nodes [1] [2]) (pair_nodes [3] [3])" False
      "[[1], [2], [3], pair_nodes [1] [2], pair_nodes [3] [3], pair_nodes (pair_nodes [1] [2]) (pair_nodes [3] [3])]"
      "[[3], pair_nodes [1] [2]]" "[3]"]
  by (simp add: BuildMerkleTree_eq GetMerkleBranch_def merkle_root.simps merkle_mutated.simps merkle_levels.simps
      branch_loop.simps xor_Suc_0_nat pair_nodes_inj)

text \<open>
  C13: the defence against CVE-2012-2459: with an injective node hash, two non-empty lists of leaf hashes (hashes that
  are not hashes of two nodes) that \<open>BuildMerkleTree\<close> does not flag as mutated have the same root only if they are the
  same list.
\<close>

theorem merkle_root_commits:
  assumes "\<And>a b c d. H a b = H c d \<longleftrightarrow> a = c \<and> b = d"
    and "xs \<noteq> []" "ys \<noteq> []" "list_all (\<lambda>x. \<not> is_node H x) (xs @ ys)"
    and "\<not> fst (snd (BuildMerkleTree H zero xs))" "\<not> fst (snd (BuildMerkleTree H zero ys))"
  shows "fst (BuildMerkleTree H zero xs) = fst (BuildMerkleTree H zero ys) \<longleftrightarrow> xs = ys"
  using assms merkle_root_inj [of H xs ys] by (auto simp: BuildMerkleTree_eq list_all_iff)

lemma is_node_pair: "is_node pair_nodes x \<longleftrightarrow> x \<noteq> [] \<and> hd x \<le> length (tl x)"
proof
  assume "x \<noteq> [] \<and> hd x \<le> length (tl x)"
  then have "x = pair_nodes (take (hd x) (tl x)) (drop (hd x) (tl x))" by (cases x) (auto simp: pair_nodes_def)
  then show "is_node pair_nodes x" unfolding is_node_def by blast
qed (auto simp: is_node_def pair_nodes_def)

theorem merkle_root_commits_witness:
  "list_all (\<lambda>x. \<not> is_node pair_nodes x) [[1], [2], [3]] \<and>
   fst (BuildMerkleTree pair_nodes [] [[1], [2], [3]]) \<noteq> fst (BuildMerkleTree pair_nodes [] [[1], [2]])"
  using merkle_root_commits [OF pair_nodes_inj, of "[[1], [2], [3]]" "[[1], [2]]" "[]"]
  by (simp add: is_node_pair BuildMerkleTree_eq merkle_mutated.simps pair_nodes_inj)

text \<open>
  The lists of the vulnerability that the comment of \<open>BuildMerkleTree\<close> describes: repeating the last two of six
  transactions gives the same root, whatever the hash, and the longer list is flagged.
\<close>

theorem merkle_duplicate_flagged:
  "fst (BuildMerkleTree H zero [a, b, c, d, e, f, e, f]) = fst (BuildMerkleTree H zero [a, b, c, d, e, f]) \<and>
   fst (snd (BuildMerkleTree H zero [a, b, c, d, e, f, e, f]))"
  by (simp add: BuildMerkleTree_eq merkle_root.simps merkle_mutated.simps)

end
