(* ===== verification/Block.thy ===== *)
theory Block
  imports Standard Merkle
begin

text \<open>
  Block headers, blocks and stake pointers (\<open>src/primitives/block.h\<close>, \<open>src/primitives/block.cpp\<close>,
  \<open>src/stakepointer.h\<close>, \<open>src/stakepointer.cpp\<close>): serialization, the block hash, the proof-of-stake predicates,
  block signatures and the merkle tree over transaction hashes.

  \<open>CBlock\<close> extends the record of \<open>CBlockHeader\<close> as the class does; its memory-only fields \<open>payee\<close> and
  \<open>vMerkleTree\<close> are left out (\<open>BuildMerkleTree\<close> returns the vector).  A public key is the byte string
  \<open>begin()\<close> to \<open>end()\<close> of its buffer, \<open>[]\<close> for an invalid key.  Reading a key fills a prefix of the 65-byte buffer
  and does not look at the length again, so the bytes that \<open>CPubKey\<close>'s constructor leaves unset are a parameter
  (\<open>junk\<close>).  The two header hashes, \<open>CPubKey::Verify\<close>, \<open>CKey::Sign\<close>, the key store and \<open>GetID\<close> are parameters;
  \<open>None\<close> is an exception of \<open>Solver\<close> or of the \<open>uint160\<close> constructor, or an access out of range.
\<close>

section \<open>Data\<close>

definition MAX_BLOCK_SIZE_CURRENT :: nat where
  "MAX_BLOCK_SIZE_CURRENT = 2000000"

definition MAX_BLOCK_SIZE_LEGACY :: nat where
  "MAX_BLOCK_SIZE_LEGACY = 1000000"

record CBlockHeader =
  hd_nVersion :: int
  hashPrevBlock :: base_uint
  hashMerkleRoot :: base_uint
  hd_nTime :: u32
  hd_nBits :: u32
  hd_nNonce :: u32
  nAccumulatorCheckpoint :: base_uint

record StakePointer =
  sp_hashBlock :: base_uint
  sp_txid :: base_uint
  sp_nPos :: u32
  pubKeyCollateral :: bytes
  pubKeyProofOfStake :: bytes
  vchSigCollateralSignOver :: bytes

record CBlock = CBlockHeader +
  vtx :: "CTransaction list"
  vchBlockSig :: bytes
  stakePointer :: StakePointer

definition header_SetNull :: CBlockHeader where
  "header_SetNull = \<lparr>hd_nVersion = 5, hashPrevBlock = bu_zero WIDTH256, hashMerkleRoot = bu_zero WIDTH256,
     hd_nTime = 0, hd_nBits = 0, hd_nNonce = 0, nAccumulatorCheckpoint = bu_zero WIDTH256\<rparr>"

definition header_IsNull :: "'a CBlockHeader_scheme \<Rightarrow> bool" where
  "header_IsNull h \<longleftrightarrow> hd_nBits h = 0"

definition GetBlockTime :: "'a CBlockHeader_scheme \<Rightarrow> int" where
  "GetBlockTime h = int (unat (hd_nTime h))"

definition sp_SetNull :: StakePointer where
  "sp_SetNull = \<lparr>sp_hashBlock = bu_zero WIDTH256, sp_txid = bu_zero WIDTH256, sp_nPos = 0,
     pubKeyCollateral = [], pubKeyProofOfStake = [], vchSigCollateralSignOver = []\<rparr>"

definition sp_IsNull :: "StakePointer \<Rightarrow> bool" where
  "sp_IsNull sp \<longleftrightarrow> bu_IsNull (sp_hashBlock sp)"

text \<open>\<open>CBlock(header)\<close> and \<open>CBlock::SetNull\<close>.\<close>

definition block_of_header :: "CBlockHeader \<Rightarrow> CBlock" where
  "block_of_header h = CBlockHeader.extend h \<lparr>vtx = [], vchBlockSig = [], stakePointer = sp_SetNull\<rparr>"

definition block_SetNull :: CBlock where
  "block_SetNull = block_of_header header_SetNull"

definition GetBlockHeader :: "CBlock \<Rightarrow> CBlockHeader" where
  "GetBlockHeader b = \<lparr>hd_nVersion = hd_nVersion b, hashPrevBlock = hashPrevBlock b, hashMerkleRoot = hashMerkleRoot b,
     hd_nTime = hd_nTime b, hd_nBits = hd_nBits b, hd_nNonce = hd_nNonce b,
     nAccumulatorCheckpoint = nAccumulatorCheckpoint b\<rparr>"

section \<open>Serialization\<close>

definition Serialize_header :: "'a CBlockHeader_scheme \<Rightarrow> bytes" where
  "Serialize_header h = Serialize_int 4 (hd_nVersion h) @ bu_Serialize (hashPrevBlock h) @ bu_Serialize (hashMerkleRoot h) @
     Serialize_u32 (hd_nTime h) @ Serialize_u32 (hd_nBits h) @ Serialize_u32 (hd_nNonce h) @
     (if hd_nVersion h > 3 then bu_Serialize (nAccumulatorCheckpoint h) else [])"

definition Unserialize_header :: "bytes \<Rightarrow> (CBlockHeader \<times> bytes) option" where
  "Unserialize_header s =
     (case Unserialize_int 4 s of None \<Rightarrow> None | Some (v, s) \<Rightarrow>
      case bu_Unserialize WIDTH256 s of None \<Rightarrow> None | Some (p, s) \<Rightarrow>
      case bu_Unserialize WIDTH256 s of None \<Rightarrow> None | Some (m, s) \<Rightarrow>
      case Unserialize_u32 s of None \<Rightarrow> None | Some (t, s) \<Rightarrow>
      case Unserialize_u32 s of None \<Rightarrow> None | Some (b, s) \<Rightarrow>
      case Unserialize_u32 s of None \<Rightarrow> None | Some (n, s) \<Rightarrow>
      case (if v > 3 then bu_Unserialize WIDTH256 s else Some (nAccumulatorCheckpoint header_SetNull, s)) of
        None \<Rightarrow> None | Some (a, s) \<Rightarrow>
        Some (\<lparr>hd_nVersion = v, hashPrevBlock = p, hashMerkleRoot = m, hd_nTime = t, hd_nBits = b, hd_nNonce = n,
               nAccumulatorCheckpoint = a\<rparr>, s))"

definition Serialize_pubkey :: "bytes \<Rightarrow> bytes" where
  "Serialize_pubkey k = WriteCompactSize (CPubKey_size k) @ take (CPubKey_size k) k"

definition Unserialize_pubkey :: "bytes \<Rightarrow> bytes \<Rightarrow> (bytes \<times> bytes) option" where
  "Unserialize_pubkey junk s =
     (case ReadCompactSize s of None \<Rightarrow> None | Some (len, s) \<Rightarrow>
      case take_bytes len s of None \<Rightarrow> None | Some (d, s) \<Rightarrow>
        Some (if len \<le> 65 then (let vch = d @ drop len (0xFF # junk) in take (pubkey_GetLen (hd vch)) vch) else [], s))"

definition Serialize_sp :: "StakePointer \<Rightarrow> bytes" where
  "Serialize_sp sp = bu_Serialize (sp_hashBlock sp) @ bu_Serialize (sp_txid sp) @ Serialize_u32 (sp_nPos sp) @
     Serialize_pubkey (pubKeyCollateral sp) @ Serialize_pubkey (pubKeyProofOfStake sp) @
     Serialize_bytes (vchSigCollateralSignOver sp)"

definition Unserialize_sp :: "bytes \<Rightarrow> bytes \<Rightarrow> bytes \<Rightarrow> (StakePointer \<times> bytes) option" where
  "Unserialize_sp junk1 junk2 s =
     (case bu_Unserialize WIDTH256 s of None \<Rightarrow> None | Some (h, s) \<Rightarrow>
      case bu_Unserialize WIDTH256 s of None \<Rightarrow> None | Some (t, s) \<Rightarrow>
      case Unserialize_u32 s of None \<Rightarrow> None | Some (n, s) \<Rightarrow>
      case Unserialize_pubkey junk1 s of None \<Rightarrow> None | Some (c, s) \<Rightarrow>
      case Unserialize_pubkey junk2 s of None \<Rightarrow> None | Some (p, s) \<Rightarrow>
      case Unserialize_bytes s of None \<Rightarrow> None | Some (sig, s) \<Rightarrow>
        Some (\<lparr>sp_hashBlock = h, sp_txid = t, sp_nPos = n, pubKeyCollateral = c, pubKeyProofOfStake = p,
               vchSigCollateralSignOver = sig\<rparr>, s))"

definition IsProofOfStake :: "CBlock \<Rightarrow> bool" where
  "IsProofOfStake b \<longleftrightarrow> length (vtx b) > 1 \<and> IsCoinStake (vtx b ! 1)"

definition IsProofOfWork :: "CBlock \<Rightarrow> bool" where
  "IsProofOfWork b \<longleftrightarrow> \<not> IsProofOfStake b"

definition Serialize_block :: "CBlock \<Rightarrow> bytes" where
  "Serialize_block b = Serialize_header b @ Serialize_vector Serialize_tx (vtx b) @
     (if length (vtx b) > 1 \<and> IsCoinStake (vtx b ! 1)
      then Serialize_bytes (vchBlockSig b) @ (if hd_nVersion b \<ge> 5 then Serialize_sp (stakePointer b) else [])
      else [])"

text \<open>Reading into a new block: what the flags leave out keeps the value \<open>SetNull\<close> gave it.\<close>

definition Unserialize_block :: "bytes \<Rightarrow> bytes \<Rightarrow> bytes \<Rightarrow> (CBlock \<times> bytes) option" where
  "Unserialize_block junk1 junk2 s =
     (case Unserialize_header s of None \<Rightarrow> None | Some (h, s) \<Rightarrow>
      case Unserialize_vector Unserialize_tx s of None \<Rightarrow> None | Some (txs, s) \<Rightarrow>
      let b = (block_of_header h)\<lparr>vtx := txs\<rparr>
      in if length txs > 1 \<and> IsCoinStake (txs ! 1) then
           (case Unserialize_bytes s of None \<Rightarrow> None | Some (sig, s) \<Rightarrow>
            let b = b\<lparr>vchBlockSig := sig\<rparr>
            in if hd_nVersion b \<ge> 5 then
                 (case Unserialize_sp junk1 junk2 s of None \<Rightarrow> None | Some (sp, s) \<Rightarrow> Some (b\<lparr>stakePointer := sp\<rparr>, s))
               else Some (b, s))
         else Some (b, s))"

text \<open>A locator: the version is skipped when hashing.\<close>

definition Serialize_locator :: "bool \<Rightarrow> int \<Rightarrow> base_uint list \<Rightarrow> bytes" where
  "Serialize_locator ser_gethash nVersion vHave =
     (if \<not> ser_gethash then Serialize_int 4 nVersion else []) @ Serialize_vector bu_Serialize vHave"

section \<open>Hashes\<close>

text \<open>
  The bytes of the object from \<open>nVersion\<close> to \<open>nNonce\<close> or to \<open>nAccumulatorCheckpoint\<close>, on a little-endian machine
  and with the layout of the class, which has no padding there.
\<close>

definition header_memory :: "'a CBlockHeader_scheme \<Rightarrow> bool \<Rightarrow> bytes" where
  "header_memory h to_accumulator = Serialize_int 4 (hd_nVersion h) @ bu_Serialize (hashPrevBlock h) @
     bu_Serialize (hashMerkleRoot h) @ Serialize_u32 (hd_nTime h) @ Serialize_u32 (hd_nBits h) @ Serialize_u32 (hd_nNonce h) @
     (if to_accumulator then bu_Serialize (nAccumulatorCheckpoint h) else [])"

definition header_GetHash :: "(bytes \<Rightarrow> base_uint) \<Rightarrow> (bytes \<Rightarrow> base_uint) \<Rightarrow> 'a CBlockHeader_scheme \<Rightarrow> base_uint" where
  "header_GetHash XEVAN Hash h =
     (if hd_nVersion h < 4 then XEVAN (header_memory h False) else Hash (header_memory h True))"

definition block_BuildMerkleTree :: "(bytes \<Rightarrow> base_uint) \<Rightarrow> CBlock \<Rightarrow> base_uint \<times> bool \<times> base_uint list" where
  "block_BuildMerkleTree Hash b =
     BuildMerkleTree (\<lambda>x y. Hash (bu_Serialize x @ bu_Serialize y)) (bu_zero WIDTH256) (map (tx_GetHash Hash) (vtx b))"

section \<open>Proof of stake\<close>

definition GetProofOfStake :: "CBlock \<Rightarrow> COutPoint \<times> u32" where
  "GetProofOfStake b =
     (if \<not> IsProofOfStake b then (outpoint_SetNull, 0)
      else if IsV5CoinStake (vtx b ! 1) then
        (\<lparr>op_hash = sp_txid (stakePointer b), op_n = sp_nPos (stakePointer b)\<rparr>, hd_nTime b)
      else (prevout (vin (vtx b ! 1) ! 0), hd_nTime b))"

text \<open>\<open>ToString\<close> of the 160-bit key identifier is a parameter (\<open>hex\<close>).\<close>

definition strStakePointerMsgMagic :: string where
  "strStakePointerMsgMagic = ''DarkNet Signed Message:'' @ [CHR 0x0A]"

definition Serialize_string :: "string \<Rightarrow> bytes" where
  "Serialize_string str = Serialize_bytes (map of_char str)"

definition CollateralSignOverHash :: "(bytes \<Rightarrow> base_uint) \<Rightarrow> (bytes \<Rightarrow> bytes) \<Rightarrow> (bytes \<Rightarrow> string) \<Rightarrow> bytes \<Rightarrow> base_uint" where
  "CollateralSignOverHash Hash GetID hex pubKeyPoS =
     Hash (Serialize_string strStakePointerMsgMagic @
           Serialize_string (''StakePointer sign-over:'' @ hex (GetID pubKeyPoS)))"

definition VerifyCollateralSignOver ::
  "(bytes \<Rightarrow> base_uint) \<Rightarrow> (bytes \<Rightarrow> bytes) \<Rightarrow> (bytes \<Rightarrow> string) \<Rightarrow> (bytes \<Rightarrow> base_uint \<Rightarrow> bytes \<Rightarrow> bool) \<Rightarrow> StakePointer \<Rightarrow> bool" where
  "VerifyCollateralSignOver Hash GetID hex Verify sp =
     Verify (pubKeyCollateral sp) (CollateralSignOverHash Hash GetID hex (pubKeyProofOfStake sp)) (vchSigCollateralSignOver sp)"

definition CreateCollateralSignOver ::
  "(bytes \<Rightarrow> base_uint) \<Rightarrow> (bytes \<Rightarrow> bytes) \<Rightarrow> (bytes \<Rightarrow> string) \<Rightarrow> ('k \<Rightarrow> base_uint \<Rightarrow> bytes option) \<Rightarrow> 'k \<Rightarrow> bytes \<Rightarrow> bytes option" where
  "CreateCollateralSignOver Hash GetID hex Sign keyCollateral pubKeyPoS =
     Sign keyCollateral (CollateralSignOverHash Hash GetID hex pubKeyPoS)"

section \<open>Block signatures\<close>

text \<open>The overload that takes a key.\<close>

definition CheckBlockSignature_key ::
  "(bytes \<Rightarrow> base_uint \<Rightarrow> bytes \<Rightarrow> bool) \<Rightarrow> (CBlock \<Rightarrow> base_uint) \<Rightarrow> bytes \<Rightarrow> CBlock \<Rightarrow> bool" where
  "CheckBlockSignature_key Verify GetHash pubkey b =
     (if \<not> CPubKey_IsValid pubkey then False
      else if vchBlockSig b = [] then False
      else Verify pubkey (GetHash b) (vchBlockSig b))"

definition CheckBlockSignature ::
  "(bytes \<Rightarrow> base_uint \<Rightarrow> bytes \<Rightarrow> bool) \<Rightarrow> (CBlock \<Rightarrow> base_uint) \<Rightarrow> CBlock \<Rightarrow> bool option" where
  "CheckBlockSignature Verify GetHash b =
     (if IsProofOfWork b then Some (vchBlockSig b = [])
      else if hd_nVersion b \<ge> 5 then
        (if \<not> CPubKey_IsValid (pubKeyProofOfStake (stakePointer b)) then Some False
         else Some (CheckBlockSignature_key Verify GetHash (pubKeyProofOfStake (stakePointer b)) b))
      else case Solver (scriptPubKey (vout (vtx b ! 1) ! 1)) of None \<Rightarrow> None
        | Some (ok, whichType, vSolutions) \<Rightarrow>
            if \<not> ok then Some False
            else if whichType = TX_PUBKEY then
              (let pubkey = CPubKey_Set (vSolutions ! 0)
               in if \<not> CPubKey_IsValid pubkey then Some False
                  else if vchBlockSig b = [] then Some False
                  else Some (Verify pubkey (GetHash b) (vchBlockSig b)))
            else if whichType = TX_PUBKEYHASH then
              (case bu_of_vector 5 (vSolutions ! 0) of None \<Rightarrow> None
               | Some keyID \<Rightarrow>
                  (let pubkey = CPubKey_Set (vSolutions ! 0)
                   in if \<not> CPubKey_IsValid pubkey then Some False
                      else if vchBlockSig b = [] then Some False
                      else Some (Verify pubkey (GetHash b) (vchBlockSig b))))
            else Some False)"

text \<open>
  \<open>SignBlock\<close>: its result and the block, whose signature is the one \<open>CKey::Sign\<close> wrote; when it fails the vector is
  left as it was.  The key store is asked for the bytes of the key's hash.
\<close>

definition sign_with ::
  "(bytes \<Rightarrow> 'k option) \<Rightarrow> ('k \<Rightarrow> base_uint \<Rightarrow> bytes option) \<Rightarrow> (CBlock \<Rightarrow> base_uint) \<Rightarrow> bytes \<Rightarrow> CBlock \<Rightarrow> bool \<times> CBlock" where
  "sign_with GetKey Sign GetHash keyID b =
     (case GetKey keyID of None \<Rightarrow> (False, b)
      | Some key \<Rightarrow> (case Sign key (GetHash b) of None \<Rightarrow> (False, b) | Some sig \<Rightarrow> (True, b\<lparr>vchBlockSig := sig\<rparr>)))"

fun sign_work_loop ::
  "(bytes \<Rightarrow> 'k option) \<Rightarrow> ('k \<Rightarrow> base_uint \<Rightarrow> bytes option) \<Rightarrow> (CBlock \<Rightarrow> base_uint) \<Rightarrow> CTxOut list \<Rightarrow> CBlock \<Rightarrow> (bool \<times> CBlock) option" where
  "sign_work_loop GetKey Sign GetHash [] b = Some (False, b)"
| "sign_work_loop GetKey Sign GetHash (txout # outs) b =
     (case Solver (scriptPubKey txout) of None \<Rightarrow> None
      | Some (ok, whichType, vSolutions) \<Rightarrow>
          if \<not> ok then sign_work_loop GetKey Sign GetHash outs b
          else if whichType = TX_PUBKEY then
            (case bu_of_vector 5 (vSolutions ! 0) of None \<Rightarrow> None
             | Some keyID \<Rightarrow> Some (sign_with GetKey Sign GetHash (bu_Serialize keyID) b))
          else sign_work_loop GetKey Sign GetHash outs b)"

definition SignBlock ::
  "(bytes \<Rightarrow> 'k option) \<Rightarrow> ('k \<Rightarrow> base_uint \<Rightarrow> bytes option) \<Rightarrow> (bytes \<Rightarrow> bytes) \<Rightarrow> (CBlock \<Rightarrow> base_uint) \<Rightarrow> CBlock \<Rightarrow>
     (bool \<times> CBlock) option" where
  "SignBlock GetKey Sign GetID GetHash b =
     (if \<not> IsProofOfStake b then
        (if vtx b = [] then None else sign_work_loop GetKey Sign GetHash (vout (vtx b ! 0)) b)
      else if hd_nVersion b \<ge> 5 then
        (if \<not> CPubKey_IsValid (pubKeyProofOfStake (stakePointer b)) then Some (False, b)
         else Some (sign_with GetKey Sign GetHash (GetID (pubKeyProofOfStake (stakePointer b))) b))
      else case Solver (scriptPubKey (vout (vtx b ! 1) ! 1)) of None \<Rightarrow> None
        | Some (ok, whichType, vSolutions) \<Rightarrow>
            if \<not> ok then Some (False, b)
            else if whichType = TX_PUBKEYHASH then
              (case bu_of_vector 5 (vSolutions ! 0) of None \<Rightarrow> None
               | Some keyID \<Rightarrow> Some (sign_with GetKey Sign GetHash (bu_Serialize keyID) b))
            else if whichType = TX_PUBKEY then
              Some (sign_with GetKey Sign GetHash (GetID (CPubKey_Set (vSolutions ! 0))) b)
            else Some (False, b))"

section \<open>Codecs\<close>

definition valid_header :: "'a CBlockHeader_scheme \<Rightarrow> bool" where
  "valid_header h \<longleftrightarrow> int32_min \<le> hd_nVersion h \<and> hd_nVersion h \<le> int32_max \<and> length (hashPrevBlock h) = WIDTH256 \<and>
     length (hashMerkleRoot h) = WIDTH256 \<and> length (nAccumulatorCheckpoint h) = WIDTH256 \<and>
     (hd_nVersion h \<le> 3 \<longrightarrow> nAccumulatorCheckpoint h = bu_zero WIDTH256)"

definition valid_pubkey :: "bytes \<Rightarrow> bool" where
  "valid_pubkey k \<longleftrightarrow> length k = CPubKey_size k"

definition valid_sp :: "StakePointer \<Rightarrow> bool" where
  "valid_sp sp \<longleftrightarrow> length (sp_hashBlock sp) = WIDTH256 \<and> length (sp_txid sp) = WIDTH256 \<and> valid_pubkey (pubKeyCollateral sp) \<and>
     valid_pubkey (pubKeyProofOfStake sp) \<and> length (vchSigCollateralSignOver sp) \<le> MAX_SIZE"

definition valid_block :: "CBlock \<Rightarrow> bool" where
  "valid_block b \<longleftrightarrow> valid_header b \<and> list_all valid_tx (vtx b) \<and> length (vtx b) \<le> MAX_SIZE \<and>
     (if IsProofOfStake b
      then length (vchBlockSig b) \<le> MAX_SIZE \<and>
        (if hd_nVersion b \<ge> 5 then valid_sp (stakePointer b) else stakePointer b = sp_SetNull)
      else vchBlockSig b = [] \<and> stakePointer b = sp_SetNull)"

interpretation header_codec: strict_codec Serialize_header Unserialize_header "valid_header :: CBlockHeader \<Rightarrow> bool"
proof
  fix x :: CBlockHeader and r s
  show "valid_header x \<Longrightarrow> Unserialize_header (Serialize_header x @ r) = Some (x, r)"
    by (simp add: valid_header_def Unserialize_header_def Serialize_header_def header_SetNull_def int32_codec.dec_enc
        uint256_codec.dec_enc u32_codec.dec_enc)
  show "Unserialize_header s = Some (x, r) \<Longrightarrow> s = Serialize_header x @ r \<and> valid_header x"
    by (auto simp: valid_header_def Unserialize_header_def Serialize_header_def header_SetNull_def base_dec_iffs
        split: option.splits if_splits)
qed

lemma pubkey_GetLen_cases: "pubkey_GetLen c = 0 \<or> pubkey_GetLen c = 33 \<or> pubkey_GetLen c = 65"
  by (simp add: pubkey_GetLen_def)

lemma CPubKey_size_le: "CPubKey_size k \<le> 65"
  using pubkey_GetLen_cases [of "k ! 0"] by (auto simp: CPubKey_size_def)

interpretation pubkey_codec: codec Serialize_pubkey "Unserialize_pubkey junk" valid_pubkey for junk
proof
  fix k r
  assume v: "valid_pubkey k"
  have "CPubKey_size k \<le> MAX_SIZE" using CPubKey_size_le [of k] by (simp add: MAX_SIZE_def)
  then have "ReadCompactSize (Serialize_pubkey k @ r) = Some (CPubKey_size k, k @ r)"
    using v by (simp add: Serialize_pubkey_def valid_pubkey_def compact_codec.dec_enc)
  then have read: "Unserialize_pubkey junk (Serialize_pubkey k @ r) =
      Some (let vch = k @ drop (CPubKey_size k) (0xFF # junk) in take (pubkey_GetLen (hd vch)) vch, r)"
    using v CPubKey_size_le [of k] unfolding Unserialize_pubkey_def by (simp add: valid_pubkey_def Let_def)
  show "Unserialize_pubkey junk (Serialize_pubkey k @ r) = Some (k, r)"
  proof (cases k)
    case Nil
    then show ?thesis using read by (simp add: CPubKey_size_def pubkey_GetLen_def)
  next
    case (Cons c ks)
    then have "pubkey_GetLen (hd (k @ x)) = length k" for x using v by (simp add: valid_pubkey_def CPubKey_size_def)
    then show ?thesis using read by (simp add: Let_def del: hd_append)
  qed
qed

interpretation sp_codec: codec Serialize_sp "Unserialize_sp junk1 junk2" valid_sp for junk1 junk2
proof
  show "valid_sp sp \<Longrightarrow> Unserialize_sp junk1 junk2 (Serialize_sp sp @ r) = Some (sp, r)" for sp r
    by (simp add: valid_sp_def Unserialize_sp_def Serialize_sp_def uint256_codec.dec_enc u32_codec.dec_enc
        pubkey_codec.dec_enc bytes_codec.dec_enc)
qed

interpretation txs_codec: strict_codec "Serialize_vector Serialize_tx" "Unserialize_vector Unserialize_tx"
  "\<lambda>xs. list_all valid_tx xs \<and> length xs \<le> MAX_SIZE"
  by (rule tx_codec.strict_vector)

lemma Serialize_header_GetBlockHeader [simp]: "Serialize_header (GetBlockHeader b) = Serialize_header b"
  by (simp add: Serialize_header_def GetBlockHeader_def)

lemma valid_header_GetBlockHeader [simp]: "valid_header (GetBlockHeader b) = valid_header b"
  by (simp add: valid_header_def GetBlockHeader_def)

lemma block_of_header_simps [simp]:
  "hd_nVersion (block_of_header h) = hd_nVersion h" "vtx (block_of_header h) = []" "vchBlockSig (block_of_header h) = []"
  "stakePointer (block_of_header h) = sp_SetNull" "GetBlockHeader (block_of_header h) = h"
  by (simp_all add: block_of_header_def CBlockHeader.extend_def GetBlockHeader_def)

lemma block_rebuild:
  "(block_of_header (GetBlockHeader b))\<lparr>vtx := vtx b, vchBlockSig := vchBlockSig b, stakePointer := stakePointer b\<rparr> = b"
  by (simp add: block_of_header_def GetBlockHeader_def CBlockHeader.extend_def)

lemma block_rebuild_null:
  "stakePointer b = sp_SetNull \<Longrightarrow> (block_of_header (GetBlockHeader b))\<lparr>vtx := vtx b, vchBlockSig := vchBlockSig b\<rparr> = b"
  "stakePointer b = sp_SetNull \<Longrightarrow> vchBlockSig b = [] \<Longrightarrow> (block_of_header (GetBlockHeader b))\<lparr>vtx := vtx b\<rparr> = b"
  by (simp_all add: block_of_header_def GetBlockHeader_def CBlockHeader.extend_def)

lemma hd_nVersion_GetBlockHeader [simp]: "hd_nVersion (GetBlockHeader b) = hd_nVersion b"
  by (simp add: GetBlockHeader_def)

lemma Unserialize_block_prefix:
  assumes "valid_block b"
  shows "Unserialize_header (Serialize_header b @ s) = Some (GetBlockHeader b, s)"
    "Unserialize_vector Unserialize_tx (Serialize_vector Serialize_tx (vtx b) @ s) = Some (vtx b, s)"
  using header_codec.dec_enc [of "GetBlockHeader b" s] txs_codec.dec_enc [of "vtx b" s] assms
  by (simp_all add: valid_block_def)

interpretation block_codec: codec Serialize_block "Unserialize_block junk1 junk2" valid_block for junk1 junk2
proof
  fix b r
  assume v: "valid_block b"
  note prefix = Unserialize_block_prefix [OF v]
  have cond: "(1 < length (vtx b) \<and> IsCoinStake (vtx b ! 1)) = IsProofOfStake b" by (simp add: IsProofOfStake_def)
  show "Unserialize_block junk1 junk2 (Serialize_block b @ r) = Some (b, r)"
  proof (cases "IsProofOfStake b")
    case True
    with v show ?thesis unfolding Unserialize_block_def Serialize_block_def cond append_assoc prefix prod.case option.case
      by (simp add: cond [simplified] valid_block_def bytes_codec.dec_enc sp_codec.dec_enc block_rebuild block_rebuild_null
          Let_def)
  next
    case False
    with v show ?thesis unfolding Unserialize_block_def Serialize_block_def cond append_assoc prefix prod.case option.case
      by (simp add: cond [simplified] valid_block_def block_rebuild_null Let_def)
  qed
qed

section \<open>The block hash\<close>

lemma header_memory_Serialize:
  "hd_nVersion h < 4 \<Longrightarrow> header_memory h False = Serialize_header h"
  "\<not> hd_nVersion h < 4 \<Longrightarrow> header_memory h True = Serialize_header h"
  by (simp_all add: header_memory_def Serialize_header_def)

lemma header_GetHash_alt:
  "header_GetHash XEVAN Hash h = (if hd_nVersion h < 4 then XEVAN (Serialize_header h) else Hash (Serialize_header h))"
  by (simp add: header_GetHash_def header_memory_Serialize)

lemma header_GetHash_sig [simp]:
  "header_GetHash XEVAN Hash (b\<lparr>vchBlockSig := sig\<rparr>) = header_GetHash XEVAN Hash b"
  by (simp add: header_GetHash_def header_memory_def)

section \<open>Solutions of \<open>Solver\<close>\<close>

lemma match_loop_SomeE:
  assumes "match_loop pc (b # r) sols = Some sols'" "OP_PUSHDATA4 < unat b" "unat b \<noteq> OP_PUBKEYS"
  obtains o1 v1 pc' s where "match_op o1 v1 (unat b) [] sols = Some s" "match_loop pc' r s = Some sols'"
  using assms GetOp2_plain [OF assms(2), of r]
  by (simp add: match_loop.simps [of pc] split: prod.splits if_splits option.splits)

lemma match_loop_NilE: "match_loop pc [] sols = Some sols' \<Longrightarrow> sols' = sols"
  by (simp add: match_loop.simps [of pc] GetOp2_def split: prod.splits if_splits)

lemma match_op_plain:
  "match_op o1 v1 OP_CHECKSIG [] sols = Some s \<Longrightarrow> s = sols" "match_op o1 v1 OP_DUP [] sols = Some s \<Longrightarrow> s = sols"
  "match_op o1 v1 OP_HASH160 [] sols = Some s \<Longrightarrow> s = sols" "match_op o1 v1 OP_EQUALVERIFY [] sols = Some s \<Longrightarrow> s = sols"
  by (simp_all add: match_op_def split: if_splits)

lemma match_PUBKEY:
  assumes "match_loop s tplate_PUBKEY [] = Some sols"
  shows "\<exists>k. sols = [k] \<and> 33 \<le> length k \<and> length k \<le> 65"
proof -
  from assms obtain o1 v1 p1 s1 where 1: "match_op o1 v1 OP_PUBKEY [] [] = Some s1" "match_loop p1 [of_nat OP_CHECKSIG] s1 = Some sols"
    unfolding tplate_PUBKEY_def by (rule match_loop_SomeE) simp_all
  from 1(2) obtain o2 v2 p2 s2 where 2: "match_op o2 v2 OP_CHECKSIG [] s1 = Some s2" "match_loop p2 [] s2 = Some sols"
    by (rule match_loop_SomeE) simp_all
  from 1(1) 2 show ?thesis by (auto simp: match_op_def split: if_splits dest!: match_loop_NilE)
qed

lemma match_PUBKEYHASH:
  assumes "match_loop s tplate_PUBKEYHASH [] = Some sols"
  shows "\<exists>h. sols = [h] \<and> length h = 20"
proof -
  from assms obtain o1 v1 p1 s1 where 1: "match_op o1 v1 OP_DUP [] [] = Some s1"
      "match_loop p1 [of_nat OP_HASH160, of_nat OP_PUBKEYHASH, of_nat OP_EQUALVERIFY, of_nat OP_CHECKSIG] s1 = Some sols"
    unfolding tplate_PUBKEYHASH_def by (rule match_loop_SomeE) simp_all
  from 1(2) obtain o2 v2 p2 s2 where 2: "match_op o2 v2 OP_HASH160 [] s1 = Some s2"
      "match_loop p2 [of_nat OP_PUBKEYHASH, of_nat OP_EQUALVERIFY, of_nat OP_CHECKSIG] s2 = Some sols"
    by (rule match_loop_SomeE) simp_all
  from 2(2) obtain o3 v3 p3 s3 where 3: "match_op o3 v3 OP_PUBKEYHASH [] s2 = Some s3"
      "match_loop p3 [of_nat OP_EQUALVERIFY, of_nat OP_CHECKSIG] s3 = Some sols"
    by (rule match_loop_SomeE) simp_all
  from 3(2) obtain o4 v4 p4 s4 where 4: "match_op o4 v4 OP_EQUALVERIFY [] s3 = Some s4" "match_loop p4 [of_nat OP_CHECKSIG] s4 = Some sols"
    by (rule match_loop_SomeE) simp_all
  from 4(2) obtain o5 v5 p5 s5 where 5: "match_op o5 v5 OP_CHECKSIG [] s4 = Some s5" "match_loop p5 [] s5 = Some sols"
    by (rule match_loop_SomeE) simp_all
  have "s1 = []" "s2 = []" "sols = s3" using 1(1) 2(1) 4(1) 5 by (auto dest: match_op_plain match_loop_NilE)
  with 3(1) show ?thesis by (auto simp: match_op_def split: if_splits)
qed

lemma Solver_scan:
  "Solver s = Some (ok, ty, sols) \<Longrightarrow> ty = TX_PUBKEY \<or> ty = TX_PUBKEYHASH \<Longrightarrow> scan_templates s mTemplates = (ok, ty, sols)"
  by (auto simp: Solver_def split: if_splits)

lemma Solver_PUBKEY: "Solver s = Some (ok, TX_PUBKEY, sols) \<Longrightarrow> ok \<and> (\<exists>k. sols = [k] \<and> 33 \<le> length k \<and> length k \<le> 65)"
  by (drule Solver_scan) (auto simp: mTemplates_def match_accept_def split: option.splits dest: match_PUBKEY)

lemma Solver_PUBKEYHASH: "Solver s = Some (ok, TX_PUBKEYHASH, sols) \<Longrightarrow> ok \<and> (\<exists>h. sols = [h] \<and> length h = 20)"
  by (drule Solver_scan) (auto simp: mTemplates_def match_accept_def split: option.splits dest: match_PUBKEYHASH)

section \<open>Signing and checking\<close>

lemma sign_work_loop_never: "sign_work_loop GetKey Sign GetHash outs b \<noteq> Some (True, b')"
proof (induction outs)
  case (Cons out outs)
  have "bu_of_vector 5 (sols ! 0) = None" if "Solver (scriptPubKey out) = Some (ok, TX_PUBKEY, sols)" for ok sols
    using Solver_PUBKEY [OF that] by (auto simp: bu_of_vector_def)
  with Cons show ?case by (auto split: option.splits)
qed simp

lemma CPubKey_20_invalid: "length h = 20 \<Longrightarrow> \<not> CPubKey_IsValid (CPubKey_Set h)"
  using pubkey_GetLen_cases [of "h ! 0"] by (auto simp: CPubKey_IsValid_def CPubKey_Set_def CPubKey_size_def Let_def)

lemma CheckBlockSignature_legacy_hash:
  assumes "IsProofOfStake b" "hd_nVersion b < 5" "Solver (scriptPubKey (vout (vtx b ! 1) ! 1)) = Some (ok, TX_PUBKEYHASH, sols)"
  shows "CheckBlockSignature Verify GetHash b = Some False"
  using assms Solver_PUBKEYHASH [OF assms(3)] CPubKey_20_invalid
  by (auto simp: CheckBlockSignature_def IsProofOfWork_def bu_of_vector_def)

lemma sign_with_True:
  "sign_with GetKey Sign GetHash kid b = (True, b') \<longleftrightarrow>
   (\<exists>k sig. GetKey kid = Some k \<and> Sign k (GetHash b) = Some sig \<and> b' = b\<lparr>vchBlockSig := sig\<rparr>)"
  by (auto simp: sign_with_def split: option.splits)

lemma IsProofOfStake_sig [simp]: "IsProofOfStake (b\<lparr>vchBlockSig := sig\<rparr>) = IsProofOfStake b"
  by (simp add: IsProofOfStake_def)

section \<open>Properties\<close>

text \<open>
  C14: a block that is within the limits of the format, and whose fields that its version and kind leave out are null, is
  read back from its serialization in front of any bytes, whatever the unset bytes of the public key buffers.
\<close>

theorem block_roundtrip:
  assumes "valid_block b"
  shows "Unserialize_block junk1 junk2 (Serialize_block b @ r) = Some (b, r)"
  by (rule block_codec.dec_enc [OF assms])

definition sample_tx :: CTransaction where
  "sample_tx = \<lparr>tx_nVersion = 1, vin = [new_CTxIn (outpoint_SetNull\<lparr>op_n := 7\<rparr>) [] 0],
     vout = [new_CTxOut 0 [], new_CTxOut 50 [1]], tx_nLockTime = 0\<rparr>"

definition sample_block :: CBlock where
  "sample_block = block_SetNull\<lparr>vtx := [sample_tx, sample_tx], vchBlockSig := [1, 2],
     stakePointer := sp_SetNull\<lparr>pubKeyProofOfStake := 2 # replicate 32 7\<rparr>\<rparr>"

theorem block_roundtrip_witness:
  "IsProofOfStake sample_block \<and> Unserialize_block [] [] (Serialize_block sample_block @ [9]) = Some (sample_block, [9])"
  using block_roundtrip [of sample_block "[]" "[]" "[9]"]
  by (simp add: valid_block_def valid_header_def valid_sp_def valid_pubkey_def valid_tx_def valid_txin_def valid_txout_def
      valid_outpoint_def sample_block_def sample_tx_def block_SetNull_def header_SetNull_def sp_SetNull_def IsProofOfStake_def
      IsCoinStake_def outpoint_SetNull_def outpoint_IsNull_def new_CTxIn_def new_CTxOut_def txout_IsEmpty_def MAX_SIZE_def
      CPubKey_size_def pubkey_GetLen_def block_of_header_def CBlockHeader.extend_def)

text \<open>
  The block hash commits to the header: the bytes that \<open>GetHash\<close> feeds to its hash functions are the header's
  serialization, so with collision-free hash functions of disjoint ranges two valid headers with one hash are equal.
\<close>

theorem header_hash_commits:
  assumes "inj XEVAN" "inj Hash" "\<And>x y. XEVAN x \<noteq> Hash y" "valid_header (h1 :: CBlockHeader)" "valid_header h2"
  shows "header_GetHash XEVAN Hash h1 = header_GetHash XEVAN Hash h2 \<longleftrightarrow> h1 = h2"
proof
  assume eq: "header_GetHash XEVAN Hash h1 = header_GetHash XEVAN Hash h2"
  then have "Serialize_header h1 = Serialize_header h2"
    using assms(1-3) assms(3) [THEN not_sym] by (auto simp: header_GetHash_alt dest: injD split: if_splits)
  then show "h1 = h2" using header_codec.enc_inj [OF assms(4,5)] by blast
qed simp

theorem header_hash_commits_witness:
  "header_GetHash (\<lambda>x. 0 # map ucast x) (\<lambda>x. 1 # map ucast x) header_SetNull \<noteq>
   header_GetHash (\<lambda>x. 0 # map ucast x) (\<lambda>x. 1 # map ucast x) (header_SetNull\<lparr>hd_nNonce := 1\<rparr>)"
proof -
  have "inj (ucast :: byte \<Rightarrow> u32)" by (rule injI) (metis unat_ucast_byte unsigned_word_eqI)
  then have inj: "inj (\<lambda>x :: bytes. c # map ucast x :: u32 list)" for c
    by (intro injI) (auto simp: inj_map_eq_map)
  show ?thesis
    using header_hash_commits [OF inj inj, of 0 1 header_SetNull "header_SetNull\<lparr>hd_nNonce := 1\<rparr>"]
    by (simp add: valid_header_def header_SetNull_def)
qed

text \<open>
  Signing against checking.  With a key store that returns the private key of the public key whose identifier it is
  asked for, and signatures that verify, a block that \<open>SignBlock\<close> reports as signed passes \<open>CheckBlockSignature\<close> exactly
  when its version is at least five or its coinstake pays to a public key: a version-4 stake that pays to a key hash is
  signed but never accepted, and a proof-of-work block is never signed.
\<close>

theorem signed_block_check:
  assumes "\<And>k h sig. Sign k h = Some sig \<Longrightarrow> sig \<noteq> [] \<and> Verify (pub k) h sig"
    and "\<And>p k. GetKey (GetID p) = Some k \<Longrightarrow> pub k = p \<and> CPubKey_IsValid p"
    and "SignBlock GetKey Sign GetID (header_GetHash XEVAN Hash) b = Some (True, b')"
  shows "IsProofOfStake b \<and>
    CheckBlockSignature Verify (header_GetHash XEVAN Hash) b' =
      Some (hd_nVersion b \<ge> 5 \<or> (\<exists>k. Solver (scriptPubKey (vout (vtx b ! 1) ! 1)) = Some (True, TX_PUBKEY, [k])))"
proof -
  have pos: "IsProofOfStake b" using assms(3)
    by (auto simp: SignBlock_def sign_work_loop_never split: if_splits)
  have signs: "GetKey (GetID p) = Some k \<Longrightarrow> Sign k h = Some sig \<Longrightarrow> Verify p h sig \<and> sig \<noteq> [] \<and> CPubKey_IsValid p" for p k h sig
    using assms(1) [of k h sig] assms(2) [of p k] by auto
  show ?thesis
  proof (cases "hd_nVersion b \<ge> 5")
    case True
    with assms(3) pos show ?thesis
      by (auto dest: signs simp: SignBlock_def sign_with_True CheckBlockSignature_def IsProofOfWork_def CheckBlockSignature_key_def split: if_splits)
  next
    case False
    then obtain ok ty sols where S: "Solver (scriptPubKey (vout (vtx b ! 1) ! 1)) = Some (ok, ty, sols)"
      using assms(3) pos by (auto simp: SignBlock_def split: option.splits)
    have "ok" "ty = TX_PUBKEY \<or> ty = TX_PUBKEYHASH" using assms(3) pos False S by (auto simp: SignBlock_def split: if_splits)
    then show ?thesis
    proof (elim disjE)
      assume ty: "ty = TX_PUBKEY"
      then obtain k where "sols = [k]" using Solver_PUBKEY S by blast
      then obtain kk sig where k: "GetKey (GetID (CPubKey_Set k)) = Some kk" "Sign kk (header_GetHash XEVAN Hash b) = Some sig"
          "b' = b\<lparr>vchBlockSig := sig\<rparr>"
        using assms(3) pos False S ty \<open>ok\<close> by (auto simp: SignBlock_def sign_with_True)
      with pos False S ty \<open>ok\<close> \<open>sols = [k]\<close> signs [OF k(1,2)] show ?thesis
        by (simp add: CheckBlockSignature_def IsProofOfWork_def Let_def)
    next
      assume ty: "ty = TX_PUBKEYHASH"
      then obtain sig where "b' = b\<lparr>vchBlockSig := sig\<rparr>"
        using assms(3) pos False S by (auto simp: SignBlock_def sign_with_True split: option.splits if_splits)
      with pos False S ty show ?thesis using CheckBlockSignature_legacy_hash [of b' ok sols Verify]
        by auto
    qed
  qed
qed

theorem signed_block_check_witness:
  "\<exists>b'. SignBlock (\<lambda>i. if i = 2 # replicate 32 7 then Some () else None) (\<lambda>k h. Some [1]) id
      (header_GetHash (map ucast) (map ucast)) sample_block = Some (True, b') \<and>
    CheckBlockSignature (\<lambda>p h s. p = 2 # replicate 32 7) (header_GetHash (map ucast) (map ucast)) b' = Some True"
proof -
  have ver: "hd_nVersion sample_block = 5" "pubKeyProofOfStake (stakePointer sample_block) = 2 # replicate 32 7"
    by (simp_all add: sample_block_def block_SetNull_def header_SetNull_def)
  have pos: "IsProofOfStake sample_block"
    by (simp add: sample_block_def sample_tx_def IsProofOfStake_def IsCoinStake_def outpoint_SetNull_def outpoint_IsNull_def
        new_CTxIn_def new_CTxOut_def txout_IsEmpty_def bu_zero_def)
  have key: "CPubKey_IsValid (2 # replicate 32 7)" by (simp add: CPubKey_IsValid_def CPubKey_size_def pubkey_GetLen_def)
  have s: "SignBlock (\<lambda>i. if i = 2 # replicate 32 7 then Some () else None) (\<lambda>k h. Some [1]) id
      (header_GetHash (map ucast) (map ucast)) sample_block = Some (True, sample_block\<lparr>vchBlockSig := [1]\<rparr>)"
    using pos key by (simp add: SignBlock_def ver sign_with_def)
  have store: "() = k \<Longrightarrow> (if p = 2 # replicate 32 7 then Some () else None) = Some k \<Longrightarrow>
      2 # replicate 32 7 = p \<and> CPubKey_IsValid p" for p k
    using key by (auto split: if_splits)
  show ?thesis
    using signed_block_check [of "\<lambda>k h. Some [1]" "\<lambda>p h s. p = 2 # replicate 32 7" "\<lambda>_. 2 # replicate 32 7"
        "\<lambda>i. if i = 2 # replicate 32 7 then Some () else None" id, OF _ _ s] store s ver
    by simp
qed

end
