(* ===== verification/Chain.thy ===== *)
theory Chain
  imports Block
begin

text \<open>
  The block index and the active chain (\<open>src/chain.h\<close>, \<open>src/chain.cpp\<close> and the skip list of \<open>src/main.cpp\<close>).

  A pointer to a \<open>CBlockIndex\<close> is the hash under which \<open>mapBlockIndex\<close> owns it (\<open>phashBlock\<close> points at that key), so
  the heap of the code is the map from hashes to records and \<open>NULL\<close> is \<open>None\<close>.  Entries are never removed while
  the node runs; where a function dereferences a null pointer or a hash that is not in the map its result is
  \<open>None\<close>.  Loops that follow \<open>pprev\<close> until they are stopped by data are \<open>partial_function\<close>s, for which \<open>None\<close> is
  also not returning.  Heights in loops are natural numbers.
\<close>

section \<open>Positions and status bits\<close>

record CDiskBlockPos =
  dp_nFile :: int
  dp_nPos :: u32

definition diskpos_SetNull :: CDiskBlockPos where
  "diskpos_SetNull = \<lparr>dp_nFile = - 1, dp_nPos = 0\<rparr>"

definition diskpos_IsNull :: "CDiskBlockPos \<Rightarrow> bool" where
  "diskpos_IsNull p \<longleftrightarrow> dp_nFile p = - 1"

text \<open>\<open>VARINT\<close> of an \<open>int\<close>: the loop of \<open>WriteVarInt\<close> stops at once on a negative value.\<close>

definition WriteVarInt_int :: "int \<Rightarrow> bytes" where
  "WriteVarInt_int n = (if n < 0 then [of_int (n mod 128)] else WriteVarInt (nat n))"

definition ReadVarInt_int :: "bytes \<Rightarrow> (int \<times> bytes) option" where
  "ReadVarInt_int s = map_option (\<lambda>(n, s). (if n < 2 ^ 31 then int n else int n - 2 ^ 32, s)) (ReadVarInt 32 0 s)"

definition WriteVarInt_u32 :: "u32 \<Rightarrow> bytes" where
  "WriteVarInt_u32 n = WriteVarInt (unat n)"

definition ReadVarInt_u32 :: "bytes \<Rightarrow> (u32 \<times> bytes) option" where
  "ReadVarInt_u32 s = map_option (\<lambda>(n, s). (of_nat n, s)) (ReadVarInt 32 0 s)"

definition Serialize_diskpos :: "CDiskBlockPos \<Rightarrow> bytes" where
  "Serialize_diskpos p = WriteVarInt_int (dp_nFile p) @ WriteVarInt_u32 (dp_nPos p)"

definition Unserialize_diskpos :: "bytes \<Rightarrow> (CDiskBlockPos \<times> bytes) option" where
  "Unserialize_diskpos s =
     (case ReadVarInt_int s of None \<Rightarrow> None | Some (f, s) \<Rightarrow>
      case ReadVarInt_u32 s of None \<Rightarrow> None | Some (n, s) \<Rightarrow> Some (\<lparr>dp_nFile = f, dp_nPos = n\<rparr>, s))"

definition BLOCK_VALID_HEADER :: u32 where "BLOCK_VALID_HEADER = 1"
definition BLOCK_VALID_TREE :: u32 where "BLOCK_VALID_TREE = 2"
definition BLOCK_VALID_TRANSACTIONS :: u32 where "BLOCK_VALID_TRANSACTIONS = 3"
definition BLOCK_VALID_CHAIN :: u32 where "BLOCK_VALID_CHAIN = 4"
definition BLOCK_VALID_SCRIPTS :: u32 where "BLOCK_VALID_SCRIPTS = 5"
definition BLOCK_HAVE_DATA :: u32 where "BLOCK_HAVE_DATA = 8"
definition BLOCK_HAVE_UNDO :: u32 where "BLOCK_HAVE_UNDO = 16"
definition BLOCK_FAILED_VALID :: u32 where "BLOCK_FAILED_VALID = 32"
definition BLOCK_FAILED_CHILD :: u32 where "BLOCK_FAILED_CHILD = 64"

definition BLOCK_VALID_MASK :: u32 where
  "BLOCK_VALID_MASK = BLOCK_VALID_HEADER OR BLOCK_VALID_TREE OR BLOCK_VALID_TRANSACTIONS OR BLOCK_VALID_CHAIN OR BLOCK_VALID_SCRIPTS"

definition BLOCK_FAILED_MASK :: u32 where
  "BLOCK_FAILED_MASK = BLOCK_FAILED_VALID OR BLOCK_FAILED_CHILD"

definition BLOCK_PROOF_OF_STAKE :: u32 where "BLOCK_PROOF_OF_STAKE = 1"
definition BLOCK_STAKE_ENTROPY :: u32 where "BLOCK_STAKE_ENTROPY = 2"
definition BLOCK_STAKE_MODIFIER :: u32 where "BLOCK_STAKE_MODIFIER = 4"

lemmas block_flag_defs = BLOCK_VALID_HEADER_def BLOCK_VALID_TREE_def BLOCK_VALID_TRANSACTIONS_def BLOCK_VALID_CHAIN_def
  BLOCK_VALID_SCRIPTS_def BLOCK_HAVE_DATA_def BLOCK_HAVE_UNDO_def BLOCK_FAILED_VALID_def BLOCK_FAILED_CHILD_def
  BLOCK_VALID_MASK_def BLOCK_FAILED_MASK_def BLOCK_PROOF_OF_STAKE_def BLOCK_STAKE_ENTROPY_def BLOCK_STAKE_MODIFIER_def

section \<open>The block index entry\<close>

type_synonym bid = base_uint

record CBlockIndex =
  phashBlock :: bid
  pprev :: "bid option"
  pnext :: "bid option"
  pskip :: "bid option"
  bnChainTrust :: base_uint
  nHeight :: int
  bi_nFile :: int
  nDataPos :: u32
  nUndoPos :: u32
  nChainWork :: base_uint
  nTx :: u32
  nChainTx :: u32
  nStatus :: u32
  nFlags :: u32
  nStakeModifier :: u64
  nStakeModifierChecksum :: u32
  prevoutStake :: COutPoint
  nStakeTime :: u32
  hashProofOfStake :: base_uint
  nMint :: int
  nMoneySupply :: int
  bi_nVersion :: int
  bi_hashMerkleRoot :: base_uint
  bi_nTime :: u32
  bi_nBits :: u32
  bi_nNonce :: u32
  bi_nAccumulatorCheckpoint :: base_uint
  nSequenceId :: u32
  mapZerocoinSupply :: "(int \<times> int) list"
  vMintDenominationsInBlock :: "int list"

type_synonym block_map = "bid \<Rightarrow> CBlockIndex option"

text \<open>
  \<open>CBlockIndex(block)\<close>.  \<open>SetNull\<close> does not set \<open>pnext\<close>; the constructor leaves it unset and the model has it null.
  The hash under which the entry is stored is an argument.
\<close>

definition new_CBlockIndex :: "bid \<Rightarrow> CBlock \<Rightarrow> CBlockIndex" where
  "new_CBlockIndex hash block =
     \<lparr>phashBlock = hash, pprev = None, pnext = None, pskip = None, bnChainTrust = bu_zero WIDTH256, nHeight = 0, bi_nFile = 0,
      nDataPos = 0, nUndoPos = 0, nChainWork = bu_zero WIDTH256, nTx = 0, nChainTx = 0, nStatus = 0,
      nFlags = (if IsProofOfStake block then BLOCK_PROOF_OF_STAKE else 0), nStakeModifier = 0, nStakeModifierChecksum = 0,
      prevoutStake = (if IsProofOfStake block then fst (GetProofOfStake block) else outpoint_SetNull),
      nStakeTime = (if IsProofOfStake block then hd_nTime block else 0),
      hashProofOfStake = bu_zero WIDTH256, nMint = 0, nMoneySupply = 0, bi_nVersion = hd_nVersion block,
      bi_hashMerkleRoot = hashMerkleRoot block, bi_nTime = hd_nTime block, bi_nBits = hd_nBits block, bi_nNonce = hd_nNonce block,
      bi_nAccumulatorCheckpoint = (if hd_nVersion block > 3 then nAccumulatorCheckpoint block else bu_zero WIDTH256),
      nSequenceId = 0, mapZerocoinSupply = [], vMintDenominationsInBlock = []\<rparr>"

definition GetBlockPos :: "CBlockIndex \<Rightarrow> CDiskBlockPos" where
  "GetBlockPos bi = (if nStatus bi AND BLOCK_HAVE_DATA \<noteq> 0 then \<lparr>dp_nFile = bi_nFile bi, dp_nPos = nDataPos bi\<rparr> else diskpos_SetNull)"

definition GetUndoPos :: "CBlockIndex \<Rightarrow> CDiskBlockPos" where
  "GetUndoPos bi = (if nStatus bi AND BLOCK_HAVE_UNDO \<noteq> 0 then \<lparr>dp_nFile = bi_nFile bi, dp_nPos = nUndoPos bi\<rparr> else diskpos_SetNull)"

definition bi_GetBlockHeader :: "CBlockIndex \<Rightarrow> CBlockHeader" where
  "bi_GetBlockHeader bi = \<lparr>hd_nVersion = bi_nVersion bi,
     hashPrevBlock = (case pprev bi of None \<Rightarrow> bu_zero WIDTH256 | Some p \<Rightarrow> p), hashMerkleRoot = bi_hashMerkleRoot bi,
     hd_nTime = bi_nTime bi, hd_nBits = bi_nBits bi, hd_nNonce = bi_nNonce bi,
     nAccumulatorCheckpoint = bi_nAccumulatorCheckpoint bi\<rparr>"

definition bi_GetBlockTime :: "CBlockIndex \<Rightarrow> int" where
  "bi_GetBlockTime bi = int (unat (bi_nTime bi))"

definition nMedianTimeSpan :: nat where
  "nMedianTimeSpan = 11"

fun median_times :: "block_map \<Rightarrow> nat \<Rightarrow> bid option \<Rightarrow> int list" where
  "median_times m 0 pindex = []"
| "median_times m (Suc i) None = []"
| "median_times m (Suc i) (Some p) =
     (case m p of None \<Rightarrow> [] | Some bi \<Rightarrow> bi_GetBlockTime bi # median_times m i (pprev bi))"

definition GetMedianTimePast :: "block_map \<Rightarrow> bid \<Rightarrow> int" where
  "GetMedianTimePast m p = (let times = sort (median_times m nMedianTimeSpan (Some p)) in times ! (length times div 2))"

definition bi_IsProofOfStake :: "CBlockIndex \<Rightarrow> bool" where
  "bi_IsProofOfStake bi \<longleftrightarrow> nFlags bi AND BLOCK_PROOF_OF_STAKE \<noteq> 0"

definition SetProofOfStake :: "CBlockIndex \<Rightarrow> CBlockIndex" where
  "SetProofOfStake bi = bi\<lparr>nFlags := nFlags bi OR BLOCK_PROOF_OF_STAKE\<rparr>"

definition GetStakeEntropyBit :: "CBlockIndex \<Rightarrow> u32" where
  "GetStakeEntropyBit bi = ucast (bu_Get64 (phashBlock bi) 0 AND 1)"

definition SetStakeEntropyBit :: "u32 \<Rightarrow> CBlockIndex \<Rightarrow> bool \<times> CBlockIndex" where
  "SetStakeEntropyBit nEntropyBit bi =
     (if nEntropyBit > 1 then (False, bi)
      else (True, bi\<lparr>nFlags := nFlags bi OR (if nEntropyBit \<noteq> 0 then BLOCK_STAKE_ENTROPY else 0)\<rparr>))"

definition GeneratedStakeModifier :: "CBlockIndex \<Rightarrow> bool" where
  "GeneratedStakeModifier bi \<longleftrightarrow> nFlags bi AND BLOCK_STAKE_MODIFIER \<noteq> 0"

definition SetStakeModifier :: "u64 \<Rightarrow> bool \<Rightarrow> CBlockIndex \<Rightarrow> CBlockIndex" where
  "SetStakeModifier nModifier fGeneratedStakeModifier bi =
     bi\<lparr>nStakeModifier := nModifier,
        nFlags := (if fGeneratedStakeModifier then nFlags bi OR BLOCK_STAKE_MODIFIER else nFlags bi)\<rparr>"

text \<open>The \<open>assert\<close> on \<open>nUpTo\<close> is \<open>None\<close>.\<close>

definition bi_IsValid :: "u32 \<Rightarrow> CBlockIndex \<Rightarrow> bool option" where
  "bi_IsValid nUpTo bi =
     (if nUpTo AND NOT BLOCK_VALID_MASK \<noteq> 0 then None
      else if nStatus bi AND BLOCK_FAILED_MASK \<noteq> 0 then Some False
      else Some (nStatus bi AND BLOCK_VALID_MASK \<ge> nUpTo))"

definition RaiseValidity :: "u32 \<Rightarrow> CBlockIndex \<Rightarrow> (bool \<times> CBlockIndex) option" where
  "RaiseValidity nUpTo bi =
     (if nUpTo AND NOT BLOCK_VALID_MASK \<noteq> 0 then None
      else if nStatus bi AND BLOCK_FAILED_MASK \<noteq> 0 then Some (False, bi)
      else if nStatus bi AND BLOCK_VALID_MASK < nUpTo
      then Some (True, bi\<lparr>nStatus := (nStatus bi AND NOT BLOCK_VALID_MASK) OR nUpTo\<rparr>)
      else Some (False, bi))"

section \<open>Trust\<close>

text \<open>\<open>None\<close> is the exception of a division by zero.\<close>

definition GetBlockTrust :: "CBlockIndex \<Rightarrow> base_uint option" where
  "GetBlockTrust bi =
     (let bnTarget = fst (SetCompact (bi_nBits bi))
      in if bu_CompareTo bnTarget (bu_zero WIDTH256) \<le> 0 then Some (bu_zero WIDTH256)
         else if bi_IsProofOfStake bi then
           bu_div (bu_shl (bu_of_uint64 WIDTH256 1) 256) (bu_add_u64 bnTarget 1)
         else case bu_div (bu_shr (bu_not (bu_zero WIDTH256)) 20) (bu_add_u64 bnTarget 1) of
             None \<Rightarrow> None
           | Some bnPoWTrust \<Rightarrow>
               Some (if bu_CompareTo bnPoWTrust (bu_of_uint64 WIDTH256 1) > 0 then bnPoWTrust else bu_of_uint64 WIDTH256 1))"

section \<open>The skip list\<close>

definition InvertLowestOne :: "nat \<Rightarrow> nat" where
  "InvertLowestOne n = n AND (n - 1)"

definition GetSkipHeight :: "nat \<Rightarrow> nat" where
  "GetSkipHeight height =
     (if height < 2 then 0
      else if height AND 1 \<noteq> 0 then InvertLowestOne (InvertLowestOne (height - 1)) + 1
      else InvertLowestOne height)"

lemma InvertLowestOne_less: "0 < n \<Longrightarrow> InvertLowestOne n < n"
proof -
  assume "0 < n"
  have "n AND (n - 1) \<le> n - 1"
    by (metis and.commute and_nat_def nat_int of_nat_0_le_iff AND_upper1 nat_mono of_nat_and_eq)
  with \<open>0 < n\<close> show ?thesis by (simp add: InvertLowestOne_def)
qed

lemma InvertLowestOne_le: "InvertLowestOne n \<le> n"
  using InvertLowestOne_less [of n] by (cases n) (auto simp: InvertLowestOne_def)

lemma GetSkipHeight_less: "0 < h \<Longrightarrow> GetSkipHeight h < h"
  using InvertLowestOne_less [of h] InvertLowestOne_less [of "h - 1"] InvertLowestOne_le [of "InvertLowestOne (h - 1)"]
  by (auto simp: GetSkipHeight_def)

function ancestor_loop :: "block_map \<Rightarrow> nat \<Rightarrow> bid option \<Rightarrow> nat \<Rightarrow> bid option option" where
  "ancestor_loop m height pindexWalk heightWalk =
     (if heightWalk > height then
        (case pindexWalk of None \<Rightarrow> None | Some p \<Rightarrow>
        (case m p of None \<Rightarrow> None | Some bi \<Rightarrow>
        (let heightSkip = GetSkipHeight heightWalk; heightSkipPrev = GetSkipHeight (heightWalk - 1)
         in if heightSkip = height \<or>
               (heightSkip > height \<and> \<not> (int heightSkipPrev < int heightSkip - 2 \<and> heightSkipPrev \<ge> height))
            then ancestor_loop m height (pskip bi) heightSkip
            else ancestor_loop m height (pprev bi) (heightWalk - 1))))
      else Some pindexWalk)"
  by pat_completeness auto
termination by (relation "measure (\<lambda>(m, h, p, w). w)") (auto intro: GetSkipHeight_less)

declare ancestor_loop.simps [simp del]

definition GetAncestor :: "block_map \<Rightarrow> bid \<Rightarrow> int \<Rightarrow> bid option option" where
  "GetAncestor m p height =
     (case m p of None \<Rightarrow> None
      | Some bi \<Rightarrow> if height > nHeight bi \<or> height < 0 then Some None
                  else ancestor_loop m (nat height) (Some p) (nat (nHeight bi)))"

definition BuildSkip :: "block_map \<Rightarrow> CBlockIndex \<Rightarrow> CBlockIndex option" where
  "BuildSkip m bi =
     (case pprev bi of None \<Rightarrow> Some bi
      | Some q \<Rightarrow> (case GetAncestor m q (int (GetSkipHeight (nat (nHeight bi)))) of
                     None \<Rightarrow> None | Some r \<Rightarrow> Some (bi\<lparr>pskip := r\<rparr>)))"

section \<open>The active chain\<close>

type_synonym CChain = "bid option list"

definition chain_nth :: "CChain \<Rightarrow> int \<Rightarrow> bid option" where
  "chain_nth vChain h = (if h < 0 \<or> h \<ge> int (length vChain) then None else vChain ! nat h)"

definition chain_Genesis :: "CChain \<Rightarrow> bid option" where
  "chain_Genesis vChain = (if length vChain > 0 then vChain ! 0 else None)"

partial_function (option) tip_stake_loop :: "block_map \<Rightarrow> bid option \<Rightarrow> bid option option" where
  "tip_stake_loop m pindex =
     (case pindex of None \<Rightarrow> Some None
      | Some p \<Rightarrow> (case m p of None \<Rightarrow> None
         | Some bi \<Rightarrow> if pprev bi \<noteq> None \<and> \<not> bi_IsProofOfStake bi then tip_stake_loop m (pprev bi) else Some (Some p)))"

definition chain_Tip :: "block_map \<Rightarrow> bool \<Rightarrow> CChain \<Rightarrow> bid option option" where
  "chain_Tip m fProofOfStake vChain =
     (if length vChain < 1 then Some None
      else let pindex = vChain ! (length vChain - 1)
           in if fProofOfStake then tip_stake_loop m pindex else Some pindex)"

definition chain_Contains :: "block_map \<Rightarrow> CChain \<Rightarrow> bid \<Rightarrow> bool" where
  "chain_Contains m vChain p = (case m p of None \<Rightarrow> False | Some bi \<Rightarrow> chain_nth vChain (nHeight bi) = Some p)"

definition chain_Next :: "block_map \<Rightarrow> CChain \<Rightarrow> bid \<Rightarrow> bid option" where
  "chain_Next m vChain p =
     (case m p of None \<Rightarrow> None
      | Some bi \<Rightarrow> if chain_Contains m vChain p then chain_nth vChain (nHeight bi + 1) else None)"

definition chain_Height :: "CChain \<Rightarrow> int" where
  "chain_Height vChain = int (length vChain) - 1"

definition vector_resize :: "nat \<Rightarrow> 'a option list \<Rightarrow> 'a option list" where
  "vector_resize n xs = take n xs @ replicate (n - length xs) None"

partial_function (option) set_tip_loop :: "block_map \<Rightarrow> bid option \<Rightarrow> CChain \<Rightarrow> CChain option" where
  "set_tip_loop m pindex vChain =
     (case pindex of None \<Rightarrow> Some vChain
      | Some p \<Rightarrow> (case m p of None \<Rightarrow> None
         | Some bi \<Rightarrow>
             if nat (nHeight bi) \<ge> length vChain then None
             else if vChain ! nat (nHeight bi) \<noteq> Some p
             then set_tip_loop m (pprev bi) (vChain[nat (nHeight bi) := Some p])
             else Some vChain))"

definition SetTip :: "block_map \<Rightarrow> CChain \<Rightarrow> bid option \<Rightarrow> CChain option" where
  "SetTip m vChain pindex =
     (case pindex of None \<Rightarrow> Some []
      | Some p \<Rightarrow> (case m p of None \<Rightarrow> None
         | Some bi \<Rightarrow> set_tip_loop m pindex (vector_resize (nat (nHeight bi + 1)) vChain)))"

text \<open>The loop of \<open>GetLocator\<close> on \<open>pindex\<close>, \<open>nStep\<close> and the number of hashes already in \<open>vHave\<close>.\<close>

partial_function (option) locator_loop :: "block_map \<Rightarrow> CChain \<Rightarrow> bid option \<Rightarrow> int \<Rightarrow> bid list \<Rightarrow> bid list option" where
  "locator_loop m vChain pindex nStep vHave =
     (case pindex of None \<Rightarrow> Some vHave
      | Some p \<Rightarrow> (case m p of None \<Rightarrow> None
         | Some bi \<Rightarrow>
             let vHave = vHave @ [p]
             in if nHeight bi = 0 then Some vHave
                else let h = max (nHeight bi - nStep) 0
                     in case (if chain_Contains m vChain p then Some (chain_nth vChain h) else GetAncestor m p h) of
                          None \<Rightarrow> None
                        | Some pindex \<Rightarrow> locator_loop m vChain pindex (if length vHave > 10 then nStep * 2 else nStep) vHave))"

definition GetLocator :: "block_map \<Rightarrow> CChain \<Rightarrow> bid option \<Rightarrow> bid list option" where
  "GetLocator m vChain pindex =
     (case pindex of
        None \<Rightarrow> (case chain_Tip m False vChain of None \<Rightarrow> None | Some tip \<Rightarrow> locator_loop m vChain tip 1 [])
      | Some p \<Rightarrow> locator_loop m vChain (Some p) 1 [])"

partial_function (option) find_fork_loop :: "block_map \<Rightarrow> CChain \<Rightarrow> bid option \<Rightarrow> bid option option" where
  "find_fork_loop m vChain pindex =
     (case pindex of None \<Rightarrow> Some None
      | Some p \<Rightarrow> (case m p of None \<Rightarrow> None
         | Some bi \<Rightarrow> if \<not> chain_Contains m vChain p then find_fork_loop m vChain (pprev bi) else Some (Some p)))"

definition FindFork :: "block_map \<Rightarrow> CChain \<Rightarrow> bid \<Rightarrow> bid option option" where
  "FindFork m vChain p =
     (case m p of None \<Rightarrow> None
      | Some bi \<Rightarrow>
          if nHeight bi > chain_Height vChain
          then (case GetAncestor m p (chain_Height vChain) of None \<Rightarrow> None | Some q \<Rightarrow> find_fork_loop m vChain q)
          else find_fork_loop m vChain (Some p))"

section \<open>Walking to ancestors\<close>

text \<open>The reference: follow \<open>pprev\<close> a number of times.\<close>

fun walk :: "block_map \<Rightarrow> nat \<Rightarrow> bid \<Rightarrow> bid option" where
  "walk m 0 p = Some p"
| "walk m (Suc n) p = (case m p of None \<Rightarrow> None | Some bi \<Rightarrow> (case pprev bi of None \<Rightarrow> None | Some q \<Rightarrow> walk m n q))"

definition wf_entry :: "block_map \<Rightarrow> bid \<Rightarrow> CBlockIndex \<Rightarrow> bool" where
  "wf_entry m p bi \<longleftrightarrow> (case pprev bi of None \<Rightarrow> nHeight bi = 0
     | Some q \<Rightarrow> (case m q of None \<Rightarrow> False | Some bj \<Rightarrow> 0 \<le> nHeight bj \<and> nHeight bi = nHeight bj + 1 \<and>
                    pskip bi = walk m (nat (nHeight bi) - GetSkipHeight (nat (nHeight bi))) p))"

definition wf_index :: "block_map \<Rightarrow> bool" where
  "wf_index m \<longleftrightarrow> (\<forall>p bi. m p = Some bi \<longrightarrow> wf_entry m p bi)"

lemma wf_indexD: "wf_index m \<Longrightarrow> m p = Some bi \<Longrightarrow> wf_entry m p bi"
  by (simp add: wf_index_def)

lemma wf_height: "wf_index m \<Longrightarrow> m p = Some bi \<Longrightarrow> 0 \<le> nHeight bi"
  by (drule (1) wf_indexD) (auto simp: wf_entry_def split: option.splits)

lemma wf_prev:
  assumes "wf_index m" "m p = Some bi" "0 < nHeight bi"
  obtains q bj where "pprev bi = Some q" "m q = Some bj" "nHeight bi = nHeight bj + 1"
    "pskip bi = walk m (nat (nHeight bi) - GetSkipHeight (nat (nHeight bi))) p"
  using wf_indexD [OF assms(1,2)] assms(3) by (auto simp: wf_entry_def split: option.splits)

lemma wf_root: "wf_index m \<Longrightarrow> m p = Some bi \<Longrightarrow> nHeight bi = 0 \<longleftrightarrow> pprev bi = None"
  using wf_indexD [of m p bi] by (auto simp: wf_entry_def split: option.splits)

lemma walk_add: "walk m (a + b) p = (case walk m a p of None \<Rightarrow> None | Some q \<Rightarrow> walk m b q)"
  by (induction m a p rule: walk.induct) (auto split: option.splits)

lemma walk_Some:
  "wf_index m \<Longrightarrow> m p = Some bi \<Longrightarrow> int n \<le> nHeight bi \<Longrightarrow>
   \<exists>q bj. walk m n p = Some q \<and> m q = Some bj \<and> nHeight bj = nHeight bi - int n"
proof (induction n arbitrary: p bi)
  case (Suc n)
  then have "0 < nHeight bi" by simp
  from wf_prev [OF Suc.prems(1,2) this] obtain q bj where "pprev bi = Some q" "m q = Some bj" "nHeight bi = nHeight bj + 1" .
  then show ?case using Suc.IH [of q bj] Suc.prems by simp
qed simp

lemma walk_beyond:
  "wf_index m \<Longrightarrow> m p = Some bi \<Longrightarrow> nHeight bi < int n \<Longrightarrow> walk m n p = None"
proof (induction n arbitrary: p bi)
  case (Suc n)
  show ?case
  proof (cases "nHeight bi = 0")
    case False
    then have "0 < nHeight bi" using wf_height Suc.prems by force
    then obtain q bj where "pprev bi = Some q" "m q = Some bj" "nHeight bi = nHeight bj + 1" using wf_prev Suc.prems by metis
    then show ?thesis using Suc.IH [of q bj] Suc.prems by simp
  qed (use Suc.prems wf_root in \<open>force split: option.splits\<close>)
qed (use wf_height in fastforce)

lemma walk_Some_iff:
  assumes "wf_index m" "m p = Some bi"
  shows "walk m n p = Some q \<Longrightarrow> int n \<le> nHeight bi \<and> (\<exists>bj. m q = Some bj \<and> nHeight bj = nHeight bi - int n)"
  using walk_Some [OF assms, of n] walk_beyond [OF assms, of n] by fastforce

lemma ancestor_loop_walk:
  "wf_index m \<Longrightarrow> m p = Some bi \<Longrightarrow> nHeight bi = int hw \<Longrightarrow> height \<le> hw \<Longrightarrow>
   ancestor_loop m height (Some p) hw = Some (walk m (hw - height) p)"
proof (induction hw arbitrary: p bi rule: less_induct)
  case (less hw)
  show ?case
  proof (cases "hw > height")
    case True
    then have "0 < nHeight bi" using less.prems(3) by simp
    from wf_prev [OF less.prems(1,2) this] obtain q bj where q: "pprev bi = Some q" "m q = Some bj" "nHeight bi = nHeight bj + 1"
      "pskip bi = walk m (hw - GetSkipHeight hw) p" unfolding less.prems(3) nat_int .
    have skip: "GetSkipHeight hw < hw" using True by (intro GetSkipHeight_less) simp
    show ?thesis
    proof (cases "GetSkipHeight hw = height \<or> (GetSkipHeight hw > height \<and>
        \<not> (int (GetSkipHeight (hw - 1)) < int (GetSkipHeight hw) - 2 \<and> GetSkipHeight (hw - 1) \<ge> height))")
      case follow: True
      obtain r bk where r: "walk m (hw - GetSkipHeight hw) p = Some r" "m r = Some bk" "nHeight bk = int (GetSkipHeight hw)"
        using walk_Some [OF less.prems(1,2), of "hw - GetSkipHeight hw"] less.prems(3) skip by auto
      have "height \<le> GetSkipHeight hw" using follow by auto
      then have "ancestor_loop m height (Some r) (GetSkipHeight hw) = Some (walk m (GetSkipHeight hw - height) r)"
        using less.IH [OF skip less.prems(1) r(2,3)] by blast
      moreover have "walk m (hw - height) p = walk m (GetSkipHeight hw - height) r"
        using walk_add [of m "hw - GetSkipHeight hw" "GetSkipHeight hw - height" p] r skip \<open>height \<le> GetSkipHeight hw\<close> by simp
      ultimately show ?thesis using True follow less.prems q r
        by (simp add: ancestor_loop.simps [of m height "Some p"] Let_def)
    next
      case False
      have "ancestor_loop m height (Some q) (hw - 1) = Some (walk m (hw - 1 - height) q)"
        using less.IH [of "hw - 1" q bj] less.prems q True by simp
      moreover have "walk m (hw - height) p = walk m (hw - 1 - height) q"
      proof -
        have e: "hw - height = Suc (hw - 1 - height)" using True by simp
        show ?thesis by (subst e, subst walk.simps(2)) (simp add: less.prems(2) q)
      qed
      ultimately show ?thesis using True False less.prems q
        by (auto simp: ancestor_loop.simps [of m height "Some p"] Let_def)
    qed
  qed (use less.prems in \<open>subst ancestor_loop.simps, simp\<close>)
qed

lemma GetAncestor_walk:
  assumes "wf_index m" "m p = Some bi"
  shows "GetAncestor m p h = Some (if 0 \<le> h \<and> h \<le> nHeight bi then walk m (nat (nHeight bi - h)) p else None)"
  using ancestor_loop_walk [OF assms, of "nat (nHeight bi)" "nat h"] wf_height [OF assms] assms
  by (auto simp: GetAncestor_def nat_diff_distrib)

lemma GetAncestor_Some:
  assumes "wf_index m" "m p = Some bi" "0 \<le> h" "h \<le> nHeight bi"
  obtains q bj where "GetAncestor m p h = Some (Some q)" "m q = Some bj" "nHeight bj = h" "walk m (nat (nHeight bi - h)) p = Some q"
  using walk_Some [OF assms(1,2), of "nat (nHeight bi - h)"] GetAncestor_walk [OF assms(1,2), of h] assms(3,4) by auto

section \<open>Adding an entry\<close>

lemma walk_mono:
  assumes "\<And>q bj. m q = Some bj \<Longrightarrow> \<exists>bk. m' q = Some bk \<and> pprev bk = pprev bj"
  shows "walk m n p = Some r \<Longrightarrow> walk m' n p = Some r"
proof (induction n arbitrary: p)
  case (Suc n)
  then show ?case using assms by (fastforce split: option.splits)
qed simp

lemma walk_upd_new:
  assumes "wf_index m" "m p = None"
  shows "m q \<noteq> None \<Longrightarrow> walk (m(p \<mapsto> x)) n q = walk m n q"
proof (induction n arbitrary: q)
  case (Suc n)
  then obtain bi where bi: "m q = Some bi" by auto
  with Suc assms show ?case using wf_indexD [OF assms(1) bi]
    by (auto simp: wf_entry_def split: option.splits)
qed simp

text \<open>Changing fields other than the links and the height keeps the index well formed.\<close>

lemma wf_index_cong:
  assumes "\<And>p. map_option (\<lambda>bi. (pprev bi, pskip bi, nHeight bi)) (m' p) = map_option (\<lambda>bi. (pprev bi, pskip bi, nHeight bi)) (m p)"
  shows "wf_index m' = wf_index m"
proof -
  have w: "walk m' n p = walk m n p" for n p
  proof (induction n arbitrary: p)
    case (Suc n)
    then show ?case using assms [of p] by (cases "m p"; cases "m' p") (auto split: option.splits)
  qed simp
  have e: "m' p = Some bi' \<Longrightarrow> m p = Some bi \<Longrightarrow> wf_entry m' p bi' = wf_entry m p bi" for p bi bi'
  proof -
    assume a: "m' p = Some bi'" "m p = Some bi"
    then have "pprev bi' = pprev bi" "pskip bi' = pskip bi" "nHeight bi' = nHeight bi" using assms [of p] by auto
    then show ?thesis
    proof (cases "pprev bi")
      case (Some q)
      then show ?thesis using assms [of q] \<open>pprev bi' = _\<close> \<open>pskip bi' = _\<close> \<open>nHeight bi' = _\<close>
        by (cases "m q"; cases "m' q") (auto simp: wf_entry_def w)
    qed (simp add: wf_entry_def)
  qed
  show ?thesis unfolding wf_index_def
  proof (intro iffI allI impI)
    fix p bi assume h: "\<forall>p bi. m' p = Some bi \<longrightarrow> wf_entry m' p bi" "m p = Some bi"
    then obtain bi' where "m' p = Some bi'" using assms [of p] by (cases "m' p") auto
    then show "wf_entry m p bi" using e h by blast
  next
    fix p bi assume h: "\<forall>p bi. m p = Some bi \<longrightarrow> wf_entry m p bi" "m' p = Some bi"
    then obtain bi' where "m p = Some bi'" using assms [of p] by (cases "m p") auto
    then show "wf_entry m' p bi" using e h by blast
  qed
qed

lemma wf_index_add:
  assumes wf: "wf_index m" and new: "m p = None" "m q = Some bj" "pprev bi = Some q" "nHeight bi = nHeight bj + 1"
    and skip: "BuildSkip m bi = Some bi'"
  shows "wf_index (m(p \<mapsto> bi'))"
proof -
  let ?m = "m(p \<mapsto> bi')" and ?h = "nat (nHeight bi)"
  have h: "0 \<le> nHeight bj" using wf_height [OF wf new(2)] .
  have le: "GetSkipHeight ?h \<le> nat (nHeight bj)" using GetSkipHeight_less [of ?h] new h by auto
  then have sk: "pskip bi' = walk m (nat (nHeight bj) - GetSkipHeight ?h) q" "pprev bi' = Some q" "nHeight bi' = nHeight bi"
    using skip new GetAncestor_walk [OF wf new(2), of "int (GetSkipHeight ?h)"] h
    by (auto simp: BuildSkip_def nat_diff_distrib)
  have "Suc (nat (nHeight bj) - GetSkipHeight ?h) = ?h - GetSkipHeight ?h" using le h new by auto
  then have "walk ?m (?h - GetSkipHeight ?h) p = pskip bi'"
    using sk walk_upd_new [OF wf new(1), of q bi'] new by (metis fun_upd_same option.simps(5) walk.simps(2) option.discI)
  moreover have "p \<noteq> q" using new by auto
  ultimately have "wf_entry ?m p bi'" using sk new h by (simp add: wf_entry_def)
  moreover have "wf_entry ?m r x" if "m r = Some x" for r x
  proof -
    have "walk ?m n r = walk m n r" for n using walk_upd_new [OF wf new(1), of r bi'] that by simp
    then show ?thesis using wf_indexD [OF wf that] new(1) by (auto simp: wf_entry_def split: option.splits)
  qed
  ultimately show ?thesis using new(1) by (auto simp: wf_index_def)
qed

lemma wf_index_add_root:
  assumes wf: "wf_index m" and new: "m p = None" "pprev bi = None" "nHeight bi = 0"
  shows "wf_index (m(p \<mapsto> bi))"
proof -
  have "wf_entry (m(p \<mapsto> bi)) r x" if "m r = Some x" for r x
  proof -
    have "walk (m(p \<mapsto> bi)) n r = walk m n r" for n using walk_upd_new [OF wf new(1), of r bi] that by simp
    then show ?thesis using wf_indexD [OF wf that] new(1) by (auto simp: wf_entry_def split: option.splits)
  qed
  moreover have "wf_entry (m(p \<mapsto> bi)) p bi" using new by (simp add: wf_entry_def)
  ultimately show ?thesis by (auto simp: wf_index_def)
qed

lemma BuildSkip_total:
  assumes "wf_index m" "m q = Some bj" "pprev bi = Some q" "nHeight bi = nHeight bj + 1"
  shows "\<exists>r. BuildSkip m bi = Some (bi\<lparr>pskip := r\<rparr>)"
  using assms GetAncestor_walk [OF assms(1,2)] by (auto simp: BuildSkip_def)

section \<open>Paths and the active chain\<close>

definition ancestors :: "block_map \<Rightarrow> bid \<Rightarrow> bid set" where
  "ancestors m p = {q. \<exists>n. walk m n p = Some q}"

definition height_of :: "block_map \<Rightarrow> bid \<Rightarrow> nat" where
  "height_of m p = (case m p of None \<Rightarrow> 0 | Some bi \<Rightarrow> nat (nHeight bi))"

definition path :: "block_map \<Rightarrow> bid \<Rightarrow> CChain" where
  "path m p = map (\<lambda>j. walk m (height_of m p - j) p) [0..<height_of m p + 1]"

definition chain_ok :: "block_map \<Rightarrow> CChain \<Rightarrow> bool" where
  "chain_ok m c \<longleftrightarrow> c = [] \<or> (\<exists>p bi. m p = Some bi \<and> c = path m p)"

lemma height_of_eq: "wf_index m \<Longrightarrow> m p = Some bi \<Longrightarrow> int (height_of m p) = nHeight bi"
  by (simp add: height_of_def wf_height)

lemma length_path [simp]: "length (path m p) = height_of m p + 1"
  by (simp add: path_def)

lemma path_nth: "j \<le> height_of m p \<Longrightarrow> path m p ! j = walk m (height_of m p - j) p"
  by (simp add: path_def del: upt_Suc)

lemma walk_height:
  assumes "wf_index m" "m p = Some bi" "walk m n p = Some q"
  shows "n \<le> height_of m p" "\<exists>bj. m q = Some bj" "height_of m q = height_of m p - n"
proof -
  obtain bj where "int n \<le> nHeight bi" "m q = Some bj" "nHeight bj = nHeight bi - int n"
    using walk_Some_iff [OF assms] by blast
  then show "n \<le> height_of m p" "\<exists>bj. m q = Some bj" "height_of m q = height_of m p - n"
    using assms(2) by (auto simp: height_of_def)
qed

lemma walk_ex:
  assumes "wf_index m" "m p = Some bi" "n \<le> height_of m p"
  obtains q bj where "walk m n p = Some q" "m q = Some bj" "height_of m q = height_of m p - n"
  using walk_Some [OF assms(1,2), of n] assms height_of_eq [OF assms(1,2)]
  by (metis nat_int of_nat_le_iff walk_height(3))

lemma path_entry:
  assumes "wf_index m" "m p = Some bi" "j \<le> height_of m p"
  obtains q bj where "path m p ! j = Some q" "m q = Some bj" "height_of m q = j" "\<forall>i\<le>j. path m p ! i = walk m (j - i) q"
proof -
  from walk_ex [OF assms(1,2), of "height_of m p - j"] obtain q bj where
    q: "walk m (height_of m p - j) p = Some q" "m q = Some bj" "height_of m q = j" using assms(3) by auto
  have "path m p ! i = walk m (j - i) q" if "i \<le> j" for i
  proof -
    have "height_of m p - i = (height_of m p - j) + (j - i)" using that assms(3) by simp
    then have "walk m (height_of m p - i) p = walk m (j - i) q" by (simp only: walk_add q option.case)
    then show ?thesis using that assms(3) by (simp add: path_nth)
  qed
  with q assms(3) show ?thesis by (intro that [of q bj]) (simp_all add: path_nth)
qed

lemma path_Contains:
  assumes "wf_index m" "m t = Some bt" "m p = Some bi"
  shows "chain_Contains m (path m t) p \<longleftrightarrow> Some p \<in> set (path m t)"
proof
  assume "chain_Contains m (path m t) p"
  then have "path m t ! nat (nHeight bi) = Some p" "nat (nHeight bi) < length (path m t)"
    using assms by (auto simp: chain_Contains_def chain_nth_def split: if_splits)
  then show "Some p \<in> set (path m t)" by (metis nth_mem)
next
  assume "Some p \<in> set (path m t)"
  then obtain j where j: "j \<le> height_of m t" "path m t ! j = Some p" by (auto simp: in_set_conv_nth less_Suc_eq_le)
  then have "height_of m p = j" using path_entry [OF assms(1,2) j(1)] by auto
  then show "chain_Contains m (path m t) p" using j assms height_of_eq [OF assms(1,3)]
    by (auto simp: chain_Contains_def chain_nth_def simp flip: height_of_eq [OF assms(1,3)])
qed

lemma chain_ok_Contains:
  assumes "wf_index m" "chain_ok m c" "m p = Some bi"
  shows "chain_Contains m c p \<longleftrightarrow> Some p \<in> set c"
proof (cases "c = []")
  case False
  with assms(2) obtain t bt where "m t = Some bt" "c = path m t" by (auto simp: chain_ok_def)
  then show ?thesis using path_Contains [OF assms(1) _ assms(3)] by simp
qed (use assms(3) in \<open>auto simp: chain_Contains_def chain_nth_def\<close>)

section \<open>Setting the tip\<close>

text \<open>Entries of a partly written vector up to a height are on the path of the highest of them.\<close>

definition entries_ok :: "block_map \<Rightarrow> CChain \<Rightarrow> nat \<Rightarrow> bool" where
  "entries_ok m c h \<longleftrightarrow> (\<forall>i<h. \<forall>q. c ! i = Some q \<longrightarrow> (\<forall>j\<le>i. c ! j = walk m (i - j) q))"

lemma set_tip_loop_path:
  assumes wf: "wf_index m"
  shows "m p = Some bi \<Longrightarrow> height_of m p < length c \<Longrightarrow> entries_ok m c (Suc (height_of m p)) \<Longrightarrow>
    set_tip_loop m (Some p) c = Some (path m p @ drop (Suc (height_of m p)) c)"
proof (induction "height_of m p" arbitrary: p bi c)
  case 0
  then have "nHeight bi = 0" using height_of_eq [OF wf] by fastforce
  then have "pprev bi = None" using wf_root [OF wf 0(2)] by simp
  moreover have "path m p = [Some p]" using 0(1) by (simp add: path_def)
  moreover obtain x xs where "c = x # xs" using 0(3) by (cases c) auto
  ultimately show ?case using 0 \<open>nHeight bi = 0\<close> by (auto simp: set_tip_loop.simps)
next
  case (Suc h)
  have hb: "nHeight bi = int h + 1" using height_of_eq [OF wf Suc(3)] Suc(2) by simp
  then have "0 < nHeight bi" by simp
  from wf_prev [OF wf Suc(3) this] obtain q bj where q: "pprev bi = Some q" "m q = Some bj" "nHeight bi = nHeight bj + 1" .
  then have hq: "height_of m q = h" using hb by (simp add: height_of_def)
  have pth: "path m p = path m q @ [Some p]"
  proof (rule nth_equalityI)
    fix i assume "i < length (path m p)"
    then have i: "i \<le> Suc h" using Suc(2) by simp
    show "path m p ! i = (path m q @ [Some p]) ! i"
    proof (cases "i = Suc h")
      case False
      then have e: "Suc h - i = Suc (h - i)" "i \<le> h" using i by auto
      have "walk m (Suc h - i) p = walk m (h - i) q" unfolding e(1) by (simp add: Suc(3) q)
      then show ?thesis using i e(2) Suc(2) hq by (simp add: path_nth nth_append)
    qed (use Suc(2) hq in \<open>simp add: path_nth nth_append\<close>)
  qed (use Suc(2) hq in simp)
  show ?case
  proof (cases "c ! Suc h = Some p")
    case True
    then have "c ! j = path m p ! j" if "j \<le> Suc h" for j
      using Suc(2,5) that by (simp add: entries_ok_def path_nth)
    then have "take (Suc (Suc h)) c = path m p" using Suc(2,4) by (intro nth_equalityI) auto
    then have "c = path m p @ drop (Suc (Suc h)) c" by (metis append_take_drop_id)
    then show ?thesis using True Suc(2,3,4) hb by (simp add: set_tip_loop.simps nat_add_distrib)
  next
    case False
    let ?c = "c[Suc h := Some p]"
    have "entries_ok m ?c (Suc (height_of m q))" using Suc(2,5) hq by (auto simp: entries_ok_def nth_list_update)
    then have "set_tip_loop m (Some q) ?c = Some (path m q @ drop (Suc h) ?c)"
      using Suc.hyps(1) [of q bj ?c] q(2) hq Suc(2,4) by simp
    moreover have "drop (Suc h) ?c = Some p # drop (Suc (Suc h)) c"
      using Suc(2,4) by (simp add: drop_update_swap Cons_nth_drop_Suc [symmetric])
    ultimately show ?thesis using False Suc(2,3,4) hb q pth
      by (simp add: set_tip_loop.simps [of m "Some p"] nat_add_distrib)
  qed
qed

lemma entries_ok_resize:
  assumes "wf_index m" "chain_ok m c"
  shows "entries_ok m (vector_resize n c) n"
proof (cases "c = []")
  case False
  then obtain t bt where t: "m t = Some bt" "c = path m t" using assms(2) by (auto simp: chain_ok_def)
  have old: "vector_resize n c ! i = (if i \<le> height_of m t then path m t ! i else None)" if "i < n" for i
    using that t(2) by (auto simp: vector_resize_def nth_append)
  show ?thesis unfolding entries_ok_def
  proof (intro allI impI)
    fix i q j assume a: "i < n" "vector_resize n c ! i = Some q" "j \<le> i"
    then have i: "i \<le> height_of m t" "path m t ! i = Some q" using old by (auto split: if_splits)
    then have "path m t ! j = walk m (i - j) q" using path_entry [OF assms(1) t(1) i(1)] a(3) by auto
    then show "vector_resize n c ! j = walk m (i - j) q" using old [of j] a i(1) by simp
  qed
qed (auto simp: entries_ok_def vector_resize_def)

lemma SetTip_path:
  assumes "wf_index m" "chain_ok m c" "m p = Some bi"
  shows "SetTip m c (Some p) = Some (path m p)"
proof -
  let ?n = "Suc (height_of m p)"
  have n: "nat (nHeight bi + 1) = ?n" using height_of_eq [OF assms(1,3)] wf_height [OF assms(1,3)] by simp
  have len: "length (vector_resize ?n c) = ?n" by (simp add: vector_resize_def)
  have "set_tip_loop m (Some p) (vector_resize ?n c) = Some (path m p)"
    using set_tip_loop_path [OF assms(1,3), of "vector_resize ?n c"] entries_ok_resize [OF assms(1,2), of ?n] len by simp
  then show ?thesis using assms(3) by (simp add: SetTip_def n)
qed


section \<open>Forks\<close>

lemma walk_self: "p \<in> ancestors m p"
  unfolding ancestors_def by (metis (mono_tags) mem_Collect_eq walk.simps(1))

lemma ancestors_step:
  assumes "m p = Some bi" "pprev bi = Some q"
  shows "ancestors m p = insert p (ancestors m q)"
proof -
  have "(\<exists>n. walk m n p = Some r) \<longleftrightarrow> r = p \<or> (\<exists>n. walk m n q = Some r)" for r
  proof
    assume "\<exists>n. walk m n p = Some r"
    then obtain n where "walk m n p = Some r" ..
    then show "r = p \<or> (\<exists>n. walk m n q = Some r)" using assms by (cases n) auto
  next
    assume "r = p \<or> (\<exists>n. walk m n q = Some r)"
    then show "\<exists>n. walk m n p = Some r"
    proof
      assume "\<exists>n. walk m n q = Some r"
      then obtain n where "walk m n q = Some r" ..
      then have "walk m (Suc n) p = Some r" using assms by simp
      then show ?thesis ..
    qed (use walk.simps(1) in blast)
  qed
  then show ?thesis by (auto simp: ancestors_def)
qed

lemma ancestors_root:
  assumes "m p = Some bi" "pprev bi = None"
  shows "ancestors m p = {p}"
proof -
  have "walk m n p = Some r \<Longrightarrow> r = p" for n r using assms by (cases n) auto
  then show ?thesis using walk_self [of p m] by (auto simp: ancestors_def)
qed

lemma ancestors_in:
  assumes "wf_index m" "m p = Some bi" "q \<in> ancestors m p"
  obtains bj where "m q = Some bj" "height_of m q \<le> height_of m p"
  using assms walk_height [OF assms(1,2)] by (fastforce simp: ancestors_def)

definition is_fork :: "block_map \<Rightarrow> CChain \<Rightarrow> bid \<Rightarrow> bid option \<Rightarrow> bool" where
  "is_fork m c p r \<longleftrightarrow> (case r of None \<Rightarrow> \<forall>q \<in> ancestors m p. Some q \<notin> set c
     | Some q \<Rightarrow> q \<in> ancestors m p \<and> Some q \<in> set c \<and>
         (\<forall>q' \<in> ancestors m p. Some q' \<in> set c \<longrightarrow> height_of m q' \<le> height_of m q))"

lemma find_fork_loop_spec:
  assumes wf: "wf_index m" and ok: "chain_ok m c"
  shows "m p = Some bi \<Longrightarrow> \<exists>r. find_fork_loop m c (Some p) = Some r \<and> is_fork m c p r"
proof (induction "height_of m p" arbitrary: p bi rule: less_induct)
  case less
  note con = chain_ok_Contains [OF wf ok less.prems]
  show ?case
  proof (cases "Some p \<in> set c")
    case True
    then have "find_fork_loop m c (Some p) = Some (Some p)" using con less.prems by (simp add: find_fork_loop.simps)
    moreover have "height_of m q' \<le> height_of m p" if "q' \<in> ancestors m p" for q'
      using ancestors_in [OF wf less.prems that] by blast
    then have "is_fork m c p (Some p)" using True walk_self [of p m] by (simp add: is_fork_def)
    ultimately show ?thesis by blast
  next
    case False
    then have step: "find_fork_loop m c (Some p) = find_fork_loop m c (pprev bi)"
      using con less.prems by (simp add: find_fork_loop.simps [of m c "Some p"])
    show ?thesis
    proof (cases "pprev bi")
      case None
      then show ?thesis using False step ancestors_root [of m p bi] less.prems
        by (simp add: find_fork_loop.simps [of m c None] is_fork_def)
    next
      case (Some q)
      then have "0 < nHeight bi" using wf_root [OF wf less.prems] wf_height [OF wf less.prems] by fastforce
      from wf_prev [OF wf less.prems this] Some obtain bj where q: "m q = Some bj" "nHeight bi = nHeight bj + 1" by auto
      then have "height_of m q < height_of m p" using less.prems wf_height [OF wf q(1)] by (simp add: height_of_def)
      with less.hyps [of q bj] q obtain r where "find_fork_loop m c (Some q) = Some r" "is_fork m c q r" by auto
      then show ?thesis using False step Some ancestors_step [of m p bi q] less.prems
        by (auto simp: is_fork_def split: option.splits)
    qed
  qed
qed

lemma chain_height_bound:
  assumes "wf_index m" "chain_ok m c" "Some q \<in> set c"
  shows "int (height_of m q) \<le> chain_Height c"
proof -
  obtain t bt where t: "m t = Some bt" "c = path m t" using assms(2,3) by (auto simp: chain_ok_def)
  obtain j where j: "j < length c" "c ! j = Some q" using assms(3) by (auto simp: in_set_conv_nth)
  then have "j \<le> height_of m t" using t by simp
  from path_entry [OF assms(1) t(1) this] obtain q' where "path m t ! j = Some q'" "height_of m q' = j" by blast
  then show ?thesis using j t(2) by (simp add: chain_Height_def)
qed

lemma FindFork_spec:
  assumes wf: "wf_index m" and ok: "chain_ok m c" and p: "m p = Some bi"
  shows "\<exists>r. FindFork m c p = Some r \<and> is_fork m c p r"
proof (cases "nHeight bi > chain_Height c")
  case False
  then show ?thesis using find_fork_loop_spec [OF assms] p by (simp add: FindFork_def)
next
  case True
  show ?thesis
  proof (cases "c = []")
    case True
    then have "GetAncestor m p (chain_Height c) = Some None"
      using GetAncestor_walk [OF wf p] by (simp add: chain_Height_def)
    then show ?thesis using \<open>nHeight bi > chain_Height c\<close> True p
      by (simp add: FindFork_def find_fork_loop.simps is_fork_def)
  next
    case False
    then have h: "0 \<le> chain_Height c" by (cases c) (auto simp: chain_Height_def)
    let ?n = "nat (nHeight bi - chain_Height c)"
    from GetAncestor_Some [OF wf p h] True obtain q bj where
      q: "GetAncestor m p (chain_Height c) = Some (Some q)" "m q = Some bj" "nHeight bj = chain_Height c" "walk m ?n p = Some q"
      by auto
    obtain r where r: "find_fork_loop m c (Some q) = Some r" "is_fork m c q r" using find_fork_loop_spec [OF wf ok q(2)] by blast
    have above: "q' \<in> ancestors m q" if "q' \<in> ancestors m p" "Some q' \<in> set c" for q'
    proof -
      from that(1) obtain k where k: "walk m k p = Some q'" by (auto simp: ancestors_def)
      have "int (height_of m q') \<le> chain_Height c" using chain_height_bound [OF wf ok that(2)] .
      then have "?n \<le> k" using walk_height [OF wf p k] height_of_eq [OF wf p] by auto
      then have "walk m (k - ?n) q = Some q'" using k walk_add [of m ?n "k - ?n" p] q(4) by simp
      then show ?thesis by (auto simp: ancestors_def)
    qed
    have sub: "ancestors m q \<subseteq> ancestors m p"
    proof
      fix x assume "x \<in> ancestors m q"
      then obtain k where "walk m k q = Some x" by (auto simp: ancestors_def)
      then have "walk m (?n + k) p = Some x" by (simp add: walk_add q(4))
      then show "x \<in> ancestors m p" by (auto simp: ancestors_def)
    qed
    have "is_fork m c p r"
    proof (cases r)
      case None
      then show ?thesis using r(2) above unfolding is_fork_def by auto
    next
      case (Some x)
      then have "x \<in> ancestors m p" using r(2) sub unfolding is_fork_def by auto
      then show ?thesis using r(2) above Some unfolding is_fork_def by simp
    qed
    then show ?thesis using True p q r by (simp add: FindFork_def)
  qed
qed

section \<open>Locators\<close>

definition is_locator :: "block_map \<Rightarrow> bid \<Rightarrow> bid list \<Rightarrow> bool" where
  "is_locator m p hs \<longleftrightarrow> hs \<noteq> [] \<and> hd hs = p \<and> set hs \<subseteq> ancestors m p \<and> height_of m (last hs) = 0 \<and>
     sorted_wrt (\<lambda>a b. height_of m a > height_of m b) hs"

lemma locator_step:
  assumes wf: "wf_index m" and ok: "chain_ok m c" and p: "m p = Some bi" and h: "0 \<le> h" "h \<le> nHeight bi"
  shows "(if chain_Contains m c p then Some (chain_nth c h) else GetAncestor m p h) = Some (walk m (nat (nHeight bi - h)) p)"
proof (cases "chain_Contains m c p")
  case True
  then have "Some p \<in> set c" using chain_ok_Contains [OF wf ok p] by simp
  then obtain t bt where t: "m t = Some bt" "c = path m t" using ok by (auto simp: chain_ok_def)
  obtain j where j: "j \<le> height_of m t" "path m t ! j = Some p"
    using \<open>Some p \<in> set c\<close> t by (auto simp: in_set_conv_nth less_Suc_eq_le)
  from path_entry [OF wf t(1) j(1)] have e: "height_of m p = j" "\<forall>i\<le>j. path m t ! i = walk m (j - i) p"
    using j(2) by auto
  have hj: "nHeight bi = int j" using height_of_eq [OF wf p] e by simp
  have "chain_nth c h = path m t ! nat h" using h hj j(1) t(2) by (auto simp: chain_nth_def)
  also have "\<dots> = walk m (j - nat h) p" using e(2) h hj by simp
  also have "j - nat h = nat (nHeight bi - h)" using h hj by simp
  finally show ?thesis using True by simp
next
  case False
  then show ?thesis using GetAncestor_walk [OF wf p, of h] h by simp
qed

lemma locator_loop_spec:
  assumes wf: "wf_index m" and ok: "chain_ok m c"
  shows "m p = Some bi \<Longrightarrow> 1 \<le> nStep \<Longrightarrow> \<exists>hs. locator_loop m c (Some p) nStep vHave = Some (vHave @ hs) \<and> is_locator m p hs"
proof (induction "height_of m p" arbitrary: p bi nStep vHave rule: less_induct)
  case less
  note p = less.prems(1)
  show ?case
  proof (cases "nHeight bi = 0")
    case True
    then have "is_locator m p [p]" using p walk_self by (simp add: is_locator_def height_of_def)
    then show ?thesis using True p by (auto simp: locator_loop.simps Let_def)
  next
    case False
    define h where "h = max (nHeight bi - nStep) 0"
    have h: "0 \<le> h" "h < nHeight bi" using False wf_height [OF wf p] less.prems(2) by (auto simp: h_def)
    obtain q bj where q: "walk m (nat (nHeight bi - h)) p = Some q" "m q = Some bj" "nHeight bj = h"
      using walk_Some [OF wf p, of "nat (nHeight bi - h)"] h by auto
    have hq: "height_of m q < height_of m p" using p q h by (simp add: height_of_def)
    let ?s = "if length (vHave @ [p]) > 10 then nStep * 2 else nStep"
    have "1 \<le> ?s" using less.prems(2) by simp
    from less.hyps [OF hq q(2) this, of "vHave @ [p]"] obtain hs where
      hs: "locator_loop m c (Some q) ?s (vHave @ [p]) = Some ((vHave @ [p]) @ hs)" "is_locator m q hs" by blast
    have sub: "ancestors m q \<subseteq> ancestors m p"
    proof
      fix x assume "x \<in> ancestors m q"
      then obtain k where "walk m k q = Some x" by (auto simp: ancestors_def)
      then have "walk m (nat (nHeight bi - h) + k) p = Some x" by (simp add: walk_add q(1))
      then show "x \<in> ancestors m p" by (auto simp: ancestors_def)
    qed
    have "height_of m x < height_of m p" if "x \<in> set hs" for x
      using that hs(2) ancestors_in [OF wf q(2), of x] hq by (force simp: is_locator_def)
    then have "is_locator m p (p # hs)" using hs(2) sub walk_self [of p m] by (auto simp: is_locator_def)
    moreover have "locator_loop m c (Some p) nStep vHave = Some (vHave @ p # hs)"
      using hs(1) False p q(1) locator_step [OF wf ok p h(1)] h
      by (simp add: locator_loop.simps [of m c "Some p"] Let_def flip: h_def)
    ultimately show ?thesis by blast
  qed
qed


section \<open>Properties\<close>

text \<open>
  C15: the skip list is an optimisation only: in a well-formed index \<open>GetAncestor\<close> returns what following \<open>pprev\<close> one
  block at a time returns, for every height up to the block's own, and the null pointer for every other height.
\<close>

theorem GetAncestor_equals_walk:
  assumes "wf_index m" "m p = Some bi"
  shows "GetAncestor m p h = Some (if 0 \<le> h \<and> h \<le> nHeight bi then walk m (nat (nHeight bi - h)) p else None)"
  by (rule GetAncestor_walk [OF assms])

text \<open>
  C16: adding a block keeps the index well formed: \<open>BuildSkip\<close> always succeeds on a new entry one above its predecessor,
  changes nothing but \<open>pskip\<close>, and the index with the entry it returns is well formed again.
\<close>

theorem BuildSkip_keeps_index:
  assumes "wf_index m" "m p = None" "m q = Some bj" "pprev bi = Some q" "nHeight bi = nHeight bj + 1"
  shows "\<exists>r. BuildSkip m bi = Some (bi\<lparr>pskip := r\<rparr>) \<and> wf_index (m(p \<mapsto> bi\<lparr>pskip := r\<rparr>))"
  using BuildSkip_total [OF assms(1,3-5)] wf_index_add [OF assms] by blast

text \<open>
  C17: \<open>SetTip\<close> makes the active chain the path from the genesis block to the new tip, whatever chain was active before:
  stopping at the first entry that is already right is sound.
\<close>

theorem SetTip_sets_path:
  assumes "wf_index m" "chain_ok m c" "m p = Some bi"
  shows "SetTip m c (Some p) = Some (path m p) \<and> chain_ok m (path m p) \<and>
    chain_Tip m False (path m p) = Some (Some p) \<and> chain_Height (path m p) = nHeight bi"
  using SetTip_path [OF assms] assms height_of_eq [OF assms(1,3)]
  by (auto simp: chain_ok_def chain_Tip_def chain_Height_def path_nth simp flip: height_of_eq [OF assms(1,3)])

text \<open>
  C18: \<open>FindFork\<close> returns, for every block of the index, the highest block of the active chain among the block and its
  ancestors, and the null pointer exactly when there is none.
\<close>

theorem FindFork_highest_common:
  assumes "wf_index m" "chain_ok m c" "m p = Some bi"
  shows "\<exists>r. FindFork m c p = Some r \<and>
    (case r of None \<Rightarrow> \<forall>q \<in> ancestors m p. Some q \<notin> set c
     | Some q \<Rightarrow> q \<in> ancestors m p \<and> Some q \<in> set c \<and>
         (\<forall>q' \<in> ancestors m p. Some q' \<in> set c \<longrightarrow> height_of m q' \<le> height_of m q))"
  using FindFork_spec [OF assms] unfolding is_fork_def .

text \<open>
  C19: \<open>GetLocator\<close> returns for every block of the index: the locator starts with the block, goes down through ancestors
  of it at strictly decreasing heights and ends with a block of height zero.
\<close>

theorem GetLocator_returns:
  assumes "wf_index m" "chain_ok m c" "m p = Some bi"
  shows "\<exists>hs. GetLocator m c (Some p) = Some hs \<and> hs \<noteq> [] \<and> hd hs = p \<and> set hs \<subseteq> ancestors m p \<and>
    height_of m (last hs) = 0 \<and> sorted_wrt (\<lambda>a b. height_of m a > height_of m b) hs"
  using locator_loop_spec [OF assms, of 1 "[]"] by (auto simp: GetLocator_def is_locator_def)

text \<open>A chain of three blocks with a fork at height one, for the witnesses.\<close>

definition sample_entry :: "bid \<Rightarrow> bid option \<Rightarrow> bid option \<Rightarrow> int \<Rightarrow> CBlockIndex" where
  "sample_entry h p s n = (new_CBlockIndex h block_SetNull)\<lparr>pprev := p, pskip := s, nHeight := n\<rparr>"

definition sample_index :: block_map where
  "sample_index = [[0] \<mapsto> sample_entry [0] None None 0, [1] \<mapsto> sample_entry [1] (Some [0]) (Some [0]) 1,
     [2] \<mapsto> sample_entry [2] (Some [1]) (Some [0]) 2, [3] \<mapsto> sample_entry [3] (Some [0]) (Some [0]) 1]"

lemma walk_numeral: "walk m (numeral k) p = (case m p of None \<Rightarrow> None | Some bi \<Rightarrow>
    (case pprev bi of None \<Rightarrow> None | Some q \<Rightarrow> walk m (pred_numeral k) q))"
  by (simp add: numeral_eq_Suc)

lemma sample_index_wf: "wf_index sample_index"
  by (auto simp: wf_index_def sample_index_def sample_entry_def wf_entry_def GetSkipHeight_def InvertLowestOne_def
      walk_numeral split: if_splits)


lemma sample_lookup:
  "sample_index [2] = Some (sample_entry [2] (Some [1]) (Some [0]) 2)"
  "sample_index [3] = Some (sample_entry [3] (Some [0]) (Some [0]) 1)"
  "sample_index [0] = Some (sample_entry [0] None None 0)" "sample_index [4] = None"
  by (simp_all add: sample_index_def)

lemma sample_entry_fields [simp]:
  "pprev (sample_entry h p s n) = p" "pskip (sample_entry h p s n) = s" "nHeight (sample_entry h p s n) = n"
  "(sample_entry h p s n)\<lparr>pskip := r\<rparr> = sample_entry h p r n"
  by (simp_all add: sample_entry_def new_CBlockIndex_def)

lemmas sample_simps = sample_index_def sample_entry_def path_def height_of_def walk_numeral

lemma sample_path: "path sample_index [2] = [Some [0], Some [1], Some [2]]"
  by (simp add: sample_simps upt_rec)

lemma sample_chain_ok: "chain_ok sample_index [Some [0], Some [1], Some [2]]"
proof -
  have "sample_index [2] = Some (sample_entry [2] (Some [1]) (Some [0]) 2)" by (simp add: sample_index_def)
  then show ?thesis using sample_path unfolding chain_ok_def by metis
qed

theorem GetAncestor_equals_walk_witness:
  "GetAncestor sample_index [2] 0 = Some (Some [0]) \<and> GetAncestor sample_index [2] 3 = Some None"
  using GetAncestor_equals_walk [OF sample_index_wf, of "[2]" _ 0] GetAncestor_equals_walk [OF sample_index_wf, of "[2]" _ 3]
  by (simp add: sample_simps)

theorem BuildSkip_keeps_index_witness:
  "\<exists>r. BuildSkip sample_index (sample_entry [4] (Some [2]) None 3) = Some (sample_entry [4] (Some [2]) r 3) \<and>
    wf_index (sample_index([4] \<mapsto> sample_entry [4] (Some [2]) r 3))"
  using BuildSkip_keeps_index [OF sample_index_wf sample_lookup(4,1), of "sample_entry [4] (Some [2]) None 3"] by simp

theorem SetTip_sets_path_witness:
  "SetTip sample_index [Some [0], Some [1], Some [2]] (Some [3]) = Some [Some [0], Some [3]]"
  using SetTip_sets_path [OF sample_index_wf sample_chain_ok, of "[3]"] by (simp add: sample_simps)

theorem FindFork_highest_common_witness:
  "FindFork sample_index [Some [0], Some [1], Some [2]] [3] = Some (Some [0])"
proof -
  have "ancestors sample_index [3] = {[3], [0]}"
    using ancestors_step [of sample_index "[3]" _ "[0]"] ancestors_root [of sample_index "[0]"] by (simp add: sample_lookup)
  moreover obtain r where "FindFork sample_index [Some [0], Some [1], Some [2]] [3] = Some r"
      "is_fork sample_index [Some [0], Some [1], Some [2]] [3] r"
    using FindFork_highest_common [OF sample_index_wf sample_chain_ok sample_lookup(2)] unfolding is_fork_def by blast
  ultimately show ?thesis unfolding is_fork_def by (cases r) (simp_all, elim conjE disjE, simp_all)
qed

theorem GetLocator_returns_witness:
  "\<exists>hs. GetLocator sample_index [Some [0], Some [1], Some [2]] (Some [3]) = Some hs \<and> hd hs = [3] \<and> height_of sample_index (last hs) = 0"
  using GetLocator_returns [OF sample_index_wf sample_chain_ok, of "[3]"] by (auto simp: sample_index_def)

end
