(* ===== verification/Pow.thy ===== *)
theory Pow
  imports Chain
begin

text \<open>
  Proof of work (\<open>src/pow.cpp\<close>): the retarget rule \<open>DarkGravityWave\<close>, the range check of \<open>CheckProofOfWork\<close> and the
  work of a block.  The chain parameters are arguments.  Times and counters are the \<open>int64_t\<close> of the code; they stay
  far below the limits, so plain integers are used and only the \<open>uint32_t\<close> multiplier of \<open>operator*=\<close> is truncated.
  \<open>None\<close> is an exception of a division, a failed assertion of \<open>GetCompact\<close> or a null pointer.
\<close>

section \<open>Definitions\<close>

definition PastBlocksMin :: int where "PastBlocksMin = 24"
definition PastBlocksMax :: int where "PastBlocksMax = 24"

text \<open>\<open>bnNew *= a; bnNew /= b\<close> on 64-bit integers: the multiplier is an \<open>uint32_t\<close>, the divisor an \<open>uint64_t\<close>.\<close>

definition bu_scale :: "base_uint \<Rightarrow> int \<Rightarrow> int \<Rightarrow> base_uint option" where
  "bu_scale bnNew a b = bu_div (bu_mul32 bnNew (of_int a)) (bu_of_uint64 WIDTH256 (of_int b))"

text \<open>The branch for heights above the last proof-of-work block; its last step on the spacing and the old target first.\<close>

definition pos_new_target :: "int \<Rightarrow> int \<Rightarrow> base_uint \<Rightarrow> base_uint option" where
  "pos_new_target nTargetSpacing nActualSpacing bnNew =
     (let bnTargetLimit = bu_shr (bu_not (bu_zero WIDTH256)) 24;
          nTargetTimespan = 60 * 40;
          nInterval = nTargetTimespan div nTargetSpacing
      in case bu_scale bnNew ((nInterval - 1) * nTargetSpacing + nActualSpacing + nActualSpacing)
                ((nInterval + 1) * nTargetSpacing) of
           None \<Rightarrow> None
         | Some bnNew \<Rightarrow>
             Some (if bu_CompareTo bnNew (bu_zero WIDTH256) \<le> 0 \<or> bu_CompareTo bnNew bnTargetLimit > 0
                   then bnTargetLimit else bnNew))"

definition pos_retarget :: "block_map \<Rightarrow> int \<Rightarrow> CBlockIndex \<Rightarrow> u32 option" where
  "pos_retarget m StakePointerForkHeight pindexLast =
     (let passed_fork = (nHeight pindexLast + 1 \<ge> 2565000);
          nTargetSpacing = (if passed_fork then 600 else 60)
      in if nHeight pindexLast + 1 = StakePointerForkHeight
         then GetCompact False (bu_shr (bu_not (bu_zero WIDTH256)) 24)
         else case (if nHeight pindexLast \<noteq> 0
                    then (case pprev pindexLast of None \<Rightarrow> None
                          | Some q \<Rightarrow> (case m q of None \<Rightarrow> None
                              | Some bj \<Rightarrow> Some (bi_GetBlockTime pindexLast - bi_GetBlockTime bj)))
                    else Some 0) of
             None \<Rightarrow> None
           | Some nActualSpacing \<Rightarrow>
               (case pos_new_target nTargetSpacing (if nActualSpacing < 0 then 1 else nActualSpacing)
                       (fst (SetCompact (bi_nBits pindexLast))) of
                  None \<Rightarrow> None
                | Some bnNew \<Rightarrow> GetCompact False bnNew))"

text \<open>
  The averaging loop: \<open>i\<close>, \<open>BlockReading\<close> and the variables it updates, \<open>CountBlocks\<close>, \<open>PastDifficultyAverage\<close>,
  \<open>PastDifficultyAveragePrev\<close>, \<open>LastBlockTime\<close> and \<open>nActualTimespan\<close>.
\<close>

type_synonym dgw_state = "int \<times> base_uint \<times> base_uint \<times> int \<times> int"

definition dgw_average :: "int \<Rightarrow> u32 \<Rightarrow> base_uint \<Rightarrow> base_uint \<Rightarrow> (base_uint \<times> base_uint) option" where
  "dgw_average CountBlocks nBits PastDifficultyAverage PastDifficultyAveragePrev =
     (if CountBlocks \<le> PastBlocksMin then
        (if CountBlocks = 1 then (let a = fst (SetCompact nBits) in Some (a, a))
         else case bu_div (bu_add (bu_mul32 PastDifficultyAveragePrev (of_int CountBlocks)) (fst (SetCompact nBits)))
                     (bu_of_uint64 WIDTH256 (of_int (CountBlocks + 1))) of
                None \<Rightarrow> None
              | Some a \<Rightarrow> Some (a, a))
      else Some (PastDifficultyAverage, PastDifficultyAveragePrev))"

function dgw_loop :: "block_map \<Rightarrow> int \<Rightarrow> bid option \<Rightarrow> dgw_state \<Rightarrow> dgw_state option" where
  "dgw_loop m i BlockReading (CountBlocks, Avg, AvgPrev, LastBlockTime, nActualTimespan) =
     (case BlockReading of None \<Rightarrow> Some (CountBlocks, Avg, AvgPrev, LastBlockTime, nActualTimespan)
      | Some p \<Rightarrow>
     (case m p of None \<Rightarrow> None
      | Some bi \<Rightarrow>
     (if nHeight bi > 0 then
       (if PastBlocksMax > 0 \<and> i > PastBlocksMax then Some (CountBlocks, Avg, AvgPrev, LastBlockTime, nActualTimespan)
        else (case dgw_average (CountBlocks + 1) (bi_nBits bi) Avg AvgPrev of
                None \<Rightarrow> None
              | Some (Avg, AvgPrev) \<Rightarrow>
                 (let nActualTimespan = (if LastBlockTime > 0 then nActualTimespan + (LastBlockTime - bi_GetBlockTime bi)
                                         else nActualTimespan);
                      LastBlockTime = bi_GetBlockTime bi
                  in if pprev bi = None then Some (CountBlocks + 1, Avg, AvgPrev, LastBlockTime, nActualTimespan)
                     else dgw_loop m (i + 1) (pprev bi) (CountBlocks + 1, Avg, AvgPrev, LastBlockTime, nActualTimespan))))
      else Some (CountBlocks, Avg, AvgPrev, LastBlockTime, nActualTimespan))))"
  by pat_completeness auto
termination by (relation "measure (\<lambda>(m, i, p, st). nat (PastBlocksMax + 1 - i))") (auto simp: PastBlocksMax_def)

declare dgw_loop.simps [simp del]

definition DarkGravityWave :: "base_uint \<Rightarrow> int \<Rightarrow> int \<Rightarrow> block_map \<Rightarrow> bid option \<Rightarrow> u32 option" where
  "DarkGravityWave ProofOfWorkLimit LAST_POW_BLOCK StakePointerForkHeight m pindexLast =
     (case pindexLast of None \<Rightarrow> GetCompact False ProofOfWorkLimit
      | Some p \<Rightarrow>
     (case m p of None \<Rightarrow> None
      | Some bi \<Rightarrow>
     (if nHeight bi = 0 \<or> nHeight bi < PastBlocksMin then GetCompact False ProofOfWorkLimit
      else if nHeight bi > LAST_POW_BLOCK then pos_retarget m StakePointerForkHeight bi
      else case dgw_loop m 1 pindexLast (0, bu_zero WIDTH256, bu_zero WIDTH256, 0, 0) of
             None \<Rightarrow> None
           | Some (CountBlocks, bnNew, AvgPrev, LastBlockTime, nActualTimespan) \<Rightarrow>
              (let nTargetTimespan = CountBlocks * 60;
                   nActualTimespan = (if nActualTimespan < nTargetTimespan div 3 then nTargetTimespan div 3 else nActualTimespan);
                   nActualTimespan = (if nActualTimespan > nTargetTimespan * 3 then nTargetTimespan * 3 else nActualTimespan)
               in case bu_scale bnNew nActualTimespan nTargetTimespan of
                    None \<Rightarrow> None
                  | Some bnNew \<Rightarrow>
                      GetCompact False (if bu_CompareTo bnNew ProofOfWorkLimit > 0 then ProofOfWorkLimit else bnNew)))))"

definition GetNextWorkRequired :: "base_uint \<Rightarrow> int \<Rightarrow> int \<Rightarrow> block_map \<Rightarrow> bid option \<Rightarrow> u32 option" where
  "GetNextWorkRequired ProofOfWorkLimit LAST_POW_BLOCK StakePointerForkHeight m pindexLast =
     DarkGravityWave ProofOfWorkLimit LAST_POW_BLOCK StakePointerForkHeight m pindexLast"

definition CheckProofOfWork :: "bool \<Rightarrow> base_uint \<Rightarrow> base_uint \<Rightarrow> u32 \<Rightarrow> bool" where
  "CheckProofOfWork SkipProofOfWorkCheck ProofOfWorkLimit hash nBits =
     (if SkipProofOfWorkCheck then True
      else case SetCompact nBits of (bnTarget, fNegative, fOverflow) \<Rightarrow>
        if fNegative \<or> bu_EqualTo bnTarget 0 \<or> fOverflow \<or> bu_CompareTo bnTarget ProofOfWorkLimit > 0 then False else True)"

definition GetBlockProof :: "CBlockIndex \<Rightarrow> base_uint option" where
  "GetBlockProof block =
     (case SetCompact (bi_nBits block) of (bnTarget, fNegative, fOverflow) \<Rightarrow>
        if fNegative \<or> fOverflow \<or> bu_EqualTo bnTarget 0 then Some (bu_zero WIDTH256)
        else case bu_div (bu_not bnTarget) (bu_add_u64 bnTarget 1) of
               None \<Rightarrow> None | Some q \<Rightarrow> Some (bu_add_u64 q 1))"

section \<open>Values\<close>

lemma bu_add_u64_val: "2 \<le> length a \<Longrightarrow> bu_val (bu_add_u64 a k) = (bu_val a + unat k) mod 2 ^ (32 * length a)"
  by (simp add: bu_add_u64_def bu_add_val bu_of_uint64_val)

lemma length_bu_add_u64 [simp]: "2 \<le> length a \<Longrightarrow> length (bu_add_u64 a k) = length a"
  by (simp add: bu_add_u64_def)

lemma length_SetCompact [simp]: "length (fst (SetCompact c)) = WIDTH256"
  by (cases "SetCompact c") (simp add: SetCompact_spec(2))

lemma bu_val_not: "bu_val (bu_not a) = 2 ^ (32 * length a) - 1 - bu_val a"
  using bu_not_val [of a] by simp

lemma bu_val_0_iff: "bu_val a = 0 \<longleftrightarrow> (\<forall>x \<in> set a. x = 0)"
  by (induction a) (auto simp: unsigned_eq_0_iff)

lemma ucast_u32_u64_0: "ucast (x :: u32) = (0 :: u64) \<longleftrightarrow> x = 0"
  by (metis unat_ucast_u32_64 unsigned_0 unsigned_eq_0_iff)

lemma bu_EqualTo_0: "2 \<le> length a \<Longrightarrow> bu_EqualTo a 0 \<longleftrightarrow> bu_val a = 0"
proof -
  assume "2 \<le> length a"
  then obtain x y r where "a = x # y # r" by (metis Suc_le_length_iff numeral_2_eq_2)
  then show ?thesis unfolding bu_EqualTo_def bu_val_0_iff by (auto simp: list_all_iff ucast_u32_u64_0)
qed

text \<open>A compact target never reaches the largest 256-bit number.\<close>

lemma SetCompact_bound: "bu_val (fst (SetCompact c)) + 1 < 2 ^ 256"
proof -
  obtain v neg ovf where v: "SetCompact c = (v, neg, ovf)" by (cases "SetCompact c") auto
  note val = SetCompact_spec(1) [OF v]
  have m: "compact_mantissa c < 2 ^ 23" by (simp add: compact_mantissa_def)
  show ?thesis
  proof (cases "compact_size c \<le> 3")
    case True
    then have "bu_val v \<le> compact_mantissa c" using val by simp
    with m v show ?thesis by simp
  next
    case False
    then have "(2 :: nat) dvd 256 ^ (compact_size c - 3)" by (simp add: dvd_power_iff dvd_power)
    then have "2 dvd bu_val v" using False val by (simp add: dvd_mod)
    moreover have "bu_val v < 2 ^ 256" using bu_val_lt [of v] SetCompact_spec(2) [OF v] by simp
    moreover have "\<not> 2 dvd (2 ^ 256 - 1 :: nat)" by simp
    ultimately have "bu_val v \<noteq> 2 ^ 256 - 1" by metis
    then show ?thesis using v \<open>bu_val v < 2 ^ 256\<close> by (simp del: power_numeral)
  qed
qed


lemma target_plus_1: "bu_val (bu_add_u64 (fst (SetCompact c)) 1) = bu_val (fst (SetCompact c)) + 1"
  using SetCompact_bound [of c] by (simp add: bu_add_u64_val)

lemma bu_div_target:
  assumes "length a = WIDTH256"
  shows "\<exists>q. bu_div a (bu_add_u64 (fst (SetCompact c)) 1) = Some q \<and> length q = WIDTH256 \<and>
    bu_val q = bu_val a div (bu_val (fst (SetCompact c)) + 1)"
  using bu_div_val [of a "bu_add_u64 (fst (SetCompact c)) 1"] assms by (auto simp: target_plus_1)

lemma bu_CompareTo_zero:
  assumes "length a = WIDTH256"
  shows "bu_CompareTo a (bu_zero WIDTH256) \<le> 0 \<longleftrightarrow> bu_val a = 0"
  using assms by (simp add: bu_CompareTo_val)

lemma GetBlockProof_val:
  "\<exists>w. GetBlockProof bi = Some w \<and> length w = WIDTH256 \<and>
    bu_val w = (case SetCompact (bi_nBits bi) of (t, neg, ovf) \<Rightarrow>
      if neg \<or> ovf \<or> bu_val t = 0 then 0 else 2 ^ 256 div (bu_val t + 1))"
proof -
  obtain t neg ovf where t: "SetCompact (bi_nBits bi) = (t, neg, ovf)" by (cases "SetCompact (bi_nBits bi)") auto
  have len: "length t = 8" using length_SetCompact [of "bi_nBits bi"] t by simp
  show ?thesis
  proof (cases "neg \<or> ovf \<or> bu_val t = 0")
    case True
    then show ?thesis using t len by (auto simp: GetBlockProof_def bu_EqualTo_0)
  next
    case False
    let ?T = "bu_val t"
    have T: "?T + 1 < 2 ^ 256" using SetCompact_bound [of "bi_nBits bi"] t by simp
    obtain q where q: "bu_div (bu_not t) (bu_add_u64 t 1) = Some q" "length q = 8" "bu_val q = bu_val (bu_not t) div (?T + 1)"
      using bu_div_target [of "bu_not t" "bi_nBits bi"] t len by auto
    have "2 ^ 256 = (2 ^ 256 - 1 - ?T) + (?T + 1)" using T by (simp del: power_numeral)
    then have "2 ^ 256 div (?T + 1) = ((2 ^ 256 - 1 - ?T) + (?T + 1)) div (?T + 1)" by metis
    also have "\<dots> = (2 ^ 256 - 1 - ?T) div (?T + 1) + 1" by (rule div_add_self2) simp
    finally have quot: "bu_val q + 1 = 2 ^ 256 div (?T + 1)" using q(3) len by (simp add: bu_val_not)
    have "2 ^ 256 div (?T + 1) < (2 :: nat) ^ 256" using False by (intro div_less_dividend) auto
    then have "bu_val (bu_add_u64 q 1) = 2 ^ 256 div (?T + 1)" using q(2) quot by (simp add: bu_add_u64_val del: power_numeral)
    then show ?thesis using False t len q by (auto simp: GetBlockProof_def bu_EqualTo_0)
  qed
qed

lemma GetBlockTrust_val:
  "\<exists>w. GetBlockTrust bi = Some w \<and> length w = WIDTH256 \<and>
    bu_val w = (let T = bu_val (fst (SetCompact (bi_nBits bi)))
                in if T = 0 \<or> bi_IsProofOfStake bi then 0 else max ((2 ^ 236 - 1) div (T + 1)) 1)"
proof -
  define t where "t = fst (SetCompact (bi_nBits bi))"
  have len: "length t = 8" by (simp add: t_def)
  have one: "bu_val (bu_of_uint64 WIDTH256 1) = 1" by (simp add: bu_of_uint64_val)
  show ?thesis
  proof (cases "bu_val t = 0 \<or> bi_IsProofOfStake bi")
    case True
    obtain q where "bu_div (bu_shl (bu_of_uint64 WIDTH256 1) 256) (bu_add_u64 t 1) = Some q" "length q = 8" "bu_val q = 0"
      using bu_div_target [of "bu_shl (bu_of_uint64 WIDTH256 1) 256" "bi_nBits bi"]
      by (auto simp: bu_shl_val one simp flip: t_def)
    with True len show ?thesis by (auto simp: GetBlockTrust_def Let_def bu_CompareTo_val simp flip: t_def)
  next
    case False
    have "bu_val (bu_shr (bu_not (bu_zero WIDTH256)) 20) = 2 ^ 236 - 1" by (simp add: bu_shr_val bu_val_not)
    then obtain q where "bu_div (bu_shr (bu_not (bu_zero WIDTH256)) 20) (bu_add_u64 t 1) = Some q" "length q = 8"
        "bu_val q = (2 ^ 236 - 1) div (bu_val t + 1)"
      using bu_div_target [of "bu_shr (bu_not (bu_zero WIDTH256)) 20" "bi_nBits bi"] by (auto simp flip: t_def)
    with False len one show ?thesis by (auto simp: GetBlockTrust_def Let_def bu_CompareTo_val max_def simp flip: t_def)
  qed
qed


section \<open>The retarget rule\<close>

lemma unat_of_int_u32: "unat (of_int a :: u32) = nat (a mod 2 ^ 32)"
  by (simp add: unsigned_of_int take_bit_eq_mod)

lemma unat_of_int_u64: "0 \<le> b \<Longrightarrow> b < 2 ^ 64 \<Longrightarrow> unat (of_int b :: u64) = nat b"
  by (simp add: unsigned_of_int take_bit_eq_mod)

lemma bu_scale_val:
  assumes "length x = WIDTH256" "0 < b" "b < 2 ^ 64"
  shows "\<exists>q. bu_scale x a b = Some q \<and> length q = WIDTH256 \<and>
    bu_val q = (bu_val x * nat (a mod 2 ^ 32)) mod 2 ^ 256 div nat b"
proof -
  have "unat (of_int b :: u64) = nat b" using assms by (intro unat_of_int_u64) auto
  then have "bu_val (bu_of_uint64 WIDTH256 (of_int b)) = nat b" by (simp add: bu_of_uint64_val)
  with assms show ?thesis
    using bu_div_val [of "bu_mul32 x (of_int a)" "bu_of_uint64 WIDTH256 (of_int b)"]
    by (auto simp: bu_scale_def bu_mul32_def bu_mul32_val [unfolded bu_mul32_def] unat_of_int_u32)
qed

lemma GetCompact_le:
  assumes "length x = WIDTH256"
  shows "\<exists>c v. GetCompact False x = Some c \<and> SetCompact c = (v, False, False) \<and> bu_val v \<le> bu_val x"
  using GetCompact_SetCompact_floor [OF assms] by (metis div_times_less_eq_dividend)

definition pos_limit :: nat where
  "pos_limit = 2 ^ 232 - 1"

lemma bnTargetLimit_val:
  "length (bu_shr (bu_not (bu_zero WIDTH256)) 24) = WIDTH256" "bu_val (bu_shr (bu_not (bu_zero WIDTH256)) 24) = pos_limit"
  by (simp_all add: bu_shr_val bu_val_not pos_limit_def)

text \<open>The spacing that the rule uses, and the target it computes before it is made compact.\<close>

definition pos_spacing :: "CBlockIndex \<Rightarrow> CBlockIndex \<Rightarrow> int" where
  "pos_spacing bi bj = (let d = bi_GetBlockTime bi - bi_GetBlockTime bj in if d < 0 then 1 else d)"

definition target_spacing :: "CBlockIndex \<Rightarrow> int" where
  "target_spacing bi = (if nHeight bi + 1 \<ge> 2565000 then 600 else 60)"

definition pos_target :: "nat \<Rightarrow> int \<Rightarrow> int \<Rightarrow> nat" where
  "pos_target T S d = (let v = (T * nat ((2400 - S + 2 * d) mod 2 ^ 32)) mod 2 ^ 256 div nat (2400 + S)
                       in if v = 0 \<or> v > pos_limit then pos_limit else v)"

lemma pos_retarget_val:
  assumes wf: "wf_index m" and p: "m p = Some bi" and h: "0 < nHeight bi" and fork: "nHeight bi + 1 \<noteq> fork"
  shows "\<exists>q bj x. pprev bi = Some q \<and> m q = Some bj \<and> pos_retarget m fork bi = GetCompact False x \<and> length x = WIDTH256 \<and>
    bu_val x = pos_target (bu_val (fst (SetCompact (bi_nBits bi)))) (target_spacing bi) (pos_spacing bi bj)"
proof -
  from wf_prev [OF wf p h] obtain q bj where q: "pprev bi = Some q" "m q = Some bj" by blast
  define S where "S = target_spacing bi"
  define d where "d = pos_spacing bi bj"
  define T where "T = fst (SetCompact (bi_nBits bi))"
  have S: "S = 60 \<or> S = 600" by (simp add: S_def target_spacing_def)
  then have ab: "(60 * 40 div S - 1) * S + d + d = 2400 - S + 2 * d" "(60 * 40 div S + 1) * S = 2400 + S" "0 < 2400 + S"
    "2400 + S < 2 ^ 64" by auto
  obtain y where y: "bu_scale T (2400 - S + 2 * d) (2400 + S) = Some y" "length y = WIDTH256"
    "bu_val y = (bu_val T * nat ((2400 - S + 2 * d) mod 2 ^ 32)) mod 2 ^ 256 div nat (2400 + S)"
    using bu_scale_val [of T "2400 + S" "2400 - S + 2 * d"] ab(3,4) by (auto simp: T_def)
  define L where "L = bu_shr (bu_not (bu_zero WIDTH256)) 24"
  define x where "x = (if bu_CompareTo y (bu_zero WIDTH256) \<le> 0 \<or> bu_CompareTo y L > 0 then L else y)"
  have L: "length L = WIDTH256" "bu_val L = pos_limit" using bnTargetLimit_val by (simp_all add: L_def)
  have x: "length x = WIDTH256" using y(2) L(1) by (simp add: x_def)
  have "bu_val x = (if bu_val y = 0 \<or> bu_val y > pos_limit then pos_limit else bu_val y)"
    using y(2) L by (simp add: x_def bu_CompareTo_val)
  then have xv: "bu_val x = pos_target (bu_val T) S d" unfolding pos_target_def Let_def y(3) .
  have "pos_new_target S d T = Some x" unfolding pos_new_target_def Let_def ab(1,2) y(1) option.case x_def L_def ..
  moreover have "pos_retarget m fork bi = (case pos_new_target S d T of None \<Rightarrow> None | Some bnNew \<Rightarrow> GetCompact False bnNew)"
    using q h fork by (simp add: pos_retarget_def Let_def S_def d_def T_def target_spacing_def pos_spacing_def)
  ultimately have "pos_retarget m fork bi = GetCompact False x" by simp
  with q x xv show ?thesis unfolding S_def d_def T_def by blast
qed

lemma pos_target_le: "pos_target T S d \<le> pos_limit"
  by (simp add: pos_target_def Let_def)

lemma dgw_average_Some:
  assumes "1 \<le> n" "length a = WIDTH256" "length b = WIDTH256"
  obtains a' b' where "dgw_average n bits a b = Some (a', b')" "length a' = WIDTH256" "length b' = WIDTH256"
proof (cases "n \<le> PastBlocksMin \<and> n \<noteq> 1")
  case True
  then have "unat (of_int (n + 1) :: u64) = nat (n + 1)" using assms by (intro unat_of_int_u64) (auto simp: PastBlocksMin_def)
  then have "bu_val (bu_of_uint64 WIDTH256 (of_int (n + 1))) \<noteq> 0" using assms by (simp add: bu_of_uint64_val)
  then obtain q where "bu_div (bu_add (bu_mul32 b (of_int n)) (fst (SetCompact bits))) (bu_of_uint64 WIDTH256 (of_int (n + 1))) = Some q"
      "length q = WIDTH256"
    using bu_div_val [of "bu_add (bu_mul32 b (of_int n)) (fst (SetCompact bits))" "bu_of_uint64 WIDTH256 (of_int (n + 1))"] assms
    by (auto simp: bu_mul32_def)
  with True show ?thesis by (intro that [of q q]) (auto simp: dgw_average_def)
next
  case False
  then show ?thesis using assms by (intro that [of "if n = 1 then fst (SetCompact bits) else a" "if n = 1 then fst (SetCompact bits) else b"])
      (auto simp: dgw_average_def Let_def PastBlocksMin_def)
qed

lemma dgw_loop_Some:
  assumes wf: "wf_index m"
  shows "m p = Some bi \<Longrightarrow> 1 \<le> i \<Longrightarrow> length a = WIDTH256 \<Longrightarrow> length b = WIDTH256 \<Longrightarrow>
    \<exists>n a' b' l' s'. dgw_loop m i (Some p) (i - 1, a, b, l, s) = Some (n, a', b', l', s') \<and> length a' = WIDTH256 \<and>
      i - 1 \<le> n \<and> n \<le> max 24 (i - 1) \<and> (0 < nHeight bi \<and> i \<le> 24 \<longrightarrow> i \<le> n)"
proof (induction "nat (PastBlocksMax + 1 - i)" arbitrary: i p bi a b l s rule: less_induct)
  case less
  show ?case
  proof (cases "0 < nHeight bi \<and> i \<le> 24")
    case False
    then show ?thesis using less.prems by (auto simp: dgw_loop.simps PastBlocksMax_def)
  next
    case True
    obtain a' b' where av: "dgw_average i (bi_nBits bi) a b = Some (a', b')" "length a' = WIDTH256" "length b' = WIDTH256"
      using dgw_average_Some less.prems by metis
    from True have "0 < nHeight bi" by simp
    from wf_prev [OF wf less.prems(1) this] obtain q bj where q: "pprev bi = Some q" "m q = Some bj" by blast
    let ?s = "if l > 0 then s + (l - bi_GetBlockTime bi) else s"
    have "dgw_loop m i (Some p) (i - 1, a, b, l, s) = dgw_loop m (i + 1) (Some q) (i, a', b', bi_GetBlockTime bi, ?s)"
      using True less.prems q av by (simp add: dgw_loop.simps [of m i] PastBlocksMax_def Let_def)
    moreover have "nat (PastBlocksMax + 1 - (i + 1)) < nat (PastBlocksMax + 1 - i)" using True by (simp add: PastBlocksMax_def)
    from less.hyps [OF this q(2) _ av(2,3), of "bi_GetBlockTime bi" ?s] True less.prems(2) obtain n a2 b2 l2 s2 where
      "dgw_loop m (i + 1) (Some q) (i, a', b', bi_GetBlockTime bi, ?s) = Some (n, a2, b2, l2, s2)" "length a2 = WIDTH256"
      "i \<le> n" "n \<le> max 24 i" by auto
    ultimately show ?thesis using True by auto
  qed
qed

lemma GetNextWorkRequired_total:
  assumes wf: "wf_index m" and lim: "length limit = WIDTH256" and p: "\<And>q. pindex = Some q \<Longrightarrow> \<exists>bi. m q = Some bi"
  shows "\<exists>x. length x = WIDTH256 \<and> bu_val x \<le> max (bu_val limit) pos_limit \<and>
    GetNextWorkRequired limit lastpow fork m pindex = GetCompact False x"
proof (cases pindex)
  case None
  then show ?thesis using lim by (intro exI [of _ limit]) (simp add: GetNextWorkRequired_def DarkGravityWave_def)
next
  case (Some q)
  with p obtain bi where bi: "m q = Some bi" by blast
  consider "nHeight bi < 24" | "24 \<le> nHeight bi" "nHeight bi > lastpow" "nHeight bi + 1 = fork"
    | "24 \<le> nHeight bi" "nHeight bi > lastpow" "nHeight bi + 1 \<noteq> fork" | "24 \<le> nHeight bi" "\<not> nHeight bi > lastpow" by linarith
  then show ?thesis
  proof cases
    case 1
    then show ?thesis using lim Some bi
      by (intro exI [of _ limit]) (simp add: GetNextWorkRequired_def DarkGravityWave_def PastBlocksMin_def)
  next
    case 2
    then show ?thesis using Some bi bnTargetLimit_val
      by (intro exI [of _ "bu_shr (bu_not (bu_zero WIDTH256)) 24"])
        (simp add: GetNextWorkRequired_def DarkGravityWave_def PastBlocksMin_def pos_retarget_def Let_def)
  next
    case 3
    then have "0 < nHeight bi" by simp
    from pos_retarget_val [OF wf bi this 3(3)] obtain x where "pos_retarget m fork bi = GetCompact False x" "length x = WIDTH256"
      "bu_val x \<le> pos_limit" using pos_target_le by metis
    then show ?thesis using Some bi 3
      by (intro exI [of _ x]) (simp add: GetNextWorkRequired_def DarkGravityWave_def PastBlocksMin_def)
  next
    case 4
    obtain n a' b' l' s' where loop: "dgw_loop m 1 (Some q) (0, bu_zero WIDTH256, bu_zero WIDTH256, 0, 0) = Some (n, a', b', l', s')"
      "length a' = WIDTH256" "1 \<le> n" "n \<le> 24"
      using dgw_loop_Some [OF wf bi, of 1 "bu_zero WIDTH256" "bu_zero WIDTH256" 0 0] 4 by auto
    define sp where "sp = (let s = (if s' < n * 60 div 3 then n * 60 div 3 else s') in if s > n * 60 * 3 then n * 60 * 3 else s)"
    obtain y where y: "bu_scale a' sp (n * 60) = Some y" "length y = WIDTH256" using bu_scale_val [of a' "n * 60" sp] loop by auto
    let ?x = "if bu_CompareTo y limit > 0 then limit else y"
    have "GetNextWorkRequired limit lastpow fork m pindex = (case bu_scale a' sp (n * 60) of None \<Rightarrow> None
        | Some bnNew \<Rightarrow> GetCompact False (if bu_CompareTo bnNew limit > 0 then limit else bnNew))" using Some bi 4 loop(1)
      by (simp add: GetNextWorkRequired_def DarkGravityWave_def PastBlocksMin_def Let_def sp_def)
    then have "GetNextWorkRequired limit lastpow fork m pindex = GetCompact False ?x" using y(1) by simp
    moreover have "length ?x = WIDTH256 \<and> bu_val ?x \<le> bu_val limit" using lim y by (auto simp: bu_CompareTo_val)
    ultimately show ?thesis by (intro exI [of _ ?x]) auto
  qed
qed

section \<open>Properties\<close>

text \<open>
  C20: the retarget rule always answers: on a well-formed index \<open>GetNextWorkRequired\<close> follows no null pointer, divides by
  no zero and trips no assertion, whatever the height, and the compact target it returns is unsigned, does not
  overflow and is at most the larger of the proof-of-work limit and the proof-of-stake limit.
\<close>

theorem GetNextWorkRequired_bounded:
  assumes "wf_index m" "length limit = WIDTH256" "m p = Some bi"
  shows "\<exists>c v. GetNextWorkRequired limit lastpow fork m (Some p) = Some c \<and> SetCompact c = (v, False, False) \<and>
    bu_val v \<le> max (bu_val limit) (2 ^ 232 - 1)"
proof -
  obtain x where x: "length x = WIDTH256" "bu_val x \<le> max (bu_val limit) pos_limit"
      "GetNextWorkRequired limit lastpow fork m (Some p) = GetCompact False x"
    using GetNextWorkRequired_total [of m limit "Some p" lastpow fork] assms by auto
  from GetCompact_le [OF x(1)] obtain c v where "GetCompact False x = Some c" "SetCompact c = (v, False, False)" "bu_val v \<le> bu_val x"
    by blast
  with x show ?thesis unfolding pos_limit_def by (metis order_trans)
qed

theorem GetNextWorkRequired_bounded_witness:
  "\<exists>c v. GetNextWorkRequired (bu_shr (bu_not (bu_zero 8)) 20) 1000 2000 sample_index (Some [2]) = Some c \<and>
    SetCompact c = (v, False, False) \<and> bu_val v < 2 ^ 236"
proof -
  have "bu_val (bu_shr (bu_not (bu_zero 8)) 20) = 2 ^ 236 - 1" by (simp add: bu_shr_val bu_val_not)
  then show ?thesis
    using GetNextWorkRequired_bounded [OF sample_index_wf, of "bu_shr (bu_not (bu_zero 8)) 20" "[2]" _ 1000 2000] sample_lookup(1)
    by fastforce
qed

text \<open>
  Above the last proof-of-work height, off the fork height, and while the old target is within the limit and blocks
  come less than ninety days apart, the new target is exactly the exponential moving average of the rule: the old
  target times the timespan less the target spacing plus twice the actual one, over the timespan plus the target
  spacing, replaced by the limit when it is zero or above it, and then made compact: nothing wraps.
\<close>

theorem pos_retarget_formula:
  assumes "wf_index m" "m p = Some bi" "lastpow < nHeight bi" "24 \<le> nHeight bi" "nHeight bi + 1 \<noteq> fork"
    and "pprev bi = Some q" "m q = Some bj" "d = max (int (unat (bi_nTime bi)) - int (unat (bi_nTime bj))) 0" "d < 8000000"
    and "T = bu_val (fst (SetCompact (bi_nBits bi)))" "T < 2 ^ 232" "0 < d"
    and "S = (if nHeight bi + 1 \<ge> 2565000 then 600 else 60 :: int)" "V = T * nat (2400 - S + 2 * d) div nat (2400 + S)"
  shows "\<exists>x. GetNextWorkRequired limit lastpow fork m (Some p) = GetCompact False x \<and> length x = WIDTH256 \<and>
    bu_val x = (if V = 0 \<or> V \<ge> 2 ^ 232 then 2 ^ 232 - 1 else V)"
proof -
  have "0 < nHeight bi" using assms(4) by simp
  from pos_retarget_val [OF assms(1,2) this assms(5)] obtain x where x: "length x = WIDTH256"
      "pos_retarget m fork bi = GetCompact False x" "bu_val x = pos_target T (target_spacing bi) (pos_spacing bi bj)"
    using assms(6,7,10) by auto
  have d: "pos_spacing bi bj = d" "target_spacing bi = S" using assms(8,12,13)
    by (auto simp: pos_spacing_def target_spacing_def bi_GetBlockTime_def Let_def)
  have S: "S = 60 \<or> S = 600" using assms(13) by auto
  then have k: "nat ((2400 - S + 2 * d) mod 2 ^ 32) = nat (2400 - S + 2 * d)" "nat (2400 - S + 2 * d) \<le> 2 ^ 24"
    using assms(9,12) by auto
  have "T * nat (2400 - S + 2 * d) \<le> (2 ^ 232 - 1) * 2 ^ 24" using k(2) assms(11) by (intro mult_le_mono) auto
  then have "T * nat (2400 - S + 2 * d) < 2 ^ 256" by simp
  then have "(T * nat (2400 - S + 2 * d)) mod 2 ^ 256 = T * nat (2400 - S + 2 * d)" by (rule mod_less)
  then have "pos_target T S d = (if V = 0 \<or> V > pos_limit then pos_limit else V)"
    unfolding pos_target_def Let_def k(1) assms(14) by simp
  moreover have "V > pos_limit \<longleftrightarrow> V \<ge> 2 ^ 232" by (auto simp: pos_limit_def)
  ultimately show ?thesis using x d assms(2,3,4)
    by (intro exI [of _ x]) (simp add: GetNextWorkRequired_def DarkGravityWave_def PastBlocksMin_def pos_limit_def)
qed

text \<open>A chain of any length, for the witness: the block at height \<open>h\<close> has the key of the single limb \<open>h\<close>.\<close>

definition line_entry :: "u32 \<Rightarrow> CBlockIndex" where
  "line_entry w = (new_CBlockIndex [w] block_SetNull)\<lparr>pprev := (if w = 0 then None else Some [w - 1]),
     pskip := (if w = 0 then None else Some [of_nat (GetSkipHeight (unat w))]), nHeight := int (unat w),
     bi_nTime := 100 * w, bi_nBits := 0x1d00ffff\<rparr>"

definition line_index :: "nat \<Rightarrow> block_map" where
  "line_index N p = (if length p = 1 \<and> unat (hd p) \<le> N then Some (line_entry (hd p)) else None)"

lemma line_walk: "n \<le> h \<Longrightarrow> h \<le> N \<Longrightarrow> N < 2 ^ 32 \<Longrightarrow> walk (line_index N) n [of_nat h] = Some [of_nat (h - n)]"
proof (induction n arbitrary: h)
  case (Suc n)
  have u: "unat (of_nat h :: u32) = h" using Suc.prems by (intro unat_of_nat_small) simp
  then have "(of_nat h :: u32) \<noteq> 0" using Suc.prems by (metis unsigned_0 Suc_le_eq not_less_zero)
  moreover have "(of_nat h - 1 :: u32) = of_nat (h - 1)" using Suc.prems by (simp add: of_nat_diff)
  ultimately show ?case using Suc.IH [of "h - 1"] Suc.prems u by (simp add: line_index_def line_entry_def)
qed simp

lemma line_index_wf: "N < 2 ^ 32 \<Longrightarrow> wf_index (line_index N)"
proof -
  assume N: "N < 2 ^ 32"
  have "wf_entry (line_index N) [w] (line_entry w)" if w: "unat w \<le> N" for w :: u32
  proof (cases "w = 0")
    case False
    then have pos: "0 < unat w" by (simp add: unsigned_eq_0_iff word_gt_0 unat_gt_0)
    then have u1: "unat (w - 1) = unat w - 1" by (metis One_nat_def unat_minus_one False)
    have "walk (line_index N) (unat w - GetSkipHeight (unat w)) [of_nat (unat w)] = Some [of_nat (GetSkipHeight (unat w))]"
      using line_walk [of "unat w - GetSkipHeight (unat w)" "unat w" N] GetSkipHeight_less [OF pos] w N by simp
    moreover have "0 < uint w" using False by (simp add: order_less_le uint_0_iff)
    moreover have "unat w - Suc 0 \<le> N" using w by simp
    ultimately show ?thesis using False pos u1 w by (simp add: wf_entry_def line_entry_def line_index_def)
  qed (simp add: wf_entry_def line_entry_def)
  then show ?thesis by (auto simp: wf_index_def line_index_def length_Suc_conv split: if_splits)
qed

theorem pos_retarget_formula_witness:
  "\<exists>x. GetNextWorkRequired (bu_zero 8) 30 0 (line_index 40) (Some [40]) = GetCompact False x \<and>
    bu_val x = (0xffff * 256 ^ 26) * 2540 div 2460"
proof -
  have p: "line_index 40 [40] = Some (line_entry 40)" "line_index 40 [39] = Some (line_entry 39)" by (simp_all add: line_index_def)
  have T: "bu_val (fst (SetCompact (bi_nBits (line_entry 40)))) = 0xffff * 256 ^ 26"
    using SetCompact_spec(1) [of "0x1d00ffff" "fst (SetCompact 0x1d00ffff)"]
    by (cases "SetCompact 0x1d00ffff") (simp add: line_entry_def compact_size_def compact_mantissa_def)
  show ?thesis
    using pos_retarget_formula [OF line_index_wf p(1), where lastpow = 30 and fork = 0 and q = "[39]" and bj = "line_entry 39"
        and d = 100 and T = "0xffff * 256 ^ 26" and S = 60 and V = "(0xffff * 256 ^ 26) * 2540 div 2460" and limit = "bu_zero 8"] T p(2)
    by (auto simp: line_entry_def)
qed

text \<open>
  The work of a block is the expected number of hashes, two to the 256th over the target plus one, for every
  compact target that is positive and in range and zero otherwise, without ever overflowing or dividing by zero;
  the trust of a proof-of-work block is a positive share of two to the 236th, while the trust of every
  proof-of-stake block is zero, since the one that the code shifts left by 256 bits is lost.
\<close>

theorem work_and_trust:
  "(\<exists>w. GetBlockProof bi = Some w \<and>
     bu_val w = (case SetCompact (bi_nBits bi) of (t, neg, ovf) \<Rightarrow>
       if neg \<or> ovf \<or> bu_val t = 0 then 0 else 2 ^ 256 div (bu_val t + 1))) \<and>
   (\<exists>w. GetBlockTrust bi = Some w \<and>
     bu_val w = (let T = bu_val (fst (SetCompact (bi_nBits bi)))
                 in if T = 0 \<or> bi_IsProofOfStake bi then 0 else max ((2 ^ 236 - 1) div (T + 1)) 1))"
  using GetBlockProof_val [of bi] GetBlockTrust_val [of bi] by blast

text \<open>The hash is not an input of the proof-of-work check: only the range of the target is.\<close>

theorem CheckProofOfWork_range:
  assumes "length limit = WIDTH256"
  shows "CheckProofOfWork skip limit hash nBits \<longleftrightarrow> skip \<or>
    (case SetCompact nBits of (t, neg, ovf) \<Rightarrow> \<not> neg \<and> \<not> ovf \<and> 0 < bu_val t \<and> bu_val t \<le> bu_val limit)"
proof -
  obtain t neg ovf where t: "SetCompact nBits = (t, neg, ovf)" by (cases "SetCompact nBits") auto
  have "length t = WIDTH256" using length_SetCompact [of nBits] t by simp
  then show ?thesis using t assms by (auto simp: CheckProofOfWork_def bu_EqualTo_0 bu_CompareTo_val)
qed

end
