(* ===== verification/Compressor.thy ===== *)
theory Compressor
  imports Chain
begin

text \<open>
  The compact form in which outputs are stored in the coin database and in undo data (\<open>src/compressor.h\<close>,
  \<open>src/compressor.cpp\<close>).  Amounts are natural numbers below two to the 64th, with the \<open>uint64_t\<close> products reduced.  The
  elliptic-curve operations \<open>CPubKey::IsFullyValid\<close> and \<open>CPubKey::Decompress\<close> are parameters; the key law says that
  decompression inverts the compression of a fully valid key.  A script of which decompression fails is left as it was,
  so reading takes the previous script as an argument.
\<close>

section \<open>Amounts\<close>

function strip_zeros :: "nat \<Rightarrow> nat \<Rightarrow> nat \<times> nat" where
  "strip_zeros n e = (if n mod 10 = 0 \<and> e < 9 then strip_zeros (n div 10) (e + 1) else (n, e))"
  by pat_completeness auto
termination by (relation "measure (\<lambda>(n, e). 9 - e)") auto

declare strip_zeros.simps [simp del]

definition CompressAmount :: "nat \<Rightarrow> nat" where
  "CompressAmount n =
     (if n = 0 then 0
      else case strip_zeros n 0 of (n, e) \<Rightarrow>
        if e < 9 then (let d = n mod 10; n = n div 10 in (1 + (n * 9 + d - 1) * 10 + e) mod 2 ^ 64)
        else (1 + (n - 1) * 10 + 9) mod 2 ^ 64)"

fun mul10_loop :: "nat \<Rightarrow> nat \<Rightarrow> nat" where
  "mul10_loop 0 n = n"
| "mul10_loop (Suc e) n = mul10_loop e (n * 10 mod 2 ^ 64)"

definition DecompressAmount :: "nat \<Rightarrow> nat" where
  "DecompressAmount x =
     (if x = 0 then 0
      else let x = x - 1; e = x mod 10; x = x div 10;
               n = (if e < 9 then (let d = x mod 9 + 1; x = x div 9 in (x * 10 + d) mod 2 ^ 64) else (x + 1) mod 2 ^ 64)
           in mul10_loop e n)"

section \<open>Scripts\<close>

definition nSpecialScripts :: nat where
  "nSpecialScripts = 6"

definition IsToKeyID :: "CScript \<Rightarrow> bytes option" where
  "IsToKeyID script =
     (if length script = 25 \<and> unat (script ! 0) = OP_DUP \<and> unat (script ! 1) = OP_HASH160 \<and> script ! 2 = 20 \<and>
         unat (script ! 23) = OP_EQUALVERIFY \<and> unat (script ! 24) = OP_CHECKSIG
      then Some (take 20 (drop 3 script)) else None)"

definition IsToScriptID :: "CScript \<Rightarrow> bytes option" where
  "IsToScriptID script =
     (if length script = 23 \<and> unat (script ! 0) = OP_HASH160 \<and> script ! 1 = 20 \<and> unat (script ! 22) = OP_EQUAL
      then Some (take 20 (drop 2 script)) else None)"

definition IsToPubKey :: "(bytes \<Rightarrow> bool) \<Rightarrow> CScript \<Rightarrow> bytes option" where
  "IsToPubKey IsFullyValid script =
     (if length script = 35 \<and> script ! 0 = 33 \<and> unat (script ! 34) = OP_CHECKSIG \<and> (script ! 1 = 2 \<or> script ! 1 = 3)
      then Some (CPubKey_Set (take 33 (drop 1 script)))
      else if length script = 67 \<and> script ! 0 = 65 \<and> unat (script ! 66) = OP_CHECKSIG \<and> script ! 1 = 4
      then (let pubkey = CPubKey_Set (take 65 (drop 1 script)) in if IsFullyValid pubkey then Some pubkey else None)
      else None)"

definition script_Compress :: "(bytes \<Rightarrow> bool) \<Rightarrow> CScript \<Rightarrow> bytes option" where
  "script_Compress IsFullyValid script =
     (case IsToKeyID script of Some keyID \<Rightarrow> Some (0 # keyID)
      | None \<Rightarrow>
     (case IsToScriptID script of Some scriptID \<Rightarrow> Some (1 # scriptID)
      | None \<Rightarrow>
     (case IsToPubKey IsFullyValid script of
        Some pubkey \<Rightarrow>
          if pubkey ! 0 = 2 \<or> pubkey ! 0 = 3 then Some (pubkey ! 0 # take 32 (drop 1 pubkey))
          else if pubkey ! 0 = 4 then Some ((4 OR (pubkey ! 64 AND 1)) # take 32 (drop 1 pubkey))
          else None
      | None \<Rightarrow> None)))"

definition GetSpecialSize :: "nat \<Rightarrow> nat" where
  "GetSpecialSize nSize =
     (if nSize = 0 \<or> nSize = 1 then 20
      else if nSize = 2 \<or> nSize = 3 \<or> nSize = 4 \<or> nSize = 5 then 32 else 0)"

definition script_Decompress :: "(bytes \<Rightarrow> bytes option) \<Rightarrow> nat \<Rightarrow> bytes \<Rightarrow> CScript option" where
  "script_Decompress Decompress nSize inp =
     (if nSize = 0 then Some ([of_nat OP_DUP, of_nat OP_HASH160, 20] @ take 20 inp @ [of_nat OP_EQUALVERIFY, of_nat OP_CHECKSIG])
      else if nSize = 1 then Some ([of_nat OP_HASH160, 20] @ take 20 inp @ [of_nat OP_EQUAL])
      else if nSize = 2 \<or> nSize = 3 then Some ([33, of_nat nSize] @ take 32 inp @ [of_nat OP_CHECKSIG])
      else if nSize = 4 \<or> nSize = 5 then
        (case Decompress (CPubKey_Set (of_nat (nSize - 2) # take 32 inp)) of
           None \<Rightarrow> None
         | Some pubkey \<Rightarrow> Some ([65] @ pubkey @ [of_nat OP_CHECKSIG]))
      else None)"

definition Serialize_cscript :: "(bytes \<Rightarrow> bool) \<Rightarrow> CScript \<Rightarrow> bytes" where
  "Serialize_cscript IsFullyValid script =
     (case script_Compress IsFullyValid script of
        Some compr \<Rightarrow> compr
      | None \<Rightarrow> WriteVarInt ((length script + nSpecialScripts) mod 2 ^ 32) @ script)"

definition Unserialize_cscript :: "(bytes \<Rightarrow> bytes option) \<Rightarrow> CScript \<Rightarrow> bytes \<Rightarrow> (CScript \<times> bytes) option" where
  "Unserialize_cscript Decompress old s =
     (case ReadVarInt 32 0 s of None \<Rightarrow> None
      | Some (nSize, s) \<Rightarrow>
          if nSize < nSpecialScripts then
            (case take_bytes (GetSpecialSize nSize) s of None \<Rightarrow> None
             | Some (vch, s) \<Rightarrow>
                 Some (case script_Decompress Decompress nSize vch of Some script \<Rightarrow> script | None \<Rightarrow> old, s))
          else take_bytes (nSize - nSpecialScripts) s)"

text \<open>\<open>GetSerializeSize\<close> of the script compressor.\<close>

definition cscript_size :: "(bytes \<Rightarrow> bool) \<Rightarrow> CScript \<Rightarrow> nat" where
  "cscript_size IsFullyValid script =
     (case script_Compress IsFullyValid script of Some compr \<Rightarrow> length compr
      | None \<Rightarrow> length script + GetSizeOfVarInt ((length script + nSpecialScripts) mod 2 ^ 32))"

section \<open>Outputs\<close>

definition Serialize_ctxout :: "(bytes \<Rightarrow> bool) \<Rightarrow> CTxOut \<Rightarrow> bytes" where
  "Serialize_ctxout IsFullyValid txout =
     WriteVarInt (CompressAmount (nat (nValue txout mod 2 ^ 64))) @ Serialize_cscript IsFullyValid (scriptPubKey txout)"

definition Unserialize_ctxout :: "(bytes \<Rightarrow> bytes option) \<Rightarrow> CTxOut \<Rightarrow> bytes \<Rightarrow> (CTxOut \<times> bytes) option" where
  "Unserialize_ctxout Decompress old s =
     (case ReadVarInt 64 0 s of None \<Rightarrow> None
      | Some (nVal, s) \<Rightarrow>
     (case Unserialize_cscript Decompress (scriptPubKey old) s of None \<Rightarrow> None
      | Some (script, s) \<Rightarrow> Some (old\<lparr>nValue := wrap64 (int (DecompressAmount nVal)), scriptPubKey := script\<rparr>, s)))"

section \<open>Amount compression inverts\<close>

lemma strip_zeros_spec:
  "strip_zeros n e = (n', e') \<Longrightarrow> 0 < n \<Longrightarrow> e \<le> 9 \<Longrightarrow>
   n = n' * 10 ^ (e' - e) \<and> e \<le> e' \<and> e' \<le> 9 \<and> 0 < n' \<and> (e' < 9 \<longrightarrow> n' mod 10 \<noteq> 0)"
proof (induction n e rule: strip_zeros.induct)
  case (1 n e)
  show ?case
  proof (cases "n mod 10 = 0 \<and> e < 9")
    case True
    then have "strip_zeros (n div 10) (e + 1) = (n', e')" using "1.prems" by (simp add: strip_zeros.simps [of n e])
    moreover have "0 < n div 10" using True "1.prems" by (auto simp: mod_eq_0_iff_dvd dvd_def)
    ultimately have IH: "n div 10 = n' * 10 ^ (e' - (e + 1))" "e + 1 \<le> e'" "e' \<le> 9" "0 < n'" "e' < 9 \<longrightarrow> n' mod 10 \<noteq> 0"
      using "1.IH" [OF True] True by auto
    have "n = 10 * (n div 10)" using True by auto
    also have "\<dots> = n' * 10 ^ Suc (e' - (e + 1))" using IH(1) by simp
    also have "Suc (e' - (e + 1)) = e' - e" using IH(2) by simp
    finally show ?thesis using IH by auto
  next
    case False
    then show ?thesis using "1.prems" by (auto simp: strip_zeros.simps [of n e])
  qed
qed

lemma mul10_loop_eq: "n * 10 ^ e < 2 ^ 64 \<Longrightarrow> mul10_loop e n = n * 10 ^ e"
proof (induction e arbitrary: n)
  case (Suc e)
  have "n * 10 \<le> n * 10 ^ Suc e" by (intro mult_le_mono2) simp
  then have "n * 10 < 2 ^ 64" using Suc.prems by (rule le_less_trans)
  then have m: "n * 10 mod 2 ^ 64 = n * 10" by (rule mod_less)
  have "n * 10 * 10 ^ e < 2 ^ 64" using Suc.prems by (simp add: mult.assoc)
  from Suc.IH [OF this] show ?case unfolding mul10_loop.simps m by (simp add: mult.assoc)
qed simp

lemma DecompressAmount_Compress:
  assumes "n < 2 * 10 ^ 18"
  shows "DecompressAmount (CompressAmount n) = n"
proof (cases "n = 0")
  case False
  obtain m e where strip: "strip_zeros n 0 = (m, e)" by (cases "strip_zeros n 0") auto
  have s: "n = m * 10 ^ e" "e \<le> 9" "0 < m" "e < 9 \<longrightarrow> m mod 10 \<noteq> 0"
    using strip_zeros_spec [OF strip] False by auto
  have "m \<le> n" unfolding s(1) using mult_le_mono2 [of 1 "10 ^ e" m] by simp
  then have m: "m < 2 * 10 ^ 18" using assms by (rule le_less_trans)
  have n64: "m * 10 ^ e < 2 ^ 64" using assms s(1) by simp
  show ?thesis
  proof (cases "e < 9")
    case True
    define x where "x = m div 10 * 9 + m mod 10 - 1"
    have d: "1 \<le> m mod 10" "m mod 10 \<le> 9" using s(4) True by auto
    have xe: "x = m div 10 * 9 + (m mod 10 - 1)" using d by (simp add: x_def)
    have "(a * 9 + b) * 10 \<le> 9 * m + 80" if "a * 10 \<le> m" "b \<le> 8" for a b :: nat using that by (simp add: distrib_right)
    then have "x * 10 \<le> 9 * m + 80" unfolding xe using d(2) by simp
    then have lt: "1 + x * 10 + e < 2 ^ 64" using m True by simp
    then have c: "CompressAmount n = 1 + x * 10 + e" using False strip True by (simp add: CompressAmount_def x_def Let_def)
    have "(a * 9 + b) div 9 = a \<and> (a * 9 + b) mod 9 = b" if "b < 9" for a b :: nat using that by simp
    then have x9: "x div 9 = m div 10" "x mod 9 = m mod 10 - 1" using d(2) unfolding xe by (simp_all del: One_nat_def)
    have e10: "(x * 10 + e) mod 10 = e" "(x * 10 + e) div 10 = x" using True by auto
    have "m div 10 * 10 + (m mod 10 - 1 + 1) = m" using d(1) by simp
    moreover have "m < 2 ^ 64" using m by simp
    ultimately have "DecompressAmount (CompressAmount n) = mul10_loop e m"
      unfolding c DecompressAmount_def using True by (simp add: e10 x9 Let_def)
    then show ?thesis using mul10_loop_eq [OF n64] s(1) by simp
  next
    case 9: False
    then have e: "e = 9" using s(2) by simp
    have "m * 10 ^ 9 < 2 * 10 ^ 18" using assms s(1) e by simp
    then have m2: "m < 2 * 10 ^ 9" by simp
    then have c: "CompressAmount n = 10 + (m - 1) * 10" using False strip 9 by (simp add: CompressAmount_def)
    have "DecompressAmount (CompressAmount n) = mul10_loop 9 m"
      unfolding c DecompressAmount_def using m2 s(3) by (simp add: Let_def)
    then show ?thesis using mul10_loop_eq [OF n64] s(1) e by simp
  qed
qed (simp add: CompressAmount_def DecompressAmount_def)

unbundle bit_operations_syntax

section \<open>Script compression inverts\<close>

text \<open>The law of the elliptic-curve parameters: a fully valid uncompressed key is determined by its first coordinate and
  the parity of its last byte.\<close>

definition key_law :: "(bytes \<Rightarrow> bool) \<Rightarrow> (bytes \<Rightarrow> bytes option) \<Rightarrow> bool" where
  "key_law IsFullyValid Decompress \<longleftrightarrow>
     (\<forall>k. length k = 65 \<longrightarrow> k ! 0 = 4 \<longrightarrow> IsFullyValid k \<longrightarrow>
        Decompress ((2 + (k ! 64 AND 1)) # take 32 (drop 1 k)) = Some k)"

lemma list_eq_take_drop: "length s = a + n + b \<Longrightarrow> s = take a s @ take n (drop a s) @ drop (a + n) s"
  by (metis append_take_drop_id drop_drop add.commute)

lemma take_2_conv: "2 \<le> length s \<Longrightarrow> take 2 s = [s ! 0, s ! 1]"
  by (cases s; cases "tl s") auto

lemma take_3_conv: "3 \<le> length s \<Longrightarrow> take 3 s = [s ! 0, s ! 1, s ! 2]"
  by (cases s; cases "tl s"; cases "tl (tl s)") auto

lemma drop_last1: "length s = Suc n \<Longrightarrow> drop n s = [s ! n]"
  by (metis Cons_nth_drop_Suc drop_all lessI le_refl)

lemma drop_last2: "length s = Suc (Suc n) \<Longrightarrow> drop n s = [s ! n, s ! Suc n]"
  by (metis Cons_nth_drop_Suc drop_last1 lessI less_SucI)

lemma IsToKeyID_decompress:
  assumes "IsToKeyID s = Some h"
  shows "length h = 20 \<and> script_Decompress D 0 h = Some s"
proof -
  have s: "length s = 25" "s ! 0 = of_nat OP_DUP" "s ! 1 = of_nat OP_HASH160" "s ! 2 = 20" "s ! 23 = of_nat OP_EQUALVERIFY"
    "s ! 24 = of_nat OP_CHECKSIG" "h = take 20 (drop 3 s)"
    using assms by (auto simp: IsToKeyID_def unat_eq_byte split: if_splits)
  have "s = take 3 s @ take 20 (drop 3 s) @ drop 23 s" using list_eq_take_drop [of s 3 20 2] s(1) by simp
  also have "\<dots> = [s ! 0, s ! 1, s ! 2] @ h @ [s ! 23, s ! 24]"
    using drop_last2 [of s 23] s(1,7) by (simp add: take_3_conv)
  finally show ?thesis using s by (simp add: script_Decompress_def)
qed

lemma IsToScriptID_decompress:
  assumes "IsToScriptID s = Some h"
  shows "length h = 20 \<and> script_Decompress D 1 h = Some s"
proof -
  have s: "length s = 23" "s ! 0 = of_nat OP_HASH160" "s ! 1 = 20" "s ! 22 = of_nat OP_EQUAL" "h = take 20 (drop 2 s)"
    using assms by (auto simp: IsToScriptID_def unat_eq_byte split: if_splits)
  have "s = take 2 s @ take 20 (drop 2 s) @ drop 22 s" using list_eq_take_drop [of s 2 20 1] s(1) by simp
  also have "\<dots> = [s ! 0, s ! 1] @ h @ [s ! 22]"
    using drop_last1 [of s 22] s(1,5) by (simp add: take_2_conv)
  finally show ?thesis using s by (simp add: script_Decompress_def)
qed

lemma IsToPubKey_decompress:
  assumes "IsToPubKey V s = Some k" "key_law V D"
  shows "(k ! 0 = 2 \<or> k ! 0 = 3) \<and> length k = 33 \<and> script_Decompress D (unat (k ! 0)) (take 32 (drop 1 k)) = Some s \<or>
    k ! 0 = 4 \<and> length k = 65 \<and> script_Decompress D (unat (4 OR (k ! 64 AND 1))) (take 32 (drop 1 k)) = Some s"
proof -
  consider (comp) "length s = 35" "s ! 0 = 33" "s ! 34 = of_nat OP_CHECKSIG" "s ! 1 = 2 \<or> s ! 1 = 3" "k = CPubKey_Set (take 33 (drop 1 s))"
    | (unc) "length s = 67" "s ! 0 = 65" "s ! 66 = of_nat OP_CHECKSIG" "s ! 1 = 4" "k = CPubKey_Set (take 65 (drop 1 s))" "V k"
    using assms(1) by (auto simp: IsToPubKey_def unat_eq_byte Let_def split: if_splits)
  then show ?thesis
  proof cases
    case comp
    then have nth: "take 33 (drop 1 s) ! 0 = s ! 1" by simp
    have k: "k = take 33 (drop 1 s)" using comp nth by (auto simp: CPubKey_Set_def pubkey_GetLen_def Let_def)
    have k0: "k ! 0 = s ! 1" using k nth by simp
    have "s = take 1 s @ take 33 (drop 1 s) @ drop 34 s" using list_eq_take_drop [of s 1 33 1] comp(1) by simp
    also have "\<dots> = [33] @ k @ [of_nat OP_CHECKSIG]"
      using drop_last1 [of s 34] comp(1,2,3) k by (cases s) auto
    finally have s: "s = [33] @ k @ [of_nat OP_CHECKSIG]" .
    have "length k = 33" using k comp(1) by simp
    then have "k = k ! 0 # take 32 (drop 1 k)" by (cases k) auto
    then have "script_Decompress D (unat (k ! 0)) (take 32 (drop 1 k)) = Some s" using comp(4) k0 s
      by (auto simp: script_Decompress_def)
    then show ?thesis using k0 comp(4) \<open>length k = 33\<close> by auto
  next
    case unc
    then have nth: "take 65 (drop 1 s) ! 0 = s ! 1" by simp
    have k: "k = take 65 (drop 1 s)" using unc nth by (auto simp: CPubKey_Set_def pubkey_GetLen_def Let_def)
    have k0: "k ! 0 = 4" using k nth unc by simp
    have len: "length k = 65" using k unc by simp
    have "s = take 1 s @ take 65 (drop 1 s) @ drop 66 s" using list_eq_take_drop [of s 1 65 1] unc(1) by simp
    also have "\<dots> = [65] @ k @ [of_nat OP_CHECKSIG]"
      using drop_last1 [of s 66] unc(1,2,3) k by (cases s) auto
    finally have s: "s = [65] @ k @ [of_nat OP_CHECKSIG]" .
    have D: "D ((2 + (k ! 64 AND 1)) # take 32 (drop 1 k)) = Some k" using assms(2) len k0 unc(6) by (simp add: key_law_def)
    have bit: "k ! 64 AND 1 = 0 \<or> k ! 64 AND 1 = 1" by (simp add: and_one_eq mod_2_eq_odd)
    then have "script_Decompress D (unat (4 OR (k ! 64 AND 1))) (take 32 (drop 1 k)) = Some s"
      using D s len by (auto simp: script_Decompress_def CPubKey_Set_def pubkey_GetLen_def Let_def)
    then show ?thesis using k0 len by blast
  qed
qed


section \<open>Codecs\<close>

definition valid_cscript :: "CScript \<Rightarrow> bool" where
  "valid_cscript script \<longleftrightarrow> length script + nSpecialScripts < 2 ^ 32"

definition valid_ctxout :: "CTxOut \<Rightarrow> bool" where
  "valid_ctxout out \<longleftrightarrow> 0 \<le> nValue out \<and> nValue out < 2 * 10 ^ 18 \<and> valid_cscript (scriptPubKey out) \<and> nRounds out = - 10"

lemma ReadVarInt_small: "unat b < 128 \<Longrightarrow> ReadVarInt w 0 (b # r) = Some (unat b, r)"
  by simp

lemma Unserialize_special:
  assumes "unat b < nSpecialScripts" "length v = GetSpecialSize (unat b)" "script_Decompress D (unat b) v = Some s"
  shows "Unserialize_cscript D old ((b # v) @ r) = Some (s, r)"
  using assms by (simp add: Unserialize_cscript_def nSpecialScripts_def)

lemma script_Compress_special:
  assumes "script_Compress V s = Some c" "key_law V D"
  shows "\<exists>b v. c = b # v \<and> unat b < nSpecialScripts \<and> length v = GetSpecialSize (unat b) \<and> script_Decompress D (unat b) v = Some s"
proof -
  have special: ?thesis if "c = b # v" "unat b = n" "n < 6" "length v = GetSpecialSize n" "script_Decompress D n v = Some s" for b v n
    using that by (auto simp: nSpecialScripts_def)
  show ?thesis
  proof (cases "IsToKeyID s")
    case (Some h)
    then have "c = 0 # h" using assms(1) by (simp add: script_Compress_def)
    then show ?thesis using IsToKeyID_decompress [OF Some, of D] by (intro special [of 0 h 0]) (simp_all add: GetSpecialSize_def)
  next
    case nokey: None
    show ?thesis
    proof (cases "IsToScriptID s")
      case (Some h)
      then have "c = 1 # h" using assms(1) nokey by (simp add: script_Compress_def)
      then show ?thesis using IsToScriptID_decompress [OF Some, of D] by (intro special [of 1 h 1]) (simp_all add: GetSpecialSize_def)
    next
      case None
      then obtain k where k: "IsToPubKey V s = Some k" using assms(1) nokey by (auto simp: script_Compress_def split: option.splits)
      from IsToPubKey_decompress [OF k assms(2)] show ?thesis
      proof (elim disjE conjE)
        assume a: "k ! 0 = 4" "length k = 65" "script_Decompress D (unat (4 OR (k ! 64 AND 1))) (take 32 (drop 1 k)) = Some s"
        then have c: "c = (4 OR (k ! 64 AND 1)) # take 32 (drop 1 k)" using assms(1) nokey None k by (simp add: script_Compress_def)
        have "k ! 64 AND 1 = 0 \<or> k ! 64 AND 1 = 1" by (simp add: and_one_eq mod_2_eq_odd)
        then have "unat (4 OR (k ! 64 AND 1)) = 4 \<or> unat (4 OR (k ! 64 AND 1)) = 5" by (elim disjE) simp_all
        then show ?thesis using a(2) by (intro special [OF c refl _ _ a(3)]) (auto simp: GetSpecialSize_def)
      next
        assume a: "k ! 0 = 2" "length k = 33" "script_Decompress D (unat (k ! 0)) (take 32 (drop 1 k)) = Some s"
        then have c: "c = 2 # take 32 (drop 1 k)" using assms(1) nokey None k by (simp add: script_Compress_def)
        show ?thesis using a by (intro special [OF c, of 2]) (simp_all add: GetSpecialSize_def)
      next
        assume a: "k ! 0 = 3" "length k = 33" "script_Decompress D (unat (k ! 0)) (take 32 (drop 1 k)) = Some s"
        then have c: "c = 3 # take 32 (drop 1 k)" using assms(1) nokey None k by (simp add: script_Compress_def)
        show ?thesis using a by (intro special [OF c, of 3]) (simp_all add: GetSpecialSize_def)
      qed
    qed
  qed
qed

lemma cscript_roundtrip:
  assumes "key_law V D" "valid_cscript s"
  shows "Unserialize_cscript D old (Serialize_cscript V s @ r) = Some (s, r)"
proof (cases "script_Compress V s")
  case None
  have "ReadVarInt 32 0 (WriteVarInt (length s + nSpecialScripts) @ s @ r) = Some (length s + nSpecialScripts, s @ r)"
    using assms(2) by (intro ReadVarInt_Write) (simp_all add: valid_cscript_def)
  moreover have "(length s + nSpecialScripts) mod 2 ^ 32 = length s + nSpecialScripts"
    using assms(2) unfolding valid_cscript_def by (rule mod_less)
  ultimately show ?thesis using None by (simp add: Serialize_cscript_def Unserialize_cscript_def)
next
  case (Some c)
  from script_Compress_special [OF Some assms(1)] show ?thesis using Some Unserialize_special
    by (auto simp: Serialize_cscript_def simp del: append_Cons)
qed

lemma ctxout_roundtrip:
  assumes "key_law V D" "valid_ctxout out" "nRounds old = - 10"
  shows "Unserialize_ctxout D old (Serialize_ctxout V out @ r) = Some (out, r)"
proof -
  define n where "n = nat (nValue out)"
  have n: "n < 2 * 10 ^ 18" "int n = nValue out" "nat (nValue out mod 2 ^ 64) = n"
    using assms(2) by (auto simp: n_def valid_ctxout_def)
  have c: "CompressAmount n < 2 ^ 64"
    by (auto simp: CompressAmount_def Let_def split: prod.splits)
  have rd: "ReadVarInt 64 0 (WriteVarInt (CompressAmount n) @ s) = Some (CompressAmount n, s)" for s
    using c by (intro ReadVarInt_Write) simp_all
  have "wrap64 (int n) = int n" using n(1) by (intro wrap64_id) auto
  then show ?thesis
    using cscript_roundtrip [OF assms(1), of "scriptPubKey out"] assms(2,3) n rd DecompressAmount_Compress [OF n(1)]
    by (simp add: Serialize_ctxout_def Unserialize_ctxout_def valid_ctxout_def)
qed

lemma cscript_size_eq: "valid_cscript s \<Longrightarrow> length (Serialize_cscript V s) = cscript_size V s"
  by (simp add: Serialize_cscript_def cscript_size_def length_WriteVarInt split: option.splits)

section \<open>Properties\<close>

text \<open>
  C21: the compact form of an output loses nothing: for every amount from zero to two billion coins and every script, and
  with an elliptic curve on which decompression inverts compression of valid keys, the output is read back from its
  compact form in front of any bytes, and the form has the size that is announced for it.
\<close>

theorem compact_output_roundtrip:
  assumes "key_law V D" "0 \<le> nValue out" "nValue out < 2 * 10 ^ 18" "length (scriptPubKey out) < 2 ^ 32 - 6" "nRounds out = - 10"
  shows "Unserialize_ctxout D txout_SetNull (Serialize_ctxout V out @ r) = Some (out, r) \<and>
    length (Serialize_cscript V (scriptPubKey out)) = cscript_size V (scriptPubKey out)"
  using ctxout_roundtrip [OF assms(1), of out txout_SetNull r] cscript_size_eq [of "scriptPubKey out" V] assms
  by (simp add: valid_ctxout_def valid_cscript_def nSpecialScripts_def txout_SetNull_def)

definition sample_key :: bytes where
  "sample_key = 4 # replicate 64 9"

theorem compact_output_roundtrip_witness:
  "Unserialize_ctxout (\<lambda>_. Some sample_key) txout_SetNull
      (Serialize_ctxout (\<lambda>k. k = sample_key) (new_CTxOut 5000000000 ([65] @ sample_key @ [0xac])) @ [1]) =
    Some (new_CTxOut 5000000000 ([65] @ sample_key @ [0xac]), [1])"
  using compact_output_roundtrip [of "\<lambda>k. k = sample_key" "\<lambda>_. Some sample_key" "new_CTxOut 5000000000 ([65] @ sample_key @ [0xac])" "[1]"]
  by (simp add: key_law_def new_CTxOut_def sample_key_def)

end
