(* ===== verification/Coins.thy ===== *)
theory Coins
  imports Compressor "HOL-Library.AList"
begin

text \<open>
  The unspent outputs of a transaction, the data that undoes a spend, and the layered views of the coin database
  (\<open>src/coins.h\<close>, \<open>src/coins.cpp\<close>, \<open>src/undo.h\<close>, the coin operations of \<open>src/txdb.cpp\<close>).

  A view is a state \<open>'v\<close> with a function to get coins, which may change the state (a cache fills itself), and a function
  that takes a batch of entries.  A cache on top of a view has as its state the pair of that view's state and its own
  record, so its functions take the functions of the view below as arguments; \<open>hasModifier\<close> is kept and its assertions
  are \<open>None\<close>.  The unordered map of entries is an association list without repeated keys, whose order stands for the
  order of iteration.  A \<open>CCoinsModifier\<close> is opened by \<open>ModifyCoins\<close> and closed by its destructor
  \<open>modifier_end\<close>; \<open>with_modifier\<close> is the pair around a change of the coins.  The database is a map from transaction
  hashes to coins, with the behaviour of the key-value store it is in.

  The locales state what the layers rely on: a \<open>coins_reader\<close> answers for a map from hashes to coins with something left to
  spend, and a \<open>coins_view\<close> is a reader that a well-formed batch changes by its dirty entries.
\<close>

section \<open>Coins\<close>

record CCoins =
  fCoinBase :: bool
  fCoinStake :: bool
  co_vout :: "CTxOut list"
  co_nHeight :: int
  co_nVersion :: int

definition coins_Clear :: CCoins where
  "coins_Clear = \<lparr>fCoinBase = False, fCoinStake = False, co_vout = [], co_nHeight = 0, co_nVersion = 0\<rparr>"

fun pop_null :: "CTxOut list \<Rightarrow> CTxOut list" where
  "pop_null [] = []"
| "pop_null (out # rest) = (if txout_IsNull out then pop_null rest else out # rest)"

definition coins_Cleanup :: "CCoins \<Rightarrow> CCoins" where
  "coins_Cleanup c = c\<lparr>co_vout := rev (pop_null (rev (co_vout c)))\<rparr>"

definition coins_ClearUnspendable :: "CCoins \<Rightarrow> CCoins" where
  "coins_ClearUnspendable c =
     coins_Cleanup (c\<lparr>co_vout := map (\<lambda>txout. if IsUnspendable (scriptPubKey txout) then txout_SetNull else txout) (co_vout c)\<rparr>)"

definition coins_FromTx :: "CTransaction \<Rightarrow> int \<Rightarrow> CCoins" where
  "coins_FromTx tx nHeightIn =
     coins_ClearUnspendable \<lparr>fCoinBase = IsCoinBase tx, fCoinStake = IsCoinStake tx, co_vout = vout tx,
       co_nHeight = nHeightIn, co_nVersion = tx_nVersion tx\<rparr>"

definition coins_IsAvailable :: "CCoins \<Rightarrow> nat \<Rightarrow> bool" where
  "coins_IsAvailable c nPos \<longleftrightarrow> nPos < length (co_vout c) \<and> \<not> txout_IsNull (co_vout c ! nPos)"

definition coins_IsPruned :: "CCoins \<Rightarrow> bool" where
  "coins_IsPruned c \<longleftrightarrow> list_all txout_IsNull (co_vout c)"

definition coins_eq :: "CCoins \<Rightarrow> CCoins \<Rightarrow> bool" where
  "coins_eq a b \<longleftrightarrow> (if coins_IsPruned a \<and> coins_IsPruned b then True
     else fCoinBase a = fCoinBase b \<and> fCoinStake a = fCoinStake b \<and> co_nHeight a = co_nHeight b \<and>
          co_nVersion a = co_nVersion b \<and> co_vout a = co_vout b)"

record CTxInUndo =
  un_txout :: CTxOut
  un_fCoinBase :: bool
  un_fCoinStake :: bool
  un_nHeight :: u32
  un_nVersion :: int

definition new_CTxInUndo :: "CTxOut \<Rightarrow> CTxInUndo" where
  "new_CTxInUndo txoutIn = \<lparr>un_txout = txoutIn, un_fCoinBase = False, un_fCoinStake = False, un_nHeight = 0, un_nVersion = 0\<rparr>"

text \<open>\<open>Spend\<close>: \<open>None\<close> when it returns false, which leaves the coins as they were.\<close>

definition coins_Spend :: "COutPoint \<Rightarrow> CCoins \<Rightarrow> (CCoins \<times> CTxInUndo) option" where
  "coins_Spend out c =
     (let n = unat (op_n out)
      in if n \<ge> length (co_vout c) then None
         else if txout_IsNull (co_vout c ! n) then None
         else let undo = new_CTxInUndo (co_vout c ! n);
                  c' = coins_Cleanup (c\<lparr>co_vout := (co_vout c)[n := txout_SetNull]\<rparr>)
              in Some (c', if length (co_vout c') = 0
                           then undo\<lparr>un_nHeight := of_int (co_nHeight c), un_fCoinBase := fCoinBase c,
                                     un_fCoinStake := fCoinStake c, un_nVersion := co_nVersion c\<rparr>
                           else undo))"

section \<open>The serialized form\<close>

function calc_mask_loop :: "CCoins \<Rightarrow> nat \<Rightarrow> nat \<Rightarrow> nat \<Rightarrow> nat \<times> nat" where
  "calc_mask_loop c b nLastUsedByte nNonzeroBytes =
     (if 2 + b * 8 < length (co_vout c) then
        (let fZero = list_all (\<lambda>i. \<not> coins_IsAvailable c (2 + b * 8 + i)) [0..<8]
         in if \<not> fZero then calc_mask_loop c (b + 1) (b + 1) (nNonzeroBytes + 1)
            else calc_mask_loop c (b + 1) nLastUsedByte nNonzeroBytes)
      else (nLastUsedByte, nNonzeroBytes))"
  by pat_completeness auto
termination by (relation "measure (\<lambda>(c, b, l, n). length (co_vout c) - b)") auto

declare calc_mask_loop.simps [simp del]

definition CalcMaskSize :: "CCoins \<Rightarrow> nat \<times> nat" where
  "CalcMaskSize c = calc_mask_loop c 0 0 0"

definition mask_char :: "CCoins \<Rightarrow> nat \<Rightarrow> byte" where
  "mask_char c b = foldl (\<lambda>chAvail i. if coins_IsAvailable c (2 + b * 8 + i) then chAvail OR push_bit i 1 else chAvail) 0 [0..<8]"

definition coins_nCode :: "nat \<Rightarrow> CCoins \<Rightarrow> nat \<Rightarrow> nat" where
  "coins_nCode k c nMaskCode =
     (let fFirst = coins_IsAvailable c 0; fSecond = coins_IsAvailable c 1
      in (k * (nMaskCode - (if fFirst \<or> fSecond then 0 else 1)) + (if fCoinBase c then 1 else 0) + (if fCoinStake c then 2 else 0) +
          (if fFirst then 4 else 0) + (if fSecond then 8 else 0)) mod 2 ^ 32)"

text \<open>\<open>None\<close> is the failed assertion that there is something to serialize.\<close>

definition Serialize_coins :: "(bytes \<Rightarrow> bool) \<Rightarrow> CCoins \<Rightarrow> bytes option" where
  "Serialize_coins IsFullyValid c =
     (case CalcMaskSize c of (nMaskSize, nMaskCode) \<Rightarrow>
        if \<not> (coins_IsAvailable c 0 \<or> coins_IsAvailable c 1 \<or> nMaskCode \<noteq> 0) then None
        else Some (WriteVarInt_int (co_nVersion c) @ WriteVarInt (coins_nCode 16 c nMaskCode) @
               map (mask_char c) [0..<nMaskSize] @
               concat (map (Serialize_ctxout IsFullyValid) (filter (\<lambda>out. \<not> txout_IsNull out) (co_vout c))) @
               WriteVarInt_int (co_nHeight c)))"

text \<open>\<open>GetSerializeSize\<close>, which multiplies the mask code by eight.\<close>

definition coins_GetSerializeSize :: "(bytes \<Rightarrow> bool) \<Rightarrow> CCoins \<Rightarrow> nat option" where
  "coins_GetSerializeSize IsFullyValid c =
     (case CalcMaskSize c of (nMaskSize, nMaskCode) \<Rightarrow>
        if \<not> (coins_IsAvailable c 0 \<or> coins_IsAvailable c 1 \<or> nMaskCode \<noteq> 0) then None
        else Some (length (WriteVarInt_int (co_nVersion c)) + length (WriteVarInt (coins_nCode 8 c nMaskCode)) + nMaskSize +
               sum_list (map (\<lambda>out. length (Serialize_ctxout IsFullyValid out)) (filter (\<lambda>out. \<not> txout_IsNull out) (co_vout c))) +
               length (WriteVarInt_int (co_nHeight c))))"

fun read_mask :: "nat \<Rightarrow> bytes \<Rightarrow> bool list \<Rightarrow> (bool list \<times> bytes) option" where
  "read_mask 0 s vAvail = Some (vAvail, s)"
| "read_mask (Suc k) [] vAvail = None"
| "read_mask (Suc k) (chAvail # s) vAvail =
     read_mask (if chAvail \<noteq> 0 then k else Suc k) s (vAvail @ map (\<lambda>p. chAvail AND push_bit p 1 \<noteq> 0) [0..<8])"

fun read_outs :: "(bytes \<Rightarrow> bytes option) \<Rightarrow> bool list \<Rightarrow> bytes \<Rightarrow> (CTxOut list \<times> bytes) option" where
  "read_outs Decompress [] s = Some ([], s)"
| "read_outs Decompress (av # vAvail) s =
     (case (if av then Unserialize_ctxout Decompress txout_SetNull s else Some (txout_SetNull, s)) of
        None \<Rightarrow> None
      | Some (out, s) \<Rightarrow> (case read_outs Decompress vAvail s of None \<Rightarrow> None | Some (outs, s) \<Rightarrow> Some (out # outs, s)))"

definition Unserialize_coins :: "(bytes \<Rightarrow> bytes option) \<Rightarrow> bytes \<Rightarrow> (CCoins \<times> bytes) option" where
  "Unserialize_coins Decompress s =
     (case ReadVarInt_int s of None \<Rightarrow> None | Some (v, s) \<Rightarrow>
     (case ReadVarInt 32 0 s of None \<Rightarrow> None | Some (nCode, s) \<Rightarrow>
     (case read_mask (nCode div 16 + (if nCode AND 12 \<noteq> 0 then 0 else 1)) s [nCode AND 4 \<noteq> 0, nCode AND 8 \<noteq> 0] of
        None \<Rightarrow> None | Some (vAvail, s) \<Rightarrow>
     (case read_outs Decompress vAvail s of None \<Rightarrow> None | Some (outs, s) \<Rightarrow>
     (case ReadVarInt_int s of None \<Rightarrow> None | Some (h, s) \<Rightarrow>
        Some (coins_Cleanup \<lparr>fCoinBase = (nCode AND 1 \<noteq> 0), fCoinStake = (nCode AND 2 \<noteq> 0), co_vout = outs,
                co_nHeight = h, co_nVersion = v\<rparr>, s))))))"

definition Serialize_txinundo :: "(bytes \<Rightarrow> bool) \<Rightarrow> CTxInUndo \<Rightarrow> bytes" where
  "Serialize_txinundo IsFullyValid u =
     WriteVarInt ((unat (un_nHeight u) * 4 + (if un_fCoinBase u then 2 else 0) + (if un_fCoinStake u then 1 else 0)) mod 2 ^ 32) @
     (if un_nHeight u > 0 then WriteVarInt_int (un_nVersion u) else []) @ Serialize_ctxout IsFullyValid (un_txout u)"

text \<open>Reading into a new \<open>CTxInUndo\<close>.\<close>

definition Unserialize_txinundo :: "(bytes \<Rightarrow> bytes option) \<Rightarrow> bytes \<Rightarrow> (CTxInUndo \<times> bytes) option" where
  "Unserialize_txinundo Decompress s =
     (case ReadVarInt 32 0 s of None \<Rightarrow> None | Some (nCode, s) \<Rightarrow>
     (let nHeight = nCode div 4
      in case (if nHeight > 0 then ReadVarInt_int s else Some (0, s)) of None \<Rightarrow> None | Some (v, s) \<Rightarrow>
        (case Unserialize_ctxout Decompress txout_SetNull s of None \<Rightarrow> None
         | Some (out, s) \<Rightarrow> Some (\<lparr>un_txout = out, un_fCoinBase = (nCode AND 2 \<noteq> 0), un_fCoinStake = (nCode AND 1 \<noteq> 0),
              un_nHeight = of_nat nHeight, un_nVersion = v\<rparr>, s))))"

section \<open>Cache entries and caches\<close>

record CCoinsCacheEntry =
  ce_coins :: CCoins
  ce_flags :: byte

definition DIRTY :: byte where "DIRTY = 1"
definition FRESH :: byte where "FRESH = 2"

definition is_dirty :: "CCoinsCacheEntry \<Rightarrow> bool" where
  "is_dirty e \<longleftrightarrow> ce_flags e AND DIRTY \<noteq> 0"

definition is_fresh :: "CCoinsCacheEntry \<Rightarrow> bool" where
  "is_fresh e \<longleftrightarrow> ce_flags e AND FRESH \<noteq> 0"

type_synonym CCoinsMap = "(base_uint \<times> CCoinsCacheEntry) list"

record CCoinsViewCache =
  hasModifier :: bool
  cv_hashBlock :: base_uint
  cacheCoins :: CCoinsMap

type_synonym 'v getter = "'v \<Rightarrow> base_uint \<Rightarrow> CCoins option \<times> 'v"
type_synonym 'v writer = "'v \<Rightarrow> CCoinsMap \<Rightarrow> base_uint \<Rightarrow> (bool \<times> 'v) option"

definition new_CCoinsViewCache :: CCoinsViewCache where
  "new_CCoinsViewCache = \<lparr>hasModifier = False, cv_hashBlock = bu_zero WIDTH256, cacheCoins = []\<rparr>"

definition FetchCoins :: "'v getter \<Rightarrow> base_uint \<Rightarrow> 'v \<times> CCoinsViewCache \<Rightarrow> CCoins option \<times> 'v \<times> CCoinsViewCache" where
  "FetchCoins get txid = (\<lambda>(v, c).
     case map_of (cacheCoins c) txid of
       Some e \<Rightarrow> (Some (ce_coins e), v, c)
     | None \<Rightarrow>
        (case get v txid of
           (None, v) \<Rightarrow> (None, v, c)
         | (Some tmp, v) \<Rightarrow>
             (let e = \<lparr>ce_coins = tmp, ce_flags = (if coins_IsPruned tmp then FRESH else 0)\<rparr>
              in (Some tmp, v, c\<lparr>cacheCoins := AList.update txid e (cacheCoins c)\<rparr>))))"

definition cache_GetCoins :: "'v getter \<Rightarrow> ('v \<times> CCoinsViewCache) getter" where
  "cache_GetCoins get vc txid = FetchCoins get txid vc"

definition AccessCoins :: "'v getter \<Rightarrow> base_uint \<Rightarrow> 'v \<times> CCoinsViewCache \<Rightarrow> CCoins option \<times> 'v \<times> CCoinsViewCache" where
  "AccessCoins get txid vc = FetchCoins get txid vc"

definition cache_HaveCoins :: "'v getter \<Rightarrow> base_uint \<Rightarrow> 'v \<times> CCoinsViewCache \<Rightarrow> bool \<times> 'v \<times> CCoinsViewCache" where
  "cache_HaveCoins get txid vc =
     (case FetchCoins get txid vc of (r, vc) \<Rightarrow> ((case r of None \<Rightarrow> False | Some c \<Rightarrow> co_vout c \<noteq> []), vc))"

definition ModifyCoins :: "'v getter \<Rightarrow> base_uint \<Rightarrow> 'v \<times> CCoinsViewCache \<Rightarrow> ('v \<times> CCoinsViewCache) option" where
  "ModifyCoins get txid = (\<lambda>(v, c).
     if hasModifier c then None
     else case (case map_of (cacheCoins c) txid of
            Some e \<Rightarrow> (e, v)
          | None \<Rightarrow>
             (case get v txid of
                (None, v) \<Rightarrow> (\<lparr>ce_coins = coins_Clear, ce_flags = FRESH\<rparr>, v)
              | (Some tmp, v) \<Rightarrow> (\<lparr>ce_coins = tmp, ce_flags = (if coins_IsPruned tmp then FRESH else 0)\<rparr>, v))) of
          (e, v) \<Rightarrow>
            Some (v, c\<lparr>cacheCoins := AList.update txid (e\<lparr>ce_flags := ce_flags e OR DIRTY\<rparr>) (cacheCoins c), hasModifier := True\<rparr>))"

text \<open>The destructor of the modifier on the entry of \<open>txid\<close>, whose coins have become \<open>coins\<close>.\<close>

definition modifier_end :: "base_uint \<Rightarrow> CCoins \<Rightarrow> CCoinsViewCache \<Rightarrow> CCoinsViewCache option" where
  "modifier_end txid coins c =
     (if \<not> hasModifier c then None
      else case map_of (cacheCoins c) txid of None \<Rightarrow> None
        | Some e \<Rightarrow>
            (let coins = coins_Cleanup coins; c = c\<lparr>hasModifier := False\<rparr>
             in if is_fresh e \<and> coins_IsPruned coins then Some (c\<lparr>cacheCoins := AList.delete txid (cacheCoins c)\<rparr>)
                else Some (c\<lparr>cacheCoins := AList.update txid (e\<lparr>ce_coins := coins\<rparr>) (cacheCoins c)\<rparr>)))"

definition with_modifier ::
  "'v getter \<Rightarrow> base_uint \<Rightarrow> (CCoins \<Rightarrow> 'r \<times> CCoins) \<Rightarrow> 'v \<times> CCoinsViewCache \<Rightarrow> ('r \<times> 'v \<times> CCoinsViewCache) option" where
  "with_modifier get txid f vc =
     (case ModifyCoins get txid vc of None \<Rightarrow> None
      | Some (v, c) \<Rightarrow>
         (case map_of (cacheCoins c) txid of None \<Rightarrow> None
          | Some e \<Rightarrow>
             (case f (ce_coins e) of (r, coins) \<Rightarrow>
               (case modifier_end txid coins c of None \<Rightarrow> None | Some c \<Rightarrow> Some (r, v, c)))))"

fun batch_loop :: "CCoinsMap \<Rightarrow> CCoinsMap \<Rightarrow> CCoinsMap option" where
  "batch_loop [] us = Some us"
| "batch_loop ((txid, e) # mapCoins) us =
     (if is_dirty e then
        (case map_of us txid of
           None \<Rightarrow>
             if \<not> coins_IsPruned (ce_coins e) then
               (if \<not> is_fresh e then None
                else batch_loop mapCoins (AList.update txid \<lparr>ce_coins = ce_coins e, ce_flags = DIRTY OR FRESH\<rparr> us))
             else batch_loop mapCoins us
         | Some itUs \<Rightarrow>
             if is_fresh itUs \<and> coins_IsPruned (ce_coins e) then batch_loop mapCoins (AList.delete txid us)
             else batch_loop mapCoins
                    (AList.update txid (itUs\<lparr>ce_coins := ce_coins e, ce_flags := ce_flags itUs OR DIRTY\<rparr>) us))
      else batch_loop mapCoins us)"

definition cache_BatchWrite :: "('v \<times> CCoinsViewCache) writer" where
  "cache_BatchWrite vc mapCoins hashBlockIn =
     (case vc of (v, c) \<Rightarrow>
        if hasModifier c then None
        else case batch_loop mapCoins (cacheCoins c) of None \<Rightarrow> None
          | Some us \<Rightarrow> Some (True, v, c\<lparr>cacheCoins := us, cv_hashBlock := hashBlockIn\<rparr>))"

definition cache_Flush :: "'v writer \<Rightarrow> 'v \<times> CCoinsViewCache \<Rightarrow> (bool \<times> 'v \<times> CCoinsViewCache) option" where
  "cache_Flush batch = (\<lambda>(v, c).
     case batch v (cacheCoins c) (cv_hashBlock c) of None \<Rightarrow> None
     | Some (fOk, v) \<Rightarrow> Some (fOk, v, c\<lparr>cacheCoins := []\<rparr>))"

definition cache_GetBestBlock :: "('v \<Rightarrow> base_uint) \<Rightarrow> 'v \<times> CCoinsViewCache \<Rightarrow> base_uint \<times> 'v \<times> CCoinsViewCache" where
  "cache_GetBestBlock best = (\<lambda>(v, c).
     let c = (if cv_hashBlock c = bu_zero WIDTH256 then c\<lparr>cv_hashBlock := best v\<rparr> else c) in (cv_hashBlock c, v, c))"

definition SetBestBlock :: "base_uint \<Rightarrow> 'v \<times> CCoinsViewCache \<Rightarrow> 'v \<times> CCoinsViewCache" where
  "SetBestBlock hashBlockIn = (\<lambda>(v, c). (v, c\<lparr>cv_hashBlock := hashBlockIn\<rparr>))"

definition GetCacheSize :: "'v \<times> CCoinsViewCache \<Rightarrow> nat" where
  "GetCacheSize = (\<lambda>(v, c). length (cacheCoins c))"

text \<open>\<open>GetOutputFor\<close> asserts that the output is there.\<close>

definition GetOutputFor :: "'v getter \<Rightarrow> CTxIn \<Rightarrow> 'v \<times> CCoinsViewCache \<Rightarrow> (CTxOut \<times> 'v \<times> CCoinsViewCache) option" where
  "GetOutputFor get inp vc =
     (case AccessCoins get (op_hash (prevout inp)) vc of
        (None, vc) \<Rightarrow> None
      | (Some coins, vc) \<Rightarrow>
          if coins_IsAvailable coins (unat (op_n (prevout inp)))
          then Some (co_vout coins ! unat (op_n (prevout inp)), vc) else None)"

fun value_in_loop :: "'v getter \<Rightarrow> CTxIn list \<Rightarrow> CAmount \<Rightarrow> 'v \<times> CCoinsViewCache \<Rightarrow> (CAmount \<times> 'v \<times> CCoinsViewCache) option" where
  "value_in_loop get [] nResult vc = Some (nResult, vc)"
| "value_in_loop get (txin # ins) nResult vc =
     (case GetOutputFor get txin vc of None \<Rightarrow> None
      | Some (out, vc) \<Rightarrow> value_in_loop get ins (wrap64 (nResult + nValue out)) vc)"

definition GetValueIn :: "'v getter \<Rightarrow> CTransaction \<Rightarrow> 'v \<times> CCoinsViewCache \<Rightarrow> (CAmount \<times> 'v \<times> CCoinsViewCache) option" where
  "GetValueIn get tx vc = (if IsCoinBase tx then Some (0, vc) else value_in_loop get (vin tx) 0 vc)"

fun have_inputs_loop :: "'v getter \<Rightarrow> CTxIn list \<Rightarrow> 'v \<times> CCoinsViewCache \<Rightarrow> bool \<times> 'v \<times> CCoinsViewCache" where
  "have_inputs_loop get [] vc = (True, vc)"
| "have_inputs_loop get (txin # ins) vc =
     (case AccessCoins get (op_hash (prevout txin)) vc of
        (None, vc) \<Rightarrow> (False, vc)
      | (Some coins, vc) \<Rightarrow>
          if \<not> coins_IsAvailable coins (unat (op_n (prevout txin))) then (False, vc) else have_inputs_loop get ins vc)"

definition HaveInputs :: "'v getter \<Rightarrow> CTransaction \<Rightarrow> 'v \<times> CCoinsViewCache \<Rightarrow> bool \<times> 'v \<times> CCoinsViewCache" where
  "HaveInputs get tx vc = (if \<not> IsCoinBase tx then have_inputs_loop get (vin tx) vc else (True, vc))"

section \<open>The database view\<close>

record CCoinsViewDB =
  db_coins :: "base_uint \<Rightarrow> CCoins option"
  db_best :: "base_uint option"

definition db_GetCoins :: "CCoinsViewDB getter" where
  "db_GetCoins db txid = (db_coins db txid, db)"

definition db_HaveCoins :: "CCoinsViewDB \<Rightarrow> base_uint \<Rightarrow> bool" where
  "db_HaveCoins db txid \<longleftrightarrow> db_coins db txid \<noteq> None"

definition db_GetBestBlock :: "CCoinsViewDB \<Rightarrow> base_uint" where
  "db_GetBestBlock db = (case db_best db of None \<Rightarrow> bu_zero WIDTH256 | Some h \<Rightarrow> h)"

definition BatchWriteCoins :: "base_uint \<Rightarrow> CCoins \<Rightarrow> (base_uint \<Rightarrow> CCoins option) \<Rightarrow> base_uint \<Rightarrow> CCoins option" where
  "BatchWriteCoins hash coins m = (if coins_IsPruned coins then m(hash := None) else m(hash \<mapsto> coins))"

definition db_BatchWrite :: "CCoinsViewDB writer" where
  "db_BatchWrite db mapCoins hashBlock =
     Some (True, \<lparr>db_coins = fold (\<lambda>(txid, e) m. if is_dirty e then BatchWriteCoins txid (ce_coins e) m else m) mapCoins (db_coins db),
                  db_best = (if hashBlock \<noteq> bu_zero WIDTH256 then Some hashBlock else db_best db)\<rparr>)"

unbundle bit_operations_syntax

section \<open>The serialized form is read back\<close>

text \<open>Coins as the node holds them: cleaned up, not fully spent, spent outputs null, numbers of the width they are stored in.\<close>

definition valid_coins :: "CCoins \<Rightarrow> bool" where
  "valid_coins c \<longleftrightarrow> co_vout c \<noteq> [] \<and> \<not> txout_IsNull (last (co_vout c)) \<and> length (co_vout c) < 2 ^ 30 \<and>
     (\<forall>out\<in>set (co_vout c). if txout_IsNull out then out = txout_SetNull else valid_ctxout out) \<and>
     0 \<le> co_nVersion c \<and> co_nVersion c < 2 ^ 31 \<and> 0 \<le> co_nHeight c \<and> co_nHeight c < 2 ^ 31"

definition mask_used :: "CCoins \<Rightarrow> nat \<Rightarrow> bool" where
  "mask_used c b \<longleftrightarrow> (\<exists>i\<in>set [0..<8]. coins_IsAvailable c (2 + b * 8 + i))"

lemma mask_used_bound: "mask_used c b \<Longrightarrow> 2 + b * 8 < length (co_vout c)"
  by (auto simp: mask_used_def coins_IsAvailable_def)

lemma calc_mask_loop_spec:
  "calc_mask_loop c b l n = (l', n') \<Longrightarrow> l \<le> b \<Longrightarrow> (0 < l \<longrightarrow> mask_used c (l - 1)) \<Longrightarrow> (\<forall>j. l \<le> j \<longrightarrow> j < b \<longrightarrow> \<not> mask_used c j) \<Longrightarrow>
   l \<le> l' \<and> (0 < l' \<longrightarrow> mask_used c (l' - 1)) \<and> (\<forall>j\<ge>l'. \<not> mask_used c j) \<and> n' = n + length (filter (mask_used c) [b..<l'])"
proof (induction c b l n arbitrary: l' n' rule: calc_mask_loop.induct)
  case (1 c b l n)
  show ?case
  proof (cases "2 + b * 8 < length (co_vout c)")
    case False
    then have "\<not> mask_used c j" if "b \<le> j" for j using mask_used_bound [of c j] that by auto
    then show ?thesis using "1.prems" False by (auto simp: calc_mask_loop.simps [of c b] not_less) (metis not_le)
  next
    case True
    have used: "list_all (\<lambda>i. \<not> coins_IsAvailable c (2 + b * 8 + i)) [0..<8] \<longleftrightarrow> \<not> mask_used c b"
      by (auto simp: mask_used_def list_all_iff)
    show ?thesis
    proof (cases "mask_used c b")
      case u: True
      then have "calc_mask_loop c (b + 1) (b + 1) (n + 1) = (l', n')"
        using "1.prems"(1) True used by (simp add: calc_mask_loop.simps [of c b])
      from "1.IH"(1) [OF True refl _ this] u used
      have IH: "b + 1 \<le> l'" "0 < l' \<longrightarrow> mask_used c (l' - 1)" "\<forall>j\<ge>l'. \<not> mask_used c j"
        "n' = n + 1 + length (filter (mask_used c) [b + 1..<l'])" by auto
      have "[b..<l'] = b # [b + 1..<l']" using IH(1) by (simp add: upt_conv_Cons)
      then show ?thesis using IH u "1.prems"(2) by auto
    next
      case u: False
      then have loop: "calc_mask_loop c (b + 1) l n = (l', n')"
        using "1.prems"(1) True used by (simp add: calc_mask_loop.simps [of c b])
      have "\<forall>j. l \<le> j \<longrightarrow> j < b + 1 \<longrightarrow> \<not> mask_used c j" using "1.prems"(4) u by (auto simp: less_Suc_eq)
      from "1.IH"(2) [OF True refl _ loop _ "1.prems"(3) this] u used "1.prems"(2)
      have IH: "l \<le> l'" "0 < l' \<longrightarrow> mask_used c (l' - 1)" "\<forall>j\<ge>l'. \<not> mask_used c j"
        "n' = n + length (filter (mask_used c) [b + 1..<l'])" by auto
      have "filter (mask_used c) [b..<l'] = filter (mask_used c) [b + 1..<l']"
        using u by (cases "b < l'") (simp_all add: upt_conv_Cons)
      then show ?thesis using IH by simp
    qed
  qed
qed

lemma CalcMaskSize_spec:
  assumes "CalcMaskSize c = (l, n)"
  shows "(0 < l \<longrightarrow> mask_used c (l - 1)) \<and> (\<forall>j\<ge>l. \<not> mask_used c j) \<and> n = length (filter (mask_used c) [0..<l])"
  using calc_mask_loop_spec [OF assms [unfolded CalcMaskSize_def]] by simp

lemma bit_mask_char: "bit (mask_char c b) p \<longleftrightarrow> p < 8 \<and> coins_IsAvailable c (2 + b * 8 + p)"
proof -
  have or: "bit ((ch :: byte) OR push_bit i 1) p \<longleftrightarrow> bit ch p \<or> p < 8 \<and> p = i" for ch i
    by (auto simp: bit_or_iff bit_exp_iff dest: bit_imp_le_length)
  have "bit (foldl (\<lambda>ch i. if A i then ch OR push_bit i 1 else ch) a is) p \<longleftrightarrow> bit a p \<or> p < 8 \<and> p \<in> set is \<and> A p"
    for A :: "nat \<Rightarrow> bool" and a :: byte and "is"
  proof (induction "is" arbitrary: a)
    case (Cons i "is")
    show ?case unfolding foldl_Cons Cons.IH by (auto simp: or simp del: push_bit_of_1)
  qed simp
  then show ?thesis by (simp add: mask_char_def)
qed

lemma mask_char_zero: "mask_char c b = 0 \<longleftrightarrow> \<not> mask_used c b"
  by (auto simp: bit_eq_iff bit_mask_char mask_used_def)

lemma and_bit_nonzero: "(w :: byte) AND push_bit p 1 \<noteq> 0 \<longleftrightarrow> bit w p"
  by (simp add: and_exp_eq_0_iff_not_bit)

lemma read_mask_chars:
  assumes "b \<le> l" "b < l \<longrightarrow> mask_used c (l - 1)"
  shows "read_mask (length (filter (mask_used c) [b..<l])) (map (mask_char c) [b..<l] @ r) vAvail =
    Some (vAvail @ map (coins_IsAvailable c) [2 + 8 * b..<2 + 8 * l], r)"
  using assms
proof (induction "l - b" arbitrary: b vAvail)
  case (Suc d)
  then have bl: "b < l" by simp
  have upt: "[b..<l] = b # [Suc b..<l]" using bl by (simp add: upt_conv_Cons)
  have pos: "length (filter (mask_used c) [b..<l]) \<noteq> 0" using Suc.prems(2) bl
    by (auto simp: filter_empty_conv intro!: exI [of _ "l - 1"] bexI [of _ "l - 1"])
  then obtain k where k: "length (filter (mask_used c) [b..<l]) = Suc k" by (meson not0_implies_Suc)
  have step: "(if mask_char c b \<noteq> 0 then k else Suc k) = length (filter (mask_used c) [Suc b..<l])"
    using k by (auto simp: upt mask_char_zero split: if_splits)
  have bits: "map (\<lambda>p. mask_char c b AND push_bit p 1 \<noteq> 0) [0..<8] = map (coins_IsAvailable c) [2 + 8 * b..<2 + 8 * Suc b]"
    by (rule nth_equalityI) (auto simp: and_exp_eq_0_iff_not_bit bit_mask_char nth_append algebra_simps)
  have app: "[2 + 8 * b..<2 + 8 * l] = [2 + 8 * b..<2 + 8 * Suc b] @ [2 + 8 * Suc b..<2 + 8 * l]"
    using upt_add_eq_append [of "2 + 8 * b" "2 + 8 * Suc b" "8 * (l - Suc b)"] bl by (simp add: algebra_simps)
  have "read_mask (length (filter (mask_used c) [Suc b..<l])) (map (mask_char c) [Suc b..<l] @ r)
      (vAvail @ map (coins_IsAvailable c) [2 + 8 * b..<2 + 8 * Suc b]) =
    Some ((vAvail @ map (coins_IsAvailable c) [2 + 8 * b..<2 + 8 * Suc b]) @ map (coins_IsAvailable c) [2 + 8 * Suc b..<2 + 8 * l], r)"
    using Suc.hyps(2) Suc.prems bl by (intro Suc.hyps(1)) auto
  then show ?case unfolding k unfolding upt list.map append_Cons read_mask.simps step bits app map_append append_assoc .
qed simp

lemma read_outs_nulls: "read_outs D (replicate m False) r = Some (replicate m txout_SetNull, r)"
  by (induction m) simp_all

lemma read_outs_outs:
  assumes "key_law V D" "\<forall>out\<in>set outs. if txout_IsNull out then out = txout_SetNull else valid_ctxout out"
  shows "read_outs D (map (\<lambda>out. \<not> txout_IsNull out) outs @ replicate m False)
      (concat (map (Serialize_ctxout V) (filter (\<lambda>out. \<not> txout_IsNull out) outs)) @ r) = Some (outs @ replicate m txout_SetNull, r)"
  using assms(2)
proof (induction outs)
  case (Cons out outs)
  have "nRounds txout_SetNull = - 10" by (simp add: txout_SetNull_def)
  then show ?case using Cons ctxout_roundtrip [OF assms(1)] by (cases "txout_IsNull out") auto
qed (simp add: read_outs_nulls)

lemma pop_null_replicate: "pop_null (replicate m txout_SetNull @ outs) = pop_null outs"
  by (induction m) (simp_all add: txout_SetNull_def txout_IsNull_def)

lemma Cleanup_nulls:
  assumes "outs \<noteq> []" "\<not> txout_IsNull (last outs)"
  shows "coins_Cleanup (c\<lparr>co_vout := outs @ replicate m txout_SetNull\<rparr>) = c\<lparr>co_vout := outs\<rparr>"
proof -
  obtain us u where u: "outs = us @ [u]" using assms(1) by (cases outs rule: rev_cases) auto
  have "pop_null (u # rev us) = u # rev us" using assms(2) u by simp
  then show ?thesis unfolding coins_Cleanup_def u by (simp add: pop_null_replicate)
qed


lemma ReadVarInt_int_Write: "0 \<le> n \<Longrightarrow> n < 2 ^ 31 \<Longrightarrow> ReadVarInt_int (WriteVarInt_int n @ r) = Some (n, r)"
  using ReadVarInt_Write [of "nat n" 32 r] by (simp add: ReadVarInt_int_def WriteVarInt_int_def)

lemma and_low_bits: "m < 2 ^ k \<Longrightarrow> x AND m = take_bit k x AND (m :: nat)"
proof -
  assume m: "m < 2 ^ k"
  have "int (x AND m) \<le> int m" by (simp add: of_nat_and_eq AND_upper2)
  then have "x AND m < 2 ^ k" using m by simp
  then have "x AND m = take_bit k (x AND m)" by (rule take_bit_nat_eq_self [symmetric])
  also have "\<dots> = take_bit k x AND m" using m by (simp add: take_bit_and take_bit_nat_eq_self)
  finally show ?thesis .
qed

lemma coins_nCode_bits:
  assumes "nMaskCode \<le> 2 ^ 27" "coins_IsAvailable c 0 \<or> coins_IsAvailable c 1 \<or> nMaskCode \<noteq> 0"
  defines "n \<equiv> coins_nCode 16 c nMaskCode"
  shows "n < 2 ^ 32 \<and> (n AND 1 \<noteq> 0) = fCoinBase c \<and> (n AND 2 \<noteq> 0) = fCoinStake c \<and> (n AND 4 \<noteq> 0) = coins_IsAvailable c 0 \<and>
    (n AND 8 \<noteq> 0) = coins_IsAvailable c 1 \<and> n div 16 + (if n AND 12 \<noteq> 0 then 0 else 1) = nMaskCode"
proof -
  define k where "k = nMaskCode - (if coins_IsAvailable c 0 \<or> coins_IsAvailable c 1 then 0 else 1)"
  define f where "f = (if fCoinBase c then 1 else 0) + (if fCoinStake c then 2 else 0) +
      (if coins_IsAvailable c 0 then 4 else 0) + (if coins_IsAvailable c 1 then 8 else (0 :: nat))"
  have kf: "k \<le> 2 ^ 27" "f < 16" using assms(1) by (auto simp: k_def f_def)
  have n: "n = 16 * k + f" using kf by (simp add: n_def coins_nCode_def k_def f_def Let_def)
  have low: "(16 * k + f) AND m = f AND m" if "m < 16" for m
    using and_low_bits [of m 4 "16 * k + f"] kf(2) that by (simp add: take_bit_eq_mod)
  have "n div 16 = k" "n < 2 ^ 32" using kf by (auto simp: n)
  moreover have "(n AND 1 \<noteq> 0) = fCoinBase c" "(n AND 2 \<noteq> 0) = fCoinStake c" "(n AND 4 \<noteq> 0) = coins_IsAvailable c 0"
    "(n AND 8 \<noteq> 0) = coins_IsAvailable c 1" "(n AND 12 \<noteq> 0) = (coins_IsAvailable c 0 \<or> coins_IsAvailable c 1)"
    using low [of 1] low [of 2] low [of 4] low [of 8] low [of 12] unfolding n
    by (simp_all add: f_def del: One_nat_def add_2_eq_Suc add_2_eq_Suc')
  ultimately show ?thesis using assms(2) by (auto simp: k_def)
qed

lemma mask_count_bound:
  assumes "CalcMaskSize c = (l, n)"
  shows "n \<le> l \<and> 8 * l \<le> length (co_vout c) + 5"
proof -
  have "8 * l \<le> length (co_vout c) + 5"
    using mask_used_bound [of c "l - 1"] CalcMaskSize_spec [OF assms] by (cases l) auto
  moreover have "length (filter (mask_used c) [0..<l]) \<le> l" using length_filter_le [of "mask_used c" "[0..<l]"] by simp
  ultimately show ?thesis using CalcMaskSize_spec [OF assms] by simp
qed

lemma coins_roundtrip:
  assumes "key_law V D" "valid_coins c"
  shows "\<exists>s. Serialize_coins V c = Some s \<and> Unserialize_coins D (s @ r) = Some (c, r)"
proof -
  note v = assms(2) [unfolded valid_coins_def]
  obtain l n where ln: "CalcMaskSize c = (l, n)" by (cases "CalcMaskSize c")
  note m = CalcMaskSize_spec [OF ln] and b = mask_count_bound [OF ln]
  let ?N = "length (co_vout c)" and ?A = "coins_IsAvailable c"
  have lastA: "?A (?N - 1)" using v last_conv_nth [of "co_vout c"] by (simp add: coins_IsAvailable_def)
  have Nl: "?N \<le> 2 + 8 * l"
  proof (rule ccontr)
    assume N: "\<not> ?N \<le> 2 + 8 * l"
    define i where "i = ?N - 3"
    have "2 + i div 8 * 8 + i mod 8 = ?N - 1" using N by (simp add: i_def)
    then have "?A (2 + i div 8 * 8 + i mod 8)" using lastA by (simp only:)
    then have "mask_used c (i div 8)" unfolding mask_used_def by (intro bexI [of _ "i mod 8"]) simp_all
    moreover have "l \<le> i div 8" using N by (simp add: i_def less_eq_div_iff_mult_less_eq)
    ultimately show False using m by blast
  qed
  have some: "?A 0 \<or> ?A 1 \<or> n \<noteq> 0"
  proof (cases "l = 0")
    case True
    then have "?N - 1 = 0 \<or> ?N - 1 = 1" using Nl by auto
    then show ?thesis using lastA by metis
  next
    case False
    then have "l - 1 \<in> set (filter (mask_used c) [0..<l])" using m by simp
    then have "filter (mask_used c) [0..<l] \<noteq> []" by (metis empty_iff empty_set)
    then show ?thesis using m by simp
  qed
  have "n \<le> 2 ^ 27" using b v by simp
  note code = coins_nCode_bits [OF this some]
  have avail: "map ?A [0..<2 + 8 * l] = map (\<lambda>out. \<not> txout_IsNull out) (co_vout c) @ replicate (2 + 8 * l - ?N) False"
    using Nl by (intro nth_equalityI) (auto simp: nth_append coins_IsAvailable_def nth_Cons' simp del: upt_Suc)
  have mask: "read_mask n (map (mask_char c) [0..<l] @ s) [?A 0, ?A 1] =
      Some (map (\<lambda>out. \<not> txout_IsNull out) (co_vout c) @ replicate (2 + 8 * l - ?N) False, s)" for s
  proof -
    have "[?A 0, ?A 1] @ map ?A [2 + 8 * 0..<2 + 8 * l] = map ?A [0..<2 + 8 * l]"
      by (simp add: upt_conv_Cons numeral_2_eq_2 del: upt_Suc)
    then show ?thesis using read_mask_chars [of 0 l c s "[?A 0, ?A 1]"] m avail by simp
  qed
  let ?s = "WriteVarInt_int (co_nVersion c) @ WriteVarInt (coins_nCode 16 c n) @ map (mask_char c) [0..<l] @
    concat (map (Serialize_ctxout V) (filter (\<lambda>out. \<not> txout_IsNull out) (co_vout c))) @ WriteVarInt_int (co_nHeight c)"
  have "Serialize_coins V c = Some ?s" using ln some by (auto simp: Serialize_coins_def)
  moreover have "Unserialize_coins D (?s @ r) = Some (c, r)"
  proof -
    have rc: "ReadVarInt 32 0 (WriteVarInt (coins_nCode 16 c n) @ s) = Some (coins_nCode 16 c n, s)" for s
      using code by (intro ReadVarInt_Write) simp_all
    have code': "coins_nCode 16 c n div 16 + (if coins_nCode 16 c n AND 12 \<noteq> 0 then 0 else 1) = n"
      "(coins_nCode 16 c n AND 1 \<noteq> 0) = fCoinBase c" "(coins_nCode 16 c n AND 2 \<noteq> 0) = fCoinStake c"
      "(coins_nCode 16 c n AND 4 \<noteq> 0) = ?A 0" "(coins_nCode 16 c n AND 8 \<noteq> 0) = ?A 1" using code by blast+
    have clean: "coins_Cleanup \<lparr>fCoinBase = fCoinBase c, fCoinStake = fCoinStake c,
        co_vout = co_vout c @ replicate m' txout_SetNull, co_nHeight = co_nHeight c, co_nVersion = co_nVersion c\<rparr> = c" for m'
      using Cleanup_nulls [of "co_vout c" m' c] v by (cases c) simp
    note vi = ReadVarInt_int_Write [of "co_nVersion c"] ReadVarInt_int_Write [of "co_nHeight c"]
    have outs: "\<forall>out\<in>set (co_vout c). if txout_IsNull out then out = txout_SetNull else valid_ctxout out" using v by blast
    show ?thesis unfolding Unserialize_coins_def append_assoc using v
      by (simp only: vi rc option.case prod.case code' mask read_outs_outs [OF assms(1) outs] clean)
  qed
  ultimately show ?thesis by blast
qed

section \<open>What a view promises\<close>

definition live :: "CCoins option \<Rightarrow> CCoins option" where
  "live r = (case r of None \<Rightarrow> None | Some c \<Rightarrow> if coins_IsPruned c then None else Some c)"

definition batch_fits :: "(base_uint \<Rightarrow> CCoins option) \<Rightarrow> (base_uint \<Rightarrow> bool) \<Rightarrow> CCoinsMap \<Rightarrow> bool" where
  "batch_fits m rdy us \<longleftrightarrow> distinct (map fst us) \<and>
     (\<forall>(k, e)\<in>set us. is_dirty e \<longrightarrow> (if is_fresh e then m k = None else rdy k))"

definition merged :: "CCoinsMap \<Rightarrow> (base_uint \<Rightarrow> CCoins option) \<Rightarrow> base_uint \<Rightarrow> CCoins option" where
  "merged us m k = (case map_of us k of None \<Rightarrow> m k | Some e \<Rightarrow> if is_dirty e then live (Some (ce_coins e)) else m k)"

locale coins_reader =
  fixes get :: "'v getter" and look :: "'v \<Rightarrow> base_uint \<Rightarrow> CCoins option" and ready :: "'v \<Rightarrow> base_uint \<Rightarrow> bool"
    and good :: "'v \<Rightarrow> bool"
  assumes get_good: "good v \<Longrightarrow> get v k = (r, v') \<Longrightarrow> good v'"
    and get_look: "good v \<Longrightarrow> get v k = (r, v') \<Longrightarrow> live r = look v k"
    and get_keeps: "good v \<Longrightarrow> get v k = (r, v') \<Longrightarrow> look v' = look v"
    and get_ready: "good v \<Longrightarrow> get v k = (r, v') \<Longrightarrow> look v k \<noteq> None \<Longrightarrow> ready v' k"
    and ready_get: "good v \<Longrightarrow> get v k = (r, v') \<Longrightarrow> ready v j \<Longrightarrow> ready v' j"

locale coins_view = coins_reader get look ready good
  for get :: "'v getter" and batch :: "'v writer" and look :: "'v \<Rightarrow> base_uint \<Rightarrow> CCoins option"
    and ready :: "'v \<Rightarrow> base_uint \<Rightarrow> bool" and good :: "'v \<Rightarrow> bool" +
  assumes batch_ok: "good v \<Longrightarrow> batch_fits (look v) (ready v) us \<Longrightarrow>
      \<exists>v'. batch v us h = Some (True, v') \<and> good v' \<and> look v' = merged us (look v)"

text \<open>What a cache shows of its own entries over the view below, and what it keeps of them.\<close>

definition overlay :: "(base_uint \<Rightarrow> CCoins option) \<Rightarrow> CCoinsMap \<Rightarrow> base_uint \<Rightarrow> CCoins option" where
  "overlay m us k = (case map_of us k of None \<Rightarrow> m k | Some e \<Rightarrow> live (Some (ce_coins e)))"

definition cache_look :: "('v \<Rightarrow> base_uint \<Rightarrow> CCoins option) \<Rightarrow> 'v \<times> CCoinsViewCache \<Rightarrow> base_uint \<Rightarrow> CCoins option" where
  "cache_look look vc = overlay (look (fst vc)) (cacheCoins (snd vc))"

definition cache_ready :: "'v \<times> CCoinsViewCache \<Rightarrow> base_uint \<Rightarrow> bool" where
  "cache_ready vc k \<longleftrightarrow> map_of (cacheCoins (snd vc)) k \<noteq> None"

definition entry_ok :: "(base_uint \<Rightarrow> CCoins option) \<Rightarrow> (base_uint \<Rightarrow> bool) \<Rightarrow> base_uint \<Rightarrow> CCoinsCacheEntry \<Rightarrow> bool" where
  "entry_ok m rdy k e \<longleftrightarrow> (if is_fresh e then m k = None else rdy k) \<and> (\<not> is_dirty e \<longrightarrow> live (Some (ce_coins e)) = m k)"

definition entries_fit :: "(base_uint \<Rightarrow> CCoins option) \<Rightarrow> (base_uint \<Rightarrow> bool) \<Rightarrow> CCoinsMap \<Rightarrow> bool" where
  "entries_fit m rdy us \<longleftrightarrow> distinct (map fst us) \<and> (\<forall>k e. map_of us k = Some e \<longrightarrow> entry_ok m rdy k e)"

definition cache_good ::
  "('v \<Rightarrow> base_uint \<Rightarrow> CCoins option) \<Rightarrow> ('v \<Rightarrow> base_uint \<Rightarrow> bool) \<Rightarrow> ('v \<Rightarrow> bool) \<Rightarrow> 'v \<times> CCoinsViewCache \<Rightarrow> bool" where
  "cache_good look ready good vc \<longleftrightarrow> good (fst vc) \<and> \<not> hasModifier (snd vc) \<and>
     entries_fit (look (fst vc)) (ready (fst vc)) (cacheCoins (snd vc))"

lemma flag_bits:
  "(f OR DIRTY) AND FRESH = f AND FRESH" "(f OR DIRTY) AND DIRTY = DIRTY" "FRESH AND FRESH = FRESH" "FRESH AND DIRTY = 0"
  "DIRTY AND FRESH = 0" "DIRTY \<noteq> 0" "FRESH \<noteq> 0" "(DIRTY OR FRESH) AND FRESH = FRESH" "(DIRTY OR FRESH) AND DIRTY = DIRTY"
  by (simp_all add: DIRTY_def FRESH_def bit.conj_disj_distrib2)

lemma flag_simps [simp]:
  "is_fresh (e\<lparr>ce_flags := ce_flags e OR DIRTY\<rparr>) = is_fresh e"
  "is_dirty (e\<lparr>ce_flags := ce_flags e OR DIRTY\<rparr>)"
  "is_fresh (e\<lparr>ce_coins := c, ce_flags := ce_flags e OR DIRTY\<rparr>) = is_fresh e"
  "is_dirty (e\<lparr>ce_coins := c, ce_flags := ce_flags e OR DIRTY\<rparr>)"
  "is_fresh (e\<lparr>ce_coins := c\<rparr>) = is_fresh e" "is_dirty (e\<lparr>ce_coins := c\<rparr>) = is_dirty e"
  "is_fresh \<lparr>ce_coins = c, ce_flags = FRESH\<rparr>" "\<not> is_dirty \<lparr>ce_coins = c, ce_flags = FRESH\<rparr>"
  "\<not> is_fresh \<lparr>ce_coins = c, ce_flags = 0\<rparr>" "\<not> is_dirty \<lparr>ce_coins = c, ce_flags = 0\<rparr>"
  "is_fresh \<lparr>ce_coins = c, ce_flags = DIRTY OR FRESH\<rparr>" "is_dirty \<lparr>ce_coins = c, ce_flags = DIRTY OR FRESH\<rparr>"
  by (simp_all add: is_fresh_def is_dirty_def flag_bits)

lemma live_simps [simp]:
  "live None = None" "live (Some c) = (if coins_IsPruned c then None else Some c)"
  by (simp_all add: live_def)

lemma entries_fit_empty [simp]: "entries_fit m rdy []"
  by (simp add: entries_fit_def)

lemma entries_fit_update: "entries_fit m rdy us \<Longrightarrow> entry_ok m rdy k e \<Longrightarrow> entries_fit m rdy (AList.update k e us)"
  by (auto simp: entries_fit_def update_conv distinct_update)

lemma entries_fit_delete: "entries_fit m rdy us \<Longrightarrow> entries_fit m rdy (AList.delete k us)"
  by (auto simp: entries_fit_def delete_conv' distinct_delete)

lemma entries_fit_mono: "entries_fit m rdy us \<Longrightarrow> (\<And>k. rdy k \<Longrightarrow> rdy' k) \<Longrightarrow> entries_fit m rdy' us"
  by (auto simp: entries_fit_def entry_ok_def split: if_splits)

lemma entries_fit_batch: "entries_fit m rdy us \<Longrightarrow> batch_fits m rdy us"
  by (auto simp: entries_fit_def batch_fits_def entry_ok_def)


lemma overlay_update: "overlay m (AList.update k e us) = (overlay m us)(k := live (Some (ce_coins e)))"
  by (auto simp: overlay_def update_conv fun_eq_iff)

lemma overlay_delete: "entries_fit m rdy us \<Longrightarrow> overlay m (AList.delete k us) = (overlay m us)(k := m k)"
  by (auto simp: overlay_def delete_conv' fun_eq_iff)

lemma overlay_empty [simp]: "overlay m [] = m"
  by (simp add: overlay_def fun_eq_iff)

lemma merged_Nil [simp]: "merged [] m = m"
  by (simp add: merged_def fun_eq_iff)

lemma merged_Cons:
  "k \<notin> fst ` set ms \<Longrightarrow> merged ((k, e) # ms) m = merged ms (if is_dirty e then m(k := live (Some (ce_coins e))) else m)"
proof (rule ext)
  fix j assume "k \<notin> fst ` set ms"
  then have "map_of ms k = None" by (simp add: map_of_eq_None_iff)
  then show "merged ((k, e) # ms) m j = merged ms (if is_dirty e then m(k := live (Some (ce_coins e))) else m) j"
    by (cases "map_of ms j"; cases "j = k") (simp_all add: merged_def)
qed

lemma batch_fits_tail:
  assumes "batch_fits m rdy ((k, e) # ms)" "\<And>j. j \<noteq> k \<Longrightarrow> m' j = m j" "\<And>j. j \<noteq> k \<Longrightarrow> rdy j \<Longrightarrow> rdy' j"
  shows "batch_fits m' rdy' ms"
proof -
  have "(if is_fresh e' then m' j = None else rdy' j)" if "(j, e') \<in> set ms" "is_dirty e'" for j e'
  proof -
    have "j \<noteq> k" using assms(1) that(1) by (force simp: batch_fits_def)
    then show ?thesis using assms that by (fastforce simp: batch_fits_def)
  qed
  then show ?thesis using assms(1) by (auto simp: batch_fits_def)
qed

lemma batch_loop_merges:
  assumes "entries_fit m rdy us" "batch_fits (overlay m us) (\<lambda>k. map_of us k \<noteq> None) ms"
  shows "\<exists>us'. batch_loop ms us = Some us' \<and> entries_fit m rdy us' \<and> overlay m us' = merged ms (overlay m us)"
  using assms
proof (induction ms us rule: batch_loop.induct)
  case (2 k e ms us)
  have notin: "k \<notin> fst ` set ms" using "2.prems"(2) by (simp add: batch_fits_def)
  note tail = batch_fits_tail [OF "2.prems"(2)]
  have step: "\<exists>us''. batch_loop ms us' = Some us'' \<and> entries_fit m rdy us'' \<and> overlay m us'' = merged ((k, e) # ms) (overlay m us)"
    if IH: "entries_fit m rdy us' \<Longrightarrow> batch_fits (overlay m us') (\<lambda>k. map_of us' k \<noteq> None) ms \<Longrightarrow>
        \<exists>us''. batch_loop ms us' = Some us'' \<and> entries_fit m rdy us'' \<and> overlay m us'' = merged ms (overlay m us')"
      and ok: "entries_fit m rdy us'" and same: "\<And>j. j \<noteq> k \<Longrightarrow> map_of us' j = map_of us j"
      and here: "overlay m us' = (if is_dirty e then (overlay m us)(k := live (Some (ce_coins e))) else overlay m us)" for us'
  proof -
    have "batch_fits (overlay m us') (\<lambda>k. map_of us' k \<noteq> None) ms" by (rule tail) (auto simp: same here)
    from IH [OF ok this] show ?thesis unfolding merged_Cons [OF notin] here .
  qed
  have head: "is_dirty e \<Longrightarrow> if is_fresh e then overlay m us k = None else map_of us k \<noteq> None"
    using "2.prems"(2) by (auto simp: batch_fits_def)
  show ?case
  proof (cases "is_dirty e")
    case False
    then show ?thesis using step [OF "2.IH"(5) [OF False] "2.prems"(1)] by simp
  next
    case dirty: True
    show ?thesis
    proof (cases "map_of us k")
      case None
      then have fresh: "is_fresh e" "m k = None" using head [OF dirty] by (auto simp: overlay_def split: if_splits)
      show ?thesis
      proof (cases "coins_IsPruned (ce_coins e)")
        case True
        have "overlay m us = (overlay m us)(k := live (Some (ce_coins e)))" using None fresh True by (auto simp: overlay_def)
        then show ?thesis using step [OF "2.IH"(2) [OF dirty None] "2.prems"(1)] True dirty None by simp
      next
        case False
        let ?e = "\<lparr>ce_coins = ce_coins e, ce_flags = DIRTY OR FRESH\<rparr>"
        have "entry_ok m rdy k ?e" using fresh by (simp add: entry_ok_def)
        note fit = entries_fit_update [OF "2.prems"(1) this]
        have IH: "\<not> coins_IsPruned (ce_coins e)" "\<not> \<not> is_fresh e" using False fresh by auto
        have "overlay m (AList.update k ?e us) = (if is_dirty e then (overlay m us)(k := live (Some (ce_coins e))) else overlay m us)"
          using dirty by (simp add: overlay_update del: live_simps)
        from step [OF "2.IH"(1) [OF dirty None IH] fit _ this] show ?thesis using dirty None IH
          by (simp add: update_conv)
      qed
    next
      case (Some e0)
      have e0: "entry_ok m rdy k e0" using "2.prems"(1) Some by (simp add: entries_fit_def)
      show ?thesis
      proof (cases "is_fresh e0 \<and> coins_IsPruned (ce_coins e)")
        case True
        then have "m k = live (Some (ce_coins e))" using e0 by (simp add: entry_ok_def)
        then have "overlay m (AList.delete k us) = (if is_dirty e then (overlay m us)(k := live (Some (ce_coins e))) else overlay m us)"
          using dirty by (simp add: overlay_delete [OF "2.prems"(1)] del: live_simps)
        from step [OF "2.IH"(3) [OF dirty Some True] entries_fit_delete [OF "2.prems"(1)] _ this] show ?thesis
          using dirty Some True by (simp add: delete_conv')
      next
        case False
        let ?e = "e0\<lparr>ce_coins := ce_coins e, ce_flags := ce_flags e0 OR DIRTY\<rparr>"
        have "entry_ok m rdy k ?e" using e0 by (simp add: entry_ok_def)
        note fit = entries_fit_update [OF "2.prems"(1) this]
        have "overlay m (AList.update k ?e us) = (if is_dirty e then (overlay m us)(k := live (Some (ce_coins e))) else overlay m us)"
          using dirty by (simp add: overlay_update del: live_simps)
        from step [OF "2.IH"(4) [OF dirty Some False] fit _ this] show ?thesis using dirty Some False
          by (auto simp: update_conv)
      qed
    qed
  qed
qed simp

context coins_reader begin

lemma fetch_spec:
  assumes "cache_good look ready good vc" "FetchCoins get k vc = (r, vc')"
  shows "cache_good look ready good vc' \<and> live r = cache_look look vc k \<and> cache_look look vc' = cache_look look vc \<and>
    (r \<noteq> None \<longrightarrow> cache_ready vc' k) \<and> (\<forall>j. cache_ready vc j \<longrightarrow> cache_ready vc' j)"
proof -
  obtain v c where vc: "vc = (v, c)" by (cases vc)
  have g: "good v" "\<not> hasModifier c" "entries_fit (look v) (ready v) (cacheCoins c)"
    using assms(1) by (auto simp: cache_good_def vc)
  show ?thesis
  proof (cases "map_of (cacheCoins c) k")
    case (Some e)
    then show ?thesis using assms by (auto simp: FetchCoins_def vc cache_look_def overlay_def cache_ready_def)
  next
    case None
    obtain r0 v' where gt: "get v k = (r0, v')" by (cases "get v k")
    note ge = get_good [OF g(1) gt] get_look [OF g(1) gt] get_keeps [OF g(1) gt] get_ready [OF g(1) gt] ready_get [OF g(1) gt]
    have fit: "entries_fit (look v') (ready v') (cacheCoins c)"
      using entries_fit_mono [OF g(3), of "ready v'"] ge(3,5) by simp
    show ?thesis
    proof (cases r0)
      case r0: None
      then have res: "r = None" "vc' = (v', c)" using assms(2) None gt by (auto simp: FetchCoins_def vc)
      show ?thesis using ge(1-3) g fit None r0
        by (simp add: res vc cache_look_def cache_ready_def cache_good_def) (simp add: overlay_def)
    next
      case (Some tmp)
      let ?e = "\<lparr>ce_coins = tmp, ce_flags = if coins_IsPruned tmp then FRESH else 0\<rparr>"
      have ok: "entry_ok (look v') (ready v') k ?e" using ge(2-4) Some by (cases "look v k") (auto simp: entry_ok_def)
      have res: "r = Some tmp" "vc' = (v', c\<lparr>cacheCoins := AList.update k ?e (cacheCoins c)\<rparr>)"
        using assms(2) None gt Some by (auto simp: FetchCoins_def vc)
      have "(overlay (look v) (cacheCoins c))(k := live (Some tmp)) = overlay (look v) (cacheCoins c)"
        using ge(2) Some None by (auto simp: overlay_def)
      then have "cache_look look vc' = cache_look look vc"
        unfolding cache_look_def res vc by (simp add: overlay_update ge(3))
      then show ?thesis using entries_fit_update [OF fit ok] ge(1,2,3) g(2) Some None
        by (auto simp: res vc cache_good_def cache_look_def overlay_def cache_ready_def update_conv)
    qed
  qed
qed

end

context coins_view begin

lemma modifier_spec:
  assumes "cache_good look ready good vc"
  shows "\<exists>c0 vc'. with_modifier get k f vc = Some (fst (f c0), vc') \<and> live (Some c0) = cache_look look vc k \<and>
    cache_good look ready good vc' \<and>
    cache_look look vc' = (cache_look look vc)(k := live (Some (coins_Cleanup (snd (f c0))))) \<and>
    (\<forall>j. j \<noteq> k \<longrightarrow> cache_ready vc j \<longrightarrow> cache_ready vc' j)"
proof -
  obtain v c where vc: "vc = (v, c)" by (cases vc)
  have g: "good v" "\<not> hasModifier c" "entries_fit (look v) (ready v) (cacheCoins c)"
    using assms by (auto simp: cache_good_def vc)
  obtain e v' where ev: "(case map_of (cacheCoins c) k of Some e \<Rightarrow> (e, v)
        | None \<Rightarrow> (case get v k of (None, v) \<Rightarrow> (\<lparr>ce_coins = coins_Clear, ce_flags = FRESH\<rparr>, v)
                    | (Some tmp, v) \<Rightarrow> (\<lparr>ce_coins = tmp, ce_flags = (if coins_IsPruned tmp then FRESH else 0)\<rparr>, v))) = (e, v')"
    by fastforce
  have e: "good v'" "look v' = look v" "\<And>j. ready v j \<Longrightarrow> ready v' j" "entry_ok (look v) (ready v') k e"
      "live (Some (ce_coins e)) = overlay (look v) (cacheCoins c) k"
  proof -
    have *: "good v' \<and> look v' = look v \<and> (\<forall>j. ready v j \<longrightarrow> ready v' j) \<and> entry_ok (look v) (ready v') k e \<and>
      live (Some (ce_coins e)) = overlay (look v) (cacheCoins c) k"
    proof (cases "map_of (cacheCoins c) k")
      case (Some e1)
      then show ?thesis using ev g by (auto simp: overlay_def entries_fit_def)
    next
      case None
      obtain r0 v1 where gt: "get v k = (r0, v1)" by (cases "get v k")
      note ge = get_good [OF g(1) gt] get_look [OF g(1) gt] get_keeps [OF g(1) gt] get_ready [OF g(1) gt] ready_get [OF g(1) gt]
      have "coins_IsPruned coins_Clear" by (simp add: coins_IsPruned_def coins_Clear_def)
      then show ?thesis using ev None gt ge by (cases r0; cases "look v k") (auto simp: overlay_def entry_ok_def split: if_splits)
    qed
    then show "good v'" "look v' = look v" "\<And>j. ready v j \<Longrightarrow> ready v' j" "entry_ok (look v) (ready v') k e"
      "live (Some (ce_coins e)) = overlay (look v) (cacheCoins c) k" by auto
  qed
  let ?old = "ce_coins e" let ?e = "e\<lparr>ce_flags := ce_flags e OR DIRTY\<rparr>"
  let ?us = "AList.update k ?e (cacheCoins c)" let ?c = "coins_Cleanup (snd (f ?old))"
  have M: "ModifyCoins get k vc = Some (v', c\<lparr>cacheCoins := ?us, hasModifier := True\<rparr>)"
    using g(2) ev by (simp add: ModifyCoins_def vc)
  have fit: "entries_fit (look v) (ready v') (cacheCoins c)" by (rule entries_fit_mono [OF g(3) e(3)])
  have oke: "entry_ok (look v) (ready v') k ?e" "entry_ok (look v) (ready v') k (?e\<lparr>ce_coins := ?c\<rparr>)"
    using e(4) by (auto simp: entry_ok_def)
  note fit1 = entries_fit_update [OF fit oke(1)]
  have W: "with_modifier get k f vc = Some (fst (f ?old), v', c\<lparr>cacheCoins :=
      if is_fresh e \<and> coins_IsPruned ?c then AList.delete k ?us else AList.update k (?e\<lparr>ce_coins := ?c\<rparr>) ?us\<rparr>)"
  proof -
    obtain r d where fd: "f ?old = (r, d)" by (cases "f ?old")
    have "map_of (AList.update k ?e (cacheCoins c)) k = Some ?e" by (simp add: update_conv)
    then show ?thesis using g(2) unfolding fd with_modifier_def M by (cases c) (simp add: fd modifier_end_def Let_def)
  qed
  show ?thesis
  proof (cases "is_fresh e \<and> coins_IsPruned ?c")
    case True
    then have "look v k = live (Some ?c)" using e(4) by (simp add: entry_ok_def)
    then show ?thesis using True W e(1,2,5) g(2) entries_fit_delete [OF fit1, of k]
      by (intro exI [of _ ?old] exI) (auto simp: cache_good_def cache_look_def vc overlay_delete [OF fit1] overlay_update cache_ready_def
          delete_conv' update_conv simp del: live_simps)
  next
    case False
    then show ?thesis using W e(1,2,5) g(2) entries_fit_update [OF fit1 oke(2)]
      by (intro exI [of _ ?old] exI) (auto simp: cache_good_def cache_look_def vc overlay_update cache_ready_def
          update_conv simp del: live_simps)
  qed
qed

lemma cache_batch_spec:
  assumes "cache_good look ready good vc" "batch_fits (cache_look look vc) (cache_ready vc) ms"
  shows "\<exists>vc'. cache_BatchWrite vc ms h = Some (True, vc') \<and> cache_good look ready good vc' \<and>
    cache_look look vc' = merged ms (cache_look look vc)"
proof -
  obtain v c where vc: "vc = (v, c)" by (cases vc)
  have g: "good v" "\<not> hasModifier c" "entries_fit (look v) (ready v) (cacheCoins c)"
    using assms(1) by (auto simp: cache_good_def vc)
  obtain us where "batch_loop ms (cacheCoins c) = Some us" "entries_fit (look v) (ready v) us"
      "overlay (look v) us = merged ms (overlay (look v) (cacheCoins c))"
    using batch_loop_merges [OF g(3), of ms] assms(2)
    unfolding vc cache_look_def cache_ready_def fst_conv snd_conv by blast
  then show ?thesis using g by (auto simp: cache_BatchWrite_def vc cache_good_def cache_look_def)
qed

lemma flush_spec:
  assumes "cache_good look ready good vc"
  shows "\<exists>vc'. cache_Flush batch vc = Some (True, vc') \<and> cache_good look ready good vc' \<and>
    cache_look look vc' = cache_look look vc \<and> look (fst vc') = cache_look look vc \<and> cacheCoins (snd vc') = []"
proof -
  obtain v c where vc: "vc = (v, c)" by (cases vc)
  have g: "good v" "\<not> hasModifier c" "entries_fit (look v) (ready v) (cacheCoins c)"
    using assms by (auto simp: cache_good_def vc)
  obtain v' where v': "batch v (cacheCoins c) (cv_hashBlock c) = Some (True, v')" "good v'"
      "look v' = merged (cacheCoins c) (look v)"
    using batch_ok [OF g(1) entries_fit_batch [OF g(3)], of "cv_hashBlock c"] by blast
  have "merged (cacheCoins c) (look v) = overlay (look v) (cacheCoins c)"
  proof (rule ext)
    fix k show "merged (cacheCoins c) (look v) k = overlay (look v) (cacheCoins c) k"
    proof (cases "map_of (cacheCoins c) k")
      case (Some e)
      then have "entry_ok (look v) (ready v) k e" using g(3) unfolding entries_fit_def by blast
      then show ?thesis using Some by (cases "is_dirty e") (simp_all add: merged_def overlay_def entry_ok_def del: live_simps)
    qed (simp add: merged_def overlay_def)
  qed
  then show ?thesis using v' g by (auto simp: cache_Flush_def vc cache_good_def cache_look_def)
qed

lemma cache_view: "coins_view (cache_GetCoins get) cache_BatchWrite (cache_look look) cache_ready (cache_good look ready good)"
proof
  fix vc k r vc' assume "cache_good look ready good vc" "cache_GetCoins get vc k = (r, vc')"
  note f = fetch_spec [OF this [unfolded cache_GetCoins_def]]
  show "cache_good look ready good vc'" "live r = cache_look look vc k" "cache_look look vc' = cache_look look vc"
    "cache_look look vc k \<noteq> None \<Longrightarrow> cache_ready vc' k" "cache_ready vc j \<Longrightarrow> cache_ready vc' j" for j
    using f by (auto simp del: live_simps) (auto simp: live_def split: option.splits)
qed (rule cache_batch_spec)

end

section \<open>Inputs against a view\<close>

definition available :: "(base_uint \<Rightarrow> CCoins option) \<Rightarrow> COutPoint \<Rightarrow> bool" where
  "available m out = (case m (op_hash out) of None \<Rightarrow> False | Some c \<Rightarrow> coins_IsAvailable c (unat (op_n out)))"

definition output_value :: "(base_uint \<Rightarrow> CCoins option) \<Rightarrow> COutPoint \<Rightarrow> CAmount" where
  "output_value m out = (case m (op_hash out) of None \<Rightarrow> 0 | Some c \<Rightarrow> nValue (co_vout c ! unat (op_n out)))"

lemma pruned_unavailable: "coins_IsPruned c \<Longrightarrow> \<not> coins_IsAvailable c n"
  by (auto simp: coins_IsPruned_def coins_IsAvailable_def list_all_length)

lemma available_live:
  "live r = m (op_hash out) \<Longrightarrow> available m out \<longleftrightarrow> (case r of None \<Rightarrow> False | Some c \<Rightarrow> coins_IsAvailable c (unat (op_n out)))"
  unfolding available_def by (drule sym) (cases r; simp add: pruned_unavailable)

context coins_reader begin

lemma have_inputs_spec:
  "cache_good look ready good vc \<Longrightarrow> have_inputs_loop get ins vc = (b, vc') \<Longrightarrow>
   cache_good look ready good vc' \<and> cache_look look vc' = cache_look look vc \<and> b = list_all (\<lambda>i. available (cache_look look vc) (prevout i)) ins"
proof (induction ins arbitrary: vc)
  case (Cons i ins)
  obtain r vc1 where r: "FetchCoins get (op_hash (prevout i)) vc = (r, vc1)" by (meson surj_pair)
  note f = fetch_spec [OF Cons.prems(1) r]
  have av: "available (cache_look look vc) (prevout i) \<longleftrightarrow> (case r of None \<Rightarrow> False | Some c \<Rightarrow> coins_IsAvailable c (unat (op_n (prevout i))))"
    using f by (intro available_live) blast
  show ?case
  proof (cases "available (cache_look look vc) (prevout i)")
    case True
    then obtain c where c: "r = Some c" "coins_IsAvailable c (unat (op_n (prevout i)))" using av by (cases r) auto
    then have "have_inputs_loop get ins vc1 = (b, vc')" using Cons.prems(2) r by (simp add: AccessCoins_def)
    from Cons.IH [OF _ this] f True show ?thesis by simp
  next
    case False
    then have "b = False" "vc' = vc1" using Cons.prems(2) r av by (auto simp: AccessCoins_def split: option.splits)
    then show ?thesis using f False by simp
  qed
qed simp

lemma GetOutputFor_spec:
  assumes "cache_good look ready good vc" "available (cache_look look vc) (prevout i)"
  shows "\<exists>out vc'. GetOutputFor get i vc = Some (out, vc') \<and> nValue out = output_value (cache_look look vc) (prevout i) \<and>
    cache_good look ready good vc' \<and> cache_look look vc' = cache_look look vc"
proof -
  obtain r vc1 where r: "FetchCoins get (op_hash (prevout i)) vc = (r, vc1)" by (meson surj_pair)
  note f = fetch_spec [OF assms(1) r]
  then have "available (cache_look look vc) (prevout i) \<longleftrightarrow> (case r of None \<Rightarrow> False | Some c \<Rightarrow> coins_IsAvailable c (unat (op_n (prevout i))))"
    by (intro available_live) blast
  then obtain c where c: "r = Some c" "coins_IsAvailable c (unat (op_n (prevout i)))" using assms(2) by (cases r) auto
  then have "cache_look look vc (op_hash (prevout i)) = Some c"
    using f pruned_unavailable [of c] by (metis live_simps(2))
  then show ?thesis using c r f by (simp add: GetOutputFor_def AccessCoins_def output_value_def)
qed

lemma value_in_spec:
  assumes "cache_good look ready good vc" "list_all (\<lambda>i. available (cache_look look vc) (prevout i) \<and> 0 \<le> output_value (cache_look look vc) (prevout i)) ins"
    "0 \<le> n" "n + (\<Sum>i\<leftarrow>ins. output_value (cache_look look vc) (prevout i)) < 2 ^ 63"
  shows "\<exists>vc'. value_in_loop get ins n vc = Some (n + (\<Sum>i\<leftarrow>ins. output_value (cache_look look vc) (prevout i)), vc') \<and>
    cache_good look ready good vc' \<and> cache_look look vc' = cache_look look vc"
  using assms
proof (induction ins arbitrary: n vc)
  case (Cons i ins)
  let ?v = "output_value (cache_look look vc) (prevout i)"
  from Cons.prems(2) have i: "available (cache_look look vc) (prevout i)" "0 \<le> ?v"
    and rest: "list_all (\<lambda>i. available (cache_look look vc) (prevout i) \<and> 0 \<le> output_value (cache_look look vc) (prevout i)) ins" by auto
  obtain out vc1 where o: "GetOutputFor get i vc = Some (out, vc1)" "nValue out = ?v" "cache_good look ready good vc1" "cache_look look vc1 = cache_look look vc"
    using GetOutputFor_spec [OF Cons.prems(1) i(1)] by blast
  have "0 \<le> (\<Sum>i\<leftarrow>ins. output_value (cache_look look vc) (prevout i))" using rest by (intro sum_list_nonneg) (auto simp: list_all_iff)
  then have w: "wrap64 (n + ?v) = n + ?v" using Cons.prems(3,4) i(2) by (intro wrap64_id) auto
  have "\<exists>vc'. value_in_loop get ins (n + ?v) vc1 = Some (n + ?v + (\<Sum>i\<leftarrow>ins. output_value (cache_look look vc1) (prevout i)), vc') \<and>
      cache_good look ready good vc' \<and> cache_look look vc' = cache_look look vc1"
    using Cons.prems(3,4) i(2) o rest by (intro Cons.IH) (auto simp: add.assoc)
  then show ?case using o w by (auto simp: add.assoc)
qed simp

end

text \<open>The undo entry of an input.\<close>

definition valid_undo :: "CTxInUndo \<Rightarrow> bool" where
  "valid_undo u \<longleftrightarrow> valid_ctxout (un_txout u) \<and> un_nHeight u < 2 ^ 30 \<and> 0 \<le> un_nVersion u \<and> un_nVersion u < 2 ^ 31 \<and>
     (un_nHeight u = 0 \<longrightarrow> un_nVersion u = 0)"

section \<open>The layers of the node\<close>

interpretation db: coins_view db_GetCoins db_BatchWrite "\<lambda>db k. live (db_coins db k)" "\<lambda>_ _. True" "\<lambda>_. True"
proof
  fix db :: CCoinsViewDB and us h
  assume fits: "batch_fits (\<lambda>k. live (db_coins db k)) (\<lambda>_. True) us"
  have "live (fold (\<lambda>(txid, e) m. if is_dirty e then BatchWriteCoins txid (ce_coins e) m else m) us m k) =
      merged us (\<lambda>k. live (m k)) k" if "distinct (map fst us)" for us m k
    using that
  proof (induction us arbitrary: m)
    case (Cons ke us)
    obtain k' e where ke: "ke = (k', e)" by (cases ke)
    have "(\<lambda>j. live (BatchWriteCoins k' (ce_coins e) m j)) = (\<lambda>j. live (m j))(k' := live (Some (ce_coins e)))"
      by (auto simp: BatchWriteCoins_def)
    then show ?case using Cons by (simp add: ke merged_Cons del: live_simps)
  qed simp
  then show "\<exists>v'. db_BatchWrite db us h = Some (True, v') \<and> True \<and> (\<lambda>k. live (db_coins v' k)) = merged us (\<lambda>k. live (db_coins db k))"
    using fits by (simp add: db_BatchWrite_def batch_fits_def)
qed (auto simp: db_GetCoins_def)

text \<open>The node's cache over the database, and a cache that a block is connected in over that one.\<close>

abbreviation db_look :: "CCoinsViewDB \<Rightarrow> base_uint \<Rightarrow> CCoins option" where
  "db_look db k \<equiv> live (db_coins db k)"

interpretation tip: coins_view "cache_GetCoins db_GetCoins" cache_BatchWrite "cache_look db_look" cache_ready
    "cache_good db_look (\<lambda>_ _. True) (\<lambda>_. True)"
  by (rule db.cache_view)

interpretation top: coins_view "cache_GetCoins (cache_GetCoins db_GetCoins)" cache_BatchWrite "cache_look (cache_look db_look)"
    cache_ready "cache_good (cache_look db_look) cache_ready (cache_good db_look (\<lambda>_ _. True) (\<lambda>_. True))"
  by (rule tip.cache_view)

text \<open>The tip cache over the database, and the cache over it in which a block is connected.\<close>

abbreviation tip_look :: "CCoinsViewDB \<times> CCoinsViewCache \<Rightarrow> base_uint \<Rightarrow> CCoins option" where
  "tip_look \<equiv> cache_look db_look"

abbreviation tip_good :: "CCoinsViewDB \<times> CCoinsViewCache \<Rightarrow> bool" where
  "tip_good \<equiv> cache_good db_look (\<lambda>_ _. True) (\<lambda>_. True)"

abbreviation top_look :: "(CCoinsViewDB \<times> CCoinsViewCache) \<times> CCoinsViewCache \<Rightarrow> base_uint \<Rightarrow> CCoins option" where
  "top_look \<equiv> cache_look tip_look"

abbreviation top_good :: "(CCoinsViewDB \<times> CCoinsViewCache) \<times> CCoinsViewCache \<Rightarrow> bool" where
  "top_good \<equiv> cache_good tip_look cache_ready tip_good"

lemma txinundo_roundtrip:
  assumes "key_law V D" "valid_undo u"
  shows "Unserialize_txinundo D (Serialize_txinundo V u @ r) = Some (u, r)"
proof -
  define n where "n = unat (un_nHeight u) * 4 + (if un_fCoinBase u then 2 else 0) + (if un_fCoinStake u then 1 else 0)"
  have h: "unat (un_nHeight u) < 2 ^ 30" using assms(2) by (auto simp: valid_undo_def word_less_nat_alt)
  have n: "n div 4 = unat (un_nHeight u)" "n < 2 ^ 32" using h by (auto simp: n_def)
  have rest: "n mod 4 = (if un_fCoinBase u then 2 else 0) + (if un_fCoinStake u then 1 else 0)" by (simp add: n_def)
  have bits: "n AND 2 = (n mod 4) AND 2" "n AND 1 = (n mod 4) AND 1" using and_low_bits [of 2 2 n] and_low_bits [of 1 2 n] by (simp_all add: take_bit_eq_mod)
  have flags: "(n AND 2 \<noteq> 0) = un_fCoinBase u" "(n AND 1 \<noteq> 0) = un_fCoinStake u"
    unfolding bits rest by (simp_all del: One_nat_def add_2_eq_Suc add_2_eq_Suc')
  have rn: "ReadVarInt 32 0 (WriteVarInt n @ s) = Some (n, s)" for s using n by (intro ReadVarInt_Write) simp_all
  have out: "Unserialize_ctxout D txout_SetNull (Serialize_ctxout V (un_txout u) @ r) = Some (un_txout u, r)"
    using assms by (intro ctxout_roundtrip) (simp_all add: valid_undo_def txout_SetNull_def)
  have u: "\<lparr>un_txout = un_txout u, un_fCoinBase = un_fCoinBase u, un_fCoinStake = un_fCoinStake u,
      un_nHeight = un_nHeight u, un_nVersion = un_nVersion u\<rparr> = u" by (cases u) simp
  show ?thesis
  proof (cases "un_nHeight u = 0")
    case True
    then have "Serialize_txinundo V u = WriteVarInt n @ Serialize_ctxout V (un_txout u)" using n
      by (simp add: Serialize_txinundo_def n_def)
    moreover have "un_nVersion u = 0" "n div 4 = 0" using True assms(2) n by (simp_all add: valid_undo_def)
    ultimately show ?thesis using u True by (simp add: Unserialize_txinundo_def rn out flags [simplified] Let_def)
  next
    case False
    then have "Serialize_txinundo V u = WriteVarInt n @ WriteVarInt_int (un_nVersion u) @ Serialize_ctxout V (un_txout u)" using n
      by (simp add: Serialize_txinundo_def n_def word_gt_0)
    moreover have "0 < unat (un_nHeight u)" using False by (simp add: unat_gt_0)
    ultimately show ?thesis using u assms(2) n
      by (simp add: Unserialize_txinundo_def rn out flags [simplified] valid_undo_def ReadVarInt_int_Write Let_def)
  qed
qed

section \<open>Properties\<close>

text \<open>
  The stored form of unspent coins and of undo entries is read back: for all coins that are cleaned up and not fully
  spent, whatever outputs are still there, the bit mask, the two flags of a coinbase and a coinstake, the height and the
  version survive, and so do the flags, height and version of an undo entry.
\<close>

theorem coin_records_roundtrip:
  "key_law V D \<Longrightarrow>
   (valid_coins c \<longrightarrow> (\<exists>s. Serialize_coins V c = Some s \<and> Unserialize_coins D (s @ r) = Some (c, r))) \<and>
   (valid_undo u \<longrightarrow> Unserialize_txinundo D (Serialize_txinundo V u @ r) = Some (u, r))"
  using coins_roundtrip [of V D c r] txinundo_roundtrip [of V D u r] by blast

definition sample_coins :: CCoins where
  "sample_coins = \<lparr>fCoinBase = False, fCoinStake = True,
     co_vout = txout_SetNull # replicate 9 txout_SetNull @ [new_CTxOut 5000 [0x51]], co_nHeight = 70, co_nVersion = 1\<rparr>"

lemma sample_coins_valid: "valid_coins sample_coins"
  by (simp add: valid_coins_def sample_coins_def valid_ctxout_def valid_cscript_def new_CTxOut_def txout_SetNull_def
      txout_IsNull_def nSpecialScripts_def)

theorem coin_records_roundtrip_witness:
  "(\<exists>s. Serialize_coins (\<lambda>_. False) sample_coins = Some s \<and> Unserialize_coins (\<lambda>_. None) (s @ [1]) = Some (sample_coins, [1])) \<and>
   Unserialize_txinundo (\<lambda>_. None) (Serialize_txinundo (\<lambda>_. False) (new_CTxInUndo (new_CTxOut 5000 [0x51])) @ [1]) =
     Some (new_CTxInUndo (new_CTxOut 5000 [0x51]), [1])"
proof -
  have "valid_undo (new_CTxInUndo (new_CTxOut 5000 [0x51]))"
    by (simp add: valid_undo_def new_CTxInUndo_def new_CTxOut_def valid_ctxout_def valid_cscript_def nSpecialScripts_def)
  then show ?thesis
    using coin_records_roundtrip [of "\<lambda>_. False" "\<lambda>_. None" sample_coins "[1]" "new_CTxInUndo (new_CTxOut 5000 [0x51])"]
      sample_coins_valid by (simp add: key_law_def)
qed

text \<open>
  C22: a change of coins through a modifier in a cache over the tip cache over the database is a change of one entry of the
  map the three layers stand for: it never fails an assertion, starts from the coins the map has (or from fully spent ones
  when it has none), leaves every other entry, keeps the well-formedness of the layers, and drops the entry when nothing is
  left to spend.
\<close>

theorem modify_coins_refines_map:
  assumes "top_good w"
  shows "\<exists>c0 w'. with_modifier (cache_GetCoins db_GetCoins) txid f w = Some (fst (f c0), w') \<and> live (Some c0) = top_look w txid \<and>
    top_good w' \<and> top_look w' = (top_look w)(txid := live (Some (coins_Cleanup (snd (f c0)))))"
  using tip.modifier_spec [OF assms, of txid f] by blast

definition sample_db :: CCoinsViewDB where
  "sample_db = \<lparr>db_coins = (\<lambda>_. None)(bu_of_uint64 WIDTH256 7 \<mapsto> sample_coins), db_best = None\<rparr>"

lemma new_top_good: "top_good ((db, new_CCoinsViewCache), new_CCoinsViewCache)"
  by (simp add: cache_good_def new_CCoinsViewCache_def)

theorem modify_coins_refines_map_witness:
  "\<exists>w'. with_modifier (cache_GetCoins db_GetCoins) (bu_of_uint64 WIDTH256 7) (\<lambda>c. (co_nHeight c, coins_Clear))
      ((sample_db, new_CCoinsViewCache), new_CCoinsViewCache) = Some (70, w') \<and> top_look w' (bu_of_uint64 WIDTH256 7) = None"
proof -
  have "top_look ((sample_db, new_CCoinsViewCache), new_CCoinsViewCache) (bu_of_uint64 WIDTH256 7) = Some sample_coins"
    by (simp add: cache_look_def new_CCoinsViewCache_def sample_db_def coins_IsPruned_def sample_coins_def new_CTxOut_def txout_IsNull_def)
  moreover have "coins_IsPruned (coins_Cleanup coins_Clear)" by (simp add: coins_IsPruned_def coins_Cleanup_def coins_Clear_def)
  ultimately show ?thesis
    using modify_coins_refines_map [OF new_top_good [of sample_db], of "bu_of_uint64 WIDTH256 7" "\<lambda>c. (co_nHeight c, coins_Clear)"]
    by (auto simp: sample_coins_def split: if_splits)
qed

text \<open>
  C23: flushing loses and adds nothing: after the upper cache is flushed into the tip cache and the tip cache into the
  database, no assertion has failed, both caches are empty, and each layer, the database included, stands for the map
  that the upper cache stood for.
\<close>

theorem flush_reaches_database:
  assumes "top_good w"
  shows "\<exists>tip up db tip'. cache_Flush cache_BatchWrite w = Some (True, tip, up) \<and> cacheCoins up = [] \<and> top_good (tip, up) \<and>
    tip_look tip = top_look w \<and> top_look (tip, up) = top_look w \<and>
    cache_Flush db_BatchWrite tip = Some (True, db, tip') \<and> cacheCoins tip' = [] \<and> tip_good (db, tip') \<and>
    db_look db = top_look w"
proof -
  obtain tip up where w: "cache_Flush cache_BatchWrite w = Some (True, tip, up)" "top_good (tip, up)"
      "top_look (tip, up) = top_look w" "tip_look tip = top_look w" "cacheCoins up = []"
    using tip.flush_spec [OF assms] by auto
  then have "tip_good tip" by (simp add: cache_good_def [of tip_look])
  then obtain db tip' where "cache_Flush db_BatchWrite tip = Some (True, db, tip')" "tip_good (db, tip')"
      "db_look db = tip_look tip" "cacheCoins tip' = []"
    using db.flush_spec by fastforce
  then show ?thesis using w by metis
qed

theorem flush_reaches_database_witness:
  "\<exists>tip up db tip'. cache_Flush cache_BatchWrite ((sample_db, new_CCoinsViewCache), new_CCoinsViewCache) = Some (True, tip, up) \<and>
    cache_Flush db_BatchWrite tip = Some (True, db, tip') \<and>
    db_look db = top_look ((sample_db, new_CCoinsViewCache), new_CCoinsViewCache)"
  using flush_reaches_database [OF new_top_good [of sample_db]] by blast

text \<open>
  C24: \<open>HaveInputs\<close> answers whether every input of a transaction that is no coinbase spends an available output of the map
  the layers stand for, without changing that map, and when it does \<open>GetValueIn\<close> fails no assertion and returns the exact
  sum of the values, as long as that is a 64-bit amount.
\<close>

theorem inputs_against_view:
  assumes "top_good w" "\<not> IsCoinBase tx" "HaveInputs (cache_GetCoins db_GetCoins) tx w = (b, w')"
  shows "top_good w' \<and> top_look w' = top_look w \<and> b = list_all (\<lambda>i. available (top_look w) (prevout i)) (vin tx) \<and>
    (b \<longrightarrow> list_all (\<lambda>i. 0 \<le> output_value (top_look w) (prevout i)) (vin tx) \<longrightarrow>
      (\<Sum>i\<leftarrow>vin tx. output_value (top_look w) (prevout i)) < 2 ^ 63 \<longrightarrow>
      (\<exists>w''. GetValueIn (cache_GetCoins db_GetCoins) tx w' = Some (\<Sum>i\<leftarrow>vin tx. output_value (top_look w) (prevout i), w'') \<and>
        top_look w'' = top_look w))"
proof -
  have h: "top_good w'" "top_look w' = top_look w" "b = list_all (\<lambda>i. available (top_look w) (prevout i)) (vin tx)"
    using tip.have_inputs_spec [OF assms(1), of "vin tx" b w'] assms(2,3) by (auto simp: HaveInputs_def)
  moreover have "\<exists>w''. value_in_loop (cache_GetCoins db_GetCoins) (vin tx) 0 w' =
      Some (\<Sum>i\<leftarrow>vin tx. output_value (top_look w) (prevout i), w'') \<and> top_look w'' = top_look w"
    if "b" "list_all (\<lambda>i. 0 \<le> output_value (top_look w) (prevout i)) (vin tx)"
      "(\<Sum>i\<leftarrow>vin tx. output_value (top_look w) (prevout i)) < 2 ^ 63"
    using tip.value_in_spec [OF h(1), of "vin tx" 0] that h by (auto simp: list_all_iff)
  ultimately show ?thesis using assms(2) by (auto simp: GetValueIn_def)
qed

definition spend_in :: CTxIn where
  "spend_in = \<lparr>prevout = \<lparr>op_hash = bu_of_uint64 WIDTH256 7, op_n = 10\<rparr>, scriptSig = [], nSequence = 0\<rparr>"

definition spend_tx :: CTransaction where
  "spend_tx = \<lparr>tx_nVersion = 1, vin = [spend_in], vout = [new_CTxOut 4000 []], tx_nLockTime = 0\<rparr>"

theorem inputs_against_view_witness:
  "\<exists>w'. HaveInputs (cache_GetCoins db_GetCoins) spend_tx ((sample_db, new_CCoinsViewCache), new_CCoinsViewCache) = (True, w') \<and>
    (\<exists>w''. GetValueIn (cache_GetCoins db_GetCoins) spend_tx w' = Some (5000, w''))"
proof -
  let ?w = "((sample_db, new_CCoinsViewCache), new_CCoinsViewCache)"
  obtain b w' where b: "HaveInputs (cache_GetCoins db_GetCoins) spend_tx ?w = (b, w')" by (meson surj_pair)
  have look: "top_look ?w (bu_of_uint64 WIDTH256 7) = Some sample_coins"
    by (simp add: cache_look_def new_CCoinsViewCache_def sample_db_def coins_IsPruned_def sample_coins_def new_CTxOut_def txout_IsNull_def)
  have "\<not> IsCoinBase spend_tx" by (simp add: IsCoinBase_def spend_tx_def spend_in_def outpoint_IsNull_def)
  note * = inputs_against_view [OF new_top_good this b]
  have "available (top_look ?w) (prevout spend_in)" "output_value (top_look ?w) (prevout spend_in) = 5000"
    using look by (simp_all add: available_def output_value_def spend_in_def coins_IsAvailable_def sample_coins_def
        new_CTxOut_def txout_IsNull_def nth_append nth_Cons')
  then show ?thesis using * b by (auto simp: spend_tx_def)
qed

end
