(* ===== verification/Tx_Check.thy ===== *)
theory Tx_Check
  imports Coins Standard Sig_Hash
begin

text \<open>
  The checks on single transactions of \<open>src/main.cpp\<close>: \<open>CheckTransaction\<close>, \<open>IsFinalTx\<close>, the relay rules
  \<open>IsStandardTx\<close> and \<open>AreInputsStandard\<close>, the counts of signature operations, the block subsidy and the masternode
  share; the validation state of \<open>src/main.h\<close>, the chain parameters of \<open>src/chainparams.h\<close> and \<open>src/chainparams.cpp\<close> they
  consult, and the texts of \<open>src/script/script_error.cpp\<close>.

  Globals (the height of the active chain, the adjusted time, the money supply of the tip, relay options) are arguments.
  Functions that can throw or fail an assertion return an \<open>outcome\<close>.  A check that reports through a
  \<open>CValidationState\<close> returns its Boolean with the new state; the log lines of \<open>error\<close> are left out.
\<close>

section \<open>Outcomes\<close>

datatype 'a outcome = Returns 'a | Throws | Asserts

primrec obind :: "'a outcome \<Rightarrow> ('a \<Rightarrow> 'b outcome) \<Rightarrow> 'b outcome" where
  "obind (Returns x) f = f x"
| "obind Throws f = Throws"
| "obind Asserts f = Asserts"

definition assertion :: "'a option \<Rightarrow> 'a outcome" where
  "assertion r = (case r of None \<Rightarrow> Asserts | Some x \<Rightarrow> Returns x)"

definition exception :: "'e + 'a \<Rightarrow> 'a outcome" where
  "exception r = (case r of Inl e \<Rightarrow> Throws | Inr x \<Rightarrow> Returns x)"

lemma obind_Returns: "obind r f = Returns y \<longleftrightarrow> (\<exists>x. r = Returns x \<and> f x = Returns y)"
  by (cases r) auto

lemma assertion_Returns [simp]: "assertion r = Returns x \<longleftrightarrow> r = Some x"
  by (auto simp: assertion_def split: option.splits)

lemma assertion_Some [simp]: "assertion (Some x) = Returns x"
  by (simp add: assertion_def)

lemma exception_Returns [simp]: "exception r = Returns x \<longleftrightarrow> r = Inr x"
  by (auto simp: exception_def split: sum.splits)

section \<open>The validation state\<close>

datatype mode_state = MODE_VALID | MODE_INVALID | MODE_ERROR

record CValidationState =
  vs_mode :: mode_state
  vs_nDoS :: int
  strRejectReason :: string
  chRejectCode :: byte
  corruptionPossible :: bool

definition new_CValidationState :: CValidationState where
  "new_CValidationState = \<lparr>vs_mode = MODE_VALID, vs_nDoS = 0, strRejectReason = [], chRejectCode = 0, corruptionPossible = False\<rparr>"

definition state_DoS :: "int \<Rightarrow> byte \<Rightarrow> string \<Rightarrow> bool \<Rightarrow> CValidationState \<Rightarrow> CValidationState" where
  "state_DoS level chRejectCodeIn strRejectReasonIn corruptionIn st =
     (let st = st\<lparr>chRejectCode := chRejectCodeIn, strRejectReason := strRejectReasonIn, corruptionPossible := corruptionIn\<rparr>
      in if vs_mode st = MODE_ERROR then st else st\<lparr>vs_nDoS := vs_nDoS st + level, vs_mode := MODE_INVALID\<rparr>)"

definition state_Invalid :: "byte \<Rightarrow> string \<Rightarrow> CValidationState \<Rightarrow> CValidationState" where
  "state_Invalid chRejectCodeIn strRejectReasonIn st = state_DoS 0 chRejectCodeIn strRejectReasonIn False st"

definition state_Error :: "string \<Rightarrow> CValidationState \<Rightarrow> CValidationState" where
  "state_Error strRejectReasonIn st =
     (let st = (if vs_mode st = MODE_VALID then st\<lparr>strRejectReason := strRejectReasonIn\<rparr> else st)
      in st\<lparr>vs_mode := MODE_ERROR\<rparr>)"

definition state_IsInvalid :: "CValidationState \<Rightarrow> int option" where
  "state_IsInvalid st = (if vs_mode st = MODE_INVALID then Some (vs_nDoS st) else None)"

definition REJECT_MALFORMED :: byte where "REJECT_MALFORMED = 0x01"
definition REJECT_INVALID :: byte where "REJECT_INVALID = 0x10"
definition REJECT_OBSOLETE :: byte where "REJECT_OBSOLETE = 0x11"
definition REJECT_DUPLICATE :: byte where "REJECT_DUPLICATE = 0x12"
definition REJECT_NONSTANDARD :: byte where "REJECT_NONSTANDARD = 0x40"
definition REJECT_DUST :: byte where "REJECT_DUST = 0x41"
definition REJECT_INSUFFICIENTFEE :: byte where "REJECT_INSUFFICIENTFEE = 0x42"
definition REJECT_CHECKPOINT :: byte where "REJECT_CHECKPOINT = 0x43"

text \<open>\<open>return state.DoS(\<dots>)\<close> with the default result, false.\<close>

abbreviation reject :: "int \<Rightarrow> byte \<Rightarrow> string \<Rightarrow> CValidationState \<Rightarrow> bool \<times> CValidationState" where
  "reject level code reason st \<equiv> (False, state_DoS level code reason False st)"

definition ScriptErrorString :: "ScriptError \<Rightarrow> string" where
  "ScriptErrorString serror =
     (case serror of SCRIPT_ERR_OK \<Rightarrow> ''No error''
      | SCRIPT_ERR_EVAL_FALSE \<Rightarrow> ''Script evaluated without error but finished with a false/empty top stack element''
      | SCRIPT_ERR_VERIFY \<Rightarrow> ''Script failed an OP_VERIFY operation''
      | SCRIPT_ERR_EQUALVERIFY \<Rightarrow> ''Script failed an OP_EQUALVERIFY operation''
      | SCRIPT_ERR_CHECKMULTISIGVERIFY \<Rightarrow> ''Script failed an OP_CHECKMULTISIGVERIFY operation''
      | SCRIPT_ERR_CHECKSIGVERIFY \<Rightarrow> ''Script failed an OP_CHECKSIGVERIFY operation''
      | SCRIPT_ERR_NUMEQUALVERIFY \<Rightarrow> ''Script failed an OP_NUMEQUALVERIFY operation''
      | SCRIPT_ERR_SCRIPT_SIZE \<Rightarrow> ''Script is too big''
      | SCRIPT_ERR_PUSH_SIZE \<Rightarrow> ''Push value size limit exceeded''
      | SCRIPT_ERR_OP_COUNT \<Rightarrow> ''Operation limit exceeded''
      | SCRIPT_ERR_STACK_SIZE \<Rightarrow> ''Stack size limit exceeded''
      | SCRIPT_ERR_SIG_COUNT \<Rightarrow> ''Signature count negative or greater than pubkey count''
      | SCRIPT_ERR_PUBKEY_COUNT \<Rightarrow> ''Pubkey count negative or limit exceeded''
      | SCRIPT_ERR_BAD_OPCODE \<Rightarrow> ''Opcode missing or not understood''
      | SCRIPT_ERR_DISABLED_OPCODE \<Rightarrow> ''Attempted to use a disabled opcode''
      | SCRIPT_ERR_INVALID_STACK_OPERATION \<Rightarrow> ''Operation not valid with the current stack size''
      | SCRIPT_ERR_INVALID_ALTSTACK_OPERATION \<Rightarrow> ''Operation not valid with the current altstack size''
      | SCRIPT_ERR_OP_RETURN \<Rightarrow> ''OP_RETURN was encountered''
      | SCRIPT_ERR_UNBALANCED_CONDITIONAL \<Rightarrow> ''Invalid OP_IF construction''
      | SCRIPT_ERR_SIG_HASHTYPE \<Rightarrow> ''Signature hash type missing or not understood''
      | SCRIPT_ERR_SIG_DER \<Rightarrow> ''Non-canonical DER signature''
      | SCRIPT_ERR_MINIMALDATA \<Rightarrow> ''Data push larger than necessary''
      | SCRIPT_ERR_SIG_PUSHONLY \<Rightarrow> ''Only non-push operators allowed in signatures''
      | SCRIPT_ERR_SIG_HIGH_S \<Rightarrow> ''Non-canonical signature: S value is unnecessarily high''
      | SCRIPT_ERR_SIG_NULLDUMMY \<Rightarrow> ''Dummy CHECKMULTISIG argument must be zero''
      | SCRIPT_ERR_DISCOURAGE_UPGRADABLE_NOPS \<Rightarrow> ''NOPx reserved for soft-fork upgrades''
      | SCRIPT_ERR_PUBKEYTYPE \<Rightarrow> ''Public key is neither compressed or uncompressed''
      | SCRIPT_ERR_UNKNOWN_ERROR \<Rightarrow> ''unknown error''
      | SCRIPT_ERR_ERROR_COUNT \<Rightarrow> ''unknown error'')"

section \<open>Chain parameters\<close>

text \<open>The consensus parameters of the networks.  The genesis hash of the test networks is computed, so it is an argument.\<close>

record CChainParams =
  hashGenesisBlock :: base_uint
  bnProofOfWorkLimit :: base_uint
  nMaxReorganizationDepth :: int
  nSubsidyHalvingInterval :: int
  nTargetTimespan :: int
  nTargetSpacing :: int
  nLastPOWBlock :: int
  nMasternodeCountDrift :: int
  nMaturity :: int
  nModifierUpdateBlock :: int
  nMaxMoneyOut :: CAmount
  fAllowMinDifficultyBlocks :: bool
  fRequireStandard :: bool
  fSkipProofOfWorkCheck :: bool
  fMineBlocksOnDemand :: bool
  fHeadersFirstSyncingActive :: bool
  nVetoForkHeight :: int
  nBudget_Fee_Confirmations :: int
  nStakeMinAge :: nat
  nKernelModifierOffset :: int
  nStakePointerValidityPeriod :: int
  nStakePointerForkHeight :: int

definition CMainParams :: "base_uint \<Rightarrow> CChainParams" where
  "CMainParams hash =
     \<lparr>hashGenesisBlock = hash, bnProofOfWorkLimit = bu_shr (bu_not (bu_zero WIDTH256)) 20,
      nMaxReorganizationDepth = 100, nSubsidyHalvingInterval = 99999999, nTargetTimespan = 10 * 60, nTargetSpacing = 10 * 60,
      nLastPOWBlock = 500, nMasternodeCountDrift = 20, nMaturity = 15, nModifierUpdateBlock = 999999999,
      nMaxMoneyOut = 3000000 * COIN, fAllowMinDifficultyBlocks = False, fRequireStandard = True,
      fSkipProofOfWorkCheck = False, fMineBlocksOnDemand = False, fHeadersFirstSyncingActive = True,
      nVetoForkHeight = 2675000, nBudget_Fee_Confirmations = 6, nStakeMinAge = 60 * 60,
      nKernelModifierOffset = 100, nStakePointerValidityPeriod = 4320, nStakePointerForkHeight = 2675000\<rparr>"

definition CTestNetParams :: "base_uint \<Rightarrow> CChainParams" where
  "CTestNetParams hash =
     (CMainParams hash)\<lparr>nTargetTimespan := 10, nTargetSpacing := 10, nLastPOWBlock := 100, nMaturity := 15,
        nMasternodeCountDrift := 4, nModifierUpdateBlock := 51197, nMaxMoneyOut := 43199500 * COIN,
        fAllowMinDifficultyBlocks := True, fRequireStandard := False, fMineBlocksOnDemand := False, nVetoForkHeight := 0,
        nBudget_Fee_Confirmations := 3, nStakeMinAge := 5 * 60, nMaxReorganizationDepth := 10,
        nKernelModifierOffset := 10, nStakePointerValidityPeriod := 200, nStakePointerForkHeight := 101\<rparr>"

definition CRegTestParams :: "base_uint \<Rightarrow> CChainParams" where
  "CRegTestParams hash =
     (CTestNetParams hash)\<lparr>nSubsidyHalvingInterval := 150, nTargetTimespan := 10, nTargetSpacing := 10,
        bnProofOfWorkLimit := bu_shr (bu_not (bu_zero WIDTH256)) 1, fAllowMinDifficultyBlocks := True,
        fRequireStandard := False, fMineBlocksOnDemand := True, nStakeMinAge := 60,
        nKernelModifierOffset := 5, nStakePointerValidityPeriod := 50, nStakePointerForkHeight := 101\<rparr>"

definition params_Interval :: "CChainParams \<Rightarrow> int" where
  "params_Interval P = nTargetTimespan P div nTargetSpacing P"

section \<open>Checks without context\<close>

definition MAX_STANDARD_TX_SIZE :: nat where "MAX_STANDARD_TX_SIZE = 100000"
definition MAX_BLOCK_SIGOPS_CURRENT :: nat where "MAX_BLOCK_SIGOPS_CURRENT = MAX_BLOCK_SIZE_CURRENT div 50"
definition MAX_BLOCK_SIGOPS_LEGACY :: nat where "MAX_BLOCK_SIGOPS_LEGACY = MAX_BLOCK_SIZE_LEGACY div 50"
definition MAX_P2SH_SIGOPS :: nat where "MAX_P2SH_SIGOPS = 15"
definition LOCKTIME_THRESHOLD :: int where "LOCKTIME_THRESHOLD = 500000000"
definition DEFAULT_BLOCK_PRIORITY_SIZE :: nat where "DEFAULT_BLOCK_PRIORITY_SIZE = 50000"

definition MoneyRange :: "CChainParams \<Rightarrow> CAmount \<Rightarrow> bool" where
  "MoneyRange P nValueOut \<longleftrightarrow> nValueOut \<ge> 0 \<and> nValueOut \<le> nMaxMoneyOut P"

fun check_outputs :: "CChainParams \<Rightarrow> bool \<Rightarrow> CAmount \<Rightarrow> CTxOut list \<Rightarrow> CValidationState \<Rightarrow> bool \<times> CValidationState" where
  "check_outputs P user nValueOut [] st = (True, st)"
| "check_outputs P user nValueOut (txout # outs) st =
     (if txout_IsEmpty txout \<and> user then reject 100 0 [] st
      else if nValue txout < 0 then reject 100 REJECT_INVALID ''bad-txns-vout-negative'' st
      else if nValue txout > nMaxMoneyOut P then reject 100 REJECT_INVALID ''bad-txns-vout-toolarge'' st
      else let nValueOut = wrap64 (nValueOut + nValue txout)
           in if \<not> MoneyRange P nValueOut then reject 100 REJECT_INVALID ''bad-txns-txouttotal-toolarge'' st
              else check_outputs P user nValueOut outs st)"

fun duplicate_input :: "COutPoint list \<Rightarrow> CTxIn list \<Rightarrow> bool" where
  "duplicate_input vInOutPoints [] = False"
| "duplicate_input vInOutPoints (txin # ins) =
     (if prevout txin \<in> set vInOutPoints then True else duplicate_input (prevout txin # vInOutPoints) ins)"

definition check_inputs_shape :: "CTransaction \<Rightarrow> CValidationState \<Rightarrow> bool \<times> CValidationState" where
  "check_inputs_shape tx st =
     (if IsCoinBase tx then
        (if length (scriptSig (vin tx ! 0)) < 2 \<or> length (scriptSig (vin tx ! 0)) > 150
         then reject 100 REJECT_INVALID ''bad-cb-length'' st else (True, st))
      else if IsV5CoinStake tx then
        (if length (scriptSig (vin tx ! 0)) > 100 then reject 100 REJECT_INVALID ''bad-cs-length'' st else (True, st))
      else if list_ex (\<lambda>txin. outpoint_IsNull (prevout txin)) (vin tx)
        then reject 10 REJECT_INVALID ''bad-txns-prevout-null'' st
      else (True, st))"

definition CheckTransaction :: "CChainParams \<Rightarrow> CTransaction \<Rightarrow> CValidationState \<Rightarrow> bool \<times> CValidationState" where
  "CheckTransaction P tx st =
     (if vin tx = [] then reject 10 REJECT_INVALID ''bad-txns-vin-empty'' st
      else if vout tx = [] then reject 10 REJECT_INVALID ''bad-txns-vout-empty'' st
      else if length (Serialize_tx tx) > MAX_STANDARD_TX_SIZE then reject 100 REJECT_INVALID ''bad-txns-oversize'' st
      else case check_outputs P (\<not> IsCoinBase tx \<and> \<not> IsCoinStake tx) 0 (vout tx) st of
        (False, st) \<Rightarrow> (False, st)
      | (True, st) \<Rightarrow>
          if duplicate_input [] (vin tx) then reject 100 REJECT_INVALID ''bad-txns-inputs-duplicate'' st
          else check_inputs_shape tx st)"

text \<open>A height or time of zero stands for that of the active chain and of the adjusted clock.\<close>

definition IsFinalTx :: "int \<Rightarrow> int \<Rightarrow> CTransaction \<Rightarrow> int \<Rightarrow> int \<Rightarrow> bool" where
  "IsFinalTx chainHeight adjustedTime tx nBlockHeight nBlockTime =
     (if tx_nLockTime tx = 0 then True
      else let nBlockHeight = (if nBlockHeight = 0 then chainHeight else nBlockHeight);
               nBlockTime = (if nBlockTime = 0 then adjustedTime else nBlockTime);
               lockTime = int (unat (tx_nLockTime tx))
           in if lockTime < (if lockTime < LOCKTIME_THRESHOLD then nBlockHeight else nBlockTime) then True
              else list_all txin_IsFinal (vin tx))"

definition LOCKTIME_MEDIAN_TIME_PAST :: u32 where "LOCKTIME_MEDIAN_TIME_PAST = push_bit 1 1"

definition CheckFinalTx :: "int \<Rightarrow> int \<Rightarrow> int \<Rightarrow> CTransaction \<Rightarrow> int \<Rightarrow> bool" where
  "CheckFinalTx chainHeight medianTimePast adjustedTime tx flags =
     (let flags = max flags 0;
          nBlockTime = (if (of_int flags :: u32) AND LOCKTIME_MEDIAN_TIME_PAST \<noteq> 0 then medianTimePast else adjustedTime)
      in IsFinalTx chainHeight adjustedTime tx (chainHeight + 1) nBlockTime)"

section \<open>Signature operations\<close>

definition GetLegacySigOpCount :: "CTransaction \<Rightarrow> nat" where
  "GetLegacySigOpCount tx =
     foldl (\<lambda>nSigOps txout. (nSigOps + GetSigOpCount False (scriptPubKey txout)) mod 2 ^ 32)
       (foldl (\<lambda>nSigOps txin. (nSigOps + GetSigOpCount False (scriptSig txin)) mod 2 ^ 32) 0 (vin tx)) (vout tx)"

fun p2sh_sigops_loop :: "'v getter \<Rightarrow> CTxIn list \<Rightarrow> nat \<Rightarrow> 'v \<times> CCoinsViewCache \<Rightarrow> (nat \<times> 'v \<times> CCoinsViewCache) outcome" where
  "p2sh_sigops_loop get [] nSigOps vc = Returns (nSigOps, vc)"
| "p2sh_sigops_loop get (txin # ins) nSigOps vc =
     obind (assertion (GetOutputFor get txin vc)) (\<lambda>(out, vc).
       p2sh_sigops_loop get ins
         (if IsPayToScriptHash (scriptPubKey out)
          then (nSigOps + GetSigOpCount_P2SH (scriptPubKey out) (scriptSig txin)) mod 2 ^ 32 else nSigOps) vc)"

definition GetP2SHSigOpCount :: "'v getter \<Rightarrow> CTransaction \<Rightarrow> 'v \<times> CCoinsViewCache \<Rightarrow> (nat \<times> 'v \<times> CCoinsViewCache) outcome" where
  "GetP2SHSigOpCount get tx vc = (if IsCoinBase tx then Returns (0, vc) else p2sh_sigops_loop get (vin tx) 0 vc)"

section \<open>Relay rules\<close>

record relay_options =
  ro_minRelayTxFee :: CAmount
  fIsBareMultisigStd :: bool
  fAcceptDatacarrier :: bool
  ro_nMaxDatacarrierBytes :: nat

text \<open>\<open>Inl\<close> is the reason of a transaction that is not standard.\<close>

fun standard_inputs :: "CTxIn list \<Rightarrow> string + unit" where
  "standard_inputs [] = Inr ()"
| "standard_inputs (txin # ins) =
     (if length (scriptSig txin) > 1650 then Inl ''scriptsig-size''
      else if \<not> IsPushOnly (scriptSig txin) then Inl ''scriptsig-not-pushonly''
      else standard_inputs ins)"

fun standard_outputs :: "relay_options \<Rightarrow> nat \<Rightarrow> CTxOut list \<Rightarrow> (string + nat) outcome" where
  "standard_outputs R nDataOut [] = Returns (Inr nDataOut)"
| "standard_outputs R nDataOut (txout # outs) =
     (case IsStandard (fAcceptDatacarrier R) (ro_nMaxDatacarrierBytes R) (scriptPubKey txout) of
        None \<Rightarrow> Throws
      | Some (ok, whichType) \<Rightarrow>
          if \<not> ok then Returns (Inl ''scriptpubkey'')
          else if whichType = TX_NULL_DATA then standard_outputs R (nDataOut + 1) outs
          else if whichType = TX_MULTISIG \<and> \<not> fIsBareMultisigStd R then Returns (Inl ''bare-multisig'')
          else if IsDust txout (ro_minRelayTxFee R) then Returns (Inl ''dust'')
          else standard_outputs R nDataOut outs)"

definition IsStandardTx :: "relay_options \<Rightarrow> int \<Rightarrow> int \<Rightarrow> CTransaction \<Rightarrow> (string + unit) outcome" where
  "IsStandardTx R chainHeight adjustedTime tx =
     (if tx_nVersion tx > CURRENT_VERSION \<or> tx_nVersion tx < 1 then Returns (Inl ''version'')
      else if \<not> IsFinalTx chainHeight adjustedTime tx (chainHeight + 1) 0 then Returns (Inl ''non-final'')
      else if length (Serialize_tx tx) \<ge> MAX_STANDARD_TX_SIZE then Returns (Inl ''tx-size'')
      else case standard_inputs (vin tx) of Inl r \<Rightarrow> Returns (Inl r)
      | Inr _ \<Rightarrow>
          obind (standard_outputs R 0 (vout tx)) (\<lambda>r.
            case r of Inl reason \<Rightarrow> Returns (Inl reason)
            | Inr nDataOut \<Rightarrow> if nDataOut > 1 then Returns (Inl ''multi-op-return'') else Returns (Inr ())))"

definition solve :: "CScript \<Rightarrow> (bool \<times> txnouttype \<times> valtype list) outcome" where
  "solve script = (case Solver script of None \<Rightarrow> Throws | Some r \<Rightarrow> Returns r)"

text \<open>The environment of \<open>BaseSignatureChecker\<close>, for which no signature is good, without flags.\<close>

definition base_env :: "script_env \<Rightarrow> script_env" where
  "base_env env = env\<lparr>env_flags := 0, env_CheckSig := (\<lambda>_ _ _. False)\<rparr>"

definition input_standard :: "script_env \<Rightarrow> CScript \<Rightarrow> CScript \<Rightarrow> (bool \<times> bool) outcome" where
  "input_standard env prevScript sig =
     obind (solve prevScript) (\<lambda>(ok, whichType, vSolutions).
       if \<not> ok then Returns (True, False)
       else let nArgsExpected = ScriptSigArgsExpected whichType vSolutions
       in if nArgsExpected < 0 then Returns (True, False)
       else case EvalScript (base_env env) [] sig of
         Inl e \<Rightarrow> Returns (True, False)
       | Inr stack \<Rightarrow>
           if whichType = TX_SCRIPTHASH then
             (if stack = [] then Returns (True, False)
              else obind (solve (hd stack)) (\<lambda>(ok2, whichType2, vSolutions2).
                if ok2 then
                  (let tmpExpected = ScriptSigArgsExpected whichType2 vSolutions2
                   in if tmpExpected < 0 then Returns (True, False)
                      else if int (length stack) \<noteq> nArgsExpected + tmpExpected then Returns (True, False)
                      else Returns (False, True))
                else Returns (True, GetSigOpCount True (hd stack) \<le> MAX_P2SH_SIGOPS)))
           else if int (length stack) \<noteq> nArgsExpected then Returns (True, False)
           else Returns (False, True))"

text \<open>The first component of \<open>input_standard\<close> says that the loop returns with the second.\<close>

fun inputs_standard_loop ::
  "'v getter \<Rightarrow> script_env \<Rightarrow> CTxIn list \<Rightarrow> 'v \<times> CCoinsViewCache \<Rightarrow> (bool \<times> 'v \<times> CCoinsViewCache) outcome" where
  "inputs_standard_loop get env [] vc = Returns (True, vc)"
| "inputs_standard_loop get env (txin # ins) vc =
     obind (assertion (GetOutputFor get txin vc)) (\<lambda>(prev, vc).
     obind (input_standard env (scriptPubKey prev) (scriptSig txin)) (\<lambda>(stop, r).
       if stop then Returns (r, vc) else inputs_standard_loop get env ins vc))"

definition AreInputsStandard ::
  "'v getter \<Rightarrow> script_env \<Rightarrow> CTransaction \<Rightarrow> 'v \<times> CCoinsViewCache \<Rightarrow> (bool \<times> 'v \<times> CCoinsViewCache) outcome" where
  "AreInputsStandard get env tx vc = (if IsCoinBase tx then Returns (True, vc) else inputs_standard_loop get env (vin tx) vc)"

text \<open>\<open>prioritised\<close> says that the memory pool has a positive delta for the transaction.\<close>

definition GetMinRelayFee :: "CChainParams \<Rightarrow> CAmount \<Rightarrow> bool \<Rightarrow> nat \<Rightarrow> bool \<Rightarrow> CAmount" where
  "GetMinRelayFee P minRelayTxFee prioritised nBytes fAllowFree =
     (if prioritised then 0
      else let nMinFee = GetFee minRelayTxFee nBytes;
               nMinFee = (if fAllowFree \<and> nBytes < DEFAULT_BLOCK_PRIORITY_SIZE - 1000 then 0 else nMinFee)
           in if \<not> MoneyRange P nMinFee then nMaxMoneyOut P else nMinFee)"

section \<open>Rewards\<close>

definition block_subsidy :: "int \<Rightarrow> int" where
  "block_subsidy height =
     (if height = 0 then 1809759 * COIN
      else if height < 44641 then COIN * 3 div 2
      else if height < 570241 then COIN
      else if height < 1095840 then COIN div 2
      else if height < 1621440 then COIN div 4
      else COIN div 8)"

definition GetBlockValue :: "CChainParams \<Rightarrow> int \<Rightarrow> int \<Rightarrow> int" where
  "GetBlockValue P supply height =
     (let nSubsidy = block_subsidy height;
          nSubsidy = (if supply + nSubsidy \<ge> nMaxMoneyOut P then nMaxMoneyOut P - supply else nSubsidy)
      in if supply \<ge> nMaxMoneyOut P then 0 else nSubsidy)"

text \<open>\<open>/\<close> of \<open>int64_t\<close> rounds towards zero.\<close>

definition GetMasternodePayment :: "int \<Rightarrow> int \<Rightarrow> int \<Rightarrow> int" where
  "GetMasternodePayment height blockValue nMasternodeCount = (if height < 101 then 0 else sgn blockValue * (\<bar>blockValue\<bar> div 2))"

section \<open>What the checks accept\<close>

lemma ex_reject [simp]: "\<exists>code reason. state_DoS l c r b st = state_DoS l code reason b st"
  by blast

lemma check_outputs_spec:
  assumes "0 \<le> n" "n \<le> nMaxMoneyOut P" "nMaxMoneyOut P < 2 ^ 62"
  shows "(fst (check_outputs P user n outs st) \<longleftrightarrow>
      (\<forall>out\<in>set outs. 0 \<le> nValue out \<and> \<not> (user \<and> txout_IsEmpty out)) \<and> n + (\<Sum>out\<leftarrow>outs. nValue out) \<le> nMaxMoneyOut P) \<and>
    (fst (check_outputs P user n outs st) \<longrightarrow> snd (check_outputs P user n outs st) = st) \<and>
    (\<not> fst (check_outputs P user n outs st) \<longrightarrow> (\<exists>code reason. snd (check_outputs P user n outs st) = state_DoS 100 code reason False st))"
  using assms(1,2)
proof (induction outs arbitrary: n)
  case (Cons out outs)
  let ?v = "nValue out"
  show ?case
  proof (cases "0 \<le> ?v \<and> ?v \<le> nMaxMoneyOut P \<and> \<not> (user \<and> txout_IsEmpty out) \<and> n + ?v \<le> nMaxMoneyOut P")
    case True
    then have w: "wrap64 (n + ?v) = n + ?v" using Cons.prems assms(3) by (intro wrap64_id) auto
    then have "check_outputs P user n (out # outs) st = check_outputs P user (n + ?v) outs st"
      using True Cons.prems by (auto simp: MoneyRange_def)
    then show ?thesis using Cons.IH [of "n + ?v"] True Cons.prems by (auto simp: add.assoc)
  next
    case False
    have w: "wrap64 (n + ?v) = n + ?v" if "0 \<le> ?v" "?v \<le> nMaxMoneyOut P"
      using that Cons.prems assms(3) by (intro wrap64_id) auto
    have "\<not> fst (check_outputs P user n (out # outs) st) \<and>
        (\<exists>code reason. snd (check_outputs P user n (out # outs) st) = state_DoS 100 code reason False st)"
      using False w Cons.prems by (auto simp: MoneyRange_def)
    moreover have "0 \<le> (\<Sum>out\<leftarrow>outs. nValue out)" if "\<forall>out\<in>set outs. 0 \<le> nValue out"
      using that by (intro sum_list_nonneg) auto
    ultimately show ?thesis using False Cons.prems by fastforce
  qed
qed (simp add: MoneyRange_def)

lemma duplicate_input_iff:
  "duplicate_input prior ins \<longleftrightarrow> \<not> (distinct (map prevout ins) \<and> prevout ` set ins \<inter> set prior = {})"
  by (induction ins arbitrary: prior) auto

definition inputs_shape :: "CTransaction \<Rightarrow> bool" where
  "inputs_shape tx \<longleftrightarrow>
     (if IsCoinBase tx then 2 \<le> length (scriptSig (hd (vin tx))) \<and> length (scriptSig (hd (vin tx))) \<le> 150
      else if IsV5CoinStake tx then length (scriptSig (hd (vin tx))) \<le> 100
      else (\<forall>txin\<in>set (vin tx). \<not> outpoint_IsNull (prevout txin)))"

lemma check_inputs_shape_spec:
  "vin tx \<noteq> [] \<Longrightarrow> (fst (check_inputs_shape tx st) \<longleftrightarrow> inputs_shape tx) \<and>
   (inputs_shape tx \<longrightarrow> snd (check_inputs_shape tx st) = st) \<and>
   (\<not> inputs_shape tx \<longrightarrow> (\<exists>level code reason. level \<in> {10, 100} \<and> snd (check_inputs_shape tx st) = state_DoS level code reason False st))"
  by (auto simp: check_inputs_shape_def inputs_shape_def hd_conv_nth list_ex_iff not_le)

definition tx_acceptable :: "CChainParams \<Rightarrow> CTransaction \<Rightarrow> bool" where
  "tx_acceptable P tx \<longleftrightarrow> vin tx \<noteq> [] \<and> vout tx \<noteq> [] \<and> length (Serialize_tx tx) \<le> 100000 \<and>
     (\<forall>out\<in>set (vout tx). 0 \<le> nValue out \<and> (txout_IsEmpty out \<longrightarrow> IsCoinBase tx \<or> IsCoinStake tx)) \<and>
     (\<Sum>out\<leftarrow>vout tx. nValue out) \<le> nMaxMoneyOut P \<and> distinct (map prevout (vin tx)) \<and> inputs_shape tx"

lemma CheckTransaction_spec:
  assumes "0 \<le> nMaxMoneyOut P" "nMaxMoneyOut P < 2 ^ 62"
  shows "(fst (CheckTransaction P tx st) \<longleftrightarrow> tx_acceptable P tx) \<and>
    (tx_acceptable P tx \<longrightarrow> snd (CheckTransaction P tx st) = st) \<and>
    (\<not> tx_acceptable P tx \<longrightarrow>
      (\<exists>level code reason. level \<in> {10, 100} \<and> snd (CheckTransaction P tx st) = state_DoS level code reason False st))"
proof -
  obtain b st' where o: "check_outputs P (\<not> IsCoinBase tx \<and> \<not> IsCoinStake tx) 0 (vout tx) st = (b, st')" by fastforce
  note os = check_outputs_spec [OF order_refl assms, of "\<not> IsCoinBase tx \<and> \<not> IsCoinStake tx" "vout tx" st, unfolded o]
  show ?thesis
  proof (cases "vin tx = [] \<or> vout tx = [] \<or> length (Serialize_tx tx) > 100000")
    case True
    then show ?thesis by (auto simp: CheckTransaction_def tx_acceptable_def MAX_STANDARD_TX_SIZE_def)
  next
    case False
    then have c: "CheckTransaction P tx st = (case (b, st') of (False, st) \<Rightarrow> (False, st) | (True, st) \<Rightarrow>
        if duplicate_input [] (vin tx) then reject 100 REJECT_INVALID ''bad-txns-inputs-duplicate'' st else check_inputs_shape tx st)"
      by (simp add: CheckTransaction_def MAX_STANDARD_TX_SIZE_def o)
    show ?thesis
    proof (cases b)
      case b: True
      then have st': "st' = st" using os by simp
      have acc: "tx_acceptable P tx \<longleftrightarrow> distinct (map prevout (vin tx)) \<and> inputs_shape tx"
        using b os False by (auto simp: tx_acceptable_def)
      show ?thesis
      proof (cases "distinct (map prevout (vin tx))")
        case True
        then show ?thesis using check_inputs_shape_spec [of tx st] False b by (simp add: c st' acc duplicate_input_iff)
      next
        case False
        then show ?thesis using b by (auto simp: c st' acc duplicate_input_iff)
      qed
    next
      case b: False
      then have "\<not> tx_acceptable P tx" using os by (auto simp: tx_acceptable_def)
      then show ?thesis using os b by (auto simp: c)
    qed
  qed
qed


section \<open>Properties\<close>

text \<open>
  C25: \<open>CheckTransaction\<close> accepts exactly the transactions that have inputs and outputs, at most 100000 bytes, no negative
  output, no empty output unless they are a coinbase or coinstake, a total of outputs within the money range, no input
  twice, and inputs of the right shape: a coinbase script of 2 to 150 bytes, a stake marker script of at most 100, and
  otherwise no null outpoint.  Acceptance leaves the validation state and means that \<open>GetValueOut\<close> returns the exact sum;
  refusal makes a valid state invalid with 10 or 100 points.
\<close>

theorem check_transaction_accepts:
  assumes "0 \<le> nMaxMoneyOut P" "nMaxMoneyOut P < 2 ^ 62" "CheckTransaction P tx st = (ok, st')"
  shows "(ok \<longleftrightarrow> vin tx \<noteq> [] \<and> vout tx \<noteq> [] \<and> length (Serialize_tx tx) \<le> 100000 \<and>
      (\<forall>out\<in>set (vout tx). 0 \<le> nValue out \<and> (txout_IsEmpty out \<longrightarrow> IsCoinBase tx \<or> IsCoinStake tx)) \<and>
      (\<Sum>out\<leftarrow>vout tx. nValue out) \<le> nMaxMoneyOut P \<and> distinct (map prevout (vin tx)) \<and> inputs_shape tx) \<and>
    (ok \<longrightarrow> st' = st \<and> GetValueOut tx = Inr (\<Sum>out\<leftarrow>vout tx. nValue out)) \<and>
    (\<not> ok \<longrightarrow> vs_mode st = MODE_VALID \<longrightarrow> vs_nDoS st = 0 \<longrightarrow> state_IsInvalid st' \<in> {Some 10, Some 100})"
proof -
  note c = CheckTransaction_spec [OF assms(1,2), of tx st, unfolded assms(3) fst_conv snd_conv]
  have "GetValueOut tx = Inr (\<Sum>out\<leftarrow>vout tx. nValue out)" if "tx_acceptable P tx"
  proof -
    have nn: "\<forall>out\<in>set (vout tx). 0 \<le> nValue out" and s: "(\<Sum>out\<leftarrow>vout tx. nValue out) \<le> nMaxMoneyOut P"
      using that by (auto simp: tx_acceptable_def)
    then have "nValue out \<le> nMaxMoneyOut P" if "out \<in> set (vout tx)" for out
      using member_le_sum_list [of "nValue out" "map nValue (vout tx)"] that by fastforce
    then have "list_all (\<lambda>out. nValue out \<le> int64_max) (vout tx)"
      using assms(2) by (fastforce simp: list_all_iff)
    then show ?thesis using value_out_loop_iff [of 0 "vout tx"] nn s assms(2)
      by (simp add: GetValueOut_def list_all_iff)
  qed
  moreover have "state_IsInvalid st' \<in> {Some 10, Some 100}" if "\<not> tx_acceptable P tx" "vs_mode st = MODE_VALID" "vs_nDoS st = 0"
    using c that by (auto simp: state_DoS_def state_IsInvalid_def Let_def)
  ultimately show ?thesis using c unfolding tx_acceptable_def by blast
qed

definition payment :: CTransaction where
  "payment = \<lparr>tx_nVersion = 1, vin = [\<lparr>prevout = \<lparr>op_hash = bu_of_uint64 WIDTH256 7, op_n = 0\<rparr>, scriptSig = [], nSequence = 0\<rparr>],
     vout = [new_CTxOut 4000 [], new_CTxOut 500 []], tx_nLockTime = 0\<rparr>"

theorem check_transaction_accepts_witness:
  "GetValueOut payment = Inr 4500 \<and> fst (CheckTransaction (CMainParams (bu_zero WIDTH256)) payment new_CValidationState)"
proof -
  have "length (Serialize_tx payment) \<le> 100000"
    by (simp add: payment_def Serialize_tx_def Serialize_vector_def Serialize_txin_def Serialize_outpoint_def Serialize_txout_def
        Serialize_bytes_def Serialize_u32_def Serialize_int_def length_WriteCompactSize GetSizeOfCompactSize_def length_to_le
        length_bu_of_uint64 new_CTxOut_def del: to_le.simps)
  moreover have "inputs_shape payment"
    by (simp add: inputs_shape_def payment_def IsCoinBase_def IsV5CoinStake_def outpoint_IsNull_def)
  moreover have "vin payment \<noteq> []" "vout payment \<noteq> []" "distinct (map prevout (vin payment))"
    "\<forall>out\<in>set (vout payment). 0 \<le> nValue out \<and> (txout_IsEmpty out \<longrightarrow> IsCoinBase payment \<or> IsCoinStake payment)"
    "(\<Sum>out\<leftarrow>vout payment. nValue out) = 4500"
    by (simp_all add: payment_def new_CTxOut_def txout_IsEmpty_def)
  moreover have "nMaxMoneyOut (CMainParams (bu_zero WIDTH256)) = 300000000000000" by (simp add: CMainParams_def COIN_def)
  moreover obtain ok st' where c: "CheckTransaction (CMainParams (bu_zero WIDTH256)) payment new_CValidationState = (ok, st')"
    by (meson surj_pair)
  ultimately show ?thesis using check_transaction_accepts [OF _ _ c] by (simp add: c)
qed

text \<open>
  C26: the subsidy never takes the money supply over its limit: below the limit the value of a block is not negative, at
  most the scheduled subsidy, which does not increase after the genesis block, and the supply with it stays within the
  limit; at the limit it is zero.  The masternode share that \<open>GetMasternodePayment\<close> computes is never more than half of the
  block value, at any height; section 2 of the README promises nine tenths of it for heights from 101 to 2564999.
\<close>

theorem block_value_bounded:
  assumes "0 \<le> supply" "0 \<le> height"
  shows "(supply \<le> nMaxMoneyOut P \<longrightarrow> 0 \<le> GetBlockValue P supply height \<and> GetBlockValue P supply height \<le> block_subsidy height \<and>
      supply + GetBlockValue P supply height \<le> nMaxMoneyOut P) \<and>
    (nMaxMoneyOut P \<le> supply \<longrightarrow> GetBlockValue P supply height = 0) \<and>
    (0 < height \<longrightarrow> height \<le> height' \<longrightarrow> block_subsidy height' \<le> block_subsidy height) \<and>
    (0 \<le> v \<longrightarrow> 0 \<le> GetMasternodePayment height v n \<and> 2 * GetMasternodePayment height v n \<le> v)"
proof -
  have s: "0 \<le> block_subsidy height" by (simp add: block_subsidy_def COIN_def)
  have "block_subsidy height' \<le> block_subsidy height" if "0 < height" "height \<le> height'"
    using that by (simp add: block_subsidy_def COIN_def)
  moreover have "0 \<le> GetMasternodePayment height v n \<and> 2 * GetMasternodePayment height v n \<le> v" if "0 \<le> v"
    using that by (auto simp: GetMasternodePayment_def sgn_if)
  ultimately show ?thesis using s assms by (auto simp: GetBlockValue_def Let_def)
qed

theorem block_value_bounded_witness:
  "GetBlockValue (CMainParams (bu_zero WIDTH256)) (3000000 * COIN - 5) 2000000 + (3000000 * COIN - 5) \<le> 3000000 * COIN"
  using block_value_bounded [of "3000000 * COIN - 5" 2000000 "CMainParams (bu_zero WIDTH256)"] by (simp add: CMainParams_def COIN_def)

end
