(* ===== verification/Connect.thy ===== *)
theory Connect
  imports Tx_Check
begin

text \<open>
  Spending and restoring coins (\<open>src/main.cpp\<close>): \<open>UpdateCoins\<close>, \<open>CheckInputs\<close>, the loop over the transactions in
  \<open>ConnectBlock\<close> and what follows it, and \<open>DisconnectBlock\<close>, over any coin view with a cache.

  Hash functions, signature verification and the networks' parameters are fields of a \<open>node_env\<close>.  The height of the block
  a view is at (a look-up in \<open>mapBlockIndex\<close>), the check of the block on its own, the decision of the masternode code on
  the minted value, the outcome of the script check threads and the results of writes to disk are arguments of the
  functions that use them, and so is the undo data read from disk.  \<open>mapUsedStakePointers\<close> is a map.
  An index out of range and a missing block index entry are \<open>Asserts\<close>.
\<close>

record node_env =
  ne_params :: CChainParams
  ne_tx_hash :: "CTransaction \<Rightarrow> base_uint"
  ne_block_hash :: "CBlock \<Rightarrow> base_uint"
  ne_outpoint_hash :: "COutPoint \<Rightarrow> base_uint"
  ne_script_env :: script_env
  ne_Hash :: "bytes \<Rightarrow> base_uint"
  ne_Verify :: "bytes \<Rightarrow> base_uint \<Rightarrow> bytes \<Rightarrow> bool"

section \<open>Spending\<close>

record CTxUndo =
  vprevout :: "CTxInUndo list"

record CBlockUndo =
  vtxundo :: "CTxUndo list"

definition spend_body :: "COutPoint \<Rightarrow> CCoins \<Rightarrow> CTxInUndo option \<times> CCoins" where
  "spend_body out c = (case coins_Spend out c of None \<Rightarrow> (None, c) | Some (c', undo) \<Rightarrow> (Some undo, c'))"

fun spend_inputs ::
  "'v getter \<Rightarrow> CTxIn list \<Rightarrow> CTxInUndo list \<Rightarrow> 'v \<times> CCoinsViewCache \<Rightarrow> (bool \<times> CTxInUndo list \<times> 'v \<times> CCoinsViewCache) outcome" where
  "spend_inputs get [] vprev vc = Returns (True, vprev, vc)"
| "spend_inputs get (txin # ins) vprev vc =
     obind (assertion (with_modifier get (op_hash (prevout txin)) (spend_body (prevout txin)) vc)) (\<lambda>(ret, vc).
       case ret of None \<Rightarrow> Returns (False, vprev @ [new_CTxInUndo txout_SetNull], vc)
       | Some undo \<Rightarrow> spend_inputs get ins (vprev @ [undo]) vc)"

definition UpdateCoins ::
  "node_env \<Rightarrow> 'v getter \<Rightarrow> CTransaction \<Rightarrow> CValidationState \<Rightarrow> int \<Rightarrow> 'v \<times> CCoinsViewCache \<Rightarrow>
   (bool \<times> CValidationState \<times> CTxUndo \<times> 'v \<times> CCoinsViewCache) outcome" where
  "UpdateCoins E get tx st height vc =
     obind (if \<not> IsCoinBase tx \<and> \<not> IsV5CoinStake tx then spend_inputs get (vin tx) [] vc else Returns (True, [], vc))
       (\<lambda>(ret, vprev, vc).
          if \<not> ret then Returns (False, state_Invalid 0 [] st, \<lparr>vprevout = vprev\<rparr>, vc)
          else obind (assertion (with_modifier get (ne_tx_hash E tx) (\<lambda>c. ((), coins_FromTx tx height)) vc)) (\<lambda>(u, vc).
            Returns (True, st, \<lparr>vprevout = vprev\<rparr>, vc)))"

section \<open>Checking inputs\<close>

record CScriptCheck =
  sc_scriptPubKey :: CScript
  sc_ptxTo :: CTransaction
  sc_nIn :: nat
  sc_nFlags :: u32

definition run_check :: "node_env \<Rightarrow> CScriptCheck \<Rightarrow> unit script_result outcome" where
  "run_check E chk =
     assertion (VerifyScript
       ((ne_script_env E)\<lparr>env_flags := sc_nFlags chk, env_CheckSig := tx_CheckSig (ne_Hash E) (ne_Verify E) (sc_ptxTo chk) (sc_nIn chk)\<rparr>)
       (scriptSig (vin (sc_ptxTo chk) ! sc_nIn chk)) (sc_scriptPubKey chk))"

definition MANDATORY_SCRIPT_VERIFY_FLAGS :: u32 where
  "MANDATORY_SCRIPT_VERIFY_FLAGS = SCRIPT_VERIFY_P2SH"

definition STANDARD_SCRIPT_VERIFY_FLAGS :: u32 where
  "STANDARD_SCRIPT_VERIFY_FLAGS = MANDATORY_SCRIPT_VERIFY_FLAGS OR SCRIPT_VERIFY_DERSIG OR SCRIPT_VERIFY_STRICTENC OR
     SCRIPT_VERIFY_MINIMALDATA OR SCRIPT_VERIFY_NULLDUMMY OR SCRIPT_VERIFY_DISCOURAGE_UPGRADABLE_NOPS"

definition STANDARD_NOT_MANDATORY_VERIFY_FLAGS :: u32 where
  "STANDARD_NOT_MANDATORY_VERIFY_FLAGS = STANDARD_SCRIPT_VERIFY_FLAGS AND NOT MANDATORY_SCRIPT_VERIFY_FLAGS"

text \<open>The loop over the values: \<open>None\<close> when it returns false.\<close>

fun input_values ::
  "CChainParams \<Rightarrow> 'v getter \<Rightarrow> int \<Rightarrow> CTxIn list \<Rightarrow> CAmount \<Rightarrow> CValidationState \<Rightarrow> 'v \<times> CCoinsViewCache \<Rightarrow>
   (CAmount option \<times> CValidationState \<times> 'v \<times> CCoinsViewCache) outcome" where
  "input_values P get nSpendHeight [] nValueIn st vc = Returns (Some nValueIn, st, vc)"
| "input_values P get nSpendHeight (txin # ins) nValueIn st vc =
     (case AccessCoins get (op_hash (prevout txin)) vc of
        (None, vc) \<Rightarrow> Asserts
      | (Some coins, vc) \<Rightarrow>
          if (fCoinBase coins \<or> fCoinStake coins) \<and> nSpendHeight - co_nHeight coins < nMaturity P
          then Returns (None, state_Invalid REJECT_INVALID ''bad-txns-premature-spend-of-coinbase'' st, vc)
          else if unat (op_n (prevout txin)) \<ge> length (co_vout coins) then Asserts
          else let v = nValue (co_vout coins ! unat (op_n (prevout txin)));
                   nValueIn = wrap64 (nValueIn + v)
               in if \<not> MoneyRange P v \<or> \<not> MoneyRange P nValueIn
                  then Returns (None, state_DoS 100 REJECT_INVALID ''bad-txns-inputvalues-outofrange'' False st, vc)
                  else input_values P get nSpendHeight ins nValueIn st vc)"

definition check_fees :: "CChainParams \<Rightarrow> CTransaction \<Rightarrow> CAmount \<Rightarrow> CValidationState \<Rightarrow> (bool \<times> CValidationState) outcome" where
  "check_fees P tx nValueIn st =
     (if IsCoinStake tx then Returns (True, st)
      else obind (exception (GetValueOut tx)) (\<lambda>nValueOut.
        if nValueIn < nValueOut then Returns (reject 100 REJECT_INVALID ''bad-txns-in-belowout'' st)
        else let nTxFee = wrap64 (nValueIn - nValueOut)
             in if nTxFee < 0 then Returns (reject 100 REJECT_INVALID ''bad-txns-fee-negative'' st)
                else if \<not> MoneyRange P nTxFee then Returns (reject 100 REJECT_INVALID ''bad-txns-fee-outofrange'' st)
                else Returns (True, st)))"

definition script_failure :: "node_env \<Rightarrow> CScriptCheck \<Rightarrow> ScriptError \<Rightarrow> CValidationState \<Rightarrow> (bool \<times> CValidationState) outcome" where
  "script_failure E chk err st =
     obind (if sc_nFlags chk AND STANDARD_NOT_MANDATORY_VERIFY_FLAGS \<noteq> 0
            then run_check E (chk\<lparr>sc_nFlags := sc_nFlags chk AND NOT STANDARD_NOT_MANDATORY_VERIFY_FLAGS\<rparr>) else Returns (Inl err))
       (\<lambda>again. case again of
          Inr _ \<Rightarrow> Returns (False, state_Invalid REJECT_NONSTANDARD
              (''non-mandatory-script-verify-flag ('' @ ScriptErrorString SCRIPT_ERR_OK @ '')'') st)
        | Inl _ \<Rightarrow> Returns (reject 100 REJECT_INVALID (''mandatory-script-verify-flag-failed ('' @ ScriptErrorString err @ '')'') st))"

text \<open>With \<open>deferred\<close> the checks are collected in \<open>pvChecks\<close> instead of being made.\<close>

fun check_scripts ::
  "node_env \<Rightarrow> 'v getter \<Rightarrow> CTransaction \<Rightarrow> u32 \<Rightarrow> bool \<Rightarrow> nat \<Rightarrow> CTxIn list \<Rightarrow> CScriptCheck list \<Rightarrow> CValidationState \<Rightarrow>
   'v \<times> CCoinsViewCache \<Rightarrow> (bool \<times> CScriptCheck list \<times> CValidationState \<times> 'v \<times> CCoinsViewCache) outcome" where
  "check_scripts E get tx flags deferred i [] pvChecks st vc = Returns (True, pvChecks, st, vc)"
| "check_scripts E get tx flags deferred i (txin # ins) pvChecks st vc =
     (case AccessCoins get (op_hash (prevout txin)) vc of
        (None, vc) \<Rightarrow> Asserts
      | (Some coins, vc) \<Rightarrow>
          if unat (op_n (prevout txin)) \<ge> length (co_vout coins) then Asserts
          else let chk = \<lparr>sc_scriptPubKey = scriptPubKey (co_vout coins ! unat (op_n (prevout txin))), sc_ptxTo = tx,
                          sc_nIn = i, sc_nFlags = flags\<rparr>
               in if deferred then check_scripts E get tx flags deferred (i + 1) ins (pvChecks @ [chk]) st vc
                  else obind (run_check E chk) (\<lambda>r. case r of
                      Inr _ \<Rightarrow> check_scripts E get tx flags deferred (i + 1) ins pvChecks st vc
                    | Inl err \<Rightarrow> obind (script_failure E chk err st) (\<lambda>(ret, st). Returns (ret, pvChecks, st, vc))))"

text \<open>\<open>heights\<close> gives the height of the block the view is at.\<close>

definition CheckInputs ::
  "node_env \<Rightarrow> 'v getter \<Rightarrow> ('v \<Rightarrow> base_uint) \<Rightarrow> (base_uint \<Rightarrow> int option) \<Rightarrow> CTransaction \<Rightarrow> CValidationState \<Rightarrow> bool \<Rightarrow> u32 \<Rightarrow>
   bool \<Rightarrow> 'v \<times> CCoinsViewCache \<Rightarrow> (bool \<times> CScriptCheck list \<times> CValidationState \<times> 'v \<times> CCoinsViewCache) outcome" where
  "CheckInputs E get best heights tx st fScriptChecks flags deferred vc =
     (if IsCoinBase tx \<or> IsV5CoinStake tx then Returns (True, [], st, vc)
      else case HaveInputs get tx vc of
        (False, vc) \<Rightarrow> Returns (False, [], state_Invalid 0 [] st, vc)
      | (True, vc) \<Rightarrow>
        (case cache_GetBestBlock best vc of (hash, vc) \<Rightarrow>
          obind (assertion (heights hash)) (\<lambda>prevHeight.
          obind (input_values (ne_params E) get (prevHeight + 1) (vin tx) 0 st vc) (\<lambda>(r, st, vc).
            case r of None \<Rightarrow> Returns (False, [], st, vc)
            | Some nValueIn \<Rightarrow>
              obind (check_fees (ne_params E) tx nValueIn st) (\<lambda>(ok, st).
                if \<not> ok then Returns (False, [], st, vc)
                else if fScriptChecks then check_scripts E get tx flags deferred 0 (vin tx) [] st vc
                else Returns (True, [], st, vc))))))"

section \<open>Disconnecting a block\<close>

definition coins_resize :: "nat \<Rightarrow> CTxOut list \<Rightarrow> CTxOut list" where
  "coins_resize n outs = (if length outs < n then outs @ replicate (n - length outs) txout_SetNull else outs)"

text \<open>The change of the coins of a transaction of the block; the Boolean says that they matched.\<close>

definition remove_outputs :: "CTransaction \<Rightarrow> int \<Rightarrow> CCoins \<Rightarrow> bool \<times> CCoins" where
  "remove_outputs tx height outs =
     (let outs = coins_ClearUnspendable outs;
          outsBlock = coins_FromTx tx height;
          outs = (if co_nVersion outsBlock < 0 then outs\<lparr>co_nVersion := co_nVersion outsBlock\<rparr> else outs)
      in (coins_eq outs outsBlock, coins_Clear))"

text \<open>The index plus one is computed in 32 bits; for the highest index it is zero, and the write that follows is out of range.\<close>

definition restore_output :: "COutPoint \<Rightarrow> CTxInUndo \<Rightarrow> CCoins \<Rightarrow> bool \<times> CCoins" where
  "restore_output out undo coins =
     (let (clean1, coins) =
            (if un_nHeight undo \<noteq> 0
             then (coins_IsPruned coins,
                   coins_Clear\<lparr>fCoinBase := un_fCoinBase undo, co_nHeight := sint (un_nHeight undo), co_nVersion := un_nVersion undo\<rparr>)
             else (\<not> coins_IsPruned coins, coins));
          n = unat (op_n out);
          clean2 = (\<not> coins_IsAvailable coins n)
      in (clean1 \<and> clean2, coins\<lparr>co_vout := (coins_resize (unat (op_n out + 1)) (co_vout coins))[n := un_txout undo]\<rparr>))"

fun restore_inputs ::
  "'v getter \<Rightarrow> (CTxIn \<times> CTxInUndo) list \<Rightarrow> bool \<Rightarrow> 'v \<times> CCoinsViewCache \<Rightarrow> (bool \<times> 'v \<times> CCoinsViewCache) outcome" where
  "restore_inputs get [] fClean vc = Returns (fClean, vc)"
| "restore_inputs get ((txin, undo) # rest) fClean vc =
     obind (assertion (with_modifier get (op_hash (prevout txin)) (restore_output (prevout txin) undo) vc)) (\<lambda>(ok, vc).
       restore_inputs get rest (fClean \<and> ok) vc)"

text \<open>
  The loop from the last transaction to the first, each with its undo data, which the first one does not have.  \<open>None\<close> in
  the result is the early return of false.
\<close>

fun disconnect_txs ::
  "node_env \<Rightarrow> 'v getter \<Rightarrow> int \<Rightarrow> (CTransaction \<times> CTxUndo option) list \<Rightarrow> bool \<Rightarrow> 'v \<times> CCoinsViewCache \<Rightarrow>
   (bool option \<times> 'v \<times> CCoinsViewCache) outcome" where
  "disconnect_txs E get height [] fClean vc = Returns (Some fClean, vc)"
| "disconnect_txs E get height ((tx, txundo) # rest) fClean vc =
     obind (assertion (with_modifier get (ne_tx_hash E tx) (remove_outputs tx height) vc)) (\<lambda>(ok, vc).
       let fClean = (fClean \<and> ok)
       in if IsCoinBase tx \<or> IsV5CoinStake tx then disconnect_txs E get height rest fClean vc
          else case txundo of None \<Rightarrow> Asserts
          | Some u \<Rightarrow>
              if length (vprevout u) \<noteq> length (vin tx) then Returns (None, vc)
              else obind (restore_inputs get (rev (zip (vin tx) (vprevout u))) fClean vc) (\<lambda>(fClean, vc).
                     disconnect_txs E get height rest fClean vc))"

definition is_v5_stake :: "CChainParams \<Rightarrow> CBlock \<Rightarrow> int \<Rightarrow> bool" where
  "is_v5_stake P block height \<longleftrightarrow> IsProofOfStake block \<and> hd_nVersion block \<ge> 5 \<and> height \<ge> nStakePointerForkHeight P \<and>
     \<not> sp_IsNull (stakePointer block)"

definition pointer_hash :: "node_env \<Rightarrow> CBlock \<Rightarrow> base_uint" where
  "pointer_hash E block = ne_outpoint_hash E \<lparr>op_hash = sp_txid (stakePointer block), op_n = sp_nPos (stakePointer block)\<rparr>"

text \<open>
  \<open>undo\<close> is the undo data, \<open>None\<close> when there is none or it cannot be read.  The result is that of a call with \<open>pfClean\<close>,
  the Boolean returned and \<open>*pfClean\<close>, with the map of used stake pointers and the view.
\<close>

definition DisconnectBlock ::
  "node_env \<Rightarrow> 'v getter \<Rightarrow> ('v \<Rightarrow> base_uint) \<Rightarrow> CBlockIndex \<Rightarrow> CBlockUndo option \<Rightarrow> CBlock \<Rightarrow>
   (base_uint \<Rightarrow> base_uint option) \<Rightarrow> 'v \<times> CCoinsViewCache \<Rightarrow>
   (bool \<times> bool \<times> (base_uint \<Rightarrow> base_uint option) \<times> 'v \<times> CCoinsViewCache) outcome" where
  "DisconnectBlock E get best pindex undo block used vc =
     (case cache_GetBestBlock best vc of (hash, vc) \<Rightarrow>
        if phashBlock pindex \<noteq> hash then Asserts
        else case undo of None \<Rightarrow> Returns (False, False, used, vc)
        | Some blockUndo \<Rightarrow>
            if length (vtxundo blockUndo) + 1 \<noteq> length (vtx block) then Returns (False, False, used, vc)
            else obind (disconnect_txs E get (nHeight pindex) (rev (zip (vtx block) (None # map Some (vtxundo blockUndo)))) True vc)
              (\<lambda>(r, vc). case r of None \<Rightarrow> Returns (False, False, used, vc)
                | Some fClean \<Rightarrow>
                    (case pprev pindex of None \<Rightarrow> Asserts
                     | Some hashPrev \<Rightarrow>
                         Returns (True, fClean,
                           (if is_v5_stake (ne_params E) block (nHeight pindex) then used(pointer_hash E block := None) else used),
                           SetBestBlock hashPrev vc))))"

section \<open>Connecting a block\<close>

definition uint256_of_nat :: "nat \<Rightarrow> base_uint" where
  "uint256_of_nat n = map (\<lambda>i. of_nat (n div 2 ^ (32 * i))) [0..<WIDTH256]"

record connect_state =
  nFees :: CAmount
  nSigOps :: nat
  nValueOut :: CAmount
  nValueIn :: CAmount
  blockundo :: "CTxUndo list"
  checks :: "CScriptCheck list"

record connect_mode =
  fStrictPayToScriptHash :: bool
  cm_fScriptChecks :: bool
  cm_flags :: u32
  cm_threads :: bool
  cm_height :: int

definition spend_value :: "CTransaction \<Rightarrow> CAmount \<Rightarrow> CAmount" where
  "spend_value tx v =
     foldl (\<lambda>v txIn. if IsZerocoinSpend (scriptSig txIn) then wrap64 (v + int (unat (nSequence txIn)) * COIN) else v) v (vin tx)"

text \<open>The part of the loop body for a transaction with inputs in the view; \<open>None\<close> is the early return of false.\<close>

definition connect_inputs ::
  "node_env \<Rightarrow> 'v getter \<Rightarrow> ('v \<Rightarrow> base_uint) \<Rightarrow> (base_uint \<Rightarrow> int option) \<Rightarrow> connect_mode \<Rightarrow> CTransaction \<Rightarrow> connect_state \<Rightarrow>
   CValidationState \<Rightarrow> 'v \<times> CCoinsViewCache \<Rightarrow> (connect_state option \<times> CValidationState \<times> 'v \<times> CCoinsViewCache) outcome" where
  "connect_inputs E get best heights C tx s st vc =
     (case HaveInputs get tx vc of
        (False, vc) \<Rightarrow> Returns (None, state_DoS 100 REJECT_INVALID ''bad-txns-inputs-missingorspent'' False st, vc)
      | (True, vc) \<Rightarrow>
          obind (if fStrictPayToScriptHash C then GetP2SHSigOpCount get tx vc else Returns (0, vc)) (\<lambda>(n, vc).
          let s = s\<lparr>nSigOps := (nSigOps s + n) mod 2 ^ 32\<rparr>
          in if fStrictPayToScriptHash C \<and> nSigOps s > MAX_BLOCK_SIGOPS_CURRENT
             then Returns (None, state_DoS 100 REJECT_INVALID ''bad-blk-sigops'' False st, vc)
             else obind (assertion (GetValueIn get tx vc)) (\<lambda>(valueIn, vc).
                  obind (if IsCoinStake tx then Returns 0 else exception (GetValueOut tx)) (\<lambda>valueOut.
                  let s = s\<lparr>nFees := (if IsCoinStake tx then nFees s else wrap64 (nFees s + wrap64 (valueIn - valueOut))),
                            nValueIn := wrap64 (nValueIn s + valueIn)\<rparr>
                  in obind (CheckInputs E get best heights tx st (cm_fScriptChecks C) (cm_flags C) (cm_threads C) vc)
                       (\<lambda>(ok, chks, st, vc).
                          Returns (if ok then Some (s\<lparr>checks := checks s @ chks\<rparr>) else None, st, vc))))))"

definition connect_value ::
  "node_env \<Rightarrow> 'v getter \<Rightarrow> ('v \<Rightarrow> base_uint) \<Rightarrow> (base_uint \<Rightarrow> int option) \<Rightarrow> connect_mode \<Rightarrow> CTransaction \<Rightarrow> connect_state \<Rightarrow>
   CValidationState \<Rightarrow> 'v \<times> CCoinsViewCache \<Rightarrow> (connect_state option \<times> CValidationState \<times> 'v \<times> CCoinsViewCache) outcome" where
  "connect_value E get best heights C tx s st vc =
     (if tx_IsZerocoinSpend tx then Returns (Some (s\<lparr>nValueIn := spend_value tx (nValueIn s)\<rparr>), st, vc)
      else if \<not> IsCoinBase tx \<and> \<not> IsV5CoinStake tx then connect_inputs E get best heights C tx s st vc
      else Returns (Some s, st, vc))"

definition connect_update ::
  "node_env \<Rightarrow> 'v getter \<Rightarrow> connect_mode \<Rightarrow> bool \<Rightarrow> CTransaction \<Rightarrow> connect_state \<Rightarrow> CValidationState \<Rightarrow> 'v \<times> CCoinsViewCache \<Rightarrow>
   (connect_state option \<times> CValidationState \<times> 'v \<times> CCoinsViewCache) outcome" where
  "connect_update E get C first tx s st vc =
     obind (exception (GetValueOut tx)) (\<lambda>valueOut.
     let s = s\<lparr>nValueOut := wrap64 (nValueOut s + valueOut)\<rparr>
     in obind (UpdateCoins E get tx st (cm_height C) vc) (\<lambda>(ok, st, txundo, vc).
          Returns (if ok then Some (if first then s else s\<lparr>blockundo := blockundo s @ [txundo]\<rparr>) else None, st, vc)))"

definition connect_tx ::
  "node_env \<Rightarrow> 'v getter \<Rightarrow> ('v \<Rightarrow> base_uint) \<Rightarrow> (base_uint \<Rightarrow> int option) \<Rightarrow> connect_mode \<Rightarrow> bool \<Rightarrow> CTransaction \<Rightarrow> connect_state \<Rightarrow>
   CValidationState \<Rightarrow> 'v \<times> CCoinsViewCache \<Rightarrow> (connect_state option \<times> CValidationState \<times> 'v \<times> CCoinsViewCache) outcome" where
  "connect_tx E get best heights C first tx s st vc =
     (let s = s\<lparr>nSigOps := (nSigOps s + GetLegacySigOpCount tx) mod 2 ^ 32\<rparr>
      in if nSigOps s > MAX_BLOCK_SIGOPS_CURRENT then Returns (None, state_DoS 100 REJECT_INVALID ''bad-blk-sigops'' False st, vc)
         else if cm_height C \<ge> 2565000 \<and> ContainsZerocoins tx then Returns (None, state_DoS 100 0 [] False st, vc)
         else obind (connect_value E get best heights C tx s st vc) (\<lambda>(r, st, vc).
           case r of None \<Rightarrow> Returns (None, st, vc) | Some s \<Rightarrow> connect_update E get C first tx s st vc))"

fun connect_txs ::
  "node_env \<Rightarrow> 'v getter \<Rightarrow> ('v \<Rightarrow> base_uint) \<Rightarrow> (base_uint \<Rightarrow> int option) \<Rightarrow> connect_mode \<Rightarrow> bool \<Rightarrow> CTransaction list \<Rightarrow>
   connect_state \<Rightarrow> CValidationState \<Rightarrow> 'v \<times> CCoinsViewCache \<Rightarrow>
   (connect_state option \<times> CValidationState \<times> 'v \<times> CCoinsViewCache) outcome" where
  "connect_txs E get best heights C first [] s st vc = Returns (Some s, st, vc)"
| "connect_txs E get best heights C first (tx # txs) s st vc =
     obind (connect_tx E get best heights C first tx s st vc) (\<lambda>(r, st, vc).
       case r of None \<Rightarrow> Returns (None, st, vc) | Some s \<Rightarrow> connect_txs E get best heights C False txs s st vc)"

text \<open>The rule against overwriting unspent transactions.\<close>

fun bip30_loop :: "node_env \<Rightarrow> 'v getter \<Rightarrow> CTransaction list \<Rightarrow> 'v \<times> CCoinsViewCache \<Rightarrow> bool \<times> 'v \<times> CCoinsViewCache" where
  "bip30_loop E get [] vc = (True, vc)"
| "bip30_loop E get (tx # txs) vc =
     (case AccessCoins get (ne_tx_hash E tx) vc of
        (r, vc) \<Rightarrow> (case r of Some coins \<Rightarrow> if \<not> coins_IsPruned coins then (False, vc) else bip30_loop E get txs vc
                   | None \<Rightarrow> bip30_loop E get txs vc))"

definition fEnforceBIP30 :: "CBlockIndex \<Rightarrow> bool" where
  "fEnforceBIP30 pindex \<longleftrightarrow>
     \<not> ((nHeight pindex = 91842 \<and>
         phashBlock pindex = uint256_of_nat 0x00000000000a4d0a398161ffc163c503763b1f4360639393e0e4c8e300e0caec) \<or>
        (nHeight pindex = 91880 \<and>
         phashBlock pindex = uint256_of_nat 0x00000000000743f190a18c5577a3c2d2a1f610ae9601ac046a38084ccb7cd721))"

text \<open>
  Whether scripts are checked, by the assumed valid block and the best header with the chain work behind it.  \<open>recent\<close> is
  the comparison of the block's age at the current work, which is computed in floating point.
\<close>

definition script_checks_needed ::
  "block_map \<Rightarrow> base_uint \<Rightarrow> CBlockIndex option \<Rightarrow> base_uint \<Rightarrow> bool \<Rightarrow> CBlockIndex \<Rightarrow> bool option" where
  "script_checks_needed m hashAssumeValid pindexBestHeader nMinimumChainWork recent pindex =
     (if bu_IsNull hashAssumeValid then Some True
      else case m hashAssumeValid of None \<Rightarrow> Some True
      | Some pindexAssume \<Rightarrow>
        (case (if nHeight pindexAssume \<ge> nHeight pindex then GetAncestor m hashAssumeValid (nHeight pindex) else Some None) of
           None \<Rightarrow> None
         | Some assumeAncestor \<Rightarrow>
        (case (case pindexBestHeader of None \<Rightarrow> Some None
               | Some b \<Rightarrow> if nHeight b \<ge> nHeight pindex then GetAncestor m (phashBlock b) (nHeight pindex) else Some None) of
           None \<Rightarrow> None
         | Some bestAncestor \<Rightarrow>
             Some (if assumeAncestor = Some (phashBlock pindex) \<and> bestAncestor = Some (phashBlock pindex) \<and>
                      (case pindexBestHeader of None \<Rightarrow> False | Some b \<Rightarrow> bu_CompareTo (nChainWork b) nMinimumChainWork \<ge> 0)
                   then recent else True))))"

text \<open>
  \<open>IsBlockValueValid\<close> of \<open>src/masternode-payments.cpp\<close>: the tip of the active chain, whether the masternode lists are synced,
  whether superblocks are enabled, the payment cycle and the decision of the budget are arguments.  The remainder of
  \<open>%\<close> has the sign of the height.
\<close>

definition following_height :: "block_map \<Rightarrow> CBlockIndex \<Rightarrow> CBlock \<Rightarrow> int" where
  "following_height m tip block =
     (if phashBlock tip = hashPrevBlock block then nHeight tip + 1
      else case m (hashPrevBlock block) of Some bi \<Rightarrow> nHeight bi + 1 | None \<Rightarrow> 0)"

definition IsBlockValueValid ::
  "CChainParams \<Rightarrow> block_map \<Rightarrow> CBlockIndex option \<Rightarrow> bool \<Rightarrow> bool \<Rightarrow> int \<Rightarrow> (int \<Rightarrow> bool) \<Rightarrow> CBlock \<Rightarrow> CAmount \<Rightarrow> CAmount \<Rightarrow> bool" where
  "IsBlockValueValid P m tip synced superblocks cycle budgetBlock block nExpectedValue nMinted =
     (case tip of None \<Rightarrow> True
      | Some pindexPrev \<Rightarrow>
          let height = following_height m pindexPrev block
          in if \<not> synced then
               (if height \<ge> nStakePointerForkHeight P then nMinted \<le> nExpectedValue
                else if sgn height * (\<bar>height\<bar> mod cycle) < 100 then True else \<not> nMinted > nExpectedValue)
             else if \<not> superblocks then nMinted \<le> nExpectedValue
             else if budgetBlock height then True else \<not> nMinted > nExpectedValue)"

text \<open>\<open>control.Wait()\<close>: whether all deferred checks pass.\<close>

fun wait_checks :: "node_env \<Rightarrow> CScriptCheck list \<Rightarrow> bool outcome" where
  "wait_checks E [] = Returns True"
| "wait_checks E (chk # chks) = obind (run_check E chk) (\<lambda>r. obind (wait_checks E chks) (\<lambda>ok. Returns (\<not> isl r \<and> ok)))"

text \<open>What \<open>ConnectBlock\<close> takes from its surroundings: results of other parts, of the disk and of globals.\<close>

record connect_io =
  io_CheckBlock :: "CValidationState \<Rightarrow> bool \<times> CValidationState"
  io_map :: block_map
  io_hashAssumeValid :: base_uint
  io_pindexBestHeader :: "CBlockIndex option"
  io_nMinimumChainWork :: base_uint
  io_recent :: bool
  io_threads :: bool
  io_value_valid :: "CAmount \<Rightarrow> CAmount \<Rightarrow> bool"
  io_tip_supply :: int
  io_index_written :: bool
  io_undo_pos :: "CDiskBlockPos option"
  io_undo_written :: bool
  io_txindex_written :: bool

definition connect_result :: "CBlockIndex \<Rightarrow> CBlockUndo \<Rightarrow> (base_uint \<Rightarrow> base_uint option) \<Rightarrow> 'w \<Rightarrow> bool \<Rightarrow> CValidationState \<Rightarrow>
   (bool \<times> CValidationState \<times> CBlockIndex \<times> CBlockUndo \<times> (base_uint \<Rightarrow> base_uint option) \<times> 'w) outcome" where
  "connect_result pindex undo used vc ok st = Returns (ok, st, pindex, undo, used, vc)"

text \<open>From the writing of undo data to the end.\<close>

definition connect_finish ::
  "node_env \<Rightarrow> connect_io \<Rightarrow> CBlock \<Rightarrow> CBlockIndex \<Rightarrow> CBlockUndo \<Rightarrow> (base_uint \<Rightarrow> base_uint option) \<Rightarrow> CValidationState \<Rightarrow> 'v \<times> CCoinsViewCache \<Rightarrow>
   (bool \<times> CValidationState \<times> CBlockIndex \<times> CBlockUndo \<times> (base_uint \<Rightarrow> base_uint option) \<times> 'v \<times> CCoinsViewCache) outcome" where
  "connect_finish E IO block pindex undo used st vc =
     obind (assertion (bi_IsValid BLOCK_VALID_SCRIPTS pindex)) (\<lambda>valid.
     let noUndo = diskpos_IsNull (GetUndoPos pindex)
     in if (noUndo \<or> \<not> valid) \<and> noUndo \<and> io_undo_pos IO = None then connect_result pindex undo used vc False st
        else if (noUndo \<or> \<not> valid) \<and> noUndo \<and> \<not> io_undo_written IO
        then connect_result pindex undo used vc False (state_Error ''Failed to write undo data'' st)
        else obind (if noUndo \<or> \<not> valid
            then (let pindex = (if noUndo then pindex\<lparr>nUndoPos := dp_nPos (the (io_undo_pos IO)), nStatus := nStatus pindex OR BLOCK_HAVE_UNDO\<rparr>
                                else pindex)
                  in obind (assertion (RaiseValidity BLOCK_VALID_SCRIPTS pindex)) (\<lambda>(b, pindex). Returns pindex))
            else Returns pindex)
          (\<lambda>pindex.
            if \<not> io_txindex_written IO then connect_result pindex undo used vc False (state_Error ''Failed to write transaction index'' st)
            else if is_v5_stake (ne_params E) block (nHeight pindex) \<and> used (pointer_hash E block) \<noteq> None
            then connect_result pindex undo used vc False (state_DoS 100 REJECT_INVALID ''stake-pointer-reuse'' False st)
            else connect_result pindex undo
                   (if is_v5_stake (ne_params E) block (nHeight pindex)
                    then used(pointer_hash E block \<mapsto> ne_block_hash E block) else used)
                   (SetBestBlock (phashBlock pindex) vc) True st))"

text \<open>From the end of the loop to the checks of scripts: the money supply, the expected and the minted value.\<close>

definition connect_amounts ::
  "node_env \<Rightarrow> connect_io \<Rightarrow> CBlock \<Rightarrow> CBlockIndex \<Rightarrow> bool \<Rightarrow> (base_uint \<Rightarrow> base_uint option) \<Rightarrow> CValidationState \<Rightarrow> connect_state \<Rightarrow>
   'v \<times> CCoinsViewCache \<Rightarrow> (bool \<times> CValidationState \<times> CBlockIndex \<times> CBlockUndo \<times> (base_uint \<Rightarrow> base_uint option) \<times> 'v \<times> CCoinsViewCache) outcome" where
  "connect_amounts E IO block pindex fJustCheck used st s vc =
     (let P = ne_params E;
          undo = \<lparr>vtxundo = blockundo s\<rparr>;
          prev = (case pprev pindex of None \<Rightarrow> None | Some q \<Rightarrow> io_map IO q);
          supplyPrev = (case prev of None \<Rightarrow> 0 | Some bi \<Rightarrow> nMoneySupply bi);
          supply = wrap64 (wrap64 (supplyPrev + nValueOut s) - nValueIn s);
          pindex = pindex\<lparr>nMoneySupply := supply, nMint := wrap64 (wrap64 (supply - supplyPrev) + nFees s)\<rparr>
      in if \<not> io_index_written IO then connect_result pindex undo used vc False st
         else obind (assertion (if nHeight pindex \<ge> nStakePointerForkHeight P then Some (nHeight pindex) else map_option nHeight prev))
           (\<lambda>nCalcHeight.
              let expected = GetBlockValue P (io_tip_supply IO) nCalcHeight;
                  expected = (if IsProofOfWork block then wrap64 (expected + nFees s) else expected)
              in if \<not> io_value_valid IO expected (nMint pindex)
                 then connect_result pindex undo used vc False (state_DoS 100 REJECT_INVALID ''bad-cb-amount'' False st)
                 else obind (wait_checks E (checks s)) (\<lambda>passed.
                   if \<not> passed then connect_result pindex undo used vc False (state_DoS 100 0 [] False st)
                   else if fJustCheck then connect_result pindex undo used vc True st
                   else connect_finish E IO block pindex undo used st vc)))"

text \<open>From the overwriting rule to the end, once it is known whether scripts are checked.\<close>

definition connect_body ::
  "node_env \<Rightarrow> 'v getter \<Rightarrow> ('v \<Rightarrow> base_uint) \<Rightarrow> (base_uint \<Rightarrow> int option) \<Rightarrow> connect_io \<Rightarrow> CBlock \<Rightarrow> CBlockIndex \<Rightarrow> bool \<Rightarrow>
   (base_uint \<Rightarrow> base_uint option) \<Rightarrow> CValidationState \<Rightarrow> bool \<Rightarrow> 'v \<times> CCoinsViewCache \<Rightarrow>
   (bool \<times> CValidationState \<times> CBlockIndex \<times> CBlockUndo \<times> (base_uint \<Rightarrow> base_uint option) \<times> 'v \<times> CCoinsViewCache) outcome" where
  "connect_body E get best heights IO block pindex fJustCheck used st fScriptChecks vc =
     (case (if fEnforceBIP30 pindex then bip30_loop E get (vtx block) vc else (True, vc)) of
        (False, vc) \<Rightarrow> connect_result pindex \<lparr>vtxundo = []\<rparr> used vc False (state_DoS 100 REJECT_INVALID ''bad-txns-BIP30'' False st)
      | (True, vc) \<Rightarrow>
          let p2sh = bi_GetBlockTime pindex \<ge> 1333238400;
              C = \<lparr>fStrictPayToScriptHash = p2sh, cm_fScriptChecks = fScriptChecks,
                   cm_flags = (if p2sh then SCRIPT_VERIFY_P2SH else SCRIPT_VERIFY_NONE) OR SCRIPT_VERIFY_DERSIG,
                   cm_threads = io_threads IO, cm_height = nHeight pindex\<rparr>;
              s0 = \<lparr>nFees = 0, nSigOps = 0, nValueOut = 0, nValueIn = 0, blockundo = [], checks = []\<rparr>
          in obind (connect_txs E get best heights C True (vtx block) s0 st vc) (\<lambda>(r, st, vc).
               case r of None \<Rightarrow> connect_result pindex \<lparr>vtxundo = []\<rparr> used vc False st
               | Some s \<Rightarrow> connect_amounts E IO block pindex fJustCheck used st s vc))"

definition ConnectBlock ::
  "node_env \<Rightarrow> 'v getter \<Rightarrow> ('v \<Rightarrow> base_uint) \<Rightarrow> (base_uint \<Rightarrow> int option) \<Rightarrow> connect_io \<Rightarrow> CBlock \<Rightarrow> CBlockIndex \<Rightarrow> bool \<Rightarrow>
   (base_uint \<Rightarrow> base_uint option) \<Rightarrow> CValidationState \<Rightarrow> 'v \<times> CCoinsViewCache \<Rightarrow>
   (bool \<times> CValidationState \<times> CBlockIndex \<times> CBlockUndo \<times> (base_uint \<Rightarrow> base_uint option) \<times> 'v \<times> CCoinsViewCache) outcome" where
  "ConnectBlock E get best heights IO block pindex fJustCheck used st vc =
     (let P = ne_params E; none = \<lparr>vtxundo = []\<rparr>
      in case io_CheckBlock IO st of
        (False, st) \<Rightarrow> connect_result pindex none used vc False st
      | (True, st) \<Rightarrow>
        (case cache_GetBestBlock best vc of (hash, vc) \<Rightarrow>
          if (case pprev pindex of None \<Rightarrow> bu_zero WIDTH256 | Some q \<Rightarrow> q) \<noteq> hash then Asserts
          else if ne_block_hash E block = hashGenesisBlock P
          then connect_result pindex none used (SetBestBlock (phashBlock pindex) vc) True st
          else if nHeight pindex \<le> nLastPOWBlock P \<and> IsProofOfStake block
          then connect_result pindex none used vc False (state_DoS 100 REJECT_INVALID ''PoS-early'' False st)
          else if nHeight pindex > nLastPOWBlock P \<and> IsProofOfWork block
          then connect_result pindex none used vc False (state_DoS 100 REJECT_INVALID ''PoW-ended'' False st)
          else obind (assertion (script_checks_needed (io_map IO) (io_hashAssumeValid IO) (io_pindexBestHeader IO)
                        (io_nMinimumChainWork IO) (io_recent IO) pindex)) (\<lambda>fScriptChecks.
                 connect_body E get best heights IO block pindex fJustCheck used st fScriptChecks vc)))"

end
