(* ===== verification/Reorg.thy ===== *)
theory Reorg
  imports Connect
begin

text \<open>
  Connecting and disconnecting blocks over the map of coins a view stands for: reading leaves the view, spending and
  restoring are inverse on the map, and \<open>DisconnectBlock\<close> undoes \<open>ConnectBlock\<close>.
\<close>


section \<open>Reading leaves the view\<close>

definition view_kept :: "('w \<Rightarrow> bool) \<Rightarrow> ('w \<Rightarrow> 'm) \<Rightarrow> 'w \<Rightarrow> 'w \<Rightarrow> bool" where
  "view_kept good look vc vc' \<longleftrightarrow> good vc' \<and> look vc' = look vc"

lemma view_kept_trans: "view_kept g l a b \<Longrightarrow> view_kept g l b c \<Longrightarrow> view_kept g l a c"
  by (simp add: view_kept_def)

lemma view_kept_refl: "g a \<Longrightarrow> view_kept g l a a"
  by (simp add: view_kept_def)

lemma cache_look_hashBlock [simp]: "cache_look l (v, c\<lparr>cv_hashBlock := h\<rparr>) = cache_look l (v, c)"
  by (simp add: cache_look_def)

lemma cache_good_hashBlock [simp]: "cache_good l r g (v, c\<lparr>cv_hashBlock := h\<rparr>) = cache_good l r g (v, c)"
  by (simp add: cache_good_def)

lemma GetBestBlock_kept:
  "cache_GetBestBlock best vc = (h, vc') \<Longrightarrow> cache_good look r good vc \<Longrightarrow>
   view_kept (cache_good look r good) (cache_look look) vc vc'"
  by (cases vc) (auto simp: cache_GetBestBlock_def view_kept_def Let_def split: if_splits)

lemma SetBestBlock_kept:
  "cache_good look r good vc \<Longrightarrow> view_kept (cache_good look r good) (cache_look look) vc (SetBestBlock h vc)"
  by (cases vc) (auto simp: SetBestBlock_def view_kept_def)

context coins_reader begin

lemma access_kept:
  assumes "AccessCoins get k vc = (r, vc')" "cache_good look ready good vc"
  shows "view_kept (cache_good look ready good) (cache_look look) vc vc' \<and> live r = cache_look look vc k"
  using fetch_spec [OF assms(2) assms(1) [unfolded AccessCoins_def]] by (simp add: view_kept_def)

lemma output_kept:
  assumes "GetOutputFor get i vc = Some (out, vc')" "cache_good look ready good vc"
  shows "view_kept (cache_good look ready good) (cache_look look) vc vc'"
  using assms(1) access_kept [OF _ assms(2)] by (auto simp: GetOutputFor_def split: prod.splits option.splits if_splits)

lemma have_inputs_kept:
  assumes "HaveInputs get tx vc = (b, vc')" "cache_good look ready good vc"
  shows "view_kept (cache_good look ready good) (cache_look look) vc vc'"
  using assms have_inputs_spec [OF assms(2)] by (auto simp: HaveInputs_def view_kept_def split: if_splits)

lemma value_in_kept:
  assumes "GetValueIn get tx vc = Some (v, vc')" "cache_good look ready good vc"
  shows "view_kept (cache_good look ready good) (cache_look look) vc vc'"
proof -
  have "value_in_loop get ins n vc = Some (v, vc') \<Longrightarrow> cache_good look ready good vc \<Longrightarrow>
      view_kept (cache_good look ready good) (cache_look look) vc vc'" for ins n vc
  proof (induction ins arbitrary: n vc)
    case (Cons i ins)
    then obtain out vc1 where o: "GetOutputFor get i vc = Some (out, vc1)" "value_in_loop get ins (wrap64 (n + nValue out)) vc1 = Some (v, vc')"
      by (auto split: option.splits)
    note k = output_kept [OF o(1) Cons.prems(2)]
    show ?case using k Cons.IH [OF o(2)] by (auto simp: view_kept_def)
  qed (simp add: view_kept_def)
  then show ?thesis using assms by (auto simp: GetValueIn_def view_kept_def split: if_splits)
qed

lemma p2sh_sigops_kept:
  assumes "GetP2SHSigOpCount get tx vc = Returns (n, vc')" "cache_good look ready good vc"
  shows "view_kept (cache_good look ready good) (cache_look look) vc vc'"
proof -
  have "p2sh_sigops_loop get ins k vc = Returns (n, vc') \<Longrightarrow> cache_good look ready good vc \<Longrightarrow>
      view_kept (cache_good look ready good) (cache_look look) vc vc'" for ins k vc
  proof (induction ins arbitrary: k vc)
    case (Cons i ins)
    then obtain out vc1 k' where o: "GetOutputFor get i vc = Some (out, vc1)" "p2sh_sigops_loop get ins k' vc1 = Returns (n, vc')"
      by (auto simp: obind_Returns)
    note k = output_kept [OF o(1) Cons.prems(2)]
    show ?case using k Cons.IH [OF o(2)] by (auto simp: view_kept_def)
  qed (simp add: view_kept_def)
  then show ?thesis using assms by (auto simp: GetP2SHSigOpCount_def view_kept_def split: if_splits)
qed

lemma input_values_kept:
  "input_values P get h ins n st vc = Returns (r, st', vc') \<Longrightarrow> cache_good look ready good vc \<Longrightarrow>
   view_kept (cache_good look ready good) (cache_look look) vc vc'"
proof (induction ins arbitrary: n vc)
  case (Cons i ins)
  obtain r1 vc1 where a: "AccessCoins get (op_hash (prevout i)) vc = (r1, vc1)" by (meson surj_pair)
  note k = access_kept [OF a Cons.prems(2)]
  show ?case
  proof (cases "vc' = vc1")
    case False
    then obtain n' where "input_values P get h ins n' st vc1 = Returns (r, st', vc')"
      using Cons.prems(1) a by (auto simp: Let_def split: option.splits if_splits)
    from Cons.IH [OF this] k show ?thesis by (auto simp: view_kept_def)
  qed (use k in simp)
qed (simp add: view_kept_def)

lemma check_scripts_kept:
  "check_scripts E get tx flags d i ins pv st vc = Returns (ok, pv', st', vc') \<Longrightarrow> cache_good look ready good vc \<Longrightarrow>
   view_kept (cache_good look ready good) (cache_look look) vc vc'"
proof (induction ins arbitrary: i pv st vc)
  case (Cons txin ins)
  obtain r1 vc1 where a: "AccessCoins get (op_hash (prevout txin)) vc = (r1, vc1)" by (meson surj_pair)
  note k = access_kept [OF a Cons.prems(2)]
  show ?case
  proof (cases "vc' = vc1")
    case False
    then obtain i' pv1 st1 where "check_scripts E get tx flags d i' ins pv1 st1 vc1 = Returns (ok, pv', st', vc')"
      using Cons.prems(1) a by (auto simp: Let_def obind_Returns split: option.splits if_splits sum.splits)
        (metis obj_sumE old.unit.exhaust)+
    from Cons.IH [OF this] k show ?thesis by (auto simp: view_kept_def)
  qed (use k in simp)
qed (simp add: view_kept_def)

lemma check_inputs_kept:
  assumes "CheckInputs E get best heights tx st fs flags d vc = Returns (ok, pv, st', vc')" "cache_good look ready good vc"
  shows "view_kept (cache_good look ready good) (cache_look look) vc vc'"
proof -
  obtain b vc1 where h: "HaveInputs get tx vc = (b, vc1)" by (meson surj_pair)
  obtain hash vc2 where bb: "cache_GetBestBlock best vc1 = (hash, vc2)" by (meson surj_pair)
  note k1 = have_inputs_kept [OF h assms(2)]
  have g1: "cache_good look ready good vc1" using k1 by (simp add: view_kept_def)
  note k2 = view_kept_trans [OF k1 GetBestBlock_kept [OF bb g1]]
  have g2: "cache_good look ready good vc2" using k2 by (simp add: view_kept_def)
  consider "vc' = vc" | "vc' = vc1" | (rest) ph r st1 vc3 where "input_values (ne_params E) get (ph + 1) (vin tx) 0 st vc2 = Returns (r, st1, vc3)"
      "vc' = vc3 \<or> (\<exists>st2. check_scripts E get tx flags d 0 (vin tx) [] st2 vc3 = Returns (ok, pv, st', vc'))"
    using assms(1) h bb by (auto simp: CheckInputs_def obind_Returns split: if_splits bool.splits option.splits) blast+
  then show ?thesis
  proof cases
    case rest
    note k3 = view_kept_trans [OF k2 input_values_kept [OF rest(1) g2]]
    then have g3: "cache_good look ready good vc3" by (simp add: view_kept_def)
    from rest(2) show ?thesis using k3 check_scripts_kept [OF _ g3] view_kept_trans [OF k3] by blast
  qed (use k1 assms(2) in \<open>auto simp: view_kept_def\<close>)
qed

lemma bip30_kept:
  "bip30_loop E get txs vc = (ok, vc') \<Longrightarrow> cache_good look ready good vc \<Longrightarrow>
   view_kept (cache_good look ready good) (cache_look look) vc vc' \<and> (ok \<longrightarrow> (\<forall>tx\<in>set txs. cache_look look vc (ne_tx_hash E tx) = None))"
proof (induction txs arbitrary: vc)
  case (Cons tx txs)
  obtain r1 vc1 where a: "AccessCoins get (ne_tx_hash E tx) vc = (r1, vc1)" by (meson surj_pair)
  note k = access_kept [OF a Cons.prems(2)]
  show ?case
  proof (cases "live r1")
    case None
    then have "bip30_loop E get txs vc1 = (ok, vc')" using Cons.prems(1) a by (auto simp: live_def split: option.splits if_splits)
    from Cons.IH [OF this] k None show ?thesis by (auto simp: view_kept_def)
  next
    case (Some c)
    then have "ok = False" "vc' = vc1" using Cons.prems(1) a by (auto simp: live_def split: option.splits if_splits)
    then show ?thesis using k by simp
  qed
qed (simp add: view_kept_def)

end


section \<open>Restoring undoes spending\<close>

text \<open>Coins as they stand in the map: something is left at the end, spent outputs are null, the height is positive, and the
  number of outputs fits the 32 bits of an index.\<close>

definition coin_ok :: "CCoins \<Rightarrow> bool" where
  "coin_ok c \<longleftrightarrow> co_vout c \<noteq> [] \<and> \<not> txout_IsNull (last (co_vout c)) \<and>
     (\<forall>out\<in>set (co_vout c). txout_IsNull out \<longrightarrow> out = txout_SetNull) \<and> 0 < co_nHeight c \<and> co_nHeight c < 2 ^ 31 \<and>
     length (co_vout c) < 2 ^ 32"

definition map_ok :: "(base_uint \<Rightarrow> CCoins option) \<Rightarrow> bool" where
  "map_ok m \<longleftrightarrow> (\<forall>k c. m k = Some c \<longrightarrow> coin_ok c)"

lemma map_ok_None: "map_ok m \<Longrightarrow> map_ok (m(k := None))"
  by (auto simp: map_ok_def)

definition trim :: "CTxOut list \<Rightarrow> CTxOut list" where
  "trim xs = rev (pop_null (rev xs))"

lemma coins_Cleanup_trim: "coins_Cleanup c = c\<lparr>co_vout := trim (co_vout c)\<rparr>"
  by (simp add: coins_Cleanup_def trim_def)

lemma pop_null_spec:
  "pop_null xs = [] \<or> \<not> txout_IsNull (hd (pop_null xs))"
  "\<exists>ns. xs = ns @ pop_null xs \<and> list_all txout_IsNull ns"
  by (induction xs) (auto intro: exI [of _ "_ # _"])

lemma trim_spec: "\<exists>ns. xs = trim xs @ ns \<and> list_all txout_IsNull ns \<and> (trim xs = [] \<or> \<not> txout_IsNull (last (trim xs)))"
proof -
  obtain ns where "rev xs = ns @ pop_null (rev xs)" "list_all txout_IsNull ns" using pop_null_spec(2) by blast
  then have "xs = trim xs @ rev ns" "list_all txout_IsNull (rev ns)" unfolding trim_def
    by (metis rev_append rev_rev_ident, simp)
  moreover have "trim xs = [] \<or> \<not> txout_IsNull (last (trim xs))"
    using pop_null_spec(1) [of "rev xs"] by (auto simp: trim_def last_rev)
  ultimately show ?thesis by blast
qed

lemma trim_id: "xs = [] \<or> \<not> txout_IsNull (last xs) \<Longrightarrow> trim xs = xs"
  by (cases xs rule: rev_cases) (auto simp: trim_def)

lemma trim_Nil [simp]: "trim [] = []"
  by (simp add: trim_def)

lemma trim_trim [simp]: "trim (trim xs) = trim xs"
  using trim_spec [of xs] by (auto intro: trim_id)

lemma trim_Nil_iff: "trim xs = [] \<longleftrightarrow> list_all txout_IsNull xs"
proof -
  obtain ns where "xs = trim xs @ ns" "list_all txout_IsNull ns" "trim xs = [] \<or> \<not> txout_IsNull (last (trim xs))"
    using trim_spec [of xs] by blast
  then show ?thesis by (metis append_Nil last_in_set list_all_append list_all_iff)
qed

lemma pruned_iff_trim: "coins_IsPruned c \<longleftrightarrow> trim (co_vout c) = []"
  by (simp add: coins_IsPruned_def trim_Nil_iff)

lemma null_SetNull [simp]: "txout_IsNull txout_SetNull"
  by (simp add: txout_IsNull_def txout_SetNull_def)

text \<open>Resizing the trimmed outputs gives the outputs with the spent one null.\<close>

lemma resize_trim:
  assumes "xs \<noteq> []" "\<not> txout_IsNull (last xs)" "\<forall>out\<in>set xs. txout_IsNull out \<longrightarrow> out = txout_SetNull" "n < length xs"
  shows "coins_resize (n + 1) (trim (xs[n := txout_SetNull])) = xs[n := txout_SetNull]"
proof -
  let ?ys = "xs[n := txout_SetNull]"
  obtain ns where ns: "?ys = trim ?ys @ ns" "list_all txout_IsNull ns" using trim_spec [of ?ys] by blast
  show ?thesis
  proof (cases "n = length xs - 1")
    case False
    then have "last ?ys = last xs" using assms(1,4) by (simp add: last_conv_nth)
    then have "trim ?ys = ?ys" using assms(2) by (intro trim_id) simp
    then show ?thesis using assms(4) by (simp add: coins_resize_def)
  next
    case True
    then have n1: "n + 1 = length ?ys" using assms(1) by simp
    have "set ?ys \<subseteq> insert txout_SetNull (set xs)" by (rule set_update_subset_insert)
    moreover have "set ns \<subseteq> set ?ys" using ns(1) by (metis Un_upper2 set_append)
    ultimately have "\<forall>out\<in>set ns. out = txout_SetNull" using assms(3) ns(2) by (auto simp: list_all_iff)
    then have "ns = replicate (length ns) txout_SetNull" by (simp add: replicate_length_same)
    moreover have "length ns = n + 1 - length (trim ?ys)" using ns(1) n1 by (metis add_diff_cancel_left' length_append)
    ultimately have "?ys = trim ?ys @ replicate (n + 1 - length (trim ?ys)) txout_SetNull" using ns(1) by metis
    then show ?thesis unfolding coins_resize_def by (cases "length (trim ?ys) < n + 1") auto
  qed
qed

lemma coins_Spend_SomeD:
  assumes "coins_Spend out c = Some (c', u)"
  defines "n \<equiv> unat (op_n out)"
  shows "n < length (co_vout c) \<and> \<not> txout_IsNull (co_vout c ! n) \<and>
    c' = c\<lparr>co_vout := trim ((co_vout c)[n := txout_SetNull])\<rparr> \<and> un_txout u = co_vout c ! n \<and>
    (if co_vout c' = [] then un_nHeight u = of_int (co_nHeight c) \<and> un_fCoinBase u = fCoinBase c \<and>
       un_fCoinStake u = fCoinStake c \<and> un_nVersion u = co_nVersion c else un_nHeight u = 0 \<and> \<not> un_fCoinStake u)"
  using assms by (auto simp: coins_Spend_def Let_def coins_Cleanup_trim new_CTxInUndo_def split: if_splits)

lemma sint_of_height: "0 < h \<Longrightarrow> h < 2 ^ 31 \<Longrightarrow> sint (of_int h :: u32) = h \<and> (of_int h :: u32) \<noteq> 0"
proof -
  assume h: "0 < h" "h < 2 ^ 31"
  have "sint (of_int h :: u32) = h" using h by (simp add: signed_of_int signed_take_bit_int_eq_self)
  then show ?thesis using h by (metis sint_0 less_irrefl)
qed

lemma unat_add_one_bound: "unat (x :: u32) < n \<Longrightarrow> n < 2 ^ 32 \<Longrightarrow> unat (x + 1) = unat x + 1"
  by (simp add: unat_word_ariths)

lemma trim_length: "length (trim xs) \<le> length xs"
  using trim_spec [of xs] by (metis le_add1 length_append)

lemma spent_coin_ok:
  assumes "coin_ok c" "coins_Spend out c = Some (c', u)" "live (Some (coins_Cleanup c')) = Some d"
  shows "d = c' \<and> coin_ok d"
proof -
  note s = coins_Spend_SomeD [OF assms(2)]
  let ?ys = "(co_vout c)[unat (op_n out) := txout_SetNull]"
  have d: "d = c'" "trim ?ys \<noteq> []" using s assms(3) by (auto simp: coins_Cleanup_trim pruned_iff_trim split: if_splits)
  obtain ns where ns: "?ys = trim ?ys @ ns" "\<not> txout_IsNull (last (trim ?ys))" using trim_spec [of ?ys] d by blast
  have "set (trim ?ys) \<subseteq> insert txout_SetNull (set (co_vout c))"
    using ns(1) set_update_subset_insert [of "co_vout c"] by (metis Un_upper1 order_trans set_append)
  moreover have "length (trim ?ys) \<le> length (co_vout c)" using trim_length [of ?ys] by simp
  ultimately show ?thesis using assms(1) s d ns(2) by (auto simp: coin_ok_def)
qed

lemma restore_spent_flags:
  assumes "coin_ok c" "coins_Spend out c = Some (c', u)" "live (Some c0) = live (Some (coins_Cleanup c'))"
  shows "fst (restore_output out u c0) \<and>
    coins_Cleanup (snd (restore_output out u c0)) = (if coins_IsPruned c' then c\<lparr>fCoinStake := False\<rparr> else c)"
proof -
  note s = coins_Spend_SomeD [OF assms(2)] and ok = assms(1) [unfolded coin_ok_def]
  let ?n = "unat (op_n out)" let ?xs = "co_vout c" let ?ys = "?xs[?n := txout_SetNull]"
  have n: "?n < length ?xs" using s by blast
  have "unat (op_n out + 1) = ?n + 1" using n ok by (intro unat_add_one_bound) auto
  then have resize: "coins_resize (unat (op_n out + 1)) (trim ?ys) = ?ys" using resize_trim [of ?xs ?n] ok n by auto
  have c': "c' = c\<lparr>co_vout := trim ?ys\<rparr>" "un_txout u = ?xs ! ?n" using s by simp_all
  have whole: "?ys[?n := un_txout u] = ?xs" using c' by simp
  have final: "coins_Cleanup (c\<lparr>co_vout := ?xs\<rparr>) = c" using trim_id [of ?xs] ok by (simp add: coins_Cleanup_trim)
  show ?thesis
  proof (cases "trim ?ys = []")
    case True
    then have u: "un_nHeight u = of_int (co_nHeight c)" "un_fCoinBase u = fCoinBase c" "un_fCoinStake u = fCoinStake c"
      "un_nVersion u = co_nVersion c" using s by auto
    have nh: "un_nHeight u \<noteq> 0" "sint (un_nHeight u) = co_nHeight c" using sint_of_height [of "co_nHeight c"] ok u(1) by auto
    have "coins_IsPruned c0" using assms(3) True c' by (auto simp: coins_Cleanup_trim pruned_iff_trim split: if_splits)
    moreover have "coins_Cleanup \<lparr>fCoinBase = fCoinBase c, fCoinStake = False, co_vout = ?xs, co_nHeight = co_nHeight c,
        co_nVersion = co_nVersion c\<rparr> = c\<lparr>fCoinStake := False\<rparr>" using trim_id [of ?xs] ok by (cases c) (simp add: coins_Cleanup_trim)
    moreover have "coins_IsPruned c'" using True c' by (simp add: pruned_iff_trim)
    ultimately show ?thesis using nh u resize whole True
      by (simp add: restore_output_def Let_def coins_Clear_def coins_IsAvailable_def)
  next
    case False
    then have u: "un_nHeight u = 0" using s by auto
    have "\<not> coins_IsPruned (coins_Cleanup c')" using False c' by (simp add: coins_Cleanup_trim pruned_iff_trim)
    then have c0: "c0 = c\<lparr>co_vout := trim ?ys\<rparr>" using assms(3) c' by (auto simp: coins_Cleanup_trim split: if_splits)
    then have "\<not> coins_IsPruned c0" using False by (simp add: pruned_iff_trim)
    moreover have "\<not> coins_IsPruned c'" using False c' by (simp add: pruned_iff_trim)
    moreover have "\<not> coins_IsAvailable c0 ?n"
    proof -
      obtain ns where "?ys = trim ?ys @ ns" using trim_spec [of ?ys] by blast
      then have "trim ?ys ! ?n = txout_SetNull" if "?n < length (trim ?ys)"
        using that n by (metis nth_append nth_list_update_eq)
      then show ?thesis by (auto simp: coins_IsAvailable_def c0)
    qed
    ultimately show ?thesis using u resize whole final c0 by (simp add: restore_output_def Let_def)
  qed
qed

lemma restore_spent:
  assumes "coin_ok c" "coins_Spend out c = Some (c', u)" "\<not> un_fCoinStake u" "live (Some c0) = live (Some (coins_Cleanup c'))"
  shows "fst (restore_output out u c0) \<and> coins_Cleanup (snd (restore_output out u c0)) = c"
proof -
  have "c\<lparr>fCoinStake := False\<rparr> = c" if "coins_IsPruned c'"
    using that coins_Spend_SomeD [OF assms(2)] assms(3) by (cases c) (auto simp: pruned_iff_trim)
  then show ?thesis using restore_spent_flags [OF assms(1,2,4)] by simp
qed

section \<open>A block on the map\<close>

fun spend_map :: "CTxIn list \<Rightarrow> (base_uint \<Rightarrow> CCoins option) \<Rightarrow> (CTxInUndo list \<times> (base_uint \<Rightarrow> CCoins option)) option" where
  "spend_map [] m = Some ([], m)"
| "spend_map (i # ins) m =
     (case m (op_hash (prevout i)) of None \<Rightarrow> None
      | Some c \<Rightarrow>
     (case coins_Spend (prevout i) c of None \<Rightarrow> None
      | Some (c', u) \<Rightarrow>
     (case spend_map ins (m(op_hash (prevout i) := live (Some (coins_Cleanup c')))) of None \<Rightarrow> None
      | Some (us, m') \<Rightarrow> Some (u # us, m'))))"

definition no_inputs :: "CTransaction \<Rightarrow> bool" where
  "no_inputs tx \<longleftrightarrow> IsCoinBase tx \<or> IsV5CoinStake tx"

definition update_map ::
  "node_env \<Rightarrow> int \<Rightarrow> CTransaction \<Rightarrow> (base_uint \<Rightarrow> CCoins option) \<Rightarrow> (CTxUndo \<times> (base_uint \<Rightarrow> CCoins option)) option" where
  "update_map E height tx m =
     (case (if no_inputs tx then Some ([], m) else spend_map (vin tx) m) of None \<Rightarrow> None
      | Some (us, m) \<Rightarrow> Some (\<lparr>vprevout = us\<rparr>, m(ne_tx_hash E tx := live (Some (coins_FromTx tx height)))))"

lemma live_Some_not_pruned: "\<not> coins_IsPruned c \<Longrightarrow> live (Some c) = Some c"
  by simp

lemma live_coin_ok: "coin_ok c \<Longrightarrow> live (Some c) = Some c"
  using trim_id [of "co_vout c"] by (auto simp: coin_ok_def pruned_iff_trim)

lemma map_ok_spend:
  assumes "map_ok m" "m k = Some c" "coins_Spend out c = Some (c', u)"
  shows "map_ok (m(k := live (Some (coins_Cleanup c'))))"
  using assms spent_coin_ok [OF _ assms(3)] unfolding map_ok_def by (auto simp del: live_simps)

lemma spend_map_ok: "spend_map ins m = Some (us, m') \<Longrightarrow> map_ok m \<Longrightarrow> map_ok m' \<and> length us = length ins"
proof (induction ins m arbitrary: us rule: spend_map.induct)
  case (2 i ins m)
  then obtain c c' u us' where s: "m (op_hash (prevout i)) = Some c" "coins_Spend (prevout i) c = Some (c', u)"
      "spend_map ins (m(op_hash (prevout i) := live (Some (coins_Cleanup c')))) = Some (us', m')" "us = u # us'"
    by (auto split: option.splits simp del: live_simps)
  from "2.IH" [OF s(1,2) refl s(3) map_ok_spend [OF "2.prems"(2) s(1,2)]] s(4) show ?case by simp
qed simp

lemma spend_map_None: "spend_map ins m = Some (us, m') \<Longrightarrow> m k = None \<Longrightarrow> m' k = None"
proof (induction ins m arbitrary: us rule: spend_map.induct)
  case (2 i ins m)
  then obtain c c' u us' where s: "m (op_hash (prevout i)) = Some c" "coins_Spend (prevout i) c = Some (c', u)"
      "spend_map ins (m(op_hash (prevout i) := live (Some (coins_Cleanup c')))) = Some (us', m')"
    by (auto split: option.splits simp del: live_simps)
  have "k \<noteq> op_hash (prevout i)" using s(1) "2.prems"(2) by auto
  then show ?case using "2.IH" [OF s(1,2) refl s(3)] "2.prems"(2) by (simp del: live_simps)
qed simp

context coins_view begin

lemma spend_inputs_map:
  "cache_good look ready good vc \<Longrightarrow> spend_inputs get ins acc vc = Returns (ok, us, vc') \<Longrightarrow>
   cache_good look ready good vc' \<and> (ok \<longrightarrow> (\<exists>us'. us = acc @ us' \<and> spend_map ins (cache_look look vc) = Some (us', cache_look look vc')))"
proof (induction ins arbitrary: acc vc)
  case (Cons i ins)
  let ?k = "op_hash (prevout i)"
  obtain c0 vc1 where w: "with_modifier get ?k (spend_body (prevout i)) vc = Some (fst (spend_body (prevout i) c0), vc1)"
      "live (Some c0) = cache_look look vc ?k" "cache_good look ready good vc1"
      "cache_look look vc1 = (cache_look look vc)(?k := live (Some (coins_Cleanup (snd (spend_body (prevout i) c0)))))"
    using modifier_spec [OF Cons.prems(1)] by blast
  show ?case
  proof (cases "coins_Spend (prevout i) c0")
    case None
    then show ?thesis using Cons.prems(2) w by (simp add: spend_body_def)
  next
    case (Some cu)
    then obtain c' u where cu: "coins_Spend (prevout i) c0 = Some (c', u)" by (cases cu) auto
    then have "\<not> coins_IsPruned c0" using pruned_unavailable [of c0] coins_Spend_SomeD [OF cu] by (auto simp: coins_IsAvailable_def)
    then have m: "cache_look look vc ?k = Some c0" using w(2) by simp
    have "spend_inputs get ins (acc @ [u]) vc1 = Returns (ok, us, vc')" using Cons.prems(2) w(1) cu by (simp add: spend_body_def)
    from Cons.IH [OF w(3) this] show ?thesis using m cu w(4)
      by (auto simp: spend_body_def simp del: live_simps fun_upd_apply)
  qed
qed simp

lemma UpdateCoins_map:
  assumes "cache_good look ready good vc" "UpdateCoins E get tx st height vc = Returns (ok, st', u, vc')"
  shows "cache_good look ready good vc' \<and>
    (ok \<longrightarrow> update_map E height tx (cache_look look vc) =
      Some (u, (cache_look look vc')) \<and> st' = st)"
proof -
  obtain ok1 us vc1 where s: "(if no_inputs tx then Returns (True, [], vc) else spend_inputs get (vin tx) [] vc) = Returns (ok1, us, vc1)"
    using assms(2) by (auto simp: UpdateCoins_def obind_Returns no_inputs_def split: if_splits)
  have g: "cache_good look ready good vc1" and
    m: "ok1 \<longrightarrow> (if no_inputs tx then Some ([], cache_look look vc) else spend_map (vin tx) (cache_look look vc)) = Some (us, cache_look look vc1)"
    using s assms(1) spend_inputs_map [OF assms(1), of "vin tx" "[]" ok1 us vc1] by (auto split: if_splits)
  have upd: "UpdateCoins E get tx st height vc = (if \<not> ok1 then Returns (False, state_Invalid 0 [] st, \<lparr>vprevout = us\<rparr>, vc1)
      else obind (assertion (with_modifier get (ne_tx_hash E tx) (\<lambda>c. ((), coins_FromTx tx height)) vc1)) (\<lambda>(x, vc).
            Returns (True, st, \<lparr>vprevout = us\<rparr>, vc)))"
    using s by (auto simp: UpdateCoins_def no_inputs_def split: if_splits)
  show ?thesis
  proof (cases ok1)
    case True
    obtain c0 vc2 where w: "with_modifier get (ne_tx_hash E tx) (\<lambda>c. ((), coins_FromTx tx height)) vc1 = Some ((), vc2)"
        "cache_good look ready good vc2"
        "cache_look look vc2 = (cache_look look vc1)(ne_tx_hash E tx := live (Some (coins_Cleanup (coins_FromTx tx height))))"
      using modifier_spec [OF g, of "ne_tx_hash E tx" "\<lambda>c. ((), coins_FromTx tx height)"] by auto
    have "coins_Cleanup (coins_FromTx tx height) = coins_FromTx tx height"
      by (simp add: coins_FromTx_def coins_ClearUnspendable_def coins_Cleanup_trim)
    then show ?thesis using w m True upd assms(2) by (auto simp: update_map_def simp del: live_simps)
  next
    case False
    then show ?thesis using upd assms(2) g by auto
  qed
qed

lemma restore_inputs_append:
  "restore_inputs get (xs @ ys) b vc = obind (restore_inputs get xs b vc) (\<lambda>(b, vc). restore_inputs get ys b vc)"
proof (induction get xs b vc rule: restore_inputs.induct)
  case (2 get txin undo rest fClean vc)
  then show ?case by (cases "with_modifier get (op_hash (prevout txin)) (restore_output (prevout txin) undo) vc")
      (auto simp: assertion_def)
qed simp

lemma restore_spent_inputs:
  assumes "spend_map ins m = Some (us, cache_look look vc)" "cache_good look ready good vc" "map_ok m" "\<forall>u\<in>set us. \<not> un_fCoinStake u"
  shows "\<exists>vc'. restore_inputs get (rev (zip ins us)) True vc = Returns (True, vc') \<and> cache_good look ready good vc' \<and> cache_look look vc' = m"
  using assms(1,3,4)
proof (induction ins m arbitrary: us rule: spend_map.induct)
  case (2 i ins m)
  let ?k = "op_hash (prevout i)"
  obtain c c' u us' where s: "m ?k = Some c" "coins_Spend (prevout i) c = Some (c', u)"
      "spend_map ins (m(?k := live (Some (coins_Cleanup c')))) = Some (us', cache_look look vc)" "us = u # us'"
    using "2.prems"(1) by (auto split: option.splits simp del: live_simps)
  have c: "coin_ok c" using "2.prems"(2) s(1) by (auto simp: map_ok_def)
  obtain vc1 where r: "restore_inputs get (rev (zip ins us')) True vc = Returns (True, vc1)" "cache_good look ready good vc1"
      "cache_look look vc1 = m(?k := live (Some (coins_Cleanup c')))"
    using "2.IH" [OF s(1,2) refl s(3) map_ok_spend [OF "2.prems"(2) s(1,2)]] "2.prems"(3) s(4) by (auto simp del: live_simps fun_upd_apply)
  obtain c0 vc2 where w: "with_modifier get ?k (restore_output (prevout i) u) vc1 = Some (fst (restore_output (prevout i) u c0), vc2)"
      "live (Some c0) = cache_look look vc1 ?k" "cache_good look ready good vc2"
      "cache_look look vc2 = (cache_look look vc1)(?k := live (Some (coins_Cleanup (snd (restore_output (prevout i) u c0)))))"
    using modifier_spec [OF r(2)] by blast
  have "fst (restore_output (prevout i) u c0) \<and> coins_Cleanup (snd (restore_output (prevout i) u c0)) = c"
    using w(2) r(3) "2.prems"(3) s(4) by (intro restore_spent [OF c s(2)]) (simp_all del: live_simps)
  then have "fst (restore_output (prevout i) u c0)" "cache_look look vc2 = m"
    using w(4) r(3) live_coin_ok [OF c] s(1) by (auto simp del: live_simps)
  then show ?case using w(1,3) r(1) s(4) by (simp add: restore_inputs_append)
qed (use assms(2) in auto)

end


section \<open>Disconnecting undoes connecting\<close>

fun update_maps ::
  "node_env \<Rightarrow> int \<Rightarrow> CTransaction list \<Rightarrow> (base_uint \<Rightarrow> CCoins option) \<Rightarrow> (CTxUndo list \<times> (base_uint \<Rightarrow> CCoins option)) option" where
  "update_maps E height [] m = Some ([], m)"
| "update_maps E height (tx # txs) m =
     (case update_map E height tx m of None \<Rightarrow> None
      | Some (u, m) \<Rightarrow> (case update_maps E height txs m of None \<Rightarrow> None | Some (us, m) \<Rightarrow> Some (u # us, m)))"

lemma FromTx_fields:
  "coins_FromTx tx height = \<lparr>fCoinBase = IsCoinBase tx, fCoinStake = IsCoinStake tx,
     co_vout = trim (map (\<lambda>txout. if IsUnspendable (scriptPubKey txout) then txout_SetNull else txout) (vout tx)),
     co_nHeight = height, co_nVersion = tx_nVersion tx\<rparr>"
  by (simp add: coins_FromTx_def coins_ClearUnspendable_def coins_Cleanup_trim)

lemma trim_subset: "set (trim xs) \<subseteq> set xs"
  using trim_spec [of xs] by (metis Un_upper1 set_append)

lemma not_Unspendable_Nil [simp]: "\<not> IsUnspendable (scriptPubKey txout_SetNull)"
  by (simp add: IsUnspendable_def txout_SetNull_def)

definition whole_outputs :: "CTransaction \<Rightarrow> bool" where
  "whole_outputs tx \<longleftrightarrow> length (vout tx) < 2 ^ 32 \<and> (\<forall>out\<in>set (vout tx). \<not> txout_IsNull out)"

lemma FromTx_coin_ok:
  assumes "whole_outputs tx" "0 < height" "height < 2 ^ 31" "live (Some (coins_FromTx tx height)) = Some c"
  shows "coin_ok c"
proof -
  let ?ys = "map (\<lambda>txout. if IsUnspendable (scriptPubKey txout) then txout_SetNull else txout) (vout tx)"
  have c: "c = coins_FromTx tx height" "trim ?ys \<noteq> []"
    using assms(4) by (auto simp: pruned_iff_trim FromTx_fields split: if_splits)
  moreover have "\<not> txout_IsNull (last (trim ?ys))" using trim_spec [of ?ys] c(2) by auto
  moreover have "\<forall>out\<in>set (trim ?ys). txout_IsNull out \<longrightarrow> out = txout_SetNull"
    using trim_subset [of ?ys] assms(1) by (fastforce simp: whole_outputs_def)
  moreover have "length (trim ?ys) < 2 ^ 32" using trim_length [of ?ys] assms(1) by (simp add: whole_outputs_def)
  ultimately show ?thesis using assms(2,3) by (simp add: coin_ok_def FromTx_fields)
qed

lemma remove_outputs_FromTx:
  assumes "live (Some c0) = live (Some (coins_FromTx tx height))"
  shows "remove_outputs tx height c0 = (True, coins_Clear)"
proof (cases "coins_IsPruned (coins_FromTx tx height)")
  case True
  then have "coins_IsPruned c0" using assms by (simp split: if_splits)
  then have "coins_IsPruned (coins_ClearUnspendable c0)"
    by (auto simp: pruned_iff_trim coins_ClearUnspendable_def coins_Cleanup_trim trim_Nil_iff list_all_iff)
  then have "coins_IsPruned (coins_ClearUnspendable c0\<lparr>co_nVersion := v\<rparr>)" for v by (simp add: coins_IsPruned_def)
  then show ?thesis using True \<open>coins_IsPruned (coins_ClearUnspendable c0)\<close> by (simp add: remove_outputs_def Let_def coins_eq_def)
next
  case False
  then have c0: "c0 = coins_FromTx tx height" using assms by (simp split: if_splits)
  let ?ys = "map (\<lambda>txout. if IsUnspendable (scriptPubKey txout) then txout_SetNull else txout) (vout tx)"
  have "map (\<lambda>txout. if IsUnspendable (scriptPubKey txout) then txout_SetNull else txout) (trim ?ys) = trim ?ys"
    by (intro map_idI) (use trim_subset [of ?ys] in fastforce)
  then have "coins_ClearUnspendable c0 = coins_FromTx tx height"
    by (simp add: c0 coins_ClearUnspendable_def coins_Cleanup_trim FromTx_fields)
  then show ?thesis by (simp add: remove_outputs_def Let_def coins_eq_def)
qed

lemma update_map_ok:
  assumes "update_map E height tx m = Some (u, m1)" "map_ok m" "whole_outputs tx" "0 < height" "height < 2 ^ 31"
  shows "map_ok m1"
proof -
  obtain us mS where s: "(if no_inputs tx then Some ([], m) else spend_map (vin tx) m) = Some (us, mS)"
      "m1 = mS(ne_tx_hash E tx := live (Some (coins_FromTx tx height)))"
    using assms(1) by (auto simp: update_map_def split: option.splits)
  have "map_ok mS" using s(1) assms(2) spend_map_ok [of "vin tx" m us mS] by (auto split: if_splits)
  then show ?thesis using FromTx_coin_ok [OF assms(3-5)] unfolding s(2) map_ok_def by (auto simp del: live_simps)
qed

lemma update_map_other: "update_map E height tx m = Some (u, m1) \<Longrightarrow> m k = None \<Longrightarrow> k \<noteq> ne_tx_hash E tx \<Longrightarrow> m1 k = None"
  using spend_map_None [of "vin tx" m] by (auto simp: update_map_def split: option.splits if_splits simp del: live_simps)

lemma update_maps_length: "update_maps E height txs m = Some (us, m') \<Longrightarrow> length us = length txs"
  by (induction txs arbitrary: m us) (auto split: option.splits)

lemma RaiseValidity_fields:
  "RaiseValidity v bi = Some (b, bi') \<Longrightarrow> phashBlock bi' = phashBlock bi \<and> nHeight bi' = nHeight bi \<and> pprev bi' = pprev bi"
  by (auto simp: RaiseValidity_def split: if_splits)

lemma connect_finish_result:
  assumes "connect_finish E IO block pindex undo used st vc = Returns (True, st', pindex', undo', used', vc')"
  shows "undo' = undo \<and> vc' = SetBestBlock (phashBlock pindex) vc \<and>
    phashBlock pindex' = phashBlock pindex \<and> nHeight pindex' = nHeight pindex \<and> pprev pindex' = pprev pindex \<and>
    (if is_v5_stake (ne_params E) block (nHeight pindex)
     then used (pointer_hash E block) = None \<and> used' = used(pointer_hash E block \<mapsto> ne_block_hash E block) else used' = used)"
proof -
  obtain q where p: "phashBlock q = phashBlock pindex" "nHeight q = nHeight pindex" "pprev q = pprev pindex"
    and r: "(if is_v5_stake (ne_params E) block (nHeight q) \<and> used (pointer_hash E block) \<noteq> None
            then connect_result q undo used vc False (state_DoS 100 REJECT_INVALID ''stake-pointer-reuse'' False st)
            else connect_result q undo
                   (if is_v5_stake (ne_params E) block (nHeight q)
                    then used(pointer_hash E block \<mapsto> ne_block_hash E block) else used)
                   (SetBestBlock (phashBlock q) vc) True st) = Returns (True, st', pindex', undo', used', vc')"
    using assms by (auto simp: connect_finish_def connect_result_def obind_Returns Let_def dest: RaiseValidity_fields split: if_splits)
  then show ?thesis by (auto simp: connect_result_def split: if_splits)
qed

lemma connect_amounts_result:
  assumes "connect_amounts E IO block pindex False used st s vc = Returns (True, st', pindex', undo', used', vc')"
  shows "undo' = \<lparr>vtxundo = blockundo s\<rparr> \<and> vc' = SetBestBlock (phashBlock pindex) vc \<and>
    phashBlock pindex' = phashBlock pindex \<and> nHeight pindex' = nHeight pindex \<and> pprev pindex' = pprev pindex \<and>
    (if is_v5_stake (ne_params E) block (nHeight pindex)
     then used (pointer_hash E block) = None \<and> used' = used(pointer_hash E block \<mapsto> ne_block_hash E block) else used' = used)"
proof -
  obtain total mint st1 where "connect_finish E IO block (pindex\<lparr>nMoneySupply := total, nMint := mint\<rparr>) \<lparr>vtxundo = blockundo s\<rparr> used st1 vc =
      Returns (True, st', pindex', undo', used', vc')"
    using assms by (auto simp: connect_amounts_def connect_result_def obind_Returns Let_def split: if_splits)
  from connect_finish_result [OF this] show ?thesis by simp
qed

context coins_view begin

lemma disconnect_txs_append:
  "disconnect_txs E get h (xs @ ys) b vc =
     obind (disconnect_txs E get h xs b vc) (\<lambda>(r, vc). case r of None \<Rightarrow> Returns (None, vc) | Some b \<Rightarrow> disconnect_txs E get h ys b vc)"
proof (induction xs arbitrary: b vc)
  case (Cons p xs)
  obtain tx uo where p: "p = (tx, uo)" by (cases p)
  show ?case
  proof (cases "with_modifier get (ne_tx_hash E tx) (remove_outputs tx h) vc")
    case (Some r)
    obtain ok vc1 where r: "r = (ok, vc1)" by (cases r)
    show ?thesis
    proof (cases uo)
      case (Some u)
      then show ?thesis using \<open>_ = Some r\<close> Cons.IH r p
        by (cases "restore_inputs get (rev (zip (vin tx) (vprevout u))) (b \<and> ok) vc1") (auto simp: Let_def)
    qed (use Some Cons.IH r p in \<open>simp add: Let_def\<close>)
  qed (simp add: p assertion_def)
qed simp

lemma disconnect_tx:
  assumes "update_map E height tx m = Some (u, cache_look look vc)" "cache_good look ready good vc" "map_ok m"
    "m (ne_tx_hash E tx) = None" "no_inputs tx \<or> uo = Some u" "\<forall>x\<in>set (vprevout u). \<not> un_fCoinStake x"
  shows "\<exists>vc'. disconnect_txs E get height [(tx, uo)] True vc = Returns (Some True, vc') \<and> cache_good look ready good vc' \<and> cache_look look vc' = m"
proof -
  let ?h = "ne_tx_hash E tx"
  obtain us mS where s: "(if no_inputs tx then Some ([], m) else spend_map (vin tx) m) = Some (us, mS)" "u = \<lparr>vprevout = us\<rparr>"
      "cache_look look vc = mS(?h := live (Some (coins_FromTx tx height)))"
    using assms(1) by (auto simp: update_map_def split: option.splits)
  have mS: "mS ?h = None" using s(1) assms(4) spend_map_None [of "vin tx" m us mS ?h] by (auto split: if_splits)
  obtain c0 vc1 where w: "with_modifier get ?h (remove_outputs tx height) vc = Some (fst (remove_outputs tx height c0), vc1)"
      "live (Some c0) = cache_look look vc ?h" "cache_good look ready good vc1"
      "cache_look look vc1 = (cache_look look vc)(?h := live (Some (coins_Cleanup (snd (remove_outputs tx height c0)))))"
    using modifier_spec [OF assms(2)] by blast
  have rem: "remove_outputs tx height c0 = (True, coins_Clear)" using w(2) s(3) by (intro remove_outputs_FromTx) simp
  have "live (Some (coins_Cleanup coins_Clear)) = None" by (simp add: coins_Cleanup_trim pruned_iff_trim coins_Clear_def)
  then have "cache_look look vc1 = (mS(?h := live (Some (coins_FromTx tx height))))(?h := None)"
    using w(4) unfolding rem snd_conv s(3) by simp
  then have v1: "cache_look look vc1 = mS" using mS by (metis fun_upd_triv fun_upd_upd)
  show ?thesis
  proof (cases "no_inputs tx")
    case True
    then have "mS = m" using s(1) by simp
    then show ?thesis using w(1,3) rem v1 True by (auto simp: no_inputs_def)
  next
    case False
    then have sp: "spend_map (vin tx) m = Some (us, cache_look look vc1)" using s(1) v1 by simp
    obtain vc2 where r: "restore_inputs get (rev (zip (vin tx) us)) True vc1 = Returns (True, vc2)" "cache_good look ready good vc2"
        "cache_look look vc2 = m"
      using restore_spent_inputs [OF sp w(3) assms(3)] assms(6) s(2) by auto
    have "length us = length (vin tx)" using spend_map_ok [OF sp assms(3)] by simp
    then show ?thesis using w(1) rem r False assms(5) s(2) by (auto simp: no_inputs_def)
  qed
qed

lemma disconnect_updates:
  assumes "update_maps E height txs m = Some (us, cache_look look vc)" "cache_good look ready good vc" "map_ok m"
    "distinct (map (ne_tx_hash E) txs)" "\<forall>tx\<in>set txs. m (ne_tx_hash E tx) = None"
    "\<forall>tx\<in>set txs. whole_outputs tx" "0 < height" "height < 2 ^ 31"
    "\<forall>u\<in>set us. \<forall>x\<in>set (vprevout u). \<not> un_fCoinStake x"
    "list_all2 (\<lambda>(tx, u) uo. no_inputs tx \<or> uo = Some u) (zip txs us) uos"
  shows "\<exists>vc'. disconnect_txs E get height (rev (zip txs uos)) True vc = Returns (Some True, vc') \<and>
    cache_good look ready good vc' \<and> cache_look look vc' = m"
  using assms(1,3-6,9,10)
proof (induction txs arbitrary: m us uos)
  case (Cons tx txs)
  obtain u us' m1 where s: "update_map E height tx m = Some (u, m1)" "update_maps E height txs m1 = Some (us', cache_look look vc)" "us = u # us'"
    using Cons.prems(1) by (auto split: option.splits)
  obtain uo uos' where uos: "uos = uo # uos'" "no_inputs tx \<or> uo = Some u"
      "list_all2 (\<lambda>(tx, u) uo. no_inputs tx \<or> uo = Some u) (zip txs us') uos'"
    using Cons.prems(7) s(3) by (cases uos) auto
  have ok1: "map_ok m1" using update_map_ok [OF s(1) Cons.prems(2)] Cons.prems(5) assms(7,8) by simp
  have "\<forall>tx'\<in>set txs. m1 (ne_tx_hash E tx') = None"
    using update_map_other [OF s(1)] Cons.prems(3,4) by (metis distinct.simps(2) image_eqI list.set_intros(2) list.set_map list.simps(9))
  from Cons.IH [OF s(2) ok1 _ this _ _ uos(3)] Cons.prems(3,5,6) s(3)
  obtain vc1 where v1: "disconnect_txs E get height (rev (zip txs uos')) True vc = Returns (Some True, vc1)"
      "cache_good look ready good vc1" "cache_look look vc1 = m1" by auto
  have "update_map E height tx m = Some (u, cache_look look vc1)" using s(1) v1(3) by simp
  from disconnect_tx [OF this v1(2) Cons.prems(2) _ uos(2)] Cons.prems(4,6) s(3)
  obtain vc2 where "disconnect_txs E get height [(tx, uo)] True vc1 = Returns (Some True, vc2)"
      "cache_good look ready good vc2" "cache_look look vc2 = m" by auto
  then show ?case using v1(1) by (simp add: uos(1) disconnect_txs_append del: disconnect_txs.simps)
qed (use assms(2) in auto)

lemma connect_inputs_kept:
  assumes "connect_inputs E get best heights C tx s st vc = Returns (r, st', vc')" "cache_good look ready good vc"
  shows "view_kept (cache_good look ready good) (cache_look look) vc vc' \<and> (\<forall>s'. r = Some s' \<longrightarrow> blockundo s' = blockundo s)"
proof -
  let ?K = "view_kept (cache_good look ready good) (cache_look look) vc"
  obtain b vc1 where h: "HaveInputs get tx vc = (b, vc1)" by (meson surj_pair)
  note k1 = have_inputs_kept [OF h assms(2)]
  have g1: "cache_good look ready good vc1" using k1 by (simp add: view_kept_def)
  show ?thesis
  proof (cases b)
    case False
    then show ?thesis using assms(1) h k1 by (simp add: connect_inputs_def)
  next
    case True
    obtain n vc2 where n: "(if fStrictPayToScriptHash C then GetP2SHSigOpCount get tx vc1 else Returns (0, vc1)) = Returns (n, vc2)"
      using assms(1) h True by (auto simp: connect_inputs_def obind_Returns)
    have k2: "?K vc2" using n k1 view_kept_trans [OF k1 p2sh_sigops_kept [OF _ g1]] by (auto split: if_splits)
    then have g2: "cache_good look ready good vc2" by (simp add: view_kept_def)
    consider "r = None" "vc' = vc2" | (rest) v vc3 ok chks where "GetValueIn get tx vc2 = Some (v, vc3)"
        "CheckInputs E get best heights tx st (cm_fScriptChecks C) (cm_flags C) (cm_threads C) vc3 = Returns (ok, chks, st', vc')"
        "\<forall>s'. r = Some s' \<longrightarrow> blockundo s' = blockundo s"
      using assms(1) h True n by (auto simp: connect_inputs_def obind_Returns Let_def split: if_splits)
    then show ?thesis
    proof cases
      case rest
      note k3 = view_kept_trans [OF k2 value_in_kept [OF rest(1) g2]]
      then have "cache_good look ready good vc3" by (simp add: view_kept_def)
      then show ?thesis using view_kept_trans [OF k3 check_inputs_kept [OF rest(2)]] rest(3) by blast
    qed (use k2 in auto)
  qed
qed

lemma connect_value_kept:
  assumes "connect_value E get best heights C tx s st vc = Returns (Some s', st', vc')" "cache_good look ready good vc"
  shows "view_kept (cache_good look ready good) (cache_look look) vc vc' \<and> blockundo s' = blockundo s"
  using assms connect_inputs_kept [OF _ assms(2), of E best heights C tx s st "Some s'" st' vc']
  by (auto simp: connect_value_def view_kept_refl split: if_splits)

lemma connect_update_map:
  assumes "connect_update E get C first tx s st vc = Returns (Some s', st', vc')" "cache_good look ready good vc"
  shows "cache_good look ready good vc' \<and> (\<exists>u. update_map E (cm_height C) tx (cache_look look vc) = Some (u, cache_look look vc') \<and>
    blockundo s' = (if first then blockundo s else blockundo s @ [u]))"
proof -
  obtain v ok st3 u where r: "UpdateCoins E get tx st (cm_height C) vc = Returns (ok, st3, u, vc')" "ok"
      "s' = (if first then s\<lparr>nValueOut := v\<rparr> else s\<lparr>nValueOut := v, blockundo := blockundo s @ [u]\<rparr>)"
    using assms(1) by (auto simp: connect_update_def obind_Returns Let_def split: if_splits)
  show ?thesis using UpdateCoins_map [OF assms(2) r(1)] r(2,3) by auto
qed

lemma connect_tx_map:
  assumes "connect_tx E get best heights C first tx s st vc = Returns (Some s', st', vc')" "cache_good look ready good vc"
  shows "cache_good look ready good vc' \<and> (\<exists>u. update_map E (cm_height C) tx (cache_look look vc) = Some (u, cache_look look vc') \<and>
    blockundo s' = (if first then blockundo s else blockundo s @ [u]))"
proof -
  define s1 where "s1 = s\<lparr>nSigOps := (nSigOps s + GetLegacySigOpCount tx) mod 2 ^ 32\<rparr>"
  obtain s2 st2 vc2 where b: "connect_value E get best heights C tx s1 st vc = Returns (Some s2, st2, vc2)"
      "connect_update E get C first tx s2 st2 vc2 = Returns (Some s', st', vc')"
    using assms(1) unfolding connect_tx_def s1_def [symmetric] Let_def
    by (auto simp: obind_Returns split: if_splits option.splits)
  have k: "view_kept (cache_good look ready good) (cache_look look) vc vc2" "blockundo s2 = blockundo s"
    using connect_value_kept [OF b(1) assms(2)] by (simp_all add: s1_def)
  then show ?thesis using connect_update_map [OF b(2)] unfolding view_kept_def by metis
qed

lemma connect_txs_map:
  "connect_txs E get best heights C first txs s st vc = Returns (Some s', st', vc') \<Longrightarrow> cache_good look ready good vc \<Longrightarrow>
   cache_good look ready good vc' \<and> (\<exists>us. update_maps E (cm_height C) txs (cache_look look vc) = Some (us, cache_look look vc') \<and>
     blockundo s' = blockundo s @ (if first then tl us else us))"
proof (induction txs arbitrary: first s st vc)
  case (Cons tx txs)
  obtain s1 st1 vc1 where t: "connect_tx E get best heights C first tx s st vc = Returns (Some s1, st1, vc1)"
      "connect_txs E get best heights C False txs s1 st1 vc1 = Returns (Some s', st', vc')"
    using Cons.prems(1) by (auto simp: obind_Returns split: option.splits)
  note m = connect_tx_map [OF t(1) Cons.prems(2)]
  from Cons.IH [OF t(2)] m obtain us where us: "update_maps E (cm_height C) txs (cache_look look vc1) = Some (us, cache_look look vc')"
      "blockundo s' = blockundo s1 @ us" "cache_good look ready good vc'" by auto
  then show ?case using m by auto
qed simp

lemma connect_body_map:
  assumes body: "connect_body E get best heights IO block pindex False used st fs vc = Returns (True, st', pindex', undo, used', vc')"
    and good: "cache_good look ready good vc" and bip: "fEnforceBIP30 pindex"
  shows "\<exists>us. cache_good look ready good vc' \<and> update_maps E (nHeight pindex) (vtx block) (cache_look look vc) = Some (us, cache_look look vc') \<and>
    undo = \<lparr>vtxundo = tl us\<rparr> \<and> (\<forall>tx\<in>set (vtx block). cache_look look vc (ne_tx_hash E tx) = None) \<and>
    cv_hashBlock (snd vc') = phashBlock pindex \<and>
    phashBlock pindex' = phashBlock pindex \<and> nHeight pindex' = nHeight pindex \<and> pprev pindex' = pprev pindex \<and>
    (if is_v5_stake (ne_params E) block (nHeight pindex)
     then used (pointer_hash E block) = None \<and> used' = used(pointer_hash E block \<mapsto> ne_block_hash E block) else used' = used)"
proof -
  obtain ok vcA where b: "bip30_loop E get (vtx block) vc = (ok, vcA)" by (meson surj_pair)
  have ok using body bip b by (cases ok) (simp_all add: connect_body_def connect_result_def)
  note k = bip30_kept [OF b good]
  then have gA: "cache_good look ready good vcA" "cache_look look vcA = cache_look look vc" by (simp_all add: view_kept_def)
  define C where "C = \<lparr>fStrictPayToScriptHash = bi_GetBlockTime pindex \<ge> 1333238400, cm_fScriptChecks = fs,
                   cm_flags = (if bi_GetBlockTime pindex \<ge> 1333238400 then SCRIPT_VERIFY_P2SH else SCRIPT_VERIFY_NONE) OR SCRIPT_VERIFY_DERSIG,
                   cm_threads = io_threads IO, cm_height = nHeight pindex\<rparr>"
  obtain s st1 vc1 where t: "connect_txs E get best heights C True (vtx block)
        \<lparr>nFees = 0, nSigOps = 0, nValueOut = 0, nValueIn = 0, blockundo = [], checks = []\<rparr> st vcA = Returns (Some s, st1, vc1)"
      "connect_amounts E IO block pindex False used st1 s vc1 = Returns (True, st', pindex', undo, used', vc')"
    using body bip b \<open>ok\<close>
    by (auto simp: connect_body_def C_def Let_def obind_Returns connect_result_def split: option.splits)
  obtain us where us: "cache_good look ready good vc1" "update_maps E (nHeight pindex) (vtx block) (cache_look look vc) = Some (us, cache_look look vc1)"
      "blockundo s = tl us"
    using connect_txs_map [OF t(1) gA(1)] gA(2) by (auto simp: C_def)
  from connect_amounts_result [OF t(2)] us k \<open>ok\<close> SetBestBlock_kept [OF us(1)] show ?thesis
    by (cases vc1) (auto simp: view_kept_def SetBestBlock_def)
qed

lemma ConnectBlock_map:
  assumes conn: "ConnectBlock E get best heights IO block pindex False used st vc = Returns (True, st', pindex', undo, used', vc')"
    and good: "cache_good look ready good vc"
    and ng: "ne_block_hash E block \<noteq> hashGenesisBlock (ne_params E)" and bip: "fEnforceBIP30 pindex"
  shows "\<exists>us hash vcB. cache_GetBestBlock best vc = (hash, vcB) \<and> hash = (case pprev pindex of None \<Rightarrow> bu_zero WIDTH256 | Some q \<Rightarrow> q) \<and>
    cache_good look ready good vc' \<and> update_maps E (nHeight pindex) (vtx block) (cache_look look vc) = Some (us, cache_look look vc') \<and>
    undo = \<lparr>vtxundo = tl us\<rparr> \<and> (\<forall>tx\<in>set (vtx block). cache_look look vc (ne_tx_hash E tx) = None) \<and>
    cv_hashBlock (snd vc') = phashBlock pindex \<and>
    phashBlock pindex' = phashBlock pindex \<and> nHeight pindex' = nHeight pindex \<and> pprev pindex' = pprev pindex \<and>
    (if is_v5_stake (ne_params E) block (nHeight pindex)
     then used (pointer_hash E block) = None \<and> used' = used(pointer_hash E block \<mapsto> ne_block_hash E block) else used' = used)"
proof -
  obtain stc where c: "io_CheckBlock IO st = (True, stc)"
    using conn by (cases "io_CheckBlock IO st"; cases "fst (io_CheckBlock IO st)") (auto simp: ConnectBlock_def connect_result_def)
  obtain hash vcB where bb: "cache_GetBestBlock best vc = (hash, vcB)" by (meson surj_pair)
  have kB: "cache_good look ready good vcB" "cache_look look vcB = cache_look look vc"
    using GetBestBlock_kept [OF bb good] by (simp_all add: view_kept_def)
  have h: "hash = (case pprev pindex of None \<Rightarrow> bu_zero WIDTH256 | Some q \<Rightarrow> q)"
    by (rule ccontr) (use conn c bb in \<open>simp add: ConnectBlock_def\<close>)
  obtain fs where "connect_body E get best heights IO block pindex False used stc fs vcB = Returns (True, st', pindex', undo, used', vc')"
    using conn c bb ng h by (auto simp: ConnectBlock_def Let_def connect_result_def obind_Returns split: if_splits)
  from connect_body_map [OF this kB(1) bip] kB(2) bb h show ?thesis by auto
qed

end

context coins_view begin

lemma disconnect_undoes_connect:
  assumes conn: "ConnectBlock E get best heights IO block pindex False used st vc = Returns (True, st', pindex', undo, used', vc')"
    and good: "cache_good look ready good vc"
    and ng: "ne_block_hash E block \<noteq> hashGenesisBlock (ne_params E)" and bip: "fEnforceBIP30 pindex"
    and map: "map_ok (cache_look look vc)" and height: "0 < nHeight pindex" "nHeight pindex < 2 ^ 31"
    and txs: "vtx block \<noteq> []" "no_inputs (hd (vtx block))" "distinct (map (ne_tx_hash E) (vtx block))"
      "\<forall>tx\<in>set (vtx block). whole_outputs tx"
    and stake: "\<forall>u\<in>set (vtxundo undo). \<forall>x\<in>set (vprevout u). \<not> un_fCoinStake x"
    and prev: "pprev pindex = Some q" and hash: "phashBlock pindex \<noteq> bu_zero WIDTH256"
  shows "\<exists>vc2. DisconnectBlock E get best pindex' (Some undo) block used' vc' = Returns (True, True, used, vc2) \<and>
    cache_good look ready good vc2 \<and> cache_look look vc2 = cache_look look vc \<and> cv_hashBlock (snd vc2) = q"
proof -
  from ConnectBlock_map [OF conn good ng bip] obtain us where
    c: "cache_good look ready good vc'" "update_maps E (nHeight pindex) (vtx block) (cache_look look vc) = Some (us, cache_look look vc')"
      "undo = \<lparr>vtxundo = tl us\<rparr>" "\<forall>tx\<in>set (vtx block). cache_look look vc (ne_tx_hash E tx) = None"
      "cv_hashBlock (snd vc') = phashBlock pindex"
      "phashBlock pindex' = phashBlock pindex" "nHeight pindex' = nHeight pindex" "pprev pindex' = pprev pindex"
      "if is_v5_stake (ne_params E) block (nHeight pindex)
       then used (pointer_hash E block) = None \<and> used' = used(pointer_hash E block \<mapsto> ne_block_hash E block) else used' = used"
    by blast
  have len: "length us = length (vtx block)" by (rule update_maps_length [OF c(2)])
  obtain tx txs where v: "vtx block = tx # txs" using txs(1) by (cases "vtx block") auto
  obtain u us' where u: "us = u # us'" "length us' = length txs" using len v by (cases us) auto
  have first: "no_inputs tx" using txs(2) v by simp
  then have u0: "vprevout u = []" using c(2) by (auto simp: v u update_map_def split: option.splits)
  have rel: "list_all2 (\<lambda>(tx, u) uo. no_inputs tx \<or> uo = Some u) (zip (vtx block) us) (None # map Some us')"
    using first u(2) by (auto simp: v u(1) list_all2_conv_all_nth nth_Cons split: nat.split)
  have stake': "\<forall>u\<in>set us. \<forall>x\<in>set (vprevout u). \<not> un_fCoinStake x" using stake u u0 c(3) by auto
  obtain vc1 where d: "disconnect_txs E get (nHeight pindex) (rev (zip (vtx block) (None # map Some us'))) True vc' = Returns (Some True, vc1)"
      "cache_good look ready good vc1" "cache_look look vc1 = cache_look look vc"
    using disconnect_updates [OF c(2,1) map txs(3) c(4) txs(4) height stake' rel] by blast
  have best: "cache_GetBestBlock best vc' = (phashBlock pindex, vc')"
    using c(5) hash by (cases vc') (simp add: cache_GetBestBlock_def)
  have undone: "(if is_v5_stake (ne_params E) block (nHeight pindex) then used'(pointer_hash E block := None) else used') = used"
    using c(9) by (auto split: if_splits)
  have "DisconnectBlock E get best pindex' (Some undo) block used' vc' = Returns (True, True, used, SetBestBlock q vc1)"
    using d(1) u best c(3,6-8) prev undone by (simp add: DisconnectBlock_def v)
  moreover have "cv_hashBlock (snd (SetBestBlock q vc1)) = q" by (cases vc1) (simp add: SetBestBlock_def)
  ultimately show ?thesis using SetBestBlock_kept [OF d(2)] d(3) by (auto simp: view_kept_def)
qed

end

context coins_view begin

lemma zerocoin_spend_fails:
  assumes "tx_IsZerocoinSpend tx" "cache_good look ready good vc" "cache_look look vc (op_hash (prevout (hd (vin tx)))) = None"
  shows "\<exists>u vc'. UpdateCoins E get tx st height vc = Returns (False, state_Invalid 0 [] st, u, vc')"
proof -
  obtain i ins where ins: "vin tx = i # ins" using assms(1) by (cases "vin tx") (auto simp: tx_IsZerocoinSpend_def)
  have kind: "\<not> IsCoinBase tx" "\<not> IsV5CoinStake tx"
    using assms(1) by (auto simp: IsCoinBase_def ContainsZerocoins_def IsV5CoinStake_def tx_IsZerocoinSpend_def script_markers_disjoint)
  obtain c0 vc1 where w: "with_modifier get (op_hash (prevout i)) (spend_body (prevout i)) vc = Some (fst (spend_body (prevout i) c0), vc1)"
      "live (Some c0) = cache_look look vc (op_hash (prevout i))"
    using modifier_spec [OF assms(2)] by blast
  have "coins_IsPruned c0" using w(2) assms(3) ins by (simp split: if_splits)
  then have "coins_Spend (prevout i) c0 = None"
    using pruned_unavailable [of c0 "unat (op_n (prevout i))"]
    by (cases "coins_Spend (prevout i) c0") (auto dest: coins_Spend_SomeD simp: coins_IsAvailable_def)
  then show ?thesis using w(1) kind by (simp add: UpdateCoins_def ins spend_body_def)
qed

end

end
