(* ===== verification/Block_Undo.thy ===== *)
theory Block_Undo
  imports Reorg
begin

text \<open>
  What disconnecting a block restores: \<open>DisconnectBlock\<close> undoes \<open>ConnectBlock\<close> on the map of coins, on the map of used stake
  pointers and on the best block; the exact effect of one undo record; and zerocoin spends, which never connect.  The sample
  block of a coinbase and a payment is connected step by step for the witnesses.
\<close>

text \<open>
  C27: disconnecting a block undoes connecting it.  If \<open>ConnectBlock\<close> connects a block that is not the genesis block, over the
  overwriting rule, then \<open>DisconnectBlock\<close> with the undo data it produced succeeds, reports a clean disconnection, and gives
  back the map of used stake pointers, the map of coins the view stood for and the previous best block.  The map must hold
  well-formed coins, the block's outputs must not be null and their numbers must fit 32 bits, its transactions must have
  different hashes and begin with one without inputs, and no undo record may be of the last output of a coinstake.
\<close>

theorem disconnect_inverts_connect:
  assumes "ConnectBlock E (cache_GetCoins db_GetCoins) best heights IO block pindex False used st w =
      Returns (True, st', pindex', undo, used', w')"
    and "top_good w" "map_ok (top_look w)"
    and "ne_block_hash E block \<noteq> hashGenesisBlock (ne_params E)" "fEnforceBIP30 pindex"
    and "0 < nHeight pindex" "nHeight pindex < 2 ^ 31"
    and "vtx block \<noteq> []" "no_inputs (hd (vtx block))" "distinct (map (ne_tx_hash E) (vtx block))"
      "\<forall>tx\<in>set (vtx block). whole_outputs tx"
    and "\<forall>u\<in>set (vtxundo undo). \<forall>x\<in>set (vprevout u). \<not> un_fCoinStake x"
    and "pprev pindex = Some q" "phashBlock pindex \<noteq> bu_zero WIDTH256"
  shows "\<exists>w2. DisconnectBlock E (cache_GetCoins db_GetCoins) best pindex' (Some undo) block used' w' = Returns (True, True, used, w2) \<and>
    top_good w2 \<and> top_look w2 = top_look w \<and> cv_hashBlock (snd w2) = q"
  by (rule tip.disconnect_undoes_connect) (use assms in auto)

section \<open>A sample block\<close>

definition small_hash :: "nat \<Rightarrow> base_uint" where
  "small_hash n = [of_nat n, 0, 0, 0, 0, 0, 0, 0]"

definition spent_coins :: CCoins where
  "spent_coins = \<lparr>fCoinBase = True, fCoinStake = False, co_vout = [new_CTxOut 5000 []], co_nHeight = 70, co_nVersion = 1\<rparr>"

definition spent_db :: CCoinsViewDB where
  "spent_db = \<lparr>db_coins = [small_hash 7 \<mapsto> spent_coins], db_best = Some (small_hash 99)\<rparr>"

definition mint_tx :: CTransaction where
  "mint_tx = \<lparr>tx_nVersion = 1, vin = [new_CTxIn outpoint_SetNull [] 0], vout = [new_CTxOut 2000 []], tx_nLockTime = 1\<rparr>"

definition pay_tx :: CTransaction where
  "pay_tx = \<lparr>tx_nVersion = 1, vin = [new_CTxIn \<lparr>op_hash = small_hash 7, op_n = 0\<rparr> [] 0], vout = [new_CTxOut 4000 []], tx_nLockTime = 2\<rparr>"

definition pay_block :: CBlock where
  "pay_block = block_SetNull\<lparr>vtx := [mint_tx, pay_tx]\<rparr>"

definition small_env :: node_env where
  "small_env = \<lparr>ne_params = CMainParams (small_hash 55), ne_tx_hash = (\<lambda>tx. small_hash (unat (tx_nLockTime tx) + 1000)),
     ne_block_hash = (\<lambda>b. small_hash 100), ne_outpoint_hash = op_hash,
     ne_script_env = \<lparr>env_flags = 0, env_CheckSig = (\<lambda>_ _ _. False), env_RIPEMD160 = id, env_SHA1 = id, env_SHA256 = id,
       env_HASH160 = id, env_HASH256 = id\<rparr>, ne_Hash = (\<lambda>_. small_hash 0), ne_Verify = (\<lambda>_ _ _. False)\<rparr>"

definition parent_index :: CBlockIndex where
  "parent_index = (new_CBlockIndex (small_hash 99) block_SetNull)\<lparr>nHeight := 99\<rparr>"

definition pay_index :: CBlockIndex where
  "pay_index = (new_CBlockIndex (small_hash 100) pay_block)\<lparr>pprev := Some (small_hash 99), nHeight := 100, nStatus := 4\<rparr>"

definition pay_io :: connect_io where
  "pay_io = \<lparr>io_CheckBlock = Pair True, io_map = [small_hash 99 \<mapsto> parent_index, small_hash 100 \<mapsto> pay_index],
     io_hashAssumeValid = small_hash 100, io_pindexBestHeader = Some pay_index, io_nMinimumChainWork = bu_zero WIDTH256,
     io_recent = False, io_threads = False, io_value_valid = (\<lambda>_ _. True), io_tip_supply = 0, io_index_written = True,
     io_undo_pos = Some \<lparr>dp_nFile = 0, dp_nPos = 10\<rparr>, io_undo_written = True, io_txindex_written = True\<rparr>"

definition pay_world :: "(CCoinsViewDB \<times> CCoinsViewCache) \<times> CCoinsViewCache" where
  "pay_world = ((spent_db, new_CCoinsViewCache), new_CCoinsViewCache\<lparr>cv_hashBlock := small_hash 99\<rparr>)"

definition tip_best :: "CCoinsViewDB \<times> CCoinsViewCache \<Rightarrow> base_uint" where
  "tip_best v = fst (cache_GetBestBlock db_GetBestBlock v)"

lemma small_hash_eq [simp]: "small_hash m = small_hash n \<longleftrightarrow> of_nat m = (of_nat n :: u32)" by (simp add: small_hash_def)

lemma zero_hash [simp]: "bu_zero WIDTH256 = small_hash n \<longleftrightarrow> of_nat n = (0 :: u32)"
  by (simp add: small_hash_def bu_zero_def numeral_eq_Suc)

lemma small_hash_zero [simp]: "small_hash n = bu_zero WIDTH256 \<longleftrightarrow> of_nat n = (0 :: u32)" 
  by (simp add: small_hash_def bu_zero_def numeral_eq_Suc)

lemmas small_defs = small_env_def mint_tx_def pay_tx_def pay_world_def tip_best_def spent_db_def spent_coins_def new_CCoinsViewCache_def new_CTxIn_def new_CTxOut_def
  outpoint_SetNull_def outpoint_IsNull_def

definition mint_coins :: CCoins where "mint_coins = coins_FromTx mint_tx 100"

lemma sample_kinds [simp]: "IsCoinBase mint_tx" "\<not> IsCoinBase pay_tx" "\<not> IsV5CoinStake pay_tx" "\<not> IsCoinStake pay_tx" "\<not> IsCoinStake mint_tx"
  "\<not> tx_IsZerocoinSpend mint_tx" "\<not> tx_IsZerocoinSpend pay_tx" "\<not> ContainsZerocoins mint_tx" "\<not> ContainsZerocoins pay_tx"
  "GetLegacySigOpCount mint_tx = 0" "GetLegacySigOpCount pay_tx = 0"
  by (simp_all add: IsCoinBase_def IsV5CoinStake_def IsCoinStake_def tx_IsZerocoinSpend_def ContainsZerocoins_def GetLegacySigOpCount_def
      tx_IsZerocoinMint_def IsZerocoinSpend_def IsZerocoinMint_def GetSigOpCount_def sigop_loop.simps small_defs small_hash_def bu_IsNull_def bu_zero_def IsProofOfStakeMarker_def list_all_iff)

lemmas view_defs = with_modifier_def ModifyCoins_def modifier_end_def cache_GetCoins_def FetchCoins_def db_GetCoins_def AccessCoins_def
  HaveInputs_def GetOutputFor_def GetValueIn_def cache_GetBestBlock_def

lemma small_env_fields [simp]: "ne_tx_hash small_env mint_tx = small_hash 1001" "ne_tx_hash small_env pay_tx = small_hash 1002"
  "ne_params small_env = CMainParams (small_hash 55)" "ne_block_hash small_env b = small_hash 100"
  by (simp_all add: small_defs)

definition cached_mint :: CCoinsCacheEntry where
  "cached_mint = \<lparr>ce_coins = \<lparr>fCoinBase = True, fCoinStake = False, co_vout = [new_CTxOut 2000 []], co_nHeight = 100, co_nVersion = 1\<rparr>,
     ce_flags = FRESH OR DIRTY\<rparr>"

definition cached_pay :: CCoinsCacheEntry where
  "cached_pay = \<lparr>ce_coins = \<lparr>fCoinBase = False, fCoinStake = False, co_vout = [new_CTxOut 4000 []], co_nHeight = 100, co_nVersion = 1\<rparr>,
     ce_flags = FRESH OR DIRTY\<rparr>"

definition cached_spent :: CCoinsCacheEntry where
  "cached_spent = \<lparr>ce_coins = spent_coins, ce_flags = 0\<rparr>"

lemma sample_outputs [simp]: "\<not> txout_IsNull (new_CTxOut 2000 [])" "\<not> txout_IsNull (new_CTxOut 4000 [])" "\<not> txout_IsNull (new_CTxOut 5000 [])" "\<not> IsUnspendable []"
  "scriptPubKey (new_CTxOut a b) = b" "nValue (new_CTxOut a b) = a"
  by (simp_all add: new_CTxOut_def txout_IsNull_def IsUnspendable_def)

lemma cached_fresh [simp]: "is_fresh cached_mint" "is_fresh cached_pay" "\<not> is_fresh cached_spent"
  by (simp_all add: is_fresh_def cached_mint_def cached_pay_def cached_spent_def FRESH_def DIRTY_def)

lemma sample_from_tx [simp]: "coins_FromTx mint_tx 100 = ce_coins cached_mint" "coins_FromTx pay_tx 100 = ce_coins cached_pay"
  by (simp_all add: FromTx_fields cached_mint_def cached_pay_def trim_def, simp_all add: mint_tx_def pay_tx_def)

lemma spent_coins_fields [simp]: "ce_coins cached_spent = spent_coins" "ce_flags cached_spent = 0" "\<not> coins_IsPruned spent_coins" "coins_IsAvailable spent_coins 0"
  "co_vout spent_coins = [new_CTxOut 5000 []]" "fCoinBase spent_coins" "\<not> fCoinStake spent_coins" "co_nHeight spent_coins = 70"
  "co_nVersion spent_coins = 1" "live (Some spent_coins) = Some spent_coins"
  by (simp_all add: cached_spent_def spent_coins_def coins_IsPruned_def coins_IsAvailable_def)

lemma fetched_spent: "\<lparr>ce_coins = spent_coins, ce_flags = 0\<rparr> = cached_spent" by (simp add: cached_spent_def)

lemma exception_Inr [simp]: "exception (Inr x) = Returns x" by (simp add: exception_def)

lemma pay_tx_in [simp]: "vin pay_tx = [\<lparr>prevout = \<lparr>op_hash = small_hash 7, op_n = 0\<rparr>, scriptSig = [], nSequence = 0\<rparr>]"
  by (simp add: pay_tx_def new_CTxIn_def)

lemma sample_trimmed [simp]: "trim [txout_SetNull] = []" "trim [new_CTxOut 4000 []] = [new_CTxOut 4000 []]" "\<not> coins_IsPruned (ce_coins cached_pay)"
   "co_vout (ce_coins cached_pay) = [new_CTxOut 4000 []]" "\<not> coins_IsPruned (ce_coins cached_mint)" "coins_Cleanup (ce_coins cached_pay) = ce_coins cached_pay"
   "coins_Cleanup (ce_coins cached_mint) = ce_coins cached_mint"
  by (simp_all add: trim_def cached_pay_def coins_IsPruned_def cached_mint_def coins_Cleanup_trim)

lemma sample_entries [simp]: "\<lparr>ce_coins = ce_coins cached_pay, ce_flags = FRESH OR DIRTY\<rparr> = cached_pay" "\<lparr>ce_coins = ce_coins cached_mint, ce_flags = FRESH OR DIRTY\<rparr> = cached_mint"
  "\<not> is_fresh \<lparr>ce_coins = c, ce_flags = DIRTY\<rparr>" "is_fresh \<lparr>ce_coins = c, ce_flags = FRESH OR DIRTY\<rparr>"
  by (simp_all add: cached_pay_def cached_mint_def is_fresh_def DIRTY_def FRESH_def)

lemma sample_bip30: "bip30_loop small_env (cache_GetCoins db_GetCoins) [mint_tx, pay_tx] pay_world = (True, pay_world)"
  by (simp add: view_defs pay_world_def spent_db_def new_CCoinsViewCache_def)

definition world1 where "world1 = ((spent_db, new_CCoinsViewCache), new_CCoinsViewCache\<lparr>cv_hashBlock := small_hash 99, cacheCoins := [(small_hash 1001, cached_mint)]\<rparr>)"

lemma update_mint: "UpdateCoins small_env (cache_GetCoins db_GetCoins) mint_tx st 100 pay_world = Returns (True, st, \<lparr>vprevout = []\<rparr>, world1)"
  apply (simp add: UpdateCoins_def view_defs pay_world_def spent_db_def new_CCoinsViewCache_def world1_def Let_def cong: if_cong)
  done

definition world2 where "world2 = ((spent_db, new_CCoinsViewCache\<lparr>cacheCoins := [(small_hash 7, cached_spent)]\<rparr>),
  new_CCoinsViewCache\<lparr>cv_hashBlock := small_hash 99, cacheCoins := [(small_hash 1001, cached_mint), (small_hash 7, cached_spent)]\<rparr>)"

definition undo2 where "undo2 = \<lparr>un_txout = new_CTxOut 5000 [], un_fCoinBase = True, un_fCoinStake = False, un_nHeight = 70, un_nVersion = 1\<rparr>"

lemma pay_inputs: "HaveInputs (cache_GetCoins db_GetCoins) pay_tx world1 = (True, world2)"
  by (simp_all add: view_defs world1_def world2_def spent_db_def new_CCoinsViewCache_def fetched_spent)

lemma pay_value_in: "GetValueIn (cache_GetCoins db_GetCoins) pay_tx world2 = Some (5000, world2)"
  by (simp add: view_defs world2_def wrap64_def)

definition world4 where "world4 = ((spent_db, new_CCoinsViewCache\<lparr>cacheCoins := [(small_hash 7, cached_spent)]\<rparr>),
  new_CCoinsViewCache\<lparr>cv_hashBlock := small_hash 99, cacheCoins := [(small_hash 1001, cached_mint), (small_hash 7, cached_spent)]\<rparr>)"

definition world3 where "world3 = ((spent_db, new_CCoinsViewCache\<lparr>cacheCoins := [(small_hash 7, cached_spent)]\<rparr>),
  new_CCoinsViewCache\<lparr>cv_hashBlock := small_hash 99, cacheCoins := [(small_hash 1001, cached_mint), (small_hash 7, \<lparr>ce_coins = spent_coins\<lparr>co_vout := []\<rparr>, ce_flags = DIRTY\<rparr>), (small_hash 1002, cached_pay)]\<rparr>)"

definition world2b where "world2b = ((spent_db, new_CCoinsViewCache\<lparr>cacheCoins := [(small_hash 7, cached_spent)]\<rparr>),
  new_CCoinsViewCache\<lparr>cv_hashBlock := small_hash 99, cacheCoins := [(small_hash 1001, cached_mint), (small_hash 7, \<lparr>ce_coins = spent_coins\<lparr>co_vout := []\<rparr>, ce_flags = DIRTY\<rparr>)]\<rparr>)"

lemma spend_pay: "coins_Spend \<lparr>op_hash = h, op_n = 0\<rparr> spent_coins = Some (spent_coins\<lparr>co_vout := []\<rparr>, undo2)"
  by (simp add: coins_Spend_def Let_def coins_Cleanup_trim new_CTxInUndo_def undo2_def)

lemma dirty_spent: "cached_spent\<lparr>ce_flags := DIRTY\<rparr> = \<lparr>ce_coins = spent_coins, ce_flags = DIRTY\<rparr>" by (simp add: cached_spent_def)

lemma update_pay_spend: "with_modifier (cache_GetCoins db_GetCoins) (small_hash 7) (spend_body \<lparr>op_hash = h, op_n = 0\<rparr>) world4 = Some (Some undo2, world2b)"
  by (simp add: view_defs world4_def world2b_def new_CCoinsViewCache_def spend_body_def spend_pay dirty_spent coins_Cleanup_trim)

lemma update_pay_add: "with_modifier (cache_GetCoins db_GetCoins) (small_hash 1002) (\<lambda>c. (u, ce_coins cached_pay)) world2b = Some (u, world3)"
  by (simp add: view_defs world2b_def world3_def new_CCoinsViewCache_def spent_db_def Let_def)

lemma update_pay: "UpdateCoins small_env (cache_GetCoins db_GetCoins) pay_tx st 100 world4 = Returns (True, st, \<lparr>vprevout = [undo2]\<rparr>, world3)"
  by (simp add: UpdateCoins_def update_pay_spend update_pay_add)

lemma main_params [simp]: "nMaxMoneyOut (CMainParams h) = 300000000000000" "nMaturity (CMainParams h) = 15" "nLastPOWBlock (CMainParams h) = 500"
  "hashGenesisBlock (CMainParams h) = h" "nStakePointerForkHeight (CMainParams h) = 2675000"
  by (simp_all add: CMainParams_def COIN_def)

lemma sample_amounts [simp]: "GetValueOut mint_tx = Inr 2000" "GetValueOut pay_tx = Inr 4000"
  using value_out_loop_iff [of 0 "vout mint_tx" 2000] value_out_loop_iff [of 0 "vout pay_tx" 4000]
  by (simp_all add: GetValueOut_def mint_tx_def pay_tx_def)

lemma pay_inputs_again: "HaveInputs (cache_GetCoins db_GetCoins) pay_tx world2 = (True, world2)"
  by (simp_all add: view_defs world2_def spent_db_def new_CCoinsViewCache_def)

lemma pay_check_inputs: "CheckInputs small_env (cache_GetCoins db_GetCoins) tip_best (\<lambda>h. if h = small_hash 99 then Some 99 else None) pay_tx st False flags False world2
   = Returns (True, [], st, world4)"
proof -
  have b: "cache_GetBestBlock tip_best world2 = (small_hash 99, world4)" 
    by (simp add: cache_GetBestBlock_def world2_def world4_def new_CCoinsViewCache_def tip_best_def db_GetBestBlock_def spent_db_def)
  have v: "input_values (CMainParams (small_hash 55)) (cache_GetCoins db_GetCoins) 100 (vin pay_tx) 0 st world4 = Returns (Some 5000, st, world4)"
    by (simp add: view_defs world4_def MoneyRange_def wrap64_def Let_def)
  have "check_fees (CMainParams (small_hash 55)) pay_tx 5000 st = Returns (True, st)"
    by (simp add: check_fees_def MoneyRange_def wrap64_def)
  then show ?thesis by (simp add: CheckInputs_def pay_inputs_again b v del: input_values.simps pay_tx_in)
qed

definition pay_mode where "pay_mode = \<lparr>fStrictPayToScriptHash = False, cm_fScriptChecks = False, cm_flags = SCRIPT_VERIFY_NONE OR SCRIPT_VERIFY_DERSIG, cm_threads = False, cm_height = 100\<rparr>"

lemma pay_mode_fields [simp]: "fStrictPayToScriptHash pay_mode = False" "cm_fScriptChecks pay_mode = False" "cm_threads pay_mode = False" "cm_height pay_mode = 100"
  by (simp_all add: pay_mode_def)

lemma connect_mint: "connect_tx small_env (cache_GetCoins db_GetCoins) tip_best hs pay_mode True mint_tx
    \<lparr>nFees = 0, nSigOps = 0, nValueOut = 0, nValueIn = 0, blockundo = [], checks = []\<rparr> st pay_world =
   Returns (Some \<lparr>nFees = 0, nSigOps = 0, nValueOut = 2000, nValueIn = 0, blockundo = [], checks = []\<rparr>, st, world1)"
  by (simp add: connect_tx_def connect_value_def connect_update_def update_mint wrap64_def Let_def)

lemma connect_pay: "connect_tx small_env (cache_GetCoins db_GetCoins) tip_best (\<lambda>h. if h = small_hash 99 then Some 99 else None) pay_mode False pay_tx
    \<lparr>nFees = 0, nSigOps = 0, nValueOut = 2000, nValueIn = 0, blockundo = [], checks = []\<rparr> st world1 =
   Returns (Some \<lparr>nFees = 1000, nSigOps = 0, nValueOut = 6000, nValueIn = 5000, blockundo = [\<lparr>vprevout = [undo2]\<rparr>], checks = []\<rparr>, st, world3)"
  by (simp add: connect_tx_def connect_value_def connect_inputs_def pay_inputs pay_value_in pay_check_inputs connect_update_def update_pay wrap64_def Let_def)

lemma pay_index_fields [simp]: "nHeight pay_index = 100" "phashBlock pay_index = small_hash 100" "pprev pay_index = Some (small_hash 99)" "bi_GetBlockTime pay_index = 0"
   "nStatus pay_index = 4" "nUndoPos pay_index = 0"
  by (simp_all add: pay_index_def new_CBlockIndex_def bi_GetBlockTime_def pay_block_def block_SetNull_def header_SetNull_def block_of_header_def CBlockHeader.extend_def)

lemma pay_block_txs [simp]: "vtx pay_block = [mint_tx, pay_tx]" by (simp add: pay_block_def)

lemma pay_block_work [simp]: "\<not> IsProofOfStake pay_block" by (simp add: IsProofOfStake_def)

lemma connect_sample_txs: "connect_txs small_env (cache_GetCoins db_GetCoins) tip_best (\<lambda>h. if h = small_hash 99 then Some 99 else None) pay_mode True [mint_tx, pay_tx]
    \<lparr>nFees = 0, nSigOps = 0, nValueOut = 0, nValueIn = 0, blockundo = [], checks = []\<rparr> st pay_world =
   Returns (Some \<lparr>nFees = 1000, nSigOps = 0, nValueOut = 6000, nValueIn = 5000, blockundo = [\<lparr>vprevout = [undo2]\<rparr>], checks = []\<rparr>, st, world3)"
  by (simp add: connect_mint connect_pay)

lemma pay_io_fields [simp]: "io_CheckBlock pay_io = Pair True" "io_threads pay_io = False" "io_index_written pay_io" "io_undo_written pay_io" "io_txindex_written pay_io" "io_value_valid pay_io a b"
  "io_undo_pos pay_io = Some \<lparr>dp_nFile = 0, dp_nPos = 10\<rparr>" "io_map pay_io = [small_hash 99 \<mapsto> parent_index, small_hash 100 \<mapsto> pay_index]"
  "io_hashAssumeValid pay_io = small_hash 100" "io_pindexBestHeader pay_io = Some pay_index" "io_nMinimumChainWork pay_io = bu_zero WIDTH256" "\<not> io_recent pay_io"
  "nHeight parent_index = 99"
  by (simp_all add: pay_io_def parent_index_def)

lemma sample_bip30_enforced: "fEnforceBIP30 pay_index" by (simp add: fEnforceBIP30_def)

lemma sample_status: "nStatus p = 4 \<Longrightarrow> bi_IsValid BLOCK_VALID_SCRIPTS p = Some False" "nStatus p = 4 \<Longrightarrow> diskpos_IsNull (GetUndoPos p)"
   "nStatus p = 4 OR BLOCK_HAVE_UNDO \<Longrightarrow> RaiseValidity BLOCK_VALID_SCRIPTS p = Some (True, p\<lparr>nStatus := 21\<rparr>)"
  by (simp_all add: bi_IsValid_def GetUndoPos_def diskpos_IsNull_def diskpos_SetNull_def RaiseValidity_def BLOCK_VALID_SCRIPTS_def BLOCK_VALID_MASK_def BLOCK_FAILED_MASK_def BLOCK_HAVE_UNDO_def
    BLOCK_FAILED_VALID_def BLOCK_FAILED_CHILD_def BLOCK_VALID_HEADER_def BLOCK_VALID_TREE_def BLOCK_VALID_TRANSACTIONS_def BLOCK_VALID_CHAIN_def)

lemma sample_finish: "nStatus p = 4 \<Longrightarrow> nHeight p = 100 \<Longrightarrow> phashBlock p = small_hash 100 \<Longrightarrow> \<exists>pindex. connect_finish small_env pay_io pay_block p undo u st w = Returns (True, st, pindex, undo, u, SetBestBlock (small_hash 100) w)"
  by (simp add: connect_finish_def sample_status is_v5_stake_def connect_result_def Let_def)

lemma sample_connect_amounts: "\<exists>pindex. connect_amounts small_env pay_io pay_block pay_index False u st \<lparr>nFees = 1000, nSigOps = 0, nValueOut = 6000, nValueIn = 5000, blockundo = us, checks = []\<rparr> w =
  Returns (True, st, pindex, \<lparr>vtxundo = us\<rparr>, u, SetBestBlock (small_hash 100) w)"
  using sample_finish [of "pay_index\<lparr>nMoneySupply := m, nMint := k\<rparr>" for m k] 
  by (simp add: connect_amounts_def Let_def connect_result_def)

lemma sample_connect_body: "\<exists>pindex. connect_body small_env (cache_GetCoins db_GetCoins) tip_best (\<lambda>h. if h = small_hash 99 then Some 99 else None) pay_io pay_block pay_index False Map.empty st False pay_world =
   Returns (True, st, pindex, \<lparr>vtxundo = [\<lparr>vprevout = [undo2]\<rparr>]\<rparr>, Map.empty, SetBestBlock (small_hash 100) world3)"
  by (simp add: connect_body_def sample_bip30 sample_bip30_enforced Let_def pay_mode_def [symmetric] connect_sample_txs sample_connect_amounts del: bip30_loop.simps connect_txs.simps)

definition pay_heights :: "base_uint \<Rightarrow> int option" where "pay_heights h = (if h = small_hash 99 then Some 99 else None)"

lemma sample_connects: "\<exists>pindex. ConnectBlock small_env (cache_GetCoins db_GetCoins) tip_best pay_heights pay_io pay_block pay_index False Map.empty st pay_world =
   Returns (True, st, pindex, \<lparr>vtxundo = [\<lparr>vprevout = [undo2]\<rparr>]\<rparr>, Map.empty, SetBestBlock (small_hash 100) world3)"
proof -
  have "cache_GetBestBlock tip_best pay_world = (small_hash 99, pay_world)" by (simp add: cache_GetBestBlock_def pay_world_def)
  moreover have "\<not> bu_IsNull (small_hash 100)" by (simp add: bu_IsNull_def small_hash_def)
  moreover have "bu_CompareTo (nChainWork pay_index) (bu_zero WIDTH256) = 0"
    by (simp add: pay_index_def new_CBlockIndex_def bu_CompareTo_def bu_zero_def numeral_eq_Suc)
  ultimately show ?thesis
    using sample_connect_body [of st] by (simp add: ConnectBlock_def script_checks_needed_def GetAncestor_def ancestor_loop.simps Let_def pay_heights_def [abs_def])
qed

lemma pay_world_ok: "top_good pay_world" "map_ok (top_look pay_world)"
proof -
  show "top_good pay_world" using new_top_good [of spent_db] by (simp add: pay_world_def)
  have "coin_ok spent_coins" by (simp add: coin_ok_def)
  moreover have "top_look pay_world k = (if k = small_hash 7 then Some spent_coins else None)" for k
    by (simp add: pay_world_def cache_look_def overlay_def new_CCoinsViewCache_def spent_db_def)
  ultimately show "map_ok (top_look pay_world)" by (auto simp: map_ok_def split: if_splits)
qed

theorem disconnect_inverts_connect_witness:
  "\<exists>pindex w' w2. ConnectBlock small_env (cache_GetCoins db_GetCoins) tip_best pay_heights pay_io pay_block pay_index False Map.empty
      new_CValidationState pay_world =
      Returns (True, new_CValidationState, pindex, \<lparr>vtxundo = [\<lparr>vprevout = [undo2]\<rparr>]\<rparr>, Map.empty, w') \<and>
    DisconnectBlock small_env (cache_GetCoins db_GetCoins) tip_best pindex (Some \<lparr>vtxundo = [\<lparr>vprevout = [undo2]\<rparr>]\<rparr>) pay_block Map.empty w' =
      Returns (True, True, Map.empty, w2) \<and>
    top_look w' (small_hash 7) = None \<and> top_look w2 (small_hash 7) = Some spent_coins"
proof -
  let ?w = "SetBestBlock (small_hash 100) world3"
  obtain p where c: "ConnectBlock small_env (cache_GetCoins db_GetCoins) tip_best pay_heights pay_io pay_block pay_index False Map.empty
      new_CValidationState pay_world =
      Returns (True, new_CValidationState, p, \<lparr>vtxundo = [\<lparr>vprevout = [undo2]\<rparr>]\<rparr>, Map.empty, ?w)" using sample_connects by blast
  have look: "top_look ?w (small_hash 7) = None" "top_look pay_world (small_hash 7) = Some spent_coins"
    by (simp_all add: SetBestBlock_def world3_def pay_world_def cache_look_def overlay_def new_CCoinsViewCache_def spent_db_def coins_IsPruned_def)
  have outs: "vout mint_tx = [new_CTxOut 2000 []]" "vout pay_tx = [new_CTxOut 4000 []]" "\<not> un_fCoinStake undo2"
    by (simp_all add: mint_tx_def pay_tx_def undo2_def)
  have "\<exists>w2. DisconnectBlock small_env (cache_GetCoins db_GetCoins) tip_best p (Some \<lparr>vtxundo = [\<lparr>vprevout = [undo2]\<rparr>]\<rparr>) pay_block
      Map.empty ?w = Returns (True, True, Map.empty, w2) \<and> top_good w2 \<and> top_look w2 = top_look pay_world \<and> cv_hashBlock (snd w2) = small_hash 99"
    by (rule disconnect_inverts_connect [OF c pay_world_ok _ sample_bip30_enforced, of "small_hash 99"]) (simp_all add: no_inputs_def outs whole_outputs_def)
  then obtain w2 where "DisconnectBlock small_env (cache_GetCoins db_GetCoins) tip_best p (Some \<lparr>vtxundo = [\<lparr>vprevout = [undo2]\<rparr>]\<rparr>) pay_block
      Map.empty ?w = Returns (True, True, Map.empty, w2)" "top_look w2 = top_look pay_world"
    by blast
  then show ?thesis using c look by metis
qed

section \<open>Undo records\<close>

text \<open>
  C28: what \<open>DisconnectBlock\<close> puts back for one spent output.  Applying the undo record of \<open>CCoins::Spend\<close> to what is left of
  the coins is always clean and gives back the coins, except that the coins of a coinstake come back without their flag when
  the output spent was their last one, so that its maturity is no longer checked.
\<close>

theorem restored_output_exact:
  assumes "coin_ok c" "coins_Spend out c = Some (c', u)" "live (Some c0) = live (Some (coins_Cleanup c'))"
  shows "fst (restore_output out u c0) \<and>
    coins_Cleanup (snd (restore_output out u c0)) = (if coins_IsPruned c' then c\<lparr>fCoinStake := False\<rparr> else c)"
  by (rule restore_spent_flags [OF assms])

theorem restored_output_exact_witness:
  "\<exists>c' u. coins_Spend \<lparr>op_hash = [], op_n = 10\<rparr> sample_coins = Some (c', u) \<and> fCoinStake sample_coins \<and>
    coins_Cleanup (snd (restore_output \<lparr>op_hash = [], op_n = 10\<rparr> u coins_Clear)) = sample_coins\<lparr>fCoinStake := False\<rparr>"
proof -
  have ok: "coin_ok sample_coins" by (simp add: coin_ok_def sample_coins_def new_CTxOut_def txout_IsNull_def txout_SetNull_def)
  have t: "trim (txout_SetNull # replicate 9 txout_SetNull @ [txout_SetNull]) = []" by (simp add: trim_Nil_iff list_all_iff)
  obtain c' u where s: "coins_Spend \<lparr>op_hash = [], op_n = 10\<rparr> sample_coins = Some (c', u)" "coins_IsPruned c'"
    by (auto simp: t coins_Spend_def sample_coins_def nth_append nth_Cons' new_CTxOut_def txout_IsNull_def Let_def coins_Cleanup_trim
        coins_IsPruned_def list_update_append)
  have "live (Some coins_Clear) = live (Some (coins_Cleanup c'))"
    using s(2) by (simp add: coins_Clear_def coins_Cleanup_trim pruned_iff_trim)
  from restored_output_exact [OF ok s(1) this] s show ?thesis by (auto simp: sample_coins_def)
qed

section \<open>Zerocoin spends\<close>

text \<open>
  C29: a zerocoin spend never connects.  \<open>ConnectBlock\<close> takes its value from the denomination and does not look for its
  inputs in the view, but \<open>UpdateCoins\<close> makes no such exception: it tries to spend the null output point, so that with no
  coins under that hash the transaction, and with it the block, is refused at every height.
\<close>

theorem zerocoin_spend_refused:
  assumes "tx_IsZerocoinSpend tx" "top_good w" "top_look w (op_hash (prevout (hd (vin tx)))) = None"
    and "connect_tx E (cache_GetCoins db_GetCoins) best heights C first tx s st w = Returns (r, st', w')"
  shows "r = None"
proof (rule ccontr)
  assume "r \<noteq> None"
  then obtain s1 where "connect_update E (cache_GetCoins db_GetCoins) C first tx s1 st w = Returns (r, st', w')"
    using assms(1,4) by (auto simp: connect_tx_def connect_value_def Let_def split: if_splits)
  moreover obtain u w1 where "UpdateCoins E (cache_GetCoins db_GetCoins) tx st (cm_height C) w = Returns (False, state_Invalid 0 [] st, u, w1)"
    using tip.zerocoin_spend_fails [OF assms(1-3)] by blast
  ultimately show False using \<open>r \<noteq> None\<close> by (auto simp: connect_update_def obind_Returns Let_def)
qed

definition zerocoin_tx :: CTransaction where
  "zerocoin_tx = \<lparr>tx_nVersion = 1, vin = [new_CTxIn outpoint_SetNull [0xc2] 5], vout = [], tx_nLockTime = 0\<rparr>"

theorem zerocoin_spend_refused_witness:
  "\<exists>st' w'. connect_tx small_env (cache_GetCoins db_GetCoins) tip_best pay_heights pay_mode False zerocoin_tx
     \<lparr>nFees = 0, nSigOps = 0, nValueOut = 0, nValueIn = 0, blockundo = [], checks = []\<rparr> new_CValidationState pay_world = Returns (None, st', w')"
proof -
  have z: "tx_IsZerocoinSpend zerocoin_tx"
    by (simp add: tx_IsZerocoinSpend_def zerocoin_tx_def new_CTxIn_def outpoint_SetNull_def outpoint_IsNull_def IsZerocoinSpend_def
        bu_IsNull_def bu_zero_def list_all_iff)
  have h: "op_hash (prevout (hd (vin zerocoin_tx))) = bu_zero WIDTH256" by (simp add: zerocoin_tx_def new_CTxIn_def outpoint_SetNull_def)
  have l: "top_look pay_world (bu_zero WIDTH256) = None"
    by (simp add: pay_world_def cache_look_def overlay_def new_CCoinsViewCache_def spent_db_def zero_hash)
  have n: "GetLegacySigOpCount zerocoin_tx \<le> 20"
    using sigop_loop_bound [of False OP_INVALIDOPCODE "[0xc2]"]
    by (simp add: GetLegacySigOpCount_def zerocoin_tx_def new_CTxIn_def GetSigOpCount_def)
  have v: "GetValueOut zerocoin_tx = Inr 0" by (simp add: GetValueOut_def zerocoin_tx_def)
  obtain u w1 where "UpdateCoins small_env (cache_GetCoins db_GetCoins) zerocoin_tx new_CValidationState 100 pay_world = Returns (False, state_Invalid 0 [] new_CValidationState, u, w1)"
    using tip.zerocoin_spend_fails [OF z pay_world_ok(1)] h l by metis
  then have "\<exists>r st' w'. connect_tx small_env (cache_GetCoins db_GetCoins) tip_best pay_heights pay_mode False zerocoin_tx
     \<lparr>nFees = 0, nSigOps = 0, nValueOut = 0, nValueIn = 0, blockundo = [], checks = []\<rparr> new_CValidationState pay_world = Returns (r, st', w')"
    using n z v by (simp add: connect_tx_def connect_value_def connect_update_def pay_mode_def Let_def MAX_BLOCK_SIGOPS_CURRENT_def MAX_BLOCK_SIZE_CURRENT_def exception_def)
  then show ?thesis using zerocoin_spend_refused [OF z pay_world_ok(1)] h l by metis
qed

end
