(* ===== verification/Kernel.thy ===== *)
theory Kernel
  imports Connect Pow
begin

text \<open>
  The proof-of-stake kernels (\<open>src/kernel.cpp\<close>): the stake modifier with its selection of blocks, the coin-age kernel
  of blocks before the stake pointer fork, the stake pointer kernel after it, and the modifier checksums.

  The address of a string literal that \<open>ComputeNextStakeModifier\<close> uses as a number, the clock, and what
  \<open>GetTransaction\<close> finds are arguments.  \<open>fTestNet\<close> is never set.  The result of a function that follows pointers is
  an option, \<open>None\<close> when it does not return or follows a pointer out of the index.
\<close>

unbundle bit_operations_syntax

section \<open>The stake modifier\<close>

definition MODIFIER_INTERVAL :: int where "MODIFIER_INTERVAL = 60"
definition MODIFIER_INTERVAL_TESTNET :: int where "MODIFIER_INTERVAL_TESTNET = 60"
definition MODIFIER_INTERVAL_RATIO :: int where "MODIFIER_INTERVAL_RATIO = 3"
definition STAKE_WEIGHT_CAP :: int where "STAKE_WEIGHT_CAP = 50000 * COIN"
definition MASTERNODE_COLLATERAL :: int where "MASTERNODE_COLLATERAL = 3000 * COIN"

definition getIntervalVersion :: "bool \<Rightarrow> int" where
  "getIntervalVersion fTestNet = (if fTestNet then MODIFIER_INTERVAL_TESTNET else MODIFIER_INTERVAL)"

definition GetWeight :: "CChainParams \<Rightarrow> int \<Rightarrow> int \<Rightarrow> int" where
  "GetWeight P nIntervalBeginning nIntervalEnd = nIntervalEnd - nIntervalBeginning - int (nStakeMinAge P)"

partial_function (option) last_modifier_loop :: "block_map \<Rightarrow> bid \<Rightarrow> CBlockIndex option" where
  "last_modifier_loop m p =
     (case m p of None \<Rightarrow> None
      | Some bi \<Rightarrow> (case pprev bi of None \<Rightarrow> Some bi
         | Some q \<Rightarrow> if GeneratedStakeModifier bi then Some bi else last_modifier_loop m q))"

text \<open>The modifier and its time; the inner \<open>None\<close> is the result false.\<close>

definition GetLastStakeModifier :: "block_map \<Rightarrow> bid option \<Rightarrow> (u64 \<times> int) option option" where
  "GetLastStakeModifier m pindex =
     (case pindex of None \<Rightarrow> Some None
      | Some p \<Rightarrow>
        map_option (\<lambda>bi. if \<not> GeneratedStakeModifier bi then None else Some (nStakeModifier bi, bi_GetBlockTime bi))
          (last_modifier_loop m p))"

text \<open>The arithmetic is unsigned, on numbers that never reach the limits; the section is asserted to be in range.\<close>

definition GetStakeModifierSelectionIntervalSection :: "int \<Rightarrow> int" where
  "GetStakeModifierSelectionIntervalSection nSection =
     getIntervalVersion False * 63 div (63 + ((63 - nSection) * (MODIFIER_INTERVAL_RATIO - 1)))"

definition GetStakeModifierSelectionInterval :: int where
  "GetStakeModifierSelectionInterval = (\<Sum>n\<leftarrow>[0..63]. GetStakeModifierSelectionIntervalSection n)"

text \<open>
  The loop over the candidates, with the flags \<open>fFirstRun\<close> and \<open>fModifierV2\<close> and the best selection so far.  The index
  that is looked up is the entry of the candidate's hash; \<open>None\<close> in the result is false.
\<close>

definition selection_hash :: "(bytes \<Rightarrow> base_uint) \<Rightarrow> bool \<Rightarrow> u64 \<Rightarrow> CBlockIndex \<Rightarrow> base_uint" where
  "selection_hash Hash fModifierV2 nStakeModifierPrev pindex =
     (let hashProof = (if fModifierV2 then phashBlock pindex
                       else if bi_IsProofOfStake pindex then bu_zero WIDTH256 else phashBlock pindex);
          hashSelection = Hash (bu_Serialize hashProof @ to_le 8 (unat nStakeModifierPrev))
      in if bi_IsProofOfStake pindex then bu_shr hashSelection 32 else hashSelection)"

fun select_loop ::
  "CChainParams \<Rightarrow> (bytes \<Rightarrow> base_uint) \<Rightarrow> block_map \<Rightarrow> bid list \<Rightarrow> int \<Rightarrow> u64 \<Rightarrow> bool \<Rightarrow> bool \<Rightarrow> (base_uint \<times> CBlockIndex) option \<Rightarrow>
   (int \<times> bid) list \<Rightarrow> CBlockIndex option" where
  "select_loop P Hash m selected stop prev fFirstRun fModifierV2 best [] = map_option snd best"
| "select_loop P Hash m selected stop prev fFirstRun fModifierV2 best ((t, h) # rest) =
     (case m h of None \<Rightarrow> None
      | Some pindex \<Rightarrow>
          if best \<noteq> None \<and> bi_GetBlockTime pindex > stop then map_option snd best
          else let v2 = (if fFirstRun then nHeight pindex \<ge> nModifierUpdateBlock P else fModifierV2)
               in if phashBlock pindex \<in> set selected then select_loop P Hash m selected stop prev False v2 best rest
                  else let hs = selection_hash Hash v2 prev pindex
                       in select_loop P Hash m selected stop prev False v2
                            (case best of None \<Rightarrow> Some (hs, pindex)
                             | Some (hashBest, b) \<Rightarrow> if bu_CompareTo hs hashBest < 0 then Some (hs, pindex) else Some (hashBest, b)) rest)"

definition SelectBlockFromCandidates ::
  "CChainParams \<Rightarrow> (bytes \<Rightarrow> base_uint) \<Rightarrow> block_map \<Rightarrow> (int \<times> bid) list \<Rightarrow> bid list \<Rightarrow> int \<Rightarrow> u64 \<Rightarrow> CBlockIndex option" where
  "SelectBlockFromCandidates P Hash m vSortedByTimestamp selected nSelectionIntervalStop nStakeModifierPrev =
     select_loop P Hash m selected nSelectionIntervalStop nStakeModifierPrev True False None vSortedByTimestamp"

partial_function (option) candidates_loop :: "block_map \<Rightarrow> int \<Rightarrow> bid option \<Rightarrow> (int \<times> bid) list \<Rightarrow> (int \<times> bid) list option" where
  "candidates_loop m start pindex vSorted =
     (case pindex of None \<Rightarrow> Some vSorted
      | Some p \<Rightarrow> (case m p of None \<Rightarrow> None
         | Some bi \<Rightarrow> if bi_GetBlockTime bi \<ge> start then candidates_loop m start (pprev bi) (vSorted @ [(bi_GetBlockTime bi, phashBlock bi)])
                     else Some vSorted))"

text \<open>\<open>sort\<close> on pairs: by time, then by hash as a number.\<close>

definition sort_candidates :: "(int \<times> bid) list \<Rightarrow> (int \<times> bid) list" where
  "sort_candidates xs = sort_key fst (sort_key (\<lambda>(t, h). bu_val h) (rev xs))"

text \<open>The rounds: the number of rounds done, the rounds left, the end of the interval, the bits and the selected blocks.\<close>

fun modifier_rounds ::
  "CChainParams \<Rightarrow> (bytes \<Rightarrow> base_uint) \<Rightarrow> block_map \<Rightarrow> (int \<times> bid) list \<Rightarrow> u64 \<Rightarrow> nat \<Rightarrow> nat \<Rightarrow> int \<Rightarrow> u64 \<Rightarrow> bid list \<Rightarrow> u64 option" where
  "modifier_rounds P Hash m vSorted prev nRound 0 stop new selected = Some new"
| "modifier_rounds P Hash m vSorted prev nRound (Suc k) stop new selected =
     (let stop = stop + GetStakeModifierSelectionIntervalSection (int nRound)
      in case SelectBlockFromCandidates P Hash m vSorted selected stop prev of None \<Rightarrow> None
         | Some pindex \<Rightarrow>
             modifier_rounds P Hash m vSorted prev (nRound + 1) k stop
               (new OR push_bit nRound (ucast (GetStakeEntropyBit pindex))) (phashBlock pindex # selected))"

text \<open>The result, \<open>nStakeModifier\<close> and \<open>fGeneratedStakeModifier\<close>.\<close>

definition ComputeNextStakeModifier ::
  "CChainParams \<Rightarrow> (bytes \<Rightarrow> base_uint) \<Rightarrow> u64 \<Rightarrow> block_map \<Rightarrow> bid option \<Rightarrow> (bool \<times> u64 \<times> bool) option" where
  "ComputeNextStakeModifier P Hash literal m pindexPrev =
     (case pindexPrev of None \<Rightarrow> Some (True, 0, True)
      | Some p \<Rightarrow> (case m p of None \<Rightarrow> None
      | Some prev \<Rightarrow>
         if nHeight prev = 0 then Some (True, literal, True)
         else case GetLastStakeModifier m (Some p) of
           None \<Rightarrow> None
         | Some None \<Rightarrow> Some (False, 0, False)
         | Some (Some (modifier, time)) \<Rightarrow>
             let I = getIntervalVersion False
             in if time div I \<ge> bi_GetBlockTime prev div I then Some (True, modifier, False)
                else let start = (bi_GetBlockTime prev div I) * I - GetStakeModifierSelectionInterval
                     in case candidates_loop m start (Some p) [] of None \<Rightarrow> None
                        | Some cands \<Rightarrow>
                            (let vSorted = sort_candidates cands
                             in case modifier_rounds P Hash m vSorted modifier 0 (min 64 (length vSorted)) start 0 [] of
                                  None \<Rightarrow> Some (False, modifier, False)
                                | Some new \<Rightarrow> Some (True, new, True))))"

section \<open>The kernel of coin age\<close>

text \<open>
  The loop on \<open>pindex\<close>, \<open>pindexNext\<close> and \<open>nStakeModifierTime\<close>; the result is the entry whose modifier is taken, with the
  height and the time that are reported.
\<close>

partial_function (option) kernel_modifier_loop ::
  "block_map \<Rightarrow> CChain \<Rightarrow> int \<Rightarrow> CBlockIndex \<Rightarrow> bid option \<Rightarrow> int \<Rightarrow> int \<Rightarrow> (CBlockIndex \<times> int \<times> int) option" where
  "kernel_modifier_loop m vChain limit pindex pindexNext height time =
     (if time < limit then
        (case pindexNext of None \<Rightarrow> Some (pindex, height, time)
         | Some n \<Rightarrow> (case m n of None \<Rightarrow> None
            | Some bi \<Rightarrow>
                if GeneratedStakeModifier bi
                then kernel_modifier_loop m vChain limit bi (chain_nth vChain (nHeight bi + 1)) (nHeight bi) (bi_GetBlockTime bi)
                else kernel_modifier_loop m vChain limit bi (chain_nth vChain (nHeight bi + 1)) height time))
      else Some (pindex, height, time))"

definition GetKernelStakeModifier :: "block_map \<Rightarrow> CChain \<Rightarrow> base_uint \<Rightarrow> (u64 \<times> int \<times> int) option option" where
  "GetKernelStakeModifier m vChain hashBlockFrom =
     (case m hashBlockFrom of None \<Rightarrow> Some None
      | Some from \<Rightarrow>
          map_option (\<lambda>(bi, height, time). Some (nStakeModifier bi, height, time))
            (kernel_modifier_loop m vChain (bi_GetBlockTime from + GetStakeModifierSelectionInterval) from
               (chain_nth vChain (nHeight from + 1)) (nHeight from) (bi_GetBlockTime from)))"

definition stakeHash :: "(bytes \<Rightarrow> base_uint) \<Rightarrow> u32 \<Rightarrow> bytes \<Rightarrow> u32 \<Rightarrow> base_uint \<Rightarrow> u32 \<Rightarrow> base_uint" where
  "stakeHash Hash nTimeTx ss prevoutIndex prevoutHash nTimeBlockFrom =
     Hash (ss @ Serialize_u32 nTimeBlockFrom @ Serialize_u32 prevoutIndex @ bu_Serialize prevoutHash @ Serialize_u32 nTimeTx)"

definition stakeTargetHit :: "CChainParams \<Rightarrow> base_uint \<Rightarrow> int \<Rightarrow> base_uint \<Rightarrow> int \<Rightarrow> bool option" where
  "stakeTargetHit P hashProof valueIn bnTargetPerCoinDay height =
     (let nEffectiveValue = (if height \<ge> nStakePointerForkHeight P \<and> valueIn > STAKE_WEIGHT_CAP then STAKE_WEIGHT_CAP else valueIn)
      in case bu_div (bu_of_uint64 WIDTH256 (of_int nEffectiveValue)) (bu_of_uint64 WIDTH256 100) of
           None \<Rightarrow> None
         | Some bnCoinDayWeight \<Rightarrow> Some (bu_CompareTo hashProof (bu_mul bnCoinDayWeight bnTargetPerCoinDay) < 0))"

text \<open>
  The search of a staker over the times of the hash drift, which holds the lock throughout, so that the height of the chain
  does not change: success with the time, and the last hash.
\<close>

fun drift_search ::
  "CChainParams \<Rightarrow> (bytes \<Rightarrow> base_uint) \<Rightarrow> bytes \<Rightarrow> COutPoint \<Rightarrow> u32 \<Rightarrow> int \<Rightarrow> base_uint \<Rightarrow> int \<Rightarrow> u32 \<Rightarrow> u32 \<Rightarrow> nat \<Rightarrow> nat \<Rightarrow> base_uint \<Rightarrow>
   (u32 option \<times> base_uint) option" where
  "drift_search P Hash ss out timeFrom valueIn target height nTimeTx nHashDrift i 0 hashProof = Some (None, hashProof)"
| "drift_search P Hash ss out timeFrom valueIn target height nTimeTx nHashDrift i (Suc k) hashProof =
     (let nTryTime = nTimeTx + nHashDrift - of_nat i;
          hashProof = stakeHash Hash nTryTime ss (op_n out) (op_hash out) timeFrom
      in case stakeTargetHit P hashProof valueIn target height of
           None \<Rightarrow> None
         | Some False \<Rightarrow> drift_search P Hash ss out timeFrom valueIn target height nTimeTx nHashDrift (i + 1) k hashProof
         | Some True \<Rightarrow> Some (Some nTryTime, hashProof))"

text \<open>The result, \<open>nTimeTx\<close> and \<open>hashProofOfStake\<close>; \<open>mapHashedBlocks\<close> is only a record for the user interface.\<close>

definition CheckStakeKernelHashImpl ::
  "CChainParams \<Rightarrow> (bytes \<Rightarrow> base_uint) \<Rightarrow> block_map \<Rightarrow> CChain \<Rightarrow> u32 \<Rightarrow> base_uint \<Rightarrow> u32 \<Rightarrow> int \<Rightarrow> COutPoint \<Rightarrow> u32 \<Rightarrow> u32 \<Rightarrow> bool \<Rightarrow> base_uint \<Rightarrow>
   int \<Rightarrow> (bool \<times> u32 \<times> base_uint) option" where
  "CheckStakeKernelHashImpl P Hash m vChain nBits hashBlockFrom nTimeBlockFrom valueIn staked nTimeTx nHashDrift fCheck hashProof height =
     (if nTimeTx < nTimeBlockFrom then Some (False, nTimeTx, hashProof)
      else if nTimeBlockFrom + of_nat (nStakeMinAge P) > nTimeTx then Some (False, nTimeTx, hashProof)
      else let bnTargetPerCoinDay = fst (SetCompact nBits)
           in case GetKernelStakeModifier m vChain hashBlockFrom of
                None \<Rightarrow> None
              | Some None \<Rightarrow> Some (False, nTimeTx, hashProof)
              | Some (Some (modifier, _, _)) \<Rightarrow>
                  let ss = to_le 8 (unat modifier)
                  in if fCheck
                     then (let hashProof = stakeHash Hash nTimeTx ss (op_n staked) (op_hash staked) nTimeBlockFrom
                           in map_option (\<lambda>ok. (ok, nTimeTx, hashProof))
                                (stakeTargetHit P hashProof valueIn bnTargetPerCoinDay height))
                     else map_option (\<lambda>(t, h). (t \<noteq> None, case t of None \<Rightarrow> nTimeTx | Some t \<Rightarrow> t, h))
                            (drift_search P Hash ss staked nTimeBlockFrom valueIn bnTargetPerCoinDay height nTimeTx nHashDrift 0
                               (unat nHashDrift) hashProof))"

text \<open>\<open>found\<close> is what \<open>GetTransaction\<close> finds for the staked output: the transaction and the hash of its block.\<close>

definition CheckProofOfStake ::
  "node_env \<Rightarrow> block_map \<Rightarrow> CChain \<Rightarrow> (CTransaction \<times> base_uint) option \<Rightarrow> CBlock \<Rightarrow> base_uint \<Rightarrow> int \<Rightarrow> (bool \<times> base_uint) outcome" where
  "CheckProofOfStake E m vChain found block hashProof height =
     (let tx = vtx block ! 1
      in if \<not> IsCoinStake tx then Returns (False, hashProof)
         else case found of None \<Rightarrow> Returns (False, hashProof)
         | Some (txPrev, hashBlock) \<Rightarrow>
             let out = prevout (vin tx ! 0); n = unat (op_n out)
             in if n \<ge> length (vout txPrev) then Returns (False, hashProof)
                else obind (run_check E \<lparr>sc_scriptPubKey = scriptPubKey (vout txPrev ! n), sc_ptxTo = tx, sc_nIn = 0,
                              sc_nFlags = STANDARD_SCRIPT_VERIFY_FLAGS\<rparr>) (\<lambda>r.
                  case r of Inl _ \<Rightarrow> Returns (False, hashProof)
                  | Inr _ \<Rightarrow>
                     (case m hashBlock of None \<Rightarrow> Returns (False, hashProof)
                      | Some pindex \<Rightarrow>
                         obind (assertion (CheckStakeKernelHashImpl (ne_params E) (ne_Hash E) m vChain (hd_nBits block) (phashBlock pindex)
                           (bi_nTime pindex) (nValue (vout txPrev ! n)) out (hd_nTime block) 0 True hashProof height))
                           (\<lambda>(ok, t, hashProof). Returns (ok, hashProof)))))"

section \<open>The stake pointer kernel\<close>

text \<open>The result and \<open>hashProofOfStake\<close>, which is set once the time is in its bounds.\<close>

definition pointer_kernel_hash :: "(bytes \<Rightarrow> base_uint) \<Rightarrow> COutPoint \<Rightarrow> base_uint \<Rightarrow> CBlockIndex \<Rightarrow> u32 \<Rightarrow> base_uint" where
  "pointer_kernel_hash Hash outpoint stakeModifier pindexFrom nTimeStake =
     Hash (bu_Serialize (op_hash outpoint) @ Serialize_u32 (op_n outpoint) @ bu_Serialize stakeModifier @
           Serialize_int 8 (bi_GetBlockTime pindexFrom) @ Serialize_u32 nTimeStake)"

definition CheckStakePointerKernelHash ::
  "CChainParams \<Rightarrow> (bytes \<Rightarrow> base_uint) \<Rightarrow> int \<Rightarrow> block_map \<Rightarrow> u32 \<Rightarrow> COutPoint \<Rightarrow> CBlockIndex \<Rightarrow> CBlockIndex \<Rightarrow> u32 \<Rightarrow> base_uint \<Rightarrow>
   (bool \<times> base_uint) option" where
  "CheckStakePointerKernelHash P Hash adjusted m nBits outpoint pindexFrom pindexPrev nTimeStake hashProof =
     (let nModifierHeight = nHeight pindexPrev - nKernelModifierOffset P
      in if nModifierHeight < 0 then Some (False, hashProof)
         else case GetAncestor m (phashBlock pindexPrev) nModifierHeight of
           None \<Rightarrow> None
         | Some None \<Rightarrow> Some (False, hashProof)
         | Some (Some a) \<Rightarrow>
         (case m a of None \<Rightarrow> None
          | Some pindexModifier \<Rightarrow>
             if int (unat nTimeStake) \<le> GetMedianTimePast m (phashBlock pindexPrev) then Some (False, hashProof)
             else if int (unat nTimeStake) > adjusted + 60 then Some (False, hashProof)
             else let hashProof = pointer_kernel_hash Hash outpoint (phashBlock pindexModifier) pindexFrom nTimeStake;
                      bnTarget = fst (SetCompact nBits);
                      bnWeight = bu_of_uint64 WIDTH256 (of_int (MASTERNODE_COLLATERAL div 100))
                  in case bu_div hashProof bnWeight of None \<Rightarrow> None
                     | Some q \<Rightarrow> Some (\<not> bu_CompareTo q bnTarget \<ge> 0, hashProof)))"

definition CheckCoinStakeTimestamp :: "int \<Rightarrow> int \<Rightarrow> bool" where
  "CheckCoinStakeTimestamp nTimeBlock nTimeTx \<longleftrightarrow> nTimeBlock = nTimeTx"

section \<open>Checksums of modifiers\<close>

definition GetStakeModifierChecksum :: "CChainParams \<Rightarrow> (bytes \<Rightarrow> base_uint) \<Rightarrow> block_map \<Rightarrow> CBlockIndex \<Rightarrow> u32 option" where
  "GetStakeModifierChecksum P Hash m pindex =
     (if pprev pindex = None \<and> phashBlock pindex \<noteq> hashGenesisBlock P then None
      else case (case pprev pindex of None \<Rightarrow> Some [] | Some q \<Rightarrow> map_option (\<lambda>bi. Serialize_u32 (nStakeModifierChecksum bi)) (m q)) of
             None \<Rightarrow> None
           | Some ss \<Rightarrow>
               Some (ucast (bu_Get64 (bu_shr (Hash (ss @ Serialize_u32 (nFlags pindex) @ bu_Serialize (hashProofOfStake pindex) @
                 to_le 8 (unat (nStakeModifier pindex)))) (256 - 32)) 0)))"

definition mapStakeModifierCheckpoints :: "int \<Rightarrow> u32 option" where
  "mapStakeModifierCheckpoints = [0 \<mapsto> 0xfd11f4e7]"

definition CheckStakeModifierCheckpoints :: "int \<Rightarrow> u32 \<Rightarrow> bool" where
  "CheckStakeModifierCheckpoints height checksum =
     (case mapStakeModifierCheckpoints height of None \<Rightarrow> True | Some c \<Rightarrow> checksum = c)"

section \<open>The targets\<close>

lemma weight_val: "bu_val (bu_of_uint64 WIDTH256 (of_int (MASTERNODE_COLLATERAL div 100))) = 3000000000"
  by (simp add: bu_of_uint64_val MASTERNODE_COLLATERAL_def COIN_def)

lemma pointer_target_test:
  assumes "length h = WIDTH256"
  shows "\<exists>q. bu_div h (bu_of_uint64 WIDTH256 (of_int (MASTERNODE_COLLATERAL div 100))) = Some q \<and>
    (\<not> bu_CompareTo q (fst (SetCompact nBits)) \<ge> 0 \<longleftrightarrow> bu_val h < 3000000000 * bu_val (fst (SetCompact nBits)))"
proof -
  let ?w = "bu_of_uint64 WIDTH256 (of_int (MASTERNODE_COLLATERAL div 100))"
  obtain q where q: "bu_div h ?w = Some q" "bu_val q = bu_val h div 3000000000" "length q = WIDTH256"
    using bu_div_val [of h ?w] assms weight_val by auto
  then show ?thesis by (simp add: bu_CompareTo_val div_less_iff_less_mult mult.commute)
qed

lemma length_bu_mul:
  assumes "length a = length b"
  shows "length (bu_mul a b) = length a"
proof -
  have "length (foldl (\<lambda>pn j. take j pn @ bu_mul_row 0 (a ! j) (drop j pn) b) (bu_zero (length a)) [0..<n]) = length b"
    if "n \<le> length a" for n
    using that assms by (induction n) auto
  then show ?thesis using assms by (simp add: bu_mul_def)
qed

definition stake_weight :: "CChainParams \<Rightarrow> int \<Rightarrow> int \<Rightarrow> int" where
  "stake_weight P valueIn height = (if height \<ge> nStakePointerForkHeight P then min valueIn STAKE_WEIGHT_CAP else valueIn)"

lemma stakeTargetHit_val:
  assumes "length h = WIDTH256" "length T = WIDTH256" "0 \<le> valueIn" "valueIn < 2 ^ 64"
  shows "stakeTargetHit P h valueIn T height =
    Some (bu_val h < (nat (stake_weight P valueIn height) div 100 * bu_val T) mod 2 ^ 256)"
proof -
  define v where "v = (if height \<ge> nStakePointerForkHeight P \<and> valueIn > STAKE_WEIGHT_CAP then STAKE_WEIGHT_CAP else valueIn)"
  have w: "stake_weight P valueIn height = v" "0 \<le> v" "v < 2 ^ 64"
    using assms(3,4) by (auto simp: stake_weight_def v_def STAKE_WEIGHT_CAP_def COIN_def)
  have "nat (uint (of_int v :: u64)) = nat v" using w(2,3) by (simp add: unsigned_of_int take_bit_int_eq_self del: nat_uint_eq)
  then have val: "bu_val (bu_of_uint64 WIDTH256 (of_int v)) = nat v" by (simp add: bu_of_uint64_val)
  have "bu_val (bu_of_uint64 WIDTH256 100) = 100" by (simp add: bu_of_uint64_val)
  then obtain q where q: "bu_div (bu_of_uint64 WIDTH256 (of_int v)) (bu_of_uint64 WIDTH256 100) = Some q" "bu_val q = nat v div 100" "length q = WIDTH256"
    using bu_div_val [of "bu_of_uint64 WIDTH256 (of_int v)" "bu_of_uint64 WIDTH256 100"] val by auto
  have "bu_val (bu_mul q T) = (nat v div 100 * bu_val T) mod 2 ^ 256" using bu_mul_val [of q T] q(2,3) assms(2) by simp
  moreover have "length (bu_mul q T) = WIDTH256" using length_bu_mul [of q T] q(3) assms(2) by simp
  ultimately have "(bu_CompareTo h (bu_mul q T) < 0) = (bu_val h < (nat v div 100 * bu_val T) mod 2 ^ 256)"
    using bu_CompareTo_val [of h "bu_mul q T"] assms(1) by simp
  moreover have "stakeTargetHit P h valueIn T height = Some (bu_CompareTo h (bu_mul q T) < 0)"
    unfolding stakeTargetHit_def Let_def v_def [symmetric] q(1) by simp
  ultimately show ?thesis using w(1) by simp
qed

section \<open>The stake modifier\<close>

definition keyed :: "block_map \<Rightarrow> bool" where
  "keyed m \<longleftrightarrow> (\<forall>p bi. m p = Some bi \<longrightarrow> phashBlock bi = p)"

text \<open>Induction along \<open>pprev\<close> in a well-formed index.\<close>

lemma pprev_induct [consumes 2, case_names root step]:
  assumes "wf_index m" "m p = Some bi"
    and root: "\<And>p bi. m p = Some bi \<Longrightarrow> pprev bi = None \<Longrightarrow> Q p bi"
    and step: "\<And>p bi q bj. m p = Some bi \<Longrightarrow> pprev bi = Some q \<Longrightarrow> m q = Some bj \<Longrightarrow> nHeight bi = nHeight bj + 1 \<Longrightarrow> Q q bj \<Longrightarrow> Q p bi"
  shows "Q p bi"
  using assms(2)
proof (induction "nat (nHeight bi)" arbitrary: p bi)
  case 0
  then have "nHeight bi = 0" using wf_height [OF assms(1)] by force
  then show ?case using root 0 wf_root [OF assms(1)] by blast
next
  case (Suc n)
  then have h: "0 < nHeight bi" by simp
  obtain q bj where "pprev bi = Some q" "m q = Some bj" "nHeight bi = nHeight bj + 1" using wf_prev [OF assms(1) Suc.prems h] by blast
  then show ?case using Suc step by simp
qed

text \<open>The blocks one above genesis have a generated modifier; the genesis block itself has none.\<close>

definition first_generated :: "block_map \<Rightarrow> bid \<Rightarrow> bool" where
  "first_generated m p \<longleftrightarrow> (\<forall>q\<in>ancestors m p. \<forall>bq. m q = Some bq \<longrightarrow> nHeight bq = 1 \<longrightarrow> GeneratedStakeModifier bq)"

lemma last_modifier_returns:
  assumes "wf_index m" "m p = Some bi" "first_generated m p" "nHeight bi \<noteq> 0"
  shows "\<exists>bj. last_modifier_loop m p = Some bj \<and> GeneratedStakeModifier bj"
  using assms
proof (induction rule: pprev_induct)
  case (root p bi)
  then show ?case using wf_root [OF assms(1)] by blast
next
  case (step p bi q bj)
  have g: "nHeight bi = 1 \<longrightarrow> GeneratedStakeModifier bi" "first_generated m q"
    using step.prems(1) step(1) ancestors_step [of m p bi q, OF step(1,2)] by (simp_all add: first_generated_def)
  show ?case
  proof (cases "GeneratedStakeModifier bi")
    case False
    then have "nHeight bj \<noteq> 0" using g(1) step(4) by auto
    then show ?thesis using step.IH g(2) False step(1,2) by (simp add: last_modifier_loop.simps [of m p])
  qed (use step(1,2) in \<open>simp add: last_modifier_loop.simps [of m p]\<close>)
qed

lemma candidates_return:
  assumes "wf_index m" "m p = Some bi" "keyed m"
  shows "\<exists>cs. candidates_loop m start (Some p) acc = Some (acc @ cs) \<and> distinct (map snd cs) \<and>
    (\<forall>c\<in>set cs. \<exists>bj. m (snd c) = Some bj \<and> fst c = bi_GetBlockTime bj \<and> nHeight bj \<le> nHeight bi) \<and>
    (bi_GetBlockTime bi \<ge> start \<longrightarrow> cs \<noteq> [])"
  using assms(1,2)
proof (induction arbitrary: acc rule: pprev_induct)
  case (root p bi)
  then show ?case using assms(3)
    by (cases "bi_GetBlockTime bi \<ge> start") (auto simp: candidates_loop.simps [of m start] keyed_def intro: exI [of _ "[]"])
next
  case (step p bi q bj)
  show ?case
  proof (cases "bi_GetBlockTime bi \<ge> start")
    case True
    from step.IH [of "acc @ [(bi_GetBlockTime bi, p)]"] obtain cs where
      cs: "candidates_loop m start (Some q) (acc @ [(bi_GetBlockTime bi, p)]) = Some ((acc @ [(bi_GetBlockTime bi, p)]) @ cs)"
        "distinct (map snd cs)" "\<forall>c\<in>set cs. \<exists>bk. m (snd c) = Some bk \<and> fst c = bi_GetBlockTime bk \<and> nHeight bk \<le> nHeight bj"
      by blast
    have "p \<notin> snd ` set cs"
    proof
      assume "p \<in> snd ` set cs"
      then obtain c where "c \<in> set cs" "snd c = p" by auto
      then show False using cs(3) step.hyps(1,4) by fastforce
    qed
    moreover have "phashBlock bi = p" using step.hyps(1) assms(3) by (simp add: keyed_def)
    ultimately show ?thesis using True cs step.hyps
      by (intro exI [of _ "(bi_GetBlockTime bi, p) # cs"]) (auto simp: candidates_loop.simps [of m start "Some p"])
  qed (use step.hyps in \<open>auto simp: candidates_loop.simps [of m start "Some p"] intro: exI [of _ "[]"]\<close>)
qed

lemma select_returns:
  assumes "\<forall>c\<in>set cs. m (snd c) \<noteq> None" "keyed m" "\<forall>hb bi. best = Some (hb, bi) \<longrightarrow> phashBlock bi \<in> C \<and> phashBlock bi \<notin> set sel"
    "best \<noteq> None \<or> (\<exists>c\<in>set cs. snd c \<notin> set sel)" "snd ` set cs \<subseteq> C"
  shows "\<exists>bi. select_loop P Hash m sel stop prev first v2 best cs = Some bi \<and> phashBlock bi \<in> C \<and> phashBlock bi \<notin> set sel"
  using assms
proof (induction cs arbitrary: first v2 best)
  case (Cons c cs)
  obtain t h where c: "c = (t, h)" by (cases c)
  then obtain bi where bi: "m h = Some bi" using Cons.prems(1) by auto
  then have k: "phashBlock bi = h" using Cons.prems(2) by (simp add: keyed_def)
  show ?case
  proof (cases "best \<noteq> None \<and> bi_GetBlockTime bi > stop")
    case True
    then show ?thesis using Cons.prems(3) bi by (auto simp: c)
  next
    case False
    define w where "w = (if first then nHeight bi \<ge> nModifierUpdateBlock P else v2)"
    show ?thesis
    proof (cases "h \<in> set sel")
      case True
      then have "\<exists>bk. select_loop P Hash m sel stop prev False w best cs = Some bk \<and> phashBlock bk \<in> C \<and> phashBlock bk \<notin> set sel"
        using Cons.prems by (intro Cons.IH) (auto simp: c)
      then show ?thesis using False bi k True by (auto simp: c w_def Let_def)
    next
      case new: False
      define best' where "best' = (case best of None \<Rightarrow> Some (selection_hash Hash w prev bi, bi)
        | Some (hashBest, b) \<Rightarrow> if bu_CompareTo (selection_hash Hash w prev bi) hashBest < 0 then Some (selection_hash Hash w prev bi, bi) else Some (hashBest, b))"
      have "\<exists>bk. select_loop P Hash m sel stop prev False w best' cs = Some bk \<and> phashBlock bk \<in> C \<and> phashBlock bk \<notin> set sel"
        using Cons.prems new k by (intro Cons.IH) (auto simp: c best'_def split: option.splits if_splits)
      moreover have "select_loop P Hash m sel stop prev first v2 best (c # cs) = select_loop P Hash m sel stop prev False w best' cs"
        using False bi k new by (cases best) (auto simp: c w_def Let_def best'_def)
      ultimately show ?thesis by simp
    qed
  qed
qed auto

lemma rounds_return:
  assumes "\<forall>c\<in>set cs. m (snd c) \<noteq> None" "keyed m" "distinct (map snd cs)" "distinct sel" "set sel \<subseteq> snd ` set cs"
    "length sel + k \<le> length cs"
  shows "\<exists>v. modifier_rounds P Hash m cs prev n k stop new sel = Some v"
  using assms(4-6)
proof (induction k arbitrary: n stop new sel)
  case (Suc k)
  have card: "card (snd ` set cs) = length cs" using assms(3) by (metis distinct_card length_map set_map)
  have "\<exists>c\<in>set cs. snd c \<notin> set sel"
  proof (rule ccontr)
    assume "\<not> ?thesis"
    then have "snd ` set cs \<subseteq> set sel" by auto
    then have "card (snd ` set cs) \<le> length sel" using card_mono [of "set sel"] card_length [of sel] by (meson List.finite_set le_trans)
    then show False using card Suc.prems(3) by simp
  qed
  then obtain bi where bi: "SelectBlockFromCandidates P Hash m cs sel (stop + GetStakeModifierSelectionIntervalSection (int n)) prev = Some bi"
      "phashBlock bi \<in> snd ` set cs" "phashBlock bi \<notin> set sel"
    using select_returns [of cs m None "snd ` set cs" sel] assms(1,2) unfolding SelectBlockFromCandidates_def by blast
  then show ?case using Suc.IH [of "phashBlock bi # sel"] Suc.prems by (simp add: Let_def)
qed simp

lemma sort_candidates_props: "set (sort_candidates cs) = set cs" "length (sort_candidates cs) = length cs"
  "distinct (map snd (sort_candidates cs)) = distinct (map snd cs)"
proof -
  show "set (sort_candidates cs) = set cs" "length (sort_candidates cs) = length cs" by (simp_all add: sort_candidates_def)
  then have "set (map snd (sort_candidates cs)) = set (map snd cs)" "length (map snd (sort_candidates cs)) = length (map snd cs)" by simp_all
  then show "distinct (map snd (sort_candidates cs)) = distinct (map snd cs)" by (metis card_distinct distinct_card)
qed

lemma pointer_kernel_spec:
  assumes "wf_index m" "m (phashBlock prev) = Some prev" "\<And>s. length (Hash s) = WIDTH256" "0 \<le> nKernelModifierOffset P"
  shows "\<exists>ok h. CheckStakePointerKernelHash P Hash adjusted m nBits out from prev t h0 = Some (ok, h) \<and>
    (ok \<longleftrightarrow> (\<exists>a bm. walk m (nat (nKernelModifierOffset P)) (phashBlock prev) = Some a \<and> m a = Some bm \<and>
       GetMedianTimePast m (phashBlock prev) < int (unat t) \<and> int (unat t) \<le> adjusted + 60 \<and>
       bu_val (pointer_kernel_hash Hash out (phashBlock bm) from t) < 3000000000 * bu_val (fst (SetCompact nBits))))"
proof (cases "nHeight prev - nKernelModifierOffset P < 0")
  case True
  then have "walk m (nat (nKernelModifierOffset P)) (phashBlock prev) = None" using walk_beyond [OF assms(1,2)] by simp
  then show ?thesis using True by (auto simp: CheckStakePointerKernelHash_def)
next
  case False
  then obtain a bm where a: "GetAncestor m (phashBlock prev) (nHeight prev - nKernelModifierOffset P) = Some (Some a)" "m a = Some bm"
      "walk m (nat (nKernelModifierOffset P)) (phashBlock prev) = Some a"
    using GetAncestor_walk [OF assms(1,2), of "nHeight prev - nKernelModifierOffset P"]
      walk_Some [OF assms(1,2), of "nat (nKernelModifierOffset P)"] assms(4) by auto
  obtain q where "bu_div (pointer_kernel_hash Hash out (phashBlock bm) from t) (bu_of_uint64 WIDTH256 (of_int (MASTERNODE_COLLATERAL div 100))) = Some q"
      "(\<not> bu_CompareTo q (fst (SetCompact nBits)) \<ge> 0) = (bu_val (pointer_kernel_hash Hash out (phashBlock bm) from t) < 3000000000 * bu_val (fst (SetCompact nBits)))"
    using pointer_target_test [of "pointer_kernel_hash Hash out (phashBlock bm) from t" nBits] assms(3) by (auto simp: pointer_kernel_hash_def)
  then show ?thesis using a False by (simp add: CheckStakePointerKernelHash_def Let_def)
qed

section \<open>Properties\<close>

text \<open>
  C30: the stake pointer kernel.  In a well-formed index the check always returns, and it accepts exactly when the block
  \<open>KernelModifierOffset\<close> steps back from the parent exists, the time is after the median time past and at most a minute
  ahead of the clock, and the kernel hash is below the exact product of the collateral's weight and the target, although
  that product may not fit the 256 bits of the code's integers.
\<close>

theorem pointer_kernel_exact:
  assumes "wf_index m" "m (phashBlock prev) = Some prev" "\<And>s. length (Hash s) = WIDTH256" "0 \<le> nKernelModifierOffset P"
  shows "\<exists>ok h. CheckStakePointerKernelHash P Hash adjusted m nBits out from prev t h0 = Some (ok, h) \<and>
    (ok \<longleftrightarrow> (\<exists>a bm. walk m (nat (nKernelModifierOffset P)) (phashBlock prev) = Some a \<and> m a = Some bm \<and>
       GetMedianTimePast m (phashBlock prev) < int (unat t) \<and> int (unat t) \<le> adjusted + 60 \<and>
       bu_val (pointer_kernel_hash Hash out (phashBlock bm) from t) < 3000000000 * bu_val (fst (SetCompact nBits))))"
  by (rule pointer_kernel_spec [OF assms])

definition kernel_index :: block_map where
  "kernel_index = [[0] \<mapsto> (sample_entry [0] None None 0)\<lparr>nFlags := 4\<rparr>, [1] \<mapsto> sample_entry [1] (Some [0]) (Some [0]) 1]"

lemma kernel_index_ok: "wf_index kernel_index" "keyed kernel_index"
  "kernel_index [1] = Some (sample_entry [1] (Some [0]) (Some [0]) 1)"
  "kernel_index [0] = Some ((sample_entry [0] None None 0)\<lparr>nFlags := 4\<rparr>)"
  by (auto simp: wf_index_def kernel_index_def sample_entry_def wf_entry_def GetSkipHeight_def keyed_def new_CBlockIndex_def split: if_splits)

theorem pointer_kernel_exact_witness:
  "CheckStakePointerKernelHash ((CMainParams [])\<lparr>nKernelModifierOffset := 1\<rparr>) (\<lambda>_. bu_zero WIDTH256) 0 kernel_index 0x01010000 outpoint_SetNull
     (sample_entry [1] (Some [0]) (Some [0]) 1) (sample_entry [1] (Some [0]) (Some [0]) 1) 5 [] = Some (True, bu_zero WIDTH256)"
proof -
  let ?P = "(CMainParams [])\<lparr>nKernelModifierOffset := 1\<rparr>" and ?b = "sample_entry [1] (Some [0]) (Some [0]) 1"
  have h: "phashBlock ?b = [1]" by (simp add: sample_entry_def new_CBlockIndex_def)
  have w: "walk kernel_index 1 [1] = Some [0]" by (simp add: kernel_index_ok sample_entry_def)
  have mtp: "GetMedianTimePast kernel_index [1] = 0"
    by (simp add: GetMedianTimePast_def nMedianTimeSpan_def kernel_index_ok sample_entry_def new_CBlockIndex_def bi_GetBlockTime_def
        block_SetNull_def block_of_header_def header_SetNull_def CBlockHeader.extend_def numeral_eq_Suc)
  have "fst (SetCompact 0x01010000) = bu_of_uint64 WIDTH256 1" by (simp add: SetCompact_def Let_def)
  then have t: "bu_val (fst (SetCompact 0x01010000)) = 1" by (simp add: bu_of_uint64_val)
  obtain ok hp where c: "CheckStakePointerKernelHash ?P (\<lambda>_. bu_zero WIDTH256) 0 kernel_index 0x01010000 outpoint_SetNull ?b ?b 5 [] = Some (ok, hp)"
    and ok: "ok \<longleftrightarrow> (\<exists>a bm. walk kernel_index (nat (nKernelModifierOffset ?P)) (phashBlock ?b) = Some a \<and> kernel_index a = Some bm \<and>
       GetMedianTimePast kernel_index (phashBlock ?b) < int (unat (5 :: u32)) \<and> int (unat (5 :: u32)) \<le> 0 + 60 \<and>
       bu_val (pointer_kernel_hash (\<lambda>_. bu_zero WIDTH256) outpoint_SetNull (phashBlock bm) ?b 5) < 3000000000 * bu_val (fst (SetCompact 0x01010000)))"
    using pointer_kernel_exact [of kernel_index ?b "\<lambda>_. bu_zero WIDTH256" ?P 0 "0x01010000" outpoint_SetNull ?b 5 "[]"] kernel_index_ok h by auto
  have ok using ok w mtp t h kernel_index_ok by (simp add: pointer_kernel_hash_def)
  moreover have "hp = bu_zero WIDTH256" using c \<open>ok\<close>
    by (auto simp: CheckStakePointerKernelHash_def Let_def pointer_kernel_hash_def split: if_splits option.splits)
  ultimately show ?thesis using c by simp
qed

lemma next_modifier_returns:
  assumes "wf_index m" "keyed m" "m p = Some prev" "first_generated m p"
  shows "\<exists>modifier generated. ComputeNextStakeModifier P Hash literal m (Some p) = Some (True, modifier, generated) \<and>
    (nHeight prev = 0 \<longrightarrow> generated)"
proof (cases "nHeight prev = 0")
  case True
  then show ?thesis using assms(3) by (auto simp: ComputeNextStakeModifier_def)
next
  case False
  obtain bj where l: "last_modifier_loop m p = Some bj" "GeneratedStakeModifier bj"
    using last_modifier_returns [OF assms(1,3,4) False] by blast
  define start where "start = (bi_GetBlockTime prev div getIntervalVersion False) * getIntervalVersion False - GetStakeModifierSelectionInterval"
  obtain cs where cs: "candidates_loop m start (Some p) [] = Some cs" "distinct (map snd cs)" "\<forall>c\<in>set cs. m (snd c) \<noteq> None"
    using candidates_return [OF assms(1,3,2), of start "[]"] by fastforce
  have "\<exists>v. modifier_rounds P Hash m (sort_candidates cs) (nStakeModifier bj) 0 (min 64 (length (sort_candidates cs))) start 0 [] = Some v"
    by (rule rounds_return) (use cs(2,3) assms(2) in \<open>auto simp: sort_candidates_props\<close>)
  then show ?thesis using False l assms(3) cs(1)
    by (auto simp: ComputeNextStakeModifier_def GetLastStakeModifier_def Let_def start_def [symmetric])
qed

text \<open>
  C31: the stake modifier of a new block can always be computed.  In a well-formed index in which the blocks at height one
  have a generated modifier, as their linking gives them, \<open>ComputeNextStakeModifier\<close> returns and succeeds: the search for
  the last modifier stops above the genesis block, the loops end, and in each of the at most 64 rounds a candidate is left
  that has not been selected, and one is selected.  On the genesis block the new modifier is generated.
\<close>

theorem stake_modifier_computed:
  assumes "wf_index m" "keyed m" "m p = Some prev" "first_generated m p"
  shows "\<exists>modifier generated. ComputeNextStakeModifier P Hash literal m (Some p) = Some (True, modifier, generated) \<and>
    (nHeight prev = 0 \<longrightarrow> generated)"
  by (rule next_modifier_returns [OF assms])

definition modifier_index :: block_map where
  "modifier_index = kernel_index([1] \<mapsto> (sample_entry [1] (Some [0]) (Some [0]) 1)\<lparr>nFlags := 4\<rparr>)"

theorem stake_modifier_computed_witness:
  "\<exists>modifier generated. ComputeNextStakeModifier (CMainParams []) (\<lambda>_. bu_zero WIDTH256) 7 modifier_index (Some [1]) = Some (True, modifier, generated)"
proof -
  have "wf_index modifier_index = wf_index kernel_index"
    by (rule wf_index_cong) (simp add: modifier_index_def kernel_index_ok)
  moreover have "keyed modifier_index" using kernel_index_ok(2) by (auto simp: keyed_def modifier_index_def sample_entry_def new_CBlockIndex_def)
  moreover have "modifier_index [1] = Some ((sample_entry [1] (Some [0]) (Some [0]) 1)\<lparr>nFlags := 4\<rparr>)" by (simp add: modifier_index_def)
  moreover have "first_generated modifier_index [1]"
    by (auto simp: first_generated_def modifier_index_def kernel_index_def sample_entry_def GeneratedStakeModifier_def BLOCK_STAKE_MODIFIER_def
        split: if_splits)
  ultimately show ?thesis using stake_modifier_computed [of modifier_index "[1]"] kernel_index_ok(1) by blast
qed

end
