(* ===== verification/Check_Block.thy ===== *)
theory Check_Block
  imports Kernel Merkle Block_Undo
begin

text \<open>
  The rules of blocks (\<open>src/main.cpp\<close>): \<open>CheckBlock\<close> on the block alone, the rules that depend on its parent, and the rules
  of stake pointers (\<open>IsStakePointerUsed\<close>, \<open>CheckBlockProofPointer\<close>, \<open>CheckStake\<close>, \<open>CheckWork\<close>).

  The clock, the active chain, checkpoints, sporks, locked inputs, the masternode code's decision on the payee, reading
  blocks from disk, the comparison of difficulties in floating point and the random choice of a cache entry are
  arguments.  \<open>None\<close> and \<open>Asserts\<close> are loops that do not return, failed assertions and indices out of range.
\<close>

unbundle bit_operations_syntax

section \<open>A block on its own\<close>

text \<open>What \<open>CheckBlock\<close> takes from its surroundings.\<close>

record check_io =
  ci_adjusted :: int
  ci_now :: int
  ci_filter :: bool
  ci_locked :: "COutPoint \<Rightarrow> base_uint option"
  ci_tip :: "CBlockIndex option"
  ci_map :: block_map
  ci_ibd :: bool
  ci_payee :: "int \<Rightarrow> bool"

definition node_pair_hash :: "node_env \<Rightarrow> base_uint \<Rightarrow> base_uint \<Rightarrow> base_uint" where
  "node_pair_hash E a b = ne_Hash E (bu_Serialize a @ bu_Serialize b)"

definition block_merkle :: "node_env \<Rightarrow> CBlock \<Rightarrow> base_uint \<times> bool" where
  "block_merkle E block =
     (case BuildMerkleTree (node_pair_hash E) (bu_zero WIDTH256) (map (ne_tx_hash E) (vtx block)) of (root, mutated, _) \<Rightarrow> (root, mutated))"

definition CheckBlockHeader :: "node_env \<Rightarrow> base_uint \<Rightarrow> u32 \<Rightarrow> CValidationState \<Rightarrow> bool \<Rightarrow> bool \<times> CValidationState" where
  "CheckBlockHeader E hash nBits st fCheckPOW =
     (if fCheckPOW \<and> \<not> CheckProofOfWork (fSkipProofOfWorkCheck (ne_params E)) (bnProofOfWorkLimit (ne_params E)) hash nBits
      then reject 50 REJECT_INVALID ''high-hash'' st else (True, st))"

definition check_merkle :: "node_env \<Rightarrow> CBlock \<Rightarrow> CValidationState \<Rightarrow> bool \<times> CValidationState" where
  "check_merkle E block st =
     (case block_merkle E block of (root, mutated) \<Rightarrow>
        if hashMerkleRoot block \<noteq> root then (False, state_DoS 100 REJECT_INVALID ''bad-txnmrklroot'' True st)
        else if mutated then (False, state_DoS 100 REJECT_INVALID ''bad-txns-duplicate'' True st)
        else (True, st))"

text \<open>Size and the places of coinbase and coinstake.\<close>

definition check_shape :: "CBlock \<Rightarrow> CValidationState \<Rightarrow> bool \<times> CValidationState" where
  "check_shape block st =
     (if vtx block = [] \<or> length (vtx block) > MAX_BLOCK_SIZE_CURRENT \<or> length (Serialize_block block) > MAX_BLOCK_SIZE_CURRENT
      then reject 100 REJECT_INVALID ''bad-blk-length'' st
      else if vtx block = [] \<or> \<not> IsCoinBase (vtx block ! 0) then reject 100 REJECT_INVALID ''bad-cb-missing'' st
      else if list_ex IsCoinBase (drop 1 (vtx block)) then reject 100 REJECT_INVALID ''bad-cb-multiple'' st
      else if IsProofOfStake block then
        (if length (vout (vtx block ! 0)) \<noteq> 1 \<or> \<not> txout_IsEmpty (vout (vtx block ! 0) ! 0) then reject 100 0 [] st
         else if length (vtx block) < 2 \<or> \<not> IsCoinStake (vtx block ! 1) then reject 100 0 [] st
         else if list_ex IsCoinStake (drop 2 (vtx block)) then reject 100 0 [] st
         else (True, st))
      else (True, st))"

definition lock_conflict :: "node_env \<Rightarrow> (COutPoint \<Rightarrow> base_uint option) \<Rightarrow> CTransaction list \<Rightarrow> bool" where
  "lock_conflict E locked txs \<longleftrightarrow>
     list_ex (\<lambda>tx. \<not> IsCoinBase tx \<and> list_ex (\<lambda>i. case locked (prevout i) of None \<Rightarrow> False | Some h \<Rightarrow> h \<noteq> ne_tx_hash E tx) (vin tx)) txs"

definition payee_refused :: "check_io \<Rightarrow> CBlock \<Rightarrow> bool" where
  "payee_refused IO block \<longleftrightarrow>
     (case ci_tip IO of None \<Rightarrow> False
      | Some pindexPrev \<Rightarrow> let height = following_height (ci_map IO) pindexPrev block
                          in height \<noteq> 0 \<and> \<not> ci_ibd IO \<and> \<not> ci_payee IO height)"

fun check_txs :: "CChainParams \<Rightarrow> CTransaction list \<Rightarrow> CValidationState \<Rightarrow> bool \<times> CValidationState" where
  "check_txs P [] st = (True, st)"
| "check_txs P (tx # txs) st = (case CheckTransaction P tx st of (ok, st) \<Rightarrow> if ok then check_txs P txs st else (False, st))"

definition block_sigops :: "CTransaction list \<Rightarrow> nat" where
  "block_sigops txs = foldl (\<lambda>n tx. (n + GetLegacySigOpCount tx) mod 2 ^ 32) 0 txs"

text \<open>\<open>map::insert\<close> keeps an entry that is there.\<close>

definition note_rejected :: "base_uint \<Rightarrow> int \<Rightarrow> (base_uint \<Rightarrow> int option) \<Rightarrow> base_uint \<Rightarrow> int option" where
  "note_rejected h now m = (if m h = None then m(h \<mapsto> now) else m)"

text \<open>The result, the state and \<open>mapRejectedBlocks\<close>.\<close>

definition CheckBlock ::
  "node_env \<Rightarrow> check_io \<Rightarrow> CBlock \<Rightarrow> bool \<Rightarrow> bool \<Rightarrow> (base_uint \<Rightarrow> int option) \<Rightarrow> CValidationState \<Rightarrow>
   bool \<times> CValidationState \<times> (base_uint \<Rightarrow> int option)" where
  "CheckBlock E IO block fCheckPOW fCheckMerkleRoot rejected st =
     (case CheckBlockHeader E (ne_block_hash E block) (hd_nBits block) st fCheckPOW of
        (False, st) \<Rightarrow> (False, state_DoS 100 REJECT_INVALID ''bad-header'' True st, rejected)
      | (True, st) \<Rightarrow>
        if GetBlockTime block > ci_adjusted IO + (if IsProofOfStake block then 180 else 7200)
        then (False, state_Invalid REJECT_INVALID ''time-too-new'' st, rejected)
        else case (if fCheckMerkleRoot then check_merkle E block st else (True, st)) of
          (False, st) \<Rightarrow> (False, st, rejected)
        | (True, st) \<Rightarrow>
        (case check_shape block st of
          (False, st) \<Rightarrow> (False, st, rejected)
        | (True, st) \<Rightarrow>
            if ci_filter IO \<and> lock_conflict E (ci_locked IO) (vtx block)
            then (False, state_DoS 0 REJECT_INVALID ''conflicting-tx-ix'' False st, note_rejected (ne_block_hash E block) (ci_now IO) rejected)
            else if payee_refused IO block
            then (False, state_DoS 0 REJECT_INVALID ''bad-cb-payee'' False st, note_rejected (ne_block_hash E block) (ci_now IO) rejected)
            else (case check_txs (ne_params E) (vtx block) st of
              (False, st) \<Rightarrow> (False, st, rejected)
            | (True, st) \<Rightarrow>
                if block_sigops (vtx block) > MAX_BLOCK_SIGOPS_CURRENT
                then (False, state_DoS 100 REJECT_INVALID ''bad-blk-sigops'' True st, rejected)
                else (True, st, rejected))))"

section \<open>Stake pointers\<close>

definition pointer_outpoint :: "StakePointer \<Rightarrow> COutPoint" where
  "pointer_outpoint sp = \<lparr>op_hash = sp_txid sp, op_n = sp_nPos sp\<rparr>"

definition is_v5_pointer_block :: "CBlock \<Rightarrow> bool" where
  "is_v5_pointer_block block \<longleftrightarrow> IsProofOfStake block \<and> hd_nVersion block \<ge> 5 \<and> \<not> sp_IsNull (stakePointer block)"

text \<open>\<open>read\<close> is \<open>ReadBlockFromDisk\<close> for an index entry.\<close>

partial_function (option) rebuild_loop ::
  "node_env \<Rightarrow> block_map \<Rightarrow> (CBlockIndex \<Rightarrow> CBlock option) \<Rightarrow> int \<Rightarrow> bid option \<Rightarrow> (base_uint \<Rightarrow> base_uint option) \<Rightarrow>
   (base_uint \<Rightarrow> base_uint option) option" where
  "rebuild_loop E m read stop pindex used =
     (case pindex of None \<Rightarrow> Some used
      | Some p \<Rightarrow> (case m p of None \<Rightarrow> None
         | Some bi \<Rightarrow>
             if nHeight bi > stop
             then rebuild_loop E m read stop (pprev bi)
                    (if bi_nVersion bi \<ge> 5 \<and> bi_IsProofOfStake bi
                     then (case read bi of None \<Rightarrow> used
                           | Some block \<Rightarrow> if is_v5_pointer_block block
                                          then used(ne_outpoint_hash E (pointer_outpoint (stakePointer block)) \<mapsto> ne_block_hash E block)
                                          else used)
                     else used)
             else Some used))"

definition RebuildStakePointerCache ::
  "node_env \<Rightarrow> block_map \<Rightarrow> (CBlockIndex \<Rightarrow> CBlock option) \<Rightarrow> bid option \<Rightarrow> (base_uint \<Rightarrow> base_uint option) option" where
  "RebuildStakePointerCache E m read tip =
     (case tip of None \<Rightarrow> Some Map.empty
      | Some p \<Rightarrow> (case m p of None \<Rightarrow> None
         | Some bi \<Rightarrow>
             if nHeight bi < nStakePointerForkHeight (ne_params E) then Some Map.empty
             else rebuild_loop E m read
                    (max (nHeight bi - nStakePointerValidityPeriod (ne_params E)) (nStakePointerForkHeight (ne_params E) - 1)) tip Map.empty))"

definition uses_pointer :: "(CBlockIndex \<Rightarrow> CBlock option) \<Rightarrow> CBlockIndex \<Rightarrow> COutPoint \<Rightarrow> bool" where
  "uses_pointer read bi out \<longleftrightarrow>
     bi_IsProofOfStake bi \<and> bi_nVersion bi \<ge> 5 \<and>
     (prevoutStake bi = out \<or>
      (outpoint_IsNull (prevoutStake bi) \<and> nStatus bi AND BLOCK_HAVE_DATA \<noteq> 0 \<and>
       (case read bi of None \<Rightarrow> False
        | Some block \<Rightarrow> is_v5_pointer_block block \<and> pointer_outpoint (stakePointer block) = out)))"

partial_function (option) pointer_used_loop ::
  "block_map \<Rightarrow> (CBlockIndex \<Rightarrow> CBlock option) \<Rightarrow> int \<Rightarrow> COutPoint \<Rightarrow> bid option \<Rightarrow> bool option" where
  "pointer_used_loop m read stop out pindex =
     (case pindex of None \<Rightarrow> Some False
      | Some p \<Rightarrow> (case m p of None \<Rightarrow> None
         | Some bi \<Rightarrow> if nHeight bi \<ge> stop
                     then (if uses_pointer read bi out then Some True else pointer_used_loop m read stop out (pprev bi))
                     else Some False))"

definition IsStakePointerUsed ::
  "CChainParams \<Rightarrow> block_map \<Rightarrow> (CBlockIndex \<Rightarrow> CBlock option) \<Rightarrow> bid option \<Rightarrow> COutPoint \<Rightarrow> bool option" where
  "IsStakePointerUsed P m read pindexPrev out =
     (case pindexPrev of None \<Rightarrow> Some False
      | Some p \<Rightarrow> (case m p of None \<Rightarrow> None
         | Some bi \<Rightarrow> pointer_used_loop m read
             (max (nStakePointerForkHeight P) (nHeight bi - nStakePointerValidityPeriod P + 1)) out pindexPrev))"

text \<open>
  \<open>CheckBlockProofPointer\<close>: \<open>None\<close> in the result is false, otherwise the key and the outpoint it sets.  \<open>GetID\<close>, \<open>hex\<close>
  and \<open>Verify\<close> are the hash of a public key, its text and the verification of a compact or DER signature; \<open>read_pos\<close>
  reads a block from a file position.  Addresses of two key identifiers are equal exactly when the identifiers are.
\<close>

record pointer_env =
  pe_GetID :: "bytes \<Rightarrow> bytes"
  pe_hex :: "bytes \<Rightarrow> string"
  pe_read :: "CBlockIndex \<Rightarrow> CBlock option"
  pe_read_pos :: "CDiskBlockPos \<Rightarrow> CBlock option"
  pe_adjusted :: int

fun find_tx :: "node_env \<Rightarrow> base_uint \<Rightarrow> CTransaction list \<Rightarrow> CTransaction option" where
  "find_tx E txid [] = None"
| "find_tx E txid (tx # txs) = (if ne_tx_hash E tx = txid then Some tx else find_tx E txid txs)"

text \<open>Steps 6 to 10: the output the pointer names and its keys.\<close>

definition check_pointer_output :: "node_env \<Rightarrow> pointer_env \<Rightarrow> StakePointer \<Rightarrow> CBlock \<Rightarrow> bool option" where
  "check_pointer_output E V sp blockFrom =
     (case find_tx E (sp_txid sp) (vtx blockFrom) of None \<Rightarrow> Some False
      | Some tx \<Rightarrow>
          if unat (sp_nPos sp) \<ge> length (vout tx) then Some False
          else (case ExtractDestination (pe_GetID V) (scriptPubKey (vout tx ! unat (sp_nPos sp))) of
            None \<Rightarrow> None
          | Some None \<Rightarrow> Some False
          | Some (Some dest) \<Rightarrow>
              (case dest of
                 CKeyID keyID \<Rightarrow>
                   if CPubKey_size (pubKeyCollateral sp) \<noteq> 33 then Some False
                   else if pe_GetID V (pubKeyCollateral sp) \<noteq> keyID then Some False
                   else Some (pubKeyProofOfStake sp \<noteq> pubKeyCollateral sp \<longrightarrow>
                          VerifyCollateralSignOver (ne_Hash E) (pe_GetID V) (pe_hex V) (ne_Verify E) sp)
               | _ \<Rightarrow> Some False)))"

definition CheckBlockProofPointer ::
  "node_env \<Rightarrow> pointer_env \<Rightarrow> block_map \<Rightarrow> CChain \<Rightarrow> bid option \<Rightarrow> int \<Rightarrow> CBlock \<Rightarrow> (bytes \<times> COutPoint) option option" where
  "CheckBlockProofPointer E V m vChain pindexPrev nNewHeight block =
     (let sp = stakePointer block; P = ne_params E
      in case m (sp_hashBlock sp) of None \<Rightarrow> Some None
         | Some pindexFrom \<Rightarrow>
             if \<not> chain_Contains m vChain (sp_hashBlock sp) then Some None
             else if nHeight pindexFrom < nNewHeight - nStakePointerValidityPeriod P then Some None
             else if nHeight pindexFrom > nNewHeight - nMaxReorganizationDepth P then Some None
             else (case IsStakePointerUsed P m (pe_read V) pindexPrev (pointer_outpoint sp) of
               None \<Rightarrow> None
             | Some True \<Rightarrow> Some None
             | Some False \<Rightarrow>
                 (case pe_read_pos V (GetBlockPos pindexFrom) of None \<Rightarrow> Some None
                  | Some blockFrom \<Rightarrow>
                      map_option (\<lambda>ok. if ok then Some (pubKeyProofOfStake sp, pointer_outpoint sp) else None)
                        (check_pointer_output E V sp blockFrom))))"

text \<open>The result and \<open>hashProofOfStake\<close>.\<close>

definition CheckStake ::
  "node_env \<Rightarrow> pointer_env \<Rightarrow> block_map \<Rightarrow> CChain \<Rightarrow> CBlockIndex \<Rightarrow> CBlock \<Rightarrow> base_uint \<Rightarrow> (bool \<times> base_uint) option" where
  "CheckStake E V m vChain pindexPrev block hashProof =
     (if \<not> IsProofOfStake block \<or> hd_nVersion block < 5 \<or> \<not> IsV5CoinStake (vtx block ! 1) \<or> sp_IsNull (stakePointer block)
      then Some (False, hashProof)
      else if vout (vtx block ! 0) = [] then None
      else if nValue (vout (vtx block ! 0) ! 0) \<noteq> 0 then Some (False, hashProof)
      else case CheckBlockProofPointer E V m vChain (Some (phashBlock pindexPrev)) (nHeight pindexPrev + 1) block of
        None \<Rightarrow> None
      | Some None \<Rightarrow> Some (False, hashProof)
      | Some (Some (pubkey, out)) \<Rightarrow>
          if \<not> CheckBlockSignature_key (ne_Verify E) (ne_block_hash E) pubkey block then Some (False, hashProof)
          else (case m (sp_hashBlock (stakePointer block)) of None \<Rightarrow> Some (False, hashProof)
            | Some pindexFrom \<Rightarrow>
                CheckStakePointerKernelHash (ne_params E) (ne_Hash E) (pe_adjusted V) m (hd_nBits block) out pindexFrom pindexPrev
                  (hd_nTime block) hashProof))"

definition MAX_MAPPROOFOFSTAKE_ENTRIES :: nat where "MAX_MAPPROOFOFSTAKE_ENTRIES = 65536"

text \<open>
  \<open>CheckWork\<close>, with \<open>mapProofOfStake\<close> as an association list.  \<open>close\<close> compares two difficulties within half of the
  first, \<open>evict\<close> is the position of the entry that is dropped from a full map, and \<open>found\<close> is as in \<open>CheckProofOfStake\<close>.
\<close>

definition remember_proof :: "nat \<Rightarrow> base_uint \<Rightarrow> base_uint \<Rightarrow> (base_uint \<times> base_uint) list \<Rightarrow> (base_uint \<times> base_uint) list" where
  "remember_proof evict hash hashProof proofs =
     (if map_of proofs hash \<noteq> None then proofs
      else let proofs = (if length proofs \<ge> MAX_MAPPROOFOFSTAKE_ENTRIES then take evict proofs @ drop (evict + 1) proofs else proofs)
           in (hash, hashProof) # proofs)"

definition CheckWork ::
  "node_env \<Rightarrow> pointer_env \<Rightarrow> block_map \<Rightarrow> CChain \<Rightarrow> (u32 \<Rightarrow> u32 \<Rightarrow> bool) \<Rightarrow> (CTransaction \<times> base_uint) option \<Rightarrow> nat \<Rightarrow> CBlock \<Rightarrow> CBlockIndex option \<Rightarrow>
   (base_uint \<times> base_uint) list \<Rightarrow> (bool \<times> (base_uint \<times> base_uint) list) outcome" where
  "CheckWork E V m vChain close found evict block pindexPrev proofs =
     (case pindexPrev of None \<Rightarrow> Returns (False, proofs)
      | Some prev \<Rightarrow>
          let P = ne_params E; height = nHeight prev + 1; hash = ne_block_hash E block;
              pointerKernel = (height \<ge> nStakePointerForkHeight P)
          in obind (assertion (GetNextWorkRequired (bnProofOfWorkLimit P) (nLastPOWBlock P) (nStakePointerForkHeight P) m (Some (phashBlock prev))))
               (\<lambda>nBitsRequired.
                 if IsProofOfWork block \<and> height \<le> 68589 then Returns (close (hd_nBits block) nBitsRequired, proofs)
                 else if hd_nBits block \<noteq> nBitsRequired then Returns (False, proofs)
                 else if \<not> IsProofOfStake block then Returns (True, proofs)
                 else if \<not> pointerKernel \<and> map_of proofs hash \<noteq> None then Returns (True, proofs)
                 else obind (if pointerKernel then assertion (CheckStake E V m vChain prev block (bu_zero WIDTH256))
                             else CheckProofOfStake E m vChain found block (bu_zero WIDTH256) height)
                        (\<lambda>(ok, hashProof). Returns (ok, if ok then remember_proof evict hash hashProof proofs else proofs))))"

section \<open>Rules that depend on the parent\<close>

text \<open>
  \<open>maxReorg\<close> is the value of \<open>-maxreorg\<close>, by default the network's; \<open>checkpoint\<close> the verdict of the checkpoints on a height
  and a hash, and \<open>lastCheckpoint\<close> the height of the last one that is known.
\<close>

definition ContextualCheckBlockHeader ::
  "node_env \<Rightarrow> block_map \<Rightarrow> CChain \<Rightarrow> int \<Rightarrow> (int \<Rightarrow> base_uint \<Rightarrow> bool) \<Rightarrow> int option \<Rightarrow> CBlock \<Rightarrow> CValidationState \<Rightarrow> CBlockIndex option \<Rightarrow>
   (bool \<times> CValidationState) outcome" where
  "ContextualCheckBlockHeader E m vChain maxReorg checkpoint lastCheckpoint block st pindexPrev =
     (let hash = ne_block_hash E block; P = ne_params E
      in if hash = hashGenesisBlock P then Returns (True, st)
         else case pindexPrev of None \<Rightarrow> Asserts
         | Some prev \<Rightarrow>
             let height = nHeight prev + 1;
                 depth = (if height \<ge> nStakePointerForkHeight P then min maxReorg (nKernelModifierOffset P) else maxReorg)
             in if chain_Height vChain - height \<ge> depth then Returns (reject 1 0 [] st)
                else if GetBlockTime block \<le> GetMedianTimePast m (phashBlock prev)
                then Returns (False, state_Invalid REJECT_INVALID ''time-too-old'' st)
                else if \<not> checkpoint height hash then Returns (reject 100 REJECT_CHECKPOINT ''checkpoint mismatch'' st)
                else if (case lastCheckpoint of None \<Rightarrow> False | Some h \<Rightarrow> height < h) then Returns (reject 0 0 [] st)
                else Returns (True, st))"

definition IsBlockHashInChain :: "block_map \<Rightarrow> CChain \<Rightarrow> base_uint \<Rightarrow> bool" where
  "IsBlockHashInChain m vChain hashBlock =
     (if bu_IsNull hashBlock \<or> m hashBlock = None then False else chain_Contains m vChain hashBlock)"

text \<open>\<open>found\<close> is the block hash that \<open>GetTransaction\<close> reports; the result has the height when the answer is true.\<close>

definition IsTransactionInChain :: "block_map \<Rightarrow> CChain \<Rightarrow> base_uint \<Rightarrow> int option" where
  "IsTransactionInChain m vChain hashBlock =
     (if \<not> IsBlockHashInChain m vChain hashBlock then None else map_option nHeight (m hashBlock))"

definition ContextualCheckBlock ::
  "node_env \<Rightarrow> CChain \<Rightarrow> int \<Rightarrow> CBlock \<Rightarrow> CValidationState \<Rightarrow> CBlockIndex option \<Rightarrow> bool \<times> CValidationState" where
  "ContextualCheckBlock E vChain adjusted block st pindexPrev =
     (let height = (case pindexPrev of None \<Rightarrow> 0 | Some prev \<Rightarrow> nHeight prev + 1);
          forked = (IsProofOfStake block \<and> height \<ge> nStakePointerForkHeight (ne_params E))
      in if \<not> list_all (\<lambda>tx. IsFinalTx (chain_Height vChain) adjusted tx height (GetBlockTime block)) (vtx block)
         then reject 10 REJECT_INVALID ''bad-txns-nonfinal'' st
         else if forked \<and> hd_nVersion block < 5 then reject 100 REJECT_INVALID ''bad-version-pos'' st
         else if forked \<and> \<not> IsV5CoinStake (vtx block ! 1) then reject 100 REJECT_INVALID ''bad-cs-v5-required'' st
         else if forked \<and> sp_IsNull (stakePointer block) then reject 100 REJECT_INVALID ''bad-stakepointer-missing'' st
         else if forked \<and> GetBlockTime block > adjusted + 60 then (False, state_Invalid REJECT_INVALID ''time-too-new'' st)
         else (True, st))"

section \<open>What the rules of a block mean\<close>

text \<open>Every script is part of the serialization, so that the count of signature operations cannot wrap around in a block.\<close>

definition script_sigops :: "CTransaction \<Rightarrow> nat" where
  "script_sigops tx = (\<Sum>i\<leftarrow>vin tx. GetSigOpCount False (scriptSig i)) + (\<Sum>out\<leftarrow>vout tx. GetSigOpCount False (scriptPubKey out))"

lemma foldl_add_mod: "(a :: nat) < M \<Longrightarrow> foldl (\<lambda>n x. (n + g x) mod M) a xs = (a + (\<Sum>x\<leftarrow>xs. g x)) mod M"
  by (induction xs arbitrary: a) (auto simp: mod_add_left_eq add.assoc)

lemma sum_list_le_concat: "(\<And>x. g x \<le> c * length (f x)) \<Longrightarrow> (\<Sum>x\<leftarrow>xs. g x) \<le> c * length (concat (map f xs))" for c :: nat
proof (induction xs)
  case (Cons x xs)
  then have "g x + (\<Sum>x\<leftarrow>xs. g x) \<le> c * length (f x) + c * length (concat (map f xs))" by (intro add_mono) auto
  then show ?case by (simp only: list.map sum_list.Cons concat.simps length_append distrib_left)
qed simp

lemma script_sigops_bound: "script_sigops tx \<le> 20 * length (Serialize_tx tx)"
proof -
  have s: "GetSigOpCount False s \<le> 20 * length s" for s by (simp add: GetSigOpCount_def sigop_loop_bound)
  have i: "GetSigOpCount False (scriptSig i) \<le> 20 * length (Serialize_txin i)" for i
    by (rule le_trans [OF s]) (simp add: Serialize_txin_def Serialize_bytes_def)
  have out: "GetSigOpCount False (scriptPubKey out) \<le> 20 * length (Serialize_txout out)" for out
    by (rule le_trans [OF s]) (simp add: Serialize_txout_def Serialize_bytes_def)
  have l: "length (concat (map Serialize_txin (vin tx))) + length (concat (map Serialize_txout (vout tx))) \<le> length (Serialize_tx tx)"
    by (simp add: Serialize_tx_def Serialize_vector_def del: length_concat)
  show ?thesis using sum_list_le_concat [of "\<lambda>i. GetSigOpCount False (scriptSig i)" 20 Serialize_txin "vin tx", OF i]
      sum_list_le_concat [of "\<lambda>out. GetSigOpCount False (scriptPubKey out)" 20 Serialize_txout "vout tx", OF out] l
    unfolding script_sigops_def by linarith
qed

lemma GetLegacySigOpCount_mod: "GetLegacySigOpCount tx = script_sigops tx mod 2 ^ 32"
  by (simp add: GetLegacySigOpCount_def script_sigops_def foldl_add_mod mod_add_left_eq)

lemma block_sigops_exact:
  assumes "length (Serialize_block block) \<le> MAX_BLOCK_SIZE_CURRENT"
  shows "block_sigops (vtx block) = (\<Sum>tx\<leftarrow>vtx block. script_sigops tx)"
proof -
  have "length (concat (map Serialize_tx (vtx block))) \<le> 2000000"
    using assms by (simp add: Serialize_block_def Serialize_vector_def MAX_BLOCK_SIZE_CURRENT_def del: length_concat)
  then have "(\<Sum>tx\<leftarrow>vtx block. script_sigops tx) \<le> 40000000"
    using sum_list_le_concat [of script_sigops 20 Serialize_tx "vtx block", OF script_sigops_bound] by linarith
  then have small: "(\<Sum>tx\<leftarrow>vtx block. script_sigops tx) < 2 ^ 32" by simp
  then have "script_sigops tx < 2 ^ 32" if "tx \<in> set (vtx block)" for tx
    using member_le_sum_list [of "script_sigops tx" "map script_sigops (vtx block)"] that by fastforce
  then have "map GetLegacySigOpCount (vtx block) = map script_sigops (vtx block)" by (auto simp: GetLegacySigOpCount_mod)
  then show ?thesis using small by (simp add: block_sigops_def foldl_add_mod del: map_eq_conv)
qed


definition good_shape :: "CBlock \<Rightarrow> bool" where
  "good_shape block \<longleftrightarrow> length (vtx block) \<le> MAX_BLOCK_SIZE_CURRENT \<and> length (Serialize_block block) \<le> MAX_BLOCK_SIZE_CURRENT \<and>
     (\<exists>cb txs. vtx block = cb # txs \<and> IsCoinBase cb \<and> (\<forall>tx\<in>set txs. \<not> IsCoinBase tx) \<and>
       (\<forall>cs rest. txs = cs # rest \<longrightarrow> IsCoinStake cs \<longrightarrow>
          (\<exists>out. vout cb = [out] \<and> txout_IsEmpty out) \<and> (\<forall>tx\<in>set rest. \<not> IsCoinStake tx)))"

lemma one_output: "(length outs = 1 \<and> f (outs ! 0)) = (\<exists>out. outs = [out] \<and> f out)"
  by (cases outs) auto

lemma check_shape_spec:
  "(fst (check_shape block st) \<longleftrightarrow> good_shape block) \<and> (good_shape block \<longrightarrow> snd (check_shape block st) = st) \<and>
   (\<not> good_shape block \<longrightarrow> (\<exists>code reason. snd (check_shape block st) = state_DoS 100 code reason False st))"
proof (cases "vtx block")
  case Nil
  then show ?thesis by (auto simp: check_shape_def good_shape_def)
next
  case (Cons cb txs)
  show ?thesis
  proof (cases txs)
    case Nil
    then show ?thesis using Cons by (auto simp: check_shape_def good_shape_def IsProofOfStake_def)
  next
    case (Cons cs rest)
    then show ?thesis using \<open>vtx block = cb # txs\<close> one_output [of "vout cb" txout_IsEmpty]
      by (auto simp: check_shape_def good_shape_def IsProofOfStake_def list_ex_iff)
  qed
qed

lemma check_txs_spec:
  assumes "0 \<le> nMaxMoneyOut P" "nMaxMoneyOut P < 2 ^ 62"
  shows "(fst (check_txs P txs st) \<longleftrightarrow> (\<forall>tx\<in>set txs. tx_acceptable P tx)) \<and>
    (fst (check_txs P txs st) \<longrightarrow> snd (check_txs P txs st) = st) \<and>
    (\<not> fst (check_txs P txs st) \<longrightarrow> (\<exists>level code reason. level \<in> {10, 100} \<and> snd (check_txs P txs st) = state_DoS level code reason False st))"
proof (induction txs)
  case (Cons tx txs)
  show ?case using Cons CheckTransaction_spec [OF assms, of tx st]
    by (cases "CheckTransaction P tx st") (auto split: bool.splits)
qed simp

definition block_acceptable :: "node_env \<Rightarrow> check_io \<Rightarrow> CBlock \<Rightarrow> bool \<Rightarrow> bool \<Rightarrow> bool" where
  "block_acceptable E IO block fCheckPOW fCheckMerkleRoot \<longleftrightarrow>
     (fCheckPOW \<longrightarrow> CheckProofOfWork (fSkipProofOfWorkCheck (ne_params E)) (bnProofOfWorkLimit (ne_params E)) (ne_block_hash E block) (hd_nBits block)) \<and>
     GetBlockTime block \<le> ci_adjusted IO + (if IsProofOfStake block then 180 else 7200) \<and>
     (fCheckMerkleRoot \<longrightarrow> block_merkle E block = (hashMerkleRoot block, False)) \<and>
     good_shape block \<and>
     (ci_filter IO \<longrightarrow> (\<forall>tx\<in>set (vtx block). \<not> IsCoinBase tx \<longrightarrow> (\<forall>i\<in>set (vin tx). ci_locked IO (prevout i) \<in> {None, Some (ne_tx_hash E tx)}))) \<and>
     \<not> payee_refused IO block \<and>
     (\<forall>tx\<in>set (vtx block). tx_acceptable (ne_params E) tx) \<and>
     (\<Sum>tx\<leftarrow>vtx block. script_sigops tx) \<le> MAX_BLOCK_SIGOPS_CURRENT"

lemma lock_conflict_iff:
  "\<not> lock_conflict E locked txs \<longleftrightarrow> (\<forall>tx\<in>set txs. \<not> IsCoinBase tx \<longrightarrow> (\<forall>i\<in>set (vin tx). locked (prevout i) \<in> {None, Some (ne_tx_hash E tx)}))"
proof -
  have "\<not> (case locked out of None \<Rightarrow> False | Some h' \<Rightarrow> h' \<noteq> h) \<longleftrightarrow> locked out \<in> {None, Some h}" for out h
    by (cases "locked out") auto
  then show ?thesis by (auto simp: lock_conflict_def list_ex_iff)
qed


lemma check_merkle_spec:
  "(fst (check_merkle E block st) \<longleftrightarrow> block_merkle E block = (hashMerkleRoot block, False)) \<and>
   (fst (check_merkle E block st) \<longrightarrow> snd (check_merkle E block st) = st) \<and>
   (\<not> fst (check_merkle E block st) \<longrightarrow> (\<exists>code reason. snd (check_merkle E block st) = state_DoS 100 code reason True st))"
  by (auto simp: check_merkle_def split: prod.splits)

lemma dos_levels: "vs_mode st = MODE_VALID \<Longrightarrow> state_IsInvalid (state_DoS l c r b st) = Some (vs_nDoS st + l)"
  "vs_mode st = MODE_VALID \<Longrightarrow> state_IsInvalid (state_DoS l2 c2 r2 b2 (state_DoS l c r b st)) = Some (vs_nDoS st + l + l2)"
  by (simp_all add: state_DoS_def state_IsInvalid_def Let_def)

lemma CheckBlock_spec:
  assumes "0 \<le> nMaxMoneyOut (ne_params E)" "nMaxMoneyOut (ne_params E) < 2 ^ 62" 
    and "CheckBlock E IO block fCheckPOW fCheckMerkleRoot rejected st = (ok, st', rejected')"
  shows "(ok \<longleftrightarrow> block_acceptable E IO block fCheckPOW fCheckMerkleRoot) \<and> (ok \<longrightarrow> st' = st \<and> rejected' = rejected) \<and>
    (\<not> ok \<longrightarrow> vs_mode st = MODE_VALID \<longrightarrow> vs_nDoS st = 0 \<longrightarrow> state_IsInvalid st' \<in> {Some 0, Some 10, Some 100, Some 150}) \<and>
    (rejected' \<noteq> rejected \<longrightarrow> vs_mode st = MODE_VALID \<longrightarrow> vs_nDoS st = 0 \<longrightarrow> state_IsInvalid st' = Some 0)"
proof -
  obtain b1 st1 where m: "check_merkle E block st = (b1, st1)" by fastforce
  obtain b2 st2 where s: "check_shape block st = (b2, st2)" by fastforce
  obtain b3 st3 where t: "check_txs (ne_params E) (vtx block) st = (b3, st3)" by fastforce
  note specs = check_merkle_spec [of E block st, unfolded m fst_conv snd_conv] check_shape_spec [of block st, unfolded s fst_conv snd_conv]
    check_txs_spec [OF assms(1,2), of "vtx block" st, unfolded t fst_conv snd_conv]
  have n: "good_shape block \<Longrightarrow> block_sigops (vtx block) = (\<Sum>tx\<leftarrow>vtx block. script_sigops tx)"
    by (rule block_sigops_exact) (simp add: good_shape_def)
  define time_ok where "time_ok \<longleftrightarrow> GetBlockTime block \<le> ci_adjusted IO + (if IsProofOfStake block then 180 else 7200)"
  define pow_ok where "pow_ok \<longleftrightarrow> (fCheckPOW \<longrightarrow>
    CheckProofOfWork (fSkipProofOfWorkCheck (ne_params E)) (bnProofOfWorkLimit (ne_params E)) (ne_block_hash E block) (hd_nBits block))"
  define lock_ok where "lock_ok \<longleftrightarrow> (ci_filter IO \<longrightarrow> \<not> lock_conflict E (ci_locked IO) (vtx block))"
  have eqs: "b1 \<longleftrightarrow> block_merkle E block = (hashMerkleRoot block, False)" "b2 \<longleftrightarrow> good_shape block"
    "b3 \<longleftrightarrow> (\<forall>tx\<in>set (vtx block). tx_acceptable (ne_params E) tx)" using specs by blast+
  have lock: "ci_filter IO \<and> lock_conflict E (ci_locked IO) (vtx block) \<longleftrightarrow> \<not> lock_ok" by (simp add: lock_ok_def)
  have acc: "block_acceptable E IO block fCheckPOW fCheckMerkleRoot \<longleftrightarrow>
      pow_ok \<and> time_ok \<and> (fCheckMerkleRoot \<longrightarrow> b1) \<and> b2 \<and> lock_ok \<and> \<not> payee_refused IO block \<and> b3 \<and>
      block_sigops (vtx block) \<le> MAX_BLOCK_SIGOPS_CURRENT"
    unfolding block_acceptable_def time_ok_def [symmetric] pow_ok_def [symmetric] lock_conflict_iff [symmetric] lock_ok_def [symmetric] eqs using n by auto
  have h: "CheckBlockHeader E (ne_block_hash E block) (hd_nBits block) st fCheckPOW =
      (if pow_ok then (True, st) else reject 50 REJECT_INVALID ''high-hash'' st)"
    by (simp add: CheckBlockHeader_def pow_ok_def)
  have same: "b1 \<Longrightarrow> st1 = st" "b2 \<Longrightarrow> st2 = st" "b3 \<Longrightarrow> st3 = st" using specs by auto
  have time: "GetBlockTime block > ci_adjusted IO + (if IsProofOfStake block then 180 else 7200) \<longleftrightarrow> \<not> time_ok"
    by (simp add: time_ok_def not_le)
  have c: "CheckBlock E IO block fCheckPOW fCheckMerkleRoot rejected st =
     (if \<not> pow_ok then (False, state_DoS 100 REJECT_INVALID ''bad-header'' True (state_DoS 50 REJECT_INVALID ''high-hash'' False st), rejected)
      else if \<not> time_ok then (False, state_Invalid REJECT_INVALID ''time-too-new'' st, rejected)
      else if fCheckMerkleRoot \<and> \<not> b1 then (False, st1, rejected)
      else if \<not> b2 then (False, st2, rejected)
      else if \<not> lock_ok
      then (False, state_DoS 0 REJECT_INVALID ''conflicting-tx-ix'' False st, note_rejected (ne_block_hash E block) (ci_now IO) rejected)
      else if payee_refused IO block
      then (False, state_DoS 0 REJECT_INVALID ''bad-cb-payee'' False st, note_rejected (ne_block_hash E block) (ci_now IO) rejected)
      else if \<not> b3 then (False, st3, rejected)
      else if block_sigops (vtx block) > MAX_BLOCK_SIGOPS_CURRENT
      then (False, state_DoS 100 REJECT_INVALID ''bad-blk-sigops'' True st, rejected)
      else (True, st, rejected))"
    unfolding CheckBlock_def h time lock using same by (cases b1; cases b2; cases b3; cases pow_ok) (simp_all add: m s t)
  have "\<not> b1 \<Longrightarrow> \<exists>code reason. st1 = state_DoS 100 code reason True st" "\<not> b2 \<Longrightarrow> \<exists>code reason. st2 = state_DoS 100 code reason False st"
    "\<not> b3 \<Longrightarrow> \<exists>level code reason. level \<in> {10, 100} \<and> st3 = state_DoS level code reason False st"
    using specs by blast+
  then have levels: "\<not> b1 \<Longrightarrow> vs_mode st = MODE_VALID \<Longrightarrow> vs_nDoS st = 0 \<Longrightarrow> state_IsInvalid st1 = Some 100"
    "\<not> b2 \<Longrightarrow> vs_mode st = MODE_VALID \<Longrightarrow> vs_nDoS st = 0 \<Longrightarrow> state_IsInvalid st2 = Some 100"
    "\<not> b3 \<Longrightarrow> vs_mode st = MODE_VALID \<Longrightarrow> vs_nDoS st = 0 \<Longrightarrow> state_IsInvalid st3 \<in> {Some 10, Some 100}"
    by (auto simp: dos_levels)
  show ?thesis
    unfolding acc using c [unfolded assms(3)] levels
    by (auto simp: state_Invalid_def dos_levels split: if_splits)
qed

text \<open>
  C32: \<open>CheckBlock\<close> accepts a block exactly when its proof of work is in range (if asked), its time is not too far ahead of the
  adjusted clock, the merkle root in the header is that of its transactions and no two of them are paired with themselves
  (if asked), its shape is good (a coinbase first and nowhere else, with one empty output if a coinstake follows, and no
  second coinstake; at most two million bytes), it spends no input that is locked by another transaction, its payee is not
  refused, every transaction is acceptable and its scripts have at most 40000 signature operations, counted without
  wrap-around.  Acceptance leaves the state; a refusal makes a valid state invalid with 0, 10, 100 or 150 points, and a
  block is recorded as rejected only with 0 points.
\<close>

theorem check_block_accepts:
  assumes "0 \<le> nMaxMoneyOut (ne_params E)" "nMaxMoneyOut (ne_params E) < 2 ^ 62" 
    and "CheckBlock E IO block fCheckPOW fCheckMerkleRoot rejected st = (ok, st', rejected')"
  shows "(ok \<longleftrightarrow> block_acceptable E IO block fCheckPOW fCheckMerkleRoot) \<and> (ok \<longrightarrow> st' = st) \<and>
    (\<not> ok \<longrightarrow> vs_mode st = MODE_VALID \<longrightarrow> vs_nDoS st = 0 \<longrightarrow> state_IsInvalid st' \<in> {Some 0, Some 10, Some 100, Some 150}) \<and>
    (rejected' \<noteq> rejected \<longrightarrow> vs_mode st = MODE_VALID \<longrightarrow> vs_nDoS st = 0 \<longrightarrow> state_IsInvalid st' = Some 0)"
  using CheckBlock_spec [OF assms] by blast


definition mint_block :: CBlock where
  "mint_block = block_SetNull\<lparr>hashMerkleRoot := small_hash 1009,
     vtx := [\<lparr>tx_nVersion = 1, vin = [new_CTxIn outpoint_SetNull [1, 2] 0xFFFFFFFF], vout = [new_CTxOut 2000 []], tx_nLockTime = 9\<rparr>]\<rparr>"

definition mint_io :: check_io where
  "mint_io = \<lparr>ci_adjusted = 0, ci_now = 0, ci_filter = True, ci_locked = (\<lambda>_. None), ci_tip = None, ci_map = Map.empty, ci_ibd = False,
     ci_payee = (\<lambda>_. True)\<rparr>"

lemma mint_block_acceptable: "block_acceptable small_env mint_io mint_block False True"
proof -
  let ?tx = "\<lparr>tx_nVersion = 1, vin = [new_CTxIn outpoint_SetNull [1, 2] 0xFFFFFFFF], vout = [new_CTxOut 2000 []], tx_nLockTime = 9\<rparr>"
  have v: "vtx mint_block = [?tx]" by (simp add: mint_block_def)
  have cb: "IsCoinBase ?tx"
    by (simp add: IsCoinBase_def new_CTxIn_def outpoint_SetNull_def outpoint_IsNull_def bu_IsNull_def bu_zero_def IsProofOfStakeMarker_def list_all_iff
        ContainsZerocoins_def tx_IsZerocoinSpend_def tx_IsZerocoinMint_def IsZerocoinSpend_def IsZerocoinMint_def new_CTxOut_def)
  have len: "length (Serialize_tx ?tx) < 1000"
    by (simp add: Serialize_tx_def Serialize_vector_def Serialize_txin_def Serialize_outpoint_def Serialize_txout_def new_CTxIn_def
        Serialize_bytes_def Serialize_u32_def Serialize_int_def length_WriteCompactSize GetSizeOfCompactSize_def length_to_le
        outpoint_SetNull_def new_CTxOut_def del: to_le.simps)
  have blen: "length (Serialize_block mint_block) \<le> 2000000"
    using len by (simp add: Serialize_block_def v Serialize_vector_def length_WriteCompactSize GetSizeOfCompactSize_def Serialize_header_def
        Serialize_u32_def Serialize_int_def length_to_le mint_block_def block_SetNull_def header_SetNull_def block_of_header_def
        CBlockHeader.extend_def small_hash_def del: to_le.simps)
  have shape: "good_shape mint_block" using blen cb by (simp add: good_shape_def v MAX_BLOCK_SIZE_CURRENT_def)
  have acc: "tx_acceptable (CMainParams (small_hash 55)) ?tx"
    using len cb by (simp add: tx_acceptable_def inputs_shape_def CMainParams_def COIN_def new_CTxIn_def new_CTxOut_def)
  have sig: "script_sigops ?tx \<le> 40000" using script_sigops_bound [of ?tx] len by linarith
  have root: "block_merkle small_env mint_block = (hashMerkleRoot mint_block, False)"
    by (simp add: block_merkle_def BuildMerkleTree_eq v merkle_root.simps merkle_mutated.simps small_env_def mint_block_def)
  show ?thesis
    using shape acc sig root cb
    by (simp add: block_acceptable_def v mint_io_def payee_refused_def IsProofOfStake_def MAX_BLOCK_SIGOPS_CURRENT_def MAX_BLOCK_SIZE_CURRENT_def
        GetBlockTime_def mint_block_def block_SetNull_def header_SetNull_def block_of_header_def CBlockHeader.extend_def)
qed

theorem check_block_accepts_witness:
  "CheckBlock small_env mint_io mint_block False True Map.empty new_CValidationState = (True, new_CValidationState, Map.empty)"
proof -
  obtain ok st' rejected' where c: "CheckBlock small_env mint_io mint_block False True Map.empty new_CValidationState = (ok, st', rejected')"
    by (metis prod_cases3)
  then show ?thesis using check_block_accepts [OF _ _ c] mint_block_acceptable
    by (auto simp: CMainParams_def COIN_def new_CValidationState_def state_IsInvalid_def)
qed

section \<open>The search for an earlier use\<close>

text \<open>A block among the ancestors, at a height of at least \<open>h\<close>, uses the pointer.\<close>

definition pointer_used_since :: "block_map \<Rightarrow> (CBlockIndex \<Rightarrow> CBlock option) \<Rightarrow> int \<Rightarrow> COutPoint \<Rightarrow> bid \<Rightarrow> bool" where
  "pointer_used_since m read h out p \<longleftrightarrow> (\<exists>q bj. q \<in> ancestors m p \<and> m q = Some bj \<and> h \<le> nHeight bj \<and> uses_pointer read bj out)"

lemma ancestor_height:
  assumes "wf_index m" "m p = Some bi" "q \<in> ancestors m p" "m q = Some bj"
  shows "nHeight bj \<le> nHeight bi"
proof -
  have "height_of m q \<le> height_of m p" using ancestors_in [OF assms(1-3)] by blast
  then show ?thesis using height_of_eq [OF assms(1,2)] height_of_eq [OF assms(1,4)] by linarith
qed

lemma pointer_used_loop_spec:
  assumes "wf_index m" "m p = Some bi"
  shows "pointer_used_loop m read stop out (Some p) = Some (pointer_used_since m read stop out p)"
  using assms
proof (induction rule: pprev_induct)
  case (root p bi)
  then show ?case
    by (auto simp: pointer_used_loop.simps [of m read stop out "Some p"] pointer_used_loop.simps [of m read stop out None]
        pointer_used_since_def ancestors_root)
next
  case (step p bi q bj)
  then have a: "ancestors m p = insert p (ancestors m q)" by (intro ancestors_step)
  have "\<not> pointer_used_since m read stop out p" if "nHeight bi < stop"
    using that ancestor_height [OF assms(1) step(1)] by (force simp: pointer_used_since_def)
  moreover have "pointer_used_since m read stop out p \<longleftrightarrow> uses_pointer read bi out \<or> pointer_used_since m read stop out q"
    if "stop \<le> nHeight bi"
    using that step(1) a by (auto simp: pointer_used_since_def)
  ultimately show ?case using step by (simp add: pointer_used_loop.simps [of m read stop out "Some p"])
qed

lemma IsStakePointerUsed_spec:
  assumes "wf_index m" "m p = Some bi"
  shows "IsStakePointerUsed P m read (Some p) out =
    Some (pointer_used_since m read (max (nStakePointerForkHeight P) (nHeight bi - nStakePointerValidityPeriod P + 1)) out p)"
  using assms by (simp add: IsStakePointerUsed_def pointer_used_loop_spec)

lemma CheckBlockProofPointer_fresh:
  assumes "wf_index m" "m p = Some prev" "N = nHeight prev + 1"
    and "CheckBlockProofPointer E V m vChain (Some p) N block = Some (Some r)"
  shows "\<exists>origin. m (sp_hashBlock (stakePointer block)) = Some origin \<and> chain_Contains m vChain (sp_hashBlock (stakePointer block)) \<and>
    N - nStakePointerValidityPeriod (ne_params E) \<le> nHeight origin \<and> nHeight origin \<le> N - nMaxReorganizationDepth (ne_params E) \<and>
    \<not> pointer_used_since m (pe_read V) (max (nStakePointerForkHeight (ne_params E)) (nHeight origin)) (pointer_outpoint (stakePointer block)) p \<and>
    r = (pubKeyProofOfStake (stakePointer block), pointer_outpoint (stakePointer block)) \<and>
    (\<exists>b. pe_read_pos V (GetBlockPos origin) = Some b \<and> check_pointer_output E V (stakePointer block) b = Some True)"
proof -
  obtain origin where f: "m (sp_hashBlock (stakePointer block)) = Some origin" "chain_Contains m vChain (sp_hashBlock (stakePointer block))"
    "N - nStakePointerValidityPeriod (ne_params E) \<le> nHeight origin" "nHeight origin \<le> N - nMaxReorganizationDepth (ne_params E)"
    "\<not> pointer_used_since m (pe_read V) (max (nStakePointerForkHeight (ne_params E)) (nHeight prev - nStakePointerValidityPeriod (ne_params E) + 1))
       (pointer_outpoint (stakePointer block)) p"
    "r = (pubKeyProofOfStake (stakePointer block), pointer_outpoint (stakePointer block))"
    "\<exists>b. pe_read_pos V (GetBlockPos origin) = Some b \<and> check_pointer_output E V (stakePointer block) b = Some True"
    using assms(4) unfolding CheckBlockProofPointer_def IsStakePointerUsed_spec [OF assms(1,2)]
    by (auto simp: Let_def split: option.splits if_splits bool.splits)
  moreover have "\<not> pointer_used_since m (pe_read V) (max (nStakePointerForkHeight (ne_params E)) (nHeight origin)) (pointer_outpoint (stakePointer block)) p"
    using f(3,5) assms(3) by (auto simp: pointer_used_since_def)
  ultimately show ?thesis by blast
qed

lemma find_tx_Some: "find_tx E txid txs = Some tx \<Longrightarrow> tx \<in> set txs \<and> ne_tx_hash E tx = txid"
  by (induction txs) (auto split: if_splits)

lemma check_pointer_output_True:
  "check_pointer_output E V sp b = Some True \<longleftrightarrow>
   (\<exists>tx. find_tx E (sp_txid sp) (vtx b) = Some tx \<and> unat (sp_nPos sp) < length (vout tx) \<and>
      ExtractDestination (pe_GetID V) (scriptPubKey (vout tx ! unat (sp_nPos sp))) = Some (Some (CKeyID (pe_GetID V (pubKeyCollateral sp)))) \<and>
      CPubKey_size (pubKeyCollateral sp) = 33 \<and>
      (pubKeyProofOfStake sp \<noteq> pubKeyCollateral sp \<longrightarrow> VerifyCollateralSignOver (ne_Hash E) (pe_GetID V) (pe_hex V) (ne_Verify E) sp))"
  by (auto simp: check_pointer_output_def split: option.splits CTxDestination.splits if_splits)

text \<open>The check of a stake fails no assertion when the coinbase has an output and the outputs of the block it reads have readable scripts.\<close>

lemma CheckStake_returns:
  assumes "wf_index m" "m (phashBlock prev) = Some prev" "\<And>s. length (ne_Hash E s) = WIDTH256" "0 \<le> nKernelModifierOffset (ne_params E)"
    and "vout (vtx block ! 0) \<noteq> []"
    and "\<And>pos b tx out. pe_read_pos V pos = Some b \<Longrightarrow> tx \<in> set (vtx b) \<Longrightarrow> out \<in> set (vout tx) \<Longrightarrow>
      ExtractDestination (pe_GetID V) (scriptPubKey out) \<noteq> None"
  shows "CheckStake E V m c prev block h0 \<noteq> None"
proof -
  have "check_pointer_output E V sp b \<noteq> None" if "pe_read_pos V pos = Some b" for sp pos b
  proof (cases "find_tx E (sp_txid sp) (vtx b)")
    case (Some tx)
    then have tx: "tx \<in> set (vtx b)" using find_tx_Some by blast
    have "\<exists>d. ExtractDestination (pe_GetID V) (scriptPubKey (vout tx ! unat (sp_nPos sp))) = Some d" if "unat (sp_nPos sp) < length (vout tx)"
      using assms(6) [OF \<open>pe_read_pos V pos = Some b\<close> tx nth_mem [OF that]] by blast
    then show ?thesis using Some
      by (cases "unat (sp_nPos sp) < length (vout tx)") (auto simp: check_pointer_output_def split: option.splits CTxDestination.splits)
  qed (simp add: check_pointer_output_def)
  then have "CheckBlockProofPointer E V m c (Some (phashBlock prev)) (nHeight prev + 1) block \<noteq> None"
    by (auto simp del: not_None_eq simp: CheckBlockProofPointer_def Let_def IsStakePointerUsed_spec [OF assms(1,2)] split: option.splits bool.splits)
  moreover have "CheckStakePointerKernelHash (ne_params E) (ne_Hash E) (pe_adjusted V) m (hd_nBits block) out from prev (hd_nTime block) h0 \<noteq> None"
    for out "from"
    using pointer_kernel_spec [of m prev "ne_Hash E" "ne_params E" "pe_adjusted V" "hd_nBits block" out "from" "hd_nTime block" h0] assms(1-4) by auto
  ultimately show ?thesis using assms(5) by (auto simp: CheckStake_def split: option.splits)
qed

text \<open>What \<open>CheckWork\<close> asks of a proof-of-stake block with the required target, by the kernel in force.\<close>

definition stake_verdict ::
  "node_env \<Rightarrow> pointer_env \<Rightarrow> block_map \<Rightarrow> CChain \<Rightarrow> (CTransaction \<times> base_uint) option \<Rightarrow> CBlock \<Rightarrow> CBlockIndex \<Rightarrow> (bool \<times> base_uint) outcome" where
  "stake_verdict E V m c found block prev =
     (if nHeight prev + 1 \<ge> nStakePointerForkHeight (ne_params E) then assertion (CheckStake E V m c prev block (bu_zero WIDTH256))
      else CheckProofOfStake E m c found block (bu_zero WIDTH256) (nHeight prev + 1))"

lemma CheckWork_returns:
  assumes "wf_index m" "m (phashBlock prev) = Some prev" "length (bnProofOfWorkLimit (ne_params E)) = WIDTH256"
    and "IsProofOfStake block \<Longrightarrow> \<exists>r. stake_verdict E V m c found block prev = Returns r"
  shows "\<exists>r. CheckWork E V m c close found evict block (Some prev) proofs = Returns r"
proof -
  let ?P = "ne_params E"
  obtain x where "length x = WIDTH256" "GetNextWorkRequired (bnProofOfWorkLimit ?P) (nLastPOWBlock ?P) (nStakePointerForkHeight ?P) m (Some (phashBlock prev)) = GetCompact False x"
    using GetNextWorkRequired_total [OF assms(1,3), of "Some (phashBlock prev)" "nLastPOWBlock ?P" "nStakePointerForkHeight ?P"] assms(2) by auto
  then obtain bits where b: "GetNextWorkRequired (bnProofOfWorkLimit ?P) (nLastPOWBlock ?P) (nStakePointerForkHeight ?P) m (Some (phashBlock prev)) = Some bits"
    using GetCompact_le by metis
  show ?thesis
  proof (cases "IsProofOfStake block")
    case True
    then obtain ok h where "stake_verdict E V m c found block prev = Returns (ok, h)" using assms(4) by fastforce
    then have "\<exists>r. obind (if nStakePointerForkHeight ?P \<le> nHeight prev + 1 then assertion (CheckStake E V m c prev block (bu_zero WIDTH256))
        else CheckProofOfStake E m c found block (bu_zero WIDTH256) (nHeight prev + 1))
        (\<lambda>(ok, hashProof). Returns (ok, if ok then remember_proof evict (ne_block_hash E block) hashProof proofs else proofs)) = Returns r"
      by (simp add: stake_verdict_def split: if_splits)
    then show ?thesis using b by (auto simp: CheckWork_def Let_def split: if_splits)
  next
    case False
    then show ?thesis using b by (auto simp: CheckWork_def Let_def)
  qed
qed

text \<open>
  C33: a stake that \<open>CheckStake\<close> accepts rests on a masternode output on the active chain that is old enough and not too
  old, pays to the hash of the compressed collateral key of the pointer, and has not been used: no ancestor of the new block
  from the height of the output's own block on (and from the fork on) has used it, although the search for an earlier use
  only looks back over the validity period.  The block is signed by the staking key, which is the collateral key or has its
  sign-over, and the kernel meets its target.
\<close>

theorem accepted_stake_pointer:
  assumes "CheckStake E V m vChain prev block h0 = Some (True, h)" "wf_index m" "m (phashBlock prev) = Some prev"
  shows "let sp = stakePointer block; N = nHeight prev + 1; P = ne_params E in
    IsProofOfStake block \<and> nValue (vout (vtx block ! 0) ! 0) = 0 \<and>
    (\<exists>origin b tx. m (sp_hashBlock sp) = Some origin \<and> chain_Contains m vChain (sp_hashBlock sp) \<and>
      nMaxReorganizationDepth P \<le> N - nHeight origin \<and> N - nHeight origin \<le> nStakePointerValidityPeriod P \<and>
      pe_read_pos V (GetBlockPos origin) = Some b \<and> tx \<in> set (vtx b) \<and> ne_tx_hash E tx = sp_txid sp \<and> unat (sp_nPos sp) < length (vout tx) \<and>
      ExtractDestination (pe_GetID V) (scriptPubKey (vout tx ! unat (sp_nPos sp))) = Some (Some (CKeyID (pe_GetID V (pubKeyCollateral sp)))) \<and>
      \<not> pointer_used_since m (pe_read V) (max (nStakePointerForkHeight P) (nHeight origin)) (pointer_outpoint sp) (phashBlock prev) \<and>
      CheckStakePointerKernelHash P (ne_Hash E) (pe_adjusted V) m (hd_nBits block) (pointer_outpoint sp) origin prev (hd_nTime block) h0 = Some (True, h)) \<and>
    CPubKey_size (pubKeyCollateral sp) = 33 \<and>
    (pubKeyProofOfStake sp = pubKeyCollateral sp \<or> VerifyCollateralSignOver (ne_Hash E) (pe_GetID V) (pe_hex V) (ne_Verify E) sp) \<and>
    ne_Verify E (pubKeyProofOfStake sp) (ne_block_hash E block) (vchBlockSig block)"
proof -
  let ?sp = "stakePointer block"
  from assms(1) obtain pubkey out origin where c:
    "CheckBlockProofPointer E V m vChain (Some (phashBlock prev)) (nHeight prev + 1) block = Some (Some (pubkey, out))"
    "CheckBlockSignature_key (ne_Verify E) (ne_block_hash E) pubkey block" "m (sp_hashBlock ?sp) = Some origin"
    "CheckStakePointerKernelHash (ne_params E) (ne_Hash E) (pe_adjusted V) m (hd_nBits block) out origin prev (hd_nTime block) h0 = Some (True, h)"
    "IsProofOfStake block" "nValue (vout (vtx block ! 0) ! 0) = 0"
    by (auto simp: CheckStake_def split: if_splits option.splits)
  from CheckBlockProofPointer_fresh [OF assms(2,3) refl c(1)] c(3) obtain b where f:
    "chain_Contains m vChain (sp_hashBlock ?sp)" "nHeight prev + 1 - nStakePointerValidityPeriod (ne_params E) \<le> nHeight origin"
    "nHeight origin \<le> nHeight prev + 1 - nMaxReorganizationDepth (ne_params E)"
    "\<not> pointer_used_since m (pe_read V) (max (nStakePointerForkHeight (ne_params E)) (nHeight origin)) (pointer_outpoint ?sp) (phashBlock prev)"
    "pubkey = pubKeyProofOfStake ?sp" "out = pointer_outpoint ?sp" "pe_read_pos V (GetBlockPos origin) = Some b"
    "check_pointer_output E V ?sp b = Some True"
    by auto
  obtain tx where t: "find_tx E (sp_txid ?sp) (vtx b) = Some tx" "unat (sp_nPos ?sp) < length (vout tx)"
    "ExtractDestination (pe_GetID V) (scriptPubKey (vout tx ! unat (sp_nPos ?sp))) = Some (Some (CKeyID (pe_GetID V (pubKeyCollateral ?sp))))"
    "CPubKey_size (pubKeyCollateral ?sp) = 33"
    "pubKeyProofOfStake ?sp \<noteq> pubKeyCollateral ?sp \<longrightarrow> VerifyCollateralSignOver (ne_Hash E) (pe_GetID V) (pe_hex V) (ne_Verify E) ?sp"
    using f(8) unfolding check_pointer_output_True by blast
  have "ne_Verify E (pubKeyProofOfStake ?sp) (ne_block_hash E block) (vchBlockSig block)"
    using c(2) f(5) by (auto simp: CheckBlockSignature_key_def split: if_splits)
  then show ?thesis unfolding Let_def
    using c f t find_tx_Some [OF t(1)] by (intro conjI exI [of _ origin] exI [of _ b] exI [of _ tx]) (auto)
qed

definition stake_env :: node_env where
  "stake_env = small_env\<lparr>ne_params := (CMainParams (small_hash 55))\<lparr>nKernelModifierOffset := 1, nMaxReorganizationDepth := 1,
     nStakePointerForkHeight := 1\<rparr>, ne_Verify := (\<lambda>_ _ _. True)\<rparr>"

definition collateral_block :: CBlock where
  "collateral_block = block_SetNull\<lparr>vtx := [\<lparr>tx_nVersion = 1, vin = [],
        vout = [new_CTxOut 1000 (GetScriptForDestination (CKeyID (replicate 20 7)))], tx_nLockTime = 3\<rparr>]\<rparr>"

definition stake_pointers :: pointer_env where
  "stake_pointers = \<lparr>pe_GetID = (\<lambda>_. replicate 20 7), pe_hex = (\<lambda>_. []), pe_read = (\<lambda>_. None),
     pe_read_pos = (\<lambda>_. Some collateral_block), pe_adjusted = 0\<rparr>"

definition stake_block :: CBlock where
  "stake_block = block_SetNull\<lparr>hd_nVersion := 5, hd_nTime := 5, hd_nBits := 0x01010000, vchBlockSig := [1],
     vtx := [\<lparr>tx_nVersion = 1, vin = [], vout = [new_CTxOut 0 []], tx_nLockTime = 0\<rparr>,
             \<lparr>tx_nVersion = 1, vin = [new_CTxIn outpoint_SetNull [of_nat OP_PROOFOFSTAKE] 0], vout = [new_CTxOut 0 [], new_CTxOut 9 [1]], tx_nLockTime = 0\<rparr>],
     stakePointer := \<lparr>sp_hashBlock = [1], sp_txid = small_hash 1003, sp_nPos = 0, pubKeyCollateral = 2 # replicate 32 0,
        pubKeyProofOfStake = 2 # replicate 32 0, vchSigCollateralSignOver = []\<rparr>\<rparr>"

lemma stake_samples [simp]:
  "ne_params stake_env = (CMainParams (small_hash 55))\<lparr>nKernelModifierOffset := 1, nMaxReorganizationDepth := 1, nStakePointerForkHeight := 1\<rparr>"
  "ne_tx_hash stake_env tx = small_hash (unat (tx_nLockTime tx) + 1000)" "ne_Verify stake_env k h s" "ne_Hash stake_env s = small_hash 0"
  "IsProofOfStake stake_block" "hd_nVersion stake_block = 5" "hd_nTime stake_block = 5" "hd_nBits stake_block = 0x01010000"
  "IsV5CoinStake (vtx stake_block ! 1)" "\<not> sp_IsNull (stakePointer stake_block)"
  by (simp_all add: stake_env_def small_env_def stake_block_def IsProofOfStake_def IsCoinStake_def IsV5CoinStake_def new_CTxIn_def new_CTxOut_def
      outpoint_SetNull_def outpoint_IsNull_def bu_IsNull_def bu_zero_def list_all_iff IsProofOfStakeMarker_def txout_IsEmpty_def
      sp_IsNull_def block_SetNull_def header_SetNull_def block_of_header_def CBlockHeader.extend_def)

lemma stake_block_pointer [simp]: "stakePointer stake_block = \<lparr>sp_hashBlock = [1], sp_txid = small_hash 1003, sp_nPos = 0,
    pubKeyCollateral = 2 # replicate 32 0, pubKeyProofOfStake = 2 # replicate 32 0, vchSigCollateralSignOver = []\<rparr>"
  "vtx stake_block ! 0 = \<lparr>tx_nVersion = 1, vin = [], vout = [new_CTxOut 0 []], tx_nLockTime = 0\<rparr>" "vchBlockSig stake_block = [1]"
  "pe_adjusted stake_pointers = 0" "pe_read stake_pointers = (\<lambda>_. None)" "pe_read_pos stake_pointers = (\<lambda>_. Some collateral_block)"
  by (simp_all add: stake_block_def stake_pointers_def)

lemma stake_output: "check_pointer_output stake_env stake_pointers (stakePointer stake_block) collateral_block = Some True"
  by (simp add: check_pointer_output_def stake_pointers_def collateral_block_def ExtractDestination_def Solver_keyid new_CTxOut_def CPubKey_size_def pubkey_GetLen_def
      del: GetScriptForDestination.simps)

abbreviation stake_prev :: CBlockIndex where
  "stake_prev \<equiv> sample_entry [1] (Some [0]) (Some [0]) 1"

lemma stake_kernel: "CheckStakePointerKernelHash (ne_params stake_env) (ne_Hash stake_env) 0 kernel_index 0x01010000 out stake_prev stake_prev 5 h0 =
  Some (True, small_hash 0)"
proof -
  have ph: "phashBlock stake_prev = [1]" "nHeight stake_prev = 1" by (simp_all add: sample_entry_def new_CBlockIndex_def)
  have a: "GetAncestor kernel_index [1] 0 = Some (Some [0])"
    using GetAncestor_walk [OF kernel_index_ok(1), of "[1]" stake_prev 0] kernel_index_ok by (simp add: sample_entry_def)
  have mtp: "GetMedianTimePast kernel_index [1] = 0"
    by (simp add: GetMedianTimePast_def nMedianTimeSpan_def kernel_index_ok sample_entry_def new_CBlockIndex_def bi_GetBlockTime_def
        block_SetNull_def block_of_header_def header_SetNull_def CBlockHeader.extend_def numeral_eq_Suc)
  have "fst (SetCompact 0x01010000) = bu_of_uint64 WIDTH256 1" by (simp add: SetCompact_def Let_def)
  then have t: "bu_val (fst (SetCompact 0x01010000)) = 1" by (simp add: bu_of_uint64_val)
  have z: "small_hash 0 = bu_zero WIDTH256" by simp
  have len: "length (small_hash 0) = WIDTH256" by (simp add: small_hash_def)
  obtain q where q: "bu_div (small_hash 0) (bu_of_uint64 WIDTH256 (of_int (MASTERNODE_COLLATERAL div 100))) = Some q"
      "\<not> bu_CompareTo q (fst (SetCompact 0x01010000)) \<ge> 0"
    using pointer_target_test [OF len, of "0x01010000"] t z by auto
  show ?thesis using a mtp q ph kernel_index_ok(4)
    by (simp add: CheckStakePointerKernelHash_def pointer_kernel_hash_def Let_def)
qed

theorem accepted_stake_pointer_witness:
  "CheckStake stake_env stake_pointers kernel_index [Some [0], Some [1]] stake_prev stake_block (bu_zero WIDTH256) = Some (True, small_hash 0) \<and>
   \<not> pointer_used_since kernel_index (\<lambda>_. None) 1 \<lparr>op_hash = small_hash 1003, op_n = 0\<rparr> [1] \<and>
   ne_Verify stake_env (2 # replicate 32 0) (ne_block_hash stake_env stake_block) [1]"
proof -
  let ?out = "\<lparr>op_hash = small_hash 1003, op_n = 0\<rparr>"
  have ph: "phashBlock stake_prev = [1]" "nHeight stake_prev = 1" "\<not> bi_IsProofOfStake stake_prev"
    by (simp_all add: sample_entry_def new_CBlockIndex_def bi_IsProofOfStake_def IsProofOfStake_def block_SetNull_def block_of_header_def CBlockHeader.extend_def)
  have k: "kernel_index [1] = Some stake_prev" using kernel_index_ok(3) .
  have u: "\<not> pointer_used_since kernel_index (\<lambda>_. None) h ?out [1]" if "1 \<le> h" for h
  proof -
    have r: "kernel_index [0] = Some ((sample_entry [0] None None 0)\<lparr>nFlags := 4\<rparr>)" using kernel_index_ok(4) .
    have "pprev stake_prev = Some [0]" by (simp add: sample_entry_def)
    moreover have "pprev ((sample_entry [0] None None 0)\<lparr>nFlags := 4\<rparr>) = None" by (simp add: sample_entry_def)
    ultimately have "ancestors kernel_index [1] = {[1], [0]}" using ancestors_step [of kernel_index, OF k] ancestors_root [of kernel_index, OF r] by simp
    moreover have "nHeight ((sample_entry [0] None None 0)\<lparr>nFlags := 4\<rparr>) = 0" by (simp add: sample_entry_def)
    moreover have "\<not> uses_pointer (\<lambda>_. None) stake_prev ?out" using ph(3) by (simp only: uses_pointer_def) blast
    ultimately have anc: "ancestors kernel_index [1] = {[1], [0]}" "nHeight ((sample_entry [0] None None 0)\<lparr>nFlags := 4\<rparr>) = 0"
      "\<not> uses_pointer (\<lambda>_. None) stake_prev ?out" by blast+
    show ?thesis
    proof
      assume "pointer_used_since kernel_index (\<lambda>_. None) h ?out [1]"
      then obtain q bj where q: "q \<in> {[1], [0]}" "kernel_index q = Some bj" "h \<le> nHeight bj" "uses_pointer (\<lambda>_. None) bj ?out"
        unfolding pointer_used_since_def anc(1) by blast
      from q(1) show False
      proof (elim insertE)
        assume "q = [1]" then show False using q(2,4) k anc(3) by simp
      next
        assume "q = [0]" then show False using q(2,3) r anc(2) that by simp
      qed blast
    qed
  qed
  have used: "IsStakePointerUsed (ne_params stake_env) kernel_index (pe_read stake_pointers) (Some [1]) ?out = Some False"
    using u by (simp add: IsStakePointerUsed_spec [OF kernel_index_ok(1) k])
  have p: "CheckBlockProofPointer stake_env stake_pointers kernel_index [Some [0], Some [1]] (Some [1]) 2 stake_block =
      Some (Some (2 # replicate 32 0, ?out))"
    using used stake_output k ph
    by (simp add: CheckBlockProofPointer_def Let_def chain_Contains_def chain_nth_def pointer_outpoint_def CMainParams_def)
  have c: "CheckStake stake_env stake_pointers kernel_index [Some [0], Some [1]] stake_prev stake_block (bu_zero WIDTH256) = Some (True, small_hash 0)"
    using p stake_kernel [of ?out "bu_zero WIDTH256"] k ph
    by (simp add: CheckStake_def new_CTxOut_def CheckBlockSignature_key_def CPubKey_IsValid_def CPubKey_size_def pubkey_GetLen_def
        sp_IsNull_def bu_IsNull_def stake_samples [unfolded One_nat_def])
  show ?thesis using c accepted_stake_pointer [OF c kernel_index_ok(1)] k ph
    by (auto simp: Let_def pointer_outpoint_def)
qed

end
