(* ===== verification/Block_Tree.thy ===== *)
theory Block_Tree
  imports Check_Block "HOL-Library.Monad_Syntax"
begin

text \<open>
  The tree of known blocks (\<open>src/main.cpp\<close>): accepting headers and blocks, linking blocks whose ancestors are there,
  choosing the chain with the most work, and taking back the marks of invalid blocks.

  Entries are named by their hash, under which \<open>mapBlockIndex\<close> has them; \<open>known_blocks\<close> lists the keys of that map in the
  order in which the code's hash map is run through, here the last one added first; \<open>addr\<close> gives the memory addresses that
  break ties in the order of candidates.  \<open>setBlockIndexCandidates\<close> and \<open>setDirtyBlockIndex\<close> are kept as lists without
  repetitions; of the first only membership and the greatest element are used, the second is run through in the order of the
  addresses.  \<open>mapBlocksUnlinked\<close> is the multimap in the order of insertion.  \<open>None\<close> is a failed assertion, the exception of a
  division by zero, or a null pointer that is followed.
\<close>

unbundle bit_operations_syntax

section \<open>The state\<close>

record block_tree =
  mapBlockIndex :: block_map
  known_blocks :: "bid list"
  chainActive :: CChain
  setBlockIndexCandidates :: "bid list"
  mapBlocksUnlinked :: "(bid option \<times> bid) list"
  setDirtyBlockIndex :: "bid list"
  pindexBestHeader :: "bid option"
  pindexBestInvalid :: "bid option"
  nBlockSequenceId :: u32
  setStakeSeen :: "(COutPoint \<times> u32) set"
  mapProofOfStake :: "(base_uint \<times> base_uint) list"
  mapRejectedBlocks :: "base_uint \<Rightarrow> int option"
  pindexBestForkTip :: "bid option"
  pindexBestForkBase :: "bid option"
  fLargeWorkForkFound :: bool
  fLargeWorkInvalidChainFound :: bool

definition Tip :: "block_tree \<Rightarrow> bid option" where
  "Tip bt = (if chainActive bt = [] then None else chainActive bt ! (length (chainActive bt) - 1))"

definition tip_index :: "block_tree \<Rightarrow> CBlockIndex option" where
  "tip_index bt = Option.bind (Tip bt) (mapBlockIndex bt)"

definition update_index :: "bid \<Rightarrow> CBlockIndex \<Rightarrow> block_tree \<Rightarrow> block_tree" where
  "update_index p bi bt = bt\<lparr>mapBlockIndex := (mapBlockIndex bt)(p \<mapsto> bi), setDirtyBlockIndex := List.insert p (setDirtyBlockIndex bt)\<rparr>"

text \<open>\<open>CBlockIndexWorkComparator\<close>: more work is greater, then the earlier sequence number, then the lower address.\<close>

definition CBlockIndexWorkComparator :: "(bid \<Rightarrow> nat) \<Rightarrow> CBlockIndex \<Rightarrow> CBlockIndex \<Rightarrow> bool" where
  "CBlockIndexWorkComparator addr pa pb =
     (if bu_CompareTo (nChainWork pa) (nChainWork pb) > 0 then False
      else if bu_CompareTo (nChainWork pa) (nChainWork pb) < 0 then True
      else if nSequenceId pa < nSequenceId pb then False
      else if nSequenceId pa > nSequenceId pb then True
      else addr (phashBlock pb) < addr (phashBlock pa))"

definition insert_candidate :: "bid \<Rightarrow> bid list \<Rightarrow> bid list" where
  "insert_candidate p cs = (if p \<in> set cs then cs else p # cs)"

definition erase_candidate :: "bid \<Rightarrow> bid list \<Rightarrow> bid list" where
  "erase_candidate p cs = filter (\<lambda>q. q \<noteq> p) cs"

section \<open>Adding a header\<close>

text \<open>
  The links of a new entry to its parent.  \<open>SetStakeEntropyBit\<close> does not fail on a single bit.  A block whose header names
  its own hash as the parent is not considered.
\<close>

definition link_to_parent :: "block_tree \<Rightarrow> bid \<Rightarrow> bid \<Rightarrow> CBlockIndex \<Rightarrow> (CBlockIndex \<times> block_map) option" where
  "link_to_parent bt hash hashPrev new =
     (case mapBlockIndex bt hashPrev of
        None \<Rightarrow> Some (new, mapBlockIndex bt)
      | Some prev \<Rightarrow> do {
          new \<leftarrow> BuildSkip (mapBlockIndex bt) (new\<lparr>pprev := Some hashPrev, nHeight := nHeight prev + 1\<rparr>);
          trust \<leftarrow> GetBlockTrust new;
          let new = new\<lparr>bnChainTrust := bu_add (bnChainTrust prev) trust\<rparr>;
          let new = snd (SetStakeEntropyBit (GetStakeEntropyBit new) new);
          let new = (if bi_IsProofOfStake new
                     then (case map_of (mapProofOfStake bt) hash of None \<Rightarrow> new | Some h \<Rightarrow> new\<lparr>hashProofOfStake := h\<rparr>)
                     else new);
          Some (new, (mapBlockIndex bt)(hashPrev \<mapsto> prev\<lparr>pnext := Some hash\<rparr>))
        })"

definition prev_work :: "block_map \<Rightarrow> CBlockIndex \<Rightarrow> base_uint" where
  "prev_work m bi = (case Option.bind (pprev bi) m of None \<Rightarrow> bu_zero WIDTH256 | Some prev \<Rightarrow> nChainWork prev)"

definition AddToBlockIndex :: "node_env \<Rightarrow> CBlock \<Rightarrow> block_tree \<Rightarrow> (bid \<times> block_tree) option" where
  "AddToBlockIndex E block bt =
     (let hash = ne_block_hash E block
      in if mapBlockIndex bt hash \<noteq> None then Some (hash, bt)
         else do {
           let new = new_CBlockIndex hash block;
           (new, m) \<leftarrow> link_to_parent bt hash (hashPrevBlock block) new;
           work \<leftarrow> GetBlockProof new;
           let new = new\<lparr>nChainWork := bu_add (prev_work m new) work\<rparr>;
           (raised, new) \<leftarrow> RaiseValidity BLOCK_VALID_TREE new;
           let better = (case Option.bind (pindexBestHeader bt) m of None \<Rightarrow> True | Some b \<Rightarrow> bu_CompareTo (nChainWork b) (nChainWork new) < 0);
           Some (hash, update_index hash new (bt\<lparr>mapBlockIndex := m, known_blocks := hash # known_blocks bt,
             setStakeSeen := (if bi_IsProofOfStake new then insert (prevoutStake new, nStakeTime new) (setStakeSeen bt) else setStakeSeen bt),
             pindexBestHeader := (if better then Some hash else pindexBestHeader bt)\<rparr>))
         })"

section \<open>Receiving the body of a block\<close>

definition received_entry :: "node_env \<Rightarrow> (base_uint \<times> base_uint) list \<Rightarrow> CBlock \<Rightarrow> CDiskBlockPos \<Rightarrow> CBlockIndex \<Rightarrow> CBlockIndex option" where
  "received_entry E proofs block pos bi =
     (let bi = (if IsProofOfStake block
                then (let bi = (SetProofOfStake bi)\<lparr>prevoutStake := fst (GetProofOfStake block), nStakeTime := hd_nTime block\<rparr>
                      in if bu_IsNull (hashProofOfStake bi)
                         then (case map_of proofs (ne_block_hash E block) of None \<Rightarrow> bi | Some h \<Rightarrow> bi\<lparr>hashProofOfStake := h\<rparr>)
                         else bi)
                else bi);
          bi = bi\<lparr>nTx := of_nat (length (vtx block)), nChainTx := 0, bi_nFile := dp_nFile pos, nDataPos := dp_nPos pos, nUndoPos := 0,
                  nStatus := nStatus bi OR BLOCK_HAVE_DATA\<rparr>
      in map_option snd (RaiseValidity BLOCK_VALID_TRANSACTIONS bi))"

definition prev_chain_tx :: "block_map \<Rightarrow> CBlockIndex \<Rightarrow> u32" where
  "prev_chain_tx m bi = (case Option.bind (pprev bi) m of None \<Rightarrow> 0 | Some prev \<Rightarrow> nChainTx prev)"

text \<open>The stake modifier of a block whose ancestors are all there, and whether its checksum agrees with the checkpoints.\<close>

definition finalise_modifier :: "node_env \<Rightarrow> u64 \<Rightarrow> block_map \<Rightarrow> CBlockIndex \<Rightarrow> (bool \<times> CBlockIndex) option" where
  "finalise_modifier E literal m bi =
     (if pprev bi = None then Some (True, bi)
      else do {
        (ok, modifier, generated) \<leftarrow> ComputeNextStakeModifier (ne_params E) (ne_Hash E) literal m (pprev bi);
        let bi = SetStakeModifier modifier generated (bi\<lparr>nFlags := nFlags bi AND NOT BLOCK_STAKE_MODIFIER\<rparr>);
        checksum \<leftarrow> GetStakeModifierChecksum (ne_params E) (ne_Hash E) m bi;
        let bi = bi\<lparr>nStakeModifierChecksum := checksum\<rparr>;
        Some (if CheckStakeModifierCheckpoints (nHeight bi) checksum then (True, bi)
              else (False, bi\<lparr>nStatus := nStatus bi OR BLOCK_FAILED_VALID\<rparr>))
      })"

text \<open>One block of the queue; the flag says whether its descendants are looked at.\<close>

definition link_block :: "node_env \<Rightarrow> u64 \<Rightarrow> (bid \<Rightarrow> nat) \<Rightarrow> bid \<Rightarrow> block_tree \<Rightarrow> (bool \<times> block_tree) option" where
  "link_block E literal addr p bt = do {
     bi \<leftarrow> mapBlockIndex bt p;
     let bi = bi\<lparr>nChainTx := prev_chain_tx (mapBlockIndex bt) bi + nTx bi, nSequenceId := nBlockSequenceId bt\<rparr>;
     (ok, bi) \<leftarrow> finalise_modifier E literal (mapBlockIndex bt) bi;
     let bt = (update_index p bi bt)\<lparr>nBlockSequenceId := nBlockSequenceId bt + 1\<rparr>;
     Some (ok, if \<not> ok then bt
               else case tip_index bt of
                 None \<Rightarrow> bt\<lparr>setBlockIndexCandidates := insert_candidate p (setBlockIndexCandidates bt)\<rparr>
               | Some tip \<Rightarrow>
                   if \<not> CBlockIndexWorkComparator addr bi tip
                   then bt\<lparr>setBlockIndexCandidates := insert_candidate p (setBlockIndexCandidates bt)\<rparr>
                   else bt)
   }"

partial_function (option) link_loop :: "node_env \<Rightarrow> u64 \<Rightarrow> (bid \<Rightarrow> nat) \<Rightarrow> bid list \<Rightarrow> block_tree \<Rightarrow> block_tree option" where
  "link_loop E literal addr queue bt =
     (case queue of [] \<Rightarrow> Some bt
      | p # queue \<Rightarrow>
          (case link_block E literal addr p bt of None \<Rightarrow> None
           | Some (ok, bt) \<Rightarrow>
               if \<not> ok then link_loop E literal addr queue bt
               else link_loop E literal addr (queue @ map snd (filter (\<lambda>e. fst e = Some p) (mapBlocksUnlinked bt)))
                      (bt\<lparr>mapBlocksUnlinked := filter (\<lambda>e. fst e \<noteq> Some p) (mapBlocksUnlinked bt)\<rparr>)))"

definition ReceivedBlockTransactions ::
  "node_env \<Rightarrow> u64 \<Rightarrow> (bid \<Rightarrow> nat) \<Rightarrow> CBlock \<Rightarrow> bid \<Rightarrow> CDiskBlockPos \<Rightarrow> block_tree \<Rightarrow> block_tree option" where
  "ReceivedBlockTransactions E literal addr block pindexNew pos bt = do {
     bi \<leftarrow> mapBlockIndex bt pindexNew;
     bi \<leftarrow> received_entry E (mapProofOfStake bt) block pos bi;
     let bt = (update_index pindexNew bi bt)\<lparr>setStakeSeen :=
                (if IsProofOfStake block then insert (prevoutStake bi, nStakeTime bi) (setStakeSeen bt) else setStakeSeen bt)\<rparr>;
     (case Option.bind (pprev bi) (mapBlockIndex bt) of
        None \<Rightarrow> link_loop E literal addr [pindexNew] bt
      | Some prev \<Rightarrow>
          if nChainTx prev \<noteq> 0 then link_loop E literal addr [pindexNew] bt
          else do {
            valid \<leftarrow> bi_IsValid BLOCK_VALID_TREE prev;
            Some (if valid then bt\<lparr>mapBlocksUnlinked := mapBlocksUnlinked bt @ [(pprev bi, pindexNew)]\<rparr> else bt)
          })
   }"

section \<open>The chain with the most work\<close>

fun best_candidate :: "(bid \<Rightarrow> nat) \<Rightarrow> block_map \<Rightarrow> bid list \<Rightarrow> bid option" where
  "best_candidate addr m [] = None"
| "best_candidate addr m (p # cs) =
     (case best_candidate addr m cs of None \<Rightarrow> Some p
      | Some q \<Rightarrow> (case (m p, m q) of (Some bp, Some bq) \<Rightarrow> if CBlockIndexWorkComparator addr bq bp then Some p else Some q
                  | _ \<Rightarrow> Some q))"

text \<open>The first block on the way to the active chain that is failed or has no data, and whether it is failed.\<close>

partial_function (option) scan_candidate :: "block_map \<Rightarrow> CChain \<Rightarrow> bid option \<Rightarrow> (bid \<times> bool) option option" where
  "scan_candidate m vChain pindexTest =
     (case pindexTest of None \<Rightarrow> Some None
      | Some p \<Rightarrow> (case m p of None \<Rightarrow> None
         | Some bi \<Rightarrow>
             if chain_Contains m vChain p then Some None
             else if \<not> (nChainTx bi \<noteq> 0 \<or> nHeight bi = 0) then None
             else let fFailedChain = (nStatus bi AND BLOCK_FAILED_MASK \<noteq> 0); fMissingData = (nStatus bi AND BLOCK_HAVE_DATA = 0)
                  in if fFailedChain \<or> fMissingData then Some (Some (p, fFailedChain)) else scan_candidate m vChain (pprev bi)))"

text \<open>Taking the blocks from a candidate down to the unusable one out of the candidates.\<close>

partial_function (option) drop_chain :: "bool \<Rightarrow> bid \<Rightarrow> bid \<Rightarrow> block_tree \<Rightarrow> block_tree option" where
  "drop_chain fFailedChain pindexTest pindexFailed bt =
     (if pindexFailed = pindexTest
      then Some (bt\<lparr>setBlockIndexCandidates := erase_candidate pindexTest (setBlockIndexCandidates bt)\<rparr>)
      else case mapBlockIndex bt pindexFailed of None \<Rightarrow> None
      | Some bi \<Rightarrow>
          let bt = (if fFailedChain
                    then bt\<lparr>mapBlockIndex := (mapBlockIndex bt)(pindexFailed \<mapsto> bi\<lparr>nStatus := nStatus bi OR BLOCK_FAILED_CHILD\<rparr>)\<rparr>
                    else bt\<lparr>mapBlocksUnlinked := mapBlocksUnlinked bt @ [(pprev bi, pindexFailed)]\<rparr>);
              bt = bt\<lparr>setBlockIndexCandidates := erase_candidate pindexFailed (setBlockIndexCandidates bt)\<rparr>
          in case pprev bi of None \<Rightarrow> None | Some q \<Rightarrow> drop_chain fFailedChain pindexTest q bt)"

definition note_best_invalid :: "bid \<Rightarrow> block_tree \<Rightarrow> block_tree" where
  "note_best_invalid p bt =
     (case (Option.bind (pindexBestInvalid bt) (mapBlockIndex bt), mapBlockIndex bt p) of
        (Some b, Some bi) \<Rightarrow> if bu_CompareTo (nChainWork bi) (nChainWork b) > 0 then bt\<lparr>pindexBestInvalid := Some p\<rparr> else bt
      | _ \<Rightarrow> bt\<lparr>pindexBestInvalid := Some p\<rparr>)"

partial_function (option) FindMostWorkChain :: "(bid \<Rightarrow> nat) \<Rightarrow> block_tree \<Rightarrow> (bid option \<times> block_tree) option" where
  "FindMostWorkChain addr bt =
     (case best_candidate addr (mapBlockIndex bt) (setBlockIndexCandidates bt) of None \<Rightarrow> Some (None, bt)
      | Some p \<Rightarrow>
          (case scan_candidate (mapBlockIndex bt) (chainActive bt) (Some p) of
             None \<Rightarrow> None
           | Some None \<Rightarrow> Some (Some p, bt)
           | Some (Some (q, fFailedChain)) \<Rightarrow>
               (case drop_chain fFailedChain q p (if fFailedChain then note_best_invalid p bt else bt) of
                  None \<Rightarrow> None | Some bt \<Rightarrow> FindMostWorkChain addr bt)))"

definition PruneBlockIndexCandidates :: "(bid \<Rightarrow> nat) \<Rightarrow> block_tree \<Rightarrow> block_tree option" where
  "PruneBlockIndexCandidates addr bt = do {
     tip \<leftarrow> tip_index bt;
     let cs = filter (\<lambda>p. case mapBlockIndex bt p of None \<Rightarrow> False | Some bi \<Rightarrow> \<not> CBlockIndexWorkComparator addr bi tip)
                (setBlockIndexCandidates bt);
     if cs = [] then None else Some (bt\<lparr>setBlockIndexCandidates := cs\<rparr>)
   }"

section \<open>Invalid blocks and forks\<close>

text \<open>
  The warnings about forks: the alerts and messages are left out.  \<open>ibd\<close> is the answer of \<open>IsInitialBlockDownload\<close>; the
  work of six blocks is a product of 256 bits.
\<close>

definition CheckForkWarningConditions :: "bool \<Rightarrow> block_tree \<Rightarrow> block_tree option" where
  "CheckForkWarningConditions ibd bt =
     (if ibd then Some bt
      else
        let forkTip = (case Option.bind (pindexBestForkTip bt) (mapBlockIndex bt) of None \<Rightarrow> None
              | Some f \<Rightarrow> if chain_Height (chainActive bt) - nHeight f \<ge> 72 then None else pindexBestForkTip bt);
            bt = bt\<lparr>pindexBestForkTip := forkTip\<rparr>
        in do {
          largeInvalid \<leftarrow> (if forkTip \<noteq> None then Some True
            else case Option.bind (pindexBestInvalid bt) (mapBlockIndex bt) of None \<Rightarrow> Some False
              | Some bad \<Rightarrow> do {
                  tip \<leftarrow> tip_index bt;
                  work \<leftarrow> GetBlockProof tip;
                  Some (bu_CompareTo (nChainWork bad) (bu_add (nChainWork tip) (bu_mul32 work 6)) > 0)
                });
          Some (if largeInvalid
                then (if forkTip \<noteq> None \<and> pindexBestForkBase bt \<noteq> None then bt\<lparr>fLargeWorkForkFound := True\<rparr>
                      else bt\<lparr>fLargeWorkInvalidChainFound := True\<rparr>)
                else bt\<lparr>fLargeWorkForkFound := False, fLargeWorkInvalidChainFound := False\<rparr>)
        })"

partial_function (option) lower_longer :: "block_map \<Rightarrow> int \<Rightarrow> bid option \<Rightarrow> bid option option" where
  "lower_longer m h plonger =
     (case plonger of None \<Rightarrow> Some None
      | Some p \<Rightarrow> (case m p of None \<Rightarrow> None
         | Some bi \<Rightarrow> if nHeight bi > h then lower_longer m h (pprev bi) else Some plonger))"

partial_function (option) fork_loop :: "block_map \<Rightarrow> bid option \<Rightarrow> bid option \<Rightarrow> bid option option" where
  "fork_loop m pfork plonger =
     (if pfork = None \<or> pfork = plonger then Some pfork
      else case Option.bind pfork m of None \<Rightarrow> None
      | Some bf \<Rightarrow> (case lower_longer m (nHeight bf) plonger of None \<Rightarrow> None
         | Some plonger \<Rightarrow> if pfork = plonger then Some pfork else fork_loop m (pprev bf) plonger))"

definition CheckForkWarningConditionsOnNewFork :: "bool \<Rightarrow> bid \<Rightarrow> block_tree \<Rightarrow> block_tree option" where
  "CheckForkWarningConditionsOnNewFork ibd pindexNewForkTip bt = do {
     new \<leftarrow> mapBlockIndex bt pindexNewForkTip;
     pfork \<leftarrow> fork_loop (mapBlockIndex bt) (Some pindexNewForkTip) (Tip bt);
     bt \<leftarrow> (case Option.bind pfork (mapBlockIndex bt) of
        None \<Rightarrow> Some bt
      | Some fork \<Rightarrow> do {
          work \<leftarrow> GetBlockProof fork;
          let higher = (case Option.bind (pindexBestForkTip bt) (mapBlockIndex bt) of None \<Rightarrow> True | Some t \<Rightarrow> nHeight new > nHeight t);
          Some (if higher \<and> bu_CompareTo (bu_sub (nChainWork new) (nChainWork fork)) (bu_mul32 work 7) > 0 \<and>
                   chain_Height (chainActive bt) - nHeight new < 72
                then bt\<lparr>pindexBestForkTip := Some pindexNewForkTip, pindexBestForkBase := pfork\<rparr> else bt)
        });
     CheckForkWarningConditions ibd bt
   }"

text \<open>The log reads the tip, which must be there.\<close>

definition InvalidChainFound :: "bool \<Rightarrow> bid \<Rightarrow> block_tree \<Rightarrow> block_tree option" where
  "InvalidChainFound ibd p bt =
     (let bt = note_best_invalid p bt in if tip_index bt = None then None else CheckForkWarningConditions ibd bt)"

text \<open>The part of \<open>InvalidBlockFound\<close> that is on the tree; the sender of the block is punished by the network code.\<close>

definition InvalidBlockFound :: "bool \<Rightarrow> bid \<Rightarrow> CValidationState \<Rightarrow> block_tree \<Rightarrow> block_tree option" where
  "InvalidBlockFound ibd p st bt =
     (if \<not> corruptionPossible st
      then do {
        bi \<leftarrow> mapBlockIndex bt p;
        let bt = update_index p (bi\<lparr>nStatus := nStatus bi OR BLOCK_FAILED_VALID\<rparr>) bt;
        InvalidChainFound ibd p (bt\<lparr>setBlockIndexCandidates := erase_candidate p (setBlockIndexCandidates bt)\<rparr>)
      }
      else Some bt)"

text \<open>\<open>ReconsiderBlock\<close>, whose first loop runs over the whole index.\<close>

definition clear_failed :: "CBlockIndex \<Rightarrow> CBlockIndex" where
  "clear_failed bi = bi\<lparr>nStatus := nStatus bi AND NOT BLOCK_FAILED_MASK\<rparr>"

definition reconsider_entry :: "(bid \<Rightarrow> nat) \<Rightarrow> int \<Rightarrow> bid \<Rightarrow> bid \<Rightarrow> block_tree \<Rightarrow> block_tree option" where
  "reconsider_entry addr height pindex q bt = do {
     bi \<leftarrow> mapBlockIndex bt q;
     valid \<leftarrow> bi_IsValid BLOCK_VALID_TRANSACTIONS bi;
     (if valid then Some bt
      else do {
        anc \<leftarrow> GetAncestor (mapBlockIndex bt) q height;
        (if anc \<noteq> Some pindex then Some bt
         else do {
           let bi = clear_failed bi;
           let bt = update_index q bi bt;
           valid \<leftarrow> bi_IsValid BLOCK_VALID_TRANSACTIONS bi;
           cs \<leftarrow> (if valid \<and> nChainTx bi \<noteq> 0
                  then (case tip_index bt of None \<Rightarrow> None
                        | Some tip \<Rightarrow> Some (if CBlockIndexWorkComparator addr tip bi then insert_candidate q (setBlockIndexCandidates bt)
                                           else setBlockIndexCandidates bt))
                  else Some (setBlockIndexCandidates bt));
           Some (bt\<lparr>setBlockIndexCandidates := cs,
                    pindexBestInvalid := (if pindexBestInvalid bt = Some q then None else pindexBestInvalid bt)\<rparr>)
         })
      })
   }"

fun reconsider_all :: "(bid \<Rightarrow> nat) \<Rightarrow> int \<Rightarrow> bid \<Rightarrow> bid list \<Rightarrow> block_tree \<Rightarrow> block_tree option" where
  "reconsider_all addr height pindex [] bt = Some bt"
| "reconsider_all addr height pindex (q # qs) bt =
     (case reconsider_entry addr height pindex q bt of None \<Rightarrow> None | Some bt \<Rightarrow> reconsider_all addr height pindex qs bt)"

partial_function (option) clear_ancestors :: "bid option \<Rightarrow> block_tree \<Rightarrow> block_tree option" where
  "clear_ancestors pindex bt =
     (case pindex of None \<Rightarrow> Some bt
      | Some p \<Rightarrow> (case mapBlockIndex bt p of None \<Rightarrow> None
         | Some bi \<Rightarrow> clear_ancestors (pprev bi)
             (if nStatus bi AND BLOCK_FAILED_MASK \<noteq> 0 then update_index p (clear_failed bi) bt else bt)))"

definition ReconsiderBlock :: "(bid \<Rightarrow> nat) \<Rightarrow> bid \<Rightarrow> block_tree \<Rightarrow> block_tree option" where
  "ReconsiderBlock addr pindex bt = do {
     bi \<leftarrow> mapBlockIndex bt pindex;
     bt \<leftarrow> reconsider_all addr (nHeight bi) pindex (known_blocks bt) bt;
     clear_ancestors (Some pindex) bt
   }"

section \<open>Accepting headers and blocks\<close>

text \<open>
  What the functions take from their surroundings: the proofs of work of \<open>Check_Block\<close>, the verdict on transaction locks
  and payees, and the place that \<open>FindBlockPos\<close> gives to a block (\<open>None\<close> when the disk is full).  \<open>ai_written\<close> is whether the
  block could be written, and \<open>ai_known\<close> whether its place was given.
\<close>

record accept_io =
  ai_env :: node_env
  ai_pointers :: pointer_env
  ai_now :: int
  ai_filter :: bool
  ai_locked :: "COutPoint \<Rightarrow> base_uint option"
  ai_ibd :: bool
  ai_payee :: "CBlock \<Rightarrow> int \<Rightarrow> bool"
  ai_maxReorg :: int
  ai_checkpoint :: "int \<Rightarrow> base_uint \<Rightarrow> bool"
  ai_lastCheckpoint :: "block_map \<Rightarrow> int option"
  ai_close :: "u32 \<Rightarrow> u32 \<Rightarrow> bool"
  ai_found :: "CBlock \<Rightarrow> (CTransaction \<times> base_uint) option"
  ai_evict :: nat
  ai_literal :: u64
  ai_addr :: "bid \<Rightarrow> nat"
  ai_pos :: "CDiskBlockPos option"
  ai_known :: bool
  ai_written :: bool

definition check_io_of :: "accept_io \<Rightarrow> CBlock \<Rightarrow> block_tree \<Rightarrow> check_io" where
  "check_io_of A block bt = \<lparr>ci_adjusted = pe_adjusted (ai_pointers A), ci_now = ai_now A, ci_filter = ai_filter A, ci_locked = ai_locked A,
     ci_tip = tip_index bt, ci_map = mapBlockIndex bt, ci_ibd = ai_ibd A, ci_payee = ai_payee A block\<rparr>"

text \<open>The parent of a block: \<open>Inl\<close> is the refusal.\<close>

definition find_parent :: "node_env \<Rightarrow> CBlock \<Rightarrow> block_map \<Rightarrow> CValidationState \<Rightarrow> CValidationState + CBlockIndex option" where
  "find_parent E block m st =
     (if ne_block_hash E block = hashGenesisBlock (ne_params E) then Inr None
      else case m (hashPrevBlock block) of
        None \<Rightarrow> Inl (state_DoS 0 0 ''bad-prevblk'' False st)
      | Some prev \<Rightarrow> if nStatus prev AND BLOCK_FAILED_MASK \<noteq> 0 then Inl (state_DoS 100 REJECT_INVALID ''bad-prevblk'' False st)
                    else Inr (Some prev))"

text \<open>The result, the entry, the state and the tree.\<close>

definition AcceptBlockHeader ::
  "accept_io \<Rightarrow> CBlock \<Rightarrow> CValidationState \<Rightarrow> block_tree \<Rightarrow> (bool \<times> bid option \<times> CValidationState \<times> block_tree) outcome" where
  "AcceptBlockHeader A block st bt =
     (let E = ai_env A; hash = ne_block_hash E block
      in case mapBlockIndex bt hash of
        Some pindex \<Rightarrow>
          if nStatus pindex AND BLOCK_FAILED_MASK \<noteq> 0 then Returns (False, Some hash, state_Invalid 0 ''duplicate'' st, bt)
          else Returns (True, Some hash, st, bt)
      | None \<Rightarrow>
          (case CheckBlockHeader E hash (hd_nBits block) st False of
             (False, st) \<Rightarrow> Returns (False, None, st, bt)
           | (True, st) \<Rightarrow>
               (case find_parent E block (mapBlockIndex bt) st of
                  Inl st \<Rightarrow> Returns (False, None, st, bt)
                | Inr prev \<Rightarrow>
                    obind (ContextualCheckBlockHeader E (mapBlockIndex bt) (chainActive bt) (ai_maxReorg A) (ai_checkpoint A)
                             (ai_lastCheckpoint A (mapBlockIndex bt)) block st prev)
                      (\<lambda>(ok, st).
                        if \<not> ok then Returns (False, None, st, bt)
                        else obind (assertion (AddToBlockIndex E block bt)) (\<lambda>(p, bt). Returns (True, Some p, st, bt))))))"

definition accept_body ::
  "accept_io \<Rightarrow> CBlock \<Rightarrow> bid \<Rightarrow> CBlockIndex \<Rightarrow> CValidationState \<Rightarrow> block_tree \<Rightarrow> (bool \<times> bid option \<times> CValidationState \<times> block_tree) outcome" where
  "accept_body A block p pindex st bt =
     (let E = ai_env A
      in case CheckBlock E (check_io_of A block bt) block True True (mapRejectedBlocks bt) st of
        (ok, st, rejected) \<Rightarrow>
          let bt = bt\<lparr>mapRejectedBlocks := rejected\<rparr>;
              (ok, st) = (if ok then ContextualCheckBlock E (chainActive bt) (pe_adjusted (ai_pointers A)) block st
                                       (Option.bind (pprev pindex) (mapBlockIndex bt))
                          else (ok, st))
          in if \<not> ok
             then Returns (False, Some p, st, if state_IsInvalid st \<noteq> None \<and> \<not> corruptionPossible st
                    then update_index p (pindex\<lparr>nStatus := nStatus pindex OR BLOCK_FAILED_VALID\<rparr>) bt else bt)
             else (case ai_pos A of
                     None \<Rightarrow> Returns (False, Some p, state_Error ''out of disk space'' st, bt)
                   | Some pos \<Rightarrow>
                       if \<not> ai_known A \<and> \<not> ai_written A then Returns (False, Some p, state_Error ''Failed to write block'' st, bt)
                       else obind (assertion (ReceivedBlockTransactions E (ai_literal A) (ai_addr A) block p pos bt))
                              (\<lambda>bt. Returns (True, Some p, st, bt))))"

definition AcceptBlock ::
  "accept_io \<Rightarrow> CBlock \<Rightarrow> CValidationState \<Rightarrow> block_tree \<Rightarrow> (bool \<times> bid option \<times> CValidationState \<times> block_tree) outcome" where
  "AcceptBlock A block st bt =
     (let E = ai_env A
      in case find_parent E block (mapBlockIndex bt) st of
        Inl st \<Rightarrow> Returns (False, None, st, bt)
      | Inr prev \<Rightarrow>
          obind (if ne_block_hash E block = hashGenesisBlock (ne_params E) then Returns (True, mapProofOfStake bt)
                 else CheckWork E (ai_pointers A) (mapBlockIndex bt) (chainActive bt) (ai_close A) (ai_found A block) (ai_evict A) block prev
                        (mapProofOfStake bt))
            (\<lambda>(ok, proofs).
              let bt = bt\<lparr>mapProofOfStake := proofs\<rparr>
              in if \<not> ok then Returns (False, None, st, bt)
                 else obind (AcceptBlockHeader A block st bt) (\<lambda>(ok, p, st, bt).
                   if \<not> ok then Returns (False, p, st, bt)
                   else (case Option.bind p (mapBlockIndex bt) of
                           None \<Rightarrow> Asserts
                         | Some pindex \<Rightarrow>
                             if nStatus pindex AND BLOCK_HAVE_DATA \<noteq> 0 then Returns (True, p, st, bt)
                             else accept_body A block (the p) pindex st bt))))"

end
