(* ===== verification/Most_Work.thy ===== *)
theory Most_Work
  imports Block_Tree "HOL-Library.Product_Lexorder"
begin

text \<open>
  The search for the chain with the most work (\<open>FindMostWorkChain\<close> of \<open>src/main.cpp\<close>): the order of candidates as a key, which
  candidates are usable, and that the search ends with the best of them.
\<close>

unbundle bit_operations_syntax

section \<open>The order of candidates\<close>

definition work_key :: "(bid \<Rightarrow> nat) \<Rightarrow> CBlockIndex \<Rightarrow> nat \<times> int \<times> int" where
  "work_key addr bi = (bu_val (nChainWork bi), - uint (nSequenceId bi), - int (addr (phashBlock bi)))"

lemma comparator_key:
  assumes "length (nChainWork a) = length (nChainWork b)"
  shows "CBlockIndexWorkComparator addr a b \<longleftrightarrow> work_key addr a < work_key addr b"
  using assms by (auto simp: CBlockIndexWorkComparator_def work_key_def bu_CompareTo_val word_less_def)

text \<open>The candidates are in the index, and the work of an entry is a 256-bit number.\<close>

definition sized :: "block_map \<Rightarrow> bool" where
  "sized m \<longleftrightarrow> (\<forall>p bi. m p = Some bi \<longrightarrow> length (nChainWork bi) = WIDTH256)"

lemma sized_key: "sized m \<Longrightarrow> m p = Some a \<Longrightarrow> m q = Some b \<Longrightarrow> CBlockIndexWorkComparator addr a b \<longleftrightarrow> work_key addr a < work_key addr b"
  by (rule comparator_key) (simp add: sized_def)

lemma best_candidate_spec:
  assumes "sized m" "\<forall>c\<in>set cs. m c \<noteq> None" "cs \<noteq> []"
  shows "\<exists>p bp. best_candidate addr m cs = Some p \<and> p \<in> set cs \<and> m p = Some bp \<and>
    (\<forall>c\<in>set cs. \<forall>bc. m c = Some bc \<longrightarrow> work_key addr bc \<le> work_key addr bp)"
  using assms(2,3)
proof (induction cs)
  case (Cons p cs)
  then obtain bp where p: "m p = Some bp" by auto
  show ?case
  proof (cases "cs = []")
    case True
    then show ?thesis using p by simp
  next
    case False
    then obtain q bq where q: "best_candidate addr m cs = Some q" "q \<in> set cs" "m q = Some bq"
      "\<forall>c\<in>set cs. \<forall>bc. m c = Some bc \<longrightarrow> work_key addr bc \<le> work_key addr bq" using Cons by auto
    show ?thesis
    proof (cases "work_key addr bq < work_key addr bp")
      case True
      then have "\<forall>c\<in>set cs. \<forall>bc. m c = Some bc \<longrightarrow> work_key addr bc \<le> work_key addr bp" using q(4) by (meson less_imp_le order_trans)
      then show ?thesis using True p q sized_key [OF assms(1) q(3) p] by auto
    next
      case False
      then show ?thesis using p q sized_key [OF assms(1) q(3) p] by (auto simp: not_less)
    qed
  qed
qed simp

section \<open>Usable candidates\<close>

definition usable_entry :: "CBlockIndex \<Rightarrow> bool" where
  "usable_entry bi \<longleftrightarrow> nStatus bi AND BLOCK_FAILED_MASK = 0 \<and> nStatus bi AND BLOCK_HAVE_DATA \<noteq> 0"

text \<open>No block between the candidate and the active chain is failed or without data.\<close>

definition usable :: "block_map \<Rightarrow> CChain \<Rightarrow> bid \<Rightarrow> bool" where
  "usable m c p \<longleftrightarrow> (\<forall>q\<in>ancestors m p. \<forall>bq. m q = Some bq \<longrightarrow> chain_Contains m c q \<or> usable_entry bq)"

definition linked :: "block_map \<Rightarrow> bid \<Rightarrow> bool" where
  "linked m p \<longleftrightarrow> (\<forall>q\<in>ancestors m p. \<forall>bq. m q = Some bq \<longrightarrow> nChainTx bq \<noteq> 0 \<or> nHeight bq = 0)"

text \<open>The active chain has the parents of its blocks.\<close>

definition chain_closed :: "block_map \<Rightarrow> CChain \<Rightarrow> bool" where
  "chain_closed m c \<longleftrightarrow> (\<forall>p bi q. m p = Some bi \<longrightarrow> chain_Contains m c p \<longrightarrow> pprev bi = Some q \<longrightarrow> chain_Contains m c q)"

lemma closed_ancestors:
  assumes "wf_index m" "m p = Some bi" "chain_closed m c" "chain_Contains m c p"
  shows "\<forall>q\<in>ancestors m p. chain_Contains m c q"
  using assms(1,2,4)
proof (induction rule: pprev_induct)
  case (step p bi q bj)
  then have "chain_Contains m c q" using assms(3) unfolding chain_closed_def by blast
  then show ?case using step ancestors_step [of m p bi q, OF step(1,2)] by simp
qed (simp add: ancestors_root)

lemma usable_step:
  assumes "m p = Some bi" "pprev bi = Some q"
  shows "usable m c p \<longleftrightarrow> (chain_Contains m c p \<or> usable_entry bi) \<and> usable m c q"
    "linked m p \<longleftrightarrow> (nChainTx bi \<noteq> 0 \<or> nHeight bi = 0) \<and> linked m q"
  using assms by (auto simp: usable_def linked_def ancestors_step)

lemma usable_root:
  assumes "m p = Some bi" "pprev bi = None"
  shows "usable m c p \<longleftrightarrow> chain_Contains m c p \<or> usable_entry bi" "linked m p \<longleftrightarrow> nChainTx bi \<noteq> 0 \<or> nHeight bi = 0"
  using assms by (auto simp: usable_def linked_def ancestors_root)

lemma scan_candidate_spec:
  assumes "wf_index m" "m p = Some bi" "chain_closed m c" "linked m p"
  shows "(usable m c p \<longrightarrow> scan_candidate m c (Some p) = Some None) \<and>
    (\<not> usable m c p \<longrightarrow> (\<exists>q bq. scan_candidate m c (Some p) = Some (Some (q, nStatus bq AND BLOCK_FAILED_MASK \<noteq> 0)) \<and>
       q \<in> ancestors m p \<and> m q = Some bq \<and> \<not> chain_Contains m c q \<and> \<not> usable_entry bq))"
  using assms(1,2,4)
proof (induction rule: pprev_induct)
  case (root p bi)
  then show ?case
    by (auto simp: scan_candidate.simps [of m c "Some p"] scan_candidate.simps [of m c None] usable_root ancestors_root usable_entry_def Let_def)
next
  case (step p bi q bj)
  note s = scan_candidate.simps [of m c "Some p"] and a = ancestors_step [of m p bi q, OF step(1,2)] and u = usable_step [of m p bi q, OF step(1,2)]
  show ?case
  proof (cases "chain_Contains m c p")
    case True
    then have "usable m c p" using closed_ancestors [OF assms(1) step(1) assms(3)] by (simp add: usable_def)
    then show ?thesis using True step(1) by (simp add: s)
  next
    case False
    have l: "nChainTx bi \<noteq> 0 \<or> nHeight bi = 0" "linked m q" using step.prems u(2) by simp_all
    show ?thesis
    proof (cases "usable_entry bi")
      case True
      then have "scan_candidate m c (Some p) = scan_candidate m c (Some q)"
        using False step(1,2) l(1) by (simp add: s usable_entry_def Let_def)
      then show ?thesis using step.IH [OF l(2)] True a u(1) by auto
    next
      case False
      then have "scan_candidate m c (Some p) = Some (Some (p, nStatus bi AND BLOCK_FAILED_MASK \<noteq> 0))"
        using \<open>\<not> chain_Contains m c p\<close> step(1,2) l(1) by (auto simp: s usable_entry_def Let_def)
      moreover have "\<not> usable m c p" "p \<in> ancestors m p" using False \<open>\<not> chain_Contains m c p\<close> a u(1) by simp_all
      ultimately show ?thesis using False \<open>\<not> chain_Contains m c p\<close> step(1) by metis
    qed
  qed
qed


section \<open>Marking blocks\<close>

text \<open>Indexes that differ in the status of entries only.\<close>

definition same_shape :: "block_map \<Rightarrow> block_map \<Rightarrow> bool" where
  "same_shape m m' \<longleftrightarrow> (\<exists>s. \<forall>x. m' x = map_option (\<lambda>a. a\<lparr>nStatus := s x\<rparr>) (m x))"

lemma same_shape_refl [simp]: "same_shape m m"
  unfolding same_shape_def
proof (intro exI allI)
  show "m x = map_option (\<lambda>a. a\<lparr>nStatus := nStatus (the (m x))\<rparr>) (m x)" for x by (cases "m x") simp_all
qed

lemma same_shapeE:
  assumes "same_shape m m'" "m x = Some a"
  obtains s where "m' x = Some (a\<lparr>nStatus := s\<rparr>)"
  using assms unfolding same_shape_def by auto

lemma same_shape_None: "same_shape m m' \<Longrightarrow> m' x = None \<longleftrightarrow> m x = None"
  by (auto simp: same_shape_def)

lemma same_shape_trans:
  assumes "same_shape m m'" "same_shape m' m''"
  shows "same_shape m m''"
proof -
  obtain s t where s: "\<And>x. m' x = map_option (\<lambda>a. a\<lparr>nStatus := s x\<rparr>) (m x)" "\<And>x. m'' x = map_option (\<lambda>a. a\<lparr>nStatus := t x\<rparr>) (m' x)"
    using assms unfolding same_shape_def by blast
  have "m'' x = map_option (\<lambda>a. a\<lparr>nStatus := t x\<rparr>) (m x)" for x by (simp add: s option.map_comp comp_def)
  then show ?thesis unfolding same_shape_def by blast
qed

lemma same_shape_status:
  assumes "m p = Some a"
  shows "same_shape m (m(p \<mapsto> a\<lparr>nStatus := s\<rparr>))"
proof -
  have "(m(p \<mapsto> a\<lparr>nStatus := s\<rparr>)) x = map_option (\<lambda>a. a\<lparr>nStatus := if x = p then s else nStatus (the (m x))\<rparr>) (m x)" for x
    using assms by (cases "m x") auto
  then show ?thesis unfolding same_shape_def by (intro exI allI)
qed

lemma same_shape_walk: "same_shape m m' \<Longrightarrow> walk m' n p = walk m n p"
proof (induction n arbitrary: p)
  case (Suc n)
  show ?case
  proof (cases "m p")
    case None
    then show ?thesis using same_shape_None [OF Suc.prems, of p] by simp
  next
    case (Some a)
    then obtain s where "m' p = Some (a\<lparr>nStatus := s\<rparr>)" using same_shapeE [OF Suc.prems] by blast
    then show ?thesis using Some Suc by (simp split: option.splits)
  qed
qed simp

lemma same_shape_simps:
  assumes "same_shape m m'"
  shows "ancestors m' p = ancestors m p" "wf_index m' = wf_index m" "chain_Contains m' c p = chain_Contains m c p"
    "sized m \<Longrightarrow> sized m'" "linked m p \<Longrightarrow> linked m' p" "chain_closed m c \<Longrightarrow> chain_closed m' c"
proof -
  show a: "ancestors m' p = ancestors m p" for p by (simp add: ancestors_def same_shape_walk [OF assms])
  obtain s where s: "\<And>x. m' x = map_option (\<lambda>a. a\<lparr>nStatus := s x\<rparr>) (m x)" using assms unfolding same_shape_def by blast
  show "wf_index m' = wf_index m" by (rule wf_index_cong) (simp add: s option.map_comp comp_def)
  have c: "chain_Contains m' c p = chain_Contains m c p" for p by (cases "m p") (simp_all add: chain_Contains_def s)
  show "chain_Contains m' c p = chain_Contains m c p" by (rule c)
  show "sized m \<Longrightarrow> sized m'" by (auto simp: sized_def s)
  show "linked m p \<Longrightarrow> linked m' p" by (fastforce simp: linked_def a s)
  show "chain_closed m c \<Longrightarrow> chain_closed m' c" unfolding chain_closed_def c by (fastforce simp: s)
qed

lemma ancestors_trans: "x \<in> ancestors m c \<Longrightarrow> q \<in> ancestors m x \<Longrightarrow> q \<in> ancestors m c"
  unfolding ancestors_def mem_Collect_eq by (elim exE) (metis walk_add option.case(2))

lemma drop_chain_spec:
  assumes "wf_index (mapBlockIndex bt)" "mapBlockIndex bt p \<noteq> None" "walk (mapBlockIndex bt) n p = Some q"
  shows "\<exists>bt'. drop_chain f q p bt = Some bt' \<and> chainActive bt' = chainActive bt \<and> same_shape (mapBlockIndex bt) (mapBlockIndex bt') \<and>
    set (setBlockIndexCandidates bt') \<subseteq> set (setBlockIndexCandidates bt) - {p} \<and>
    (\<forall>x\<in>set (setBlockIndexCandidates bt) - set (setBlockIndexCandidates bt'). q \<in> ancestors (mapBlockIndex bt) x) \<and>
    (\<forall>x. mapBlockIndex bt' x \<noteq> mapBlockIndex bt x \<longrightarrow> x \<noteq> q \<and> q \<in> ancestors (mapBlockIndex bt) x)"
  using assms
proof (induction n arbitrary: p bt)
  case 0
  then show ?case by (auto simp: drop_chain.simps [of f q q] erase_candidate_def walk_self)
next
  case (Suc n)
  show ?case
  proof (cases "p = q")
    case True
    then show ?thesis by (auto simp: drop_chain.simps [of f q q] erase_candidate_def walk_self)
  next
    case False
    let ?m = "mapBlockIndex bt"
    obtain a p' where p: "?m p = Some a" "pprev a = Some p'" "walk ?m n p' = Some q"
      using Suc.prems(2,3) by (auto split: option.splits)
    have p': "?m p' \<noteq> None" using wf_indexD [OF Suc.prems(1) p(1)] p(2) by (auto simp: wf_entry_def split: option.splits)
    define bt1 where "bt1 = (let bt = (if f then bt\<lparr>mapBlockIndex := ?m(p \<mapsto> a\<lparr>nStatus := nStatus a OR BLOCK_FAILED_CHILD\<rparr>)\<rparr>
        else bt\<lparr>mapBlocksUnlinked := mapBlocksUnlinked bt @ [(pprev a, p)]\<rparr>)
      in bt\<lparr>setBlockIndexCandidates := erase_candidate p (setBlockIndexCandidates bt)\<rparr>)"
    have one: "drop_chain f q p bt = drop_chain f q p' bt1" using False p by (simp add: drop_chain.simps [of f q p bt] bt1_def Let_def)
    have sh: "same_shape ?m (mapBlockIndex bt1)" using same_shape_status [of ?m p a, OF p(1)] by (simp add: bt1_def Let_def)
    note [simp] = same_shape_simps(1,2) [OF sh] same_shape_walk [OF sh]
    have b: "chainActive bt1 = chainActive bt" "setBlockIndexCandidates bt1 = erase_candidate p (setBlockIndexCandidates bt)"
      "\<And>x. mapBlockIndex bt1 x \<noteq> ?m x \<Longrightarrow> x = p"
      by (auto simp: bt1_def Let_def split: if_splits)
    have "\<exists>bt'. drop_chain f q p' bt1 = Some bt' \<and> chainActive bt' = chainActive bt1 \<and> same_shape (mapBlockIndex bt1) (mapBlockIndex bt') \<and>
        set (setBlockIndexCandidates bt') \<subseteq> set (setBlockIndexCandidates bt1) - {p'} \<and>
        (\<forall>x\<in>set (setBlockIndexCandidates bt1) - set (setBlockIndexCandidates bt'). q \<in> ancestors (mapBlockIndex bt1) x) \<and>
        (\<forall>x. mapBlockIndex bt' x \<noteq> mapBlockIndex bt1 x \<longrightarrow> x \<noteq> q \<and> q \<in> ancestors (mapBlockIndex bt1) x)"
      using Suc.prems(1) p(3) p' same_shape_None [OF sh, of p'] by (intro Suc.IH) auto
    then obtain bt' where d: "drop_chain f q p' bt1 = Some bt'" "chainActive bt' = chainActive bt1"
      "same_shape (mapBlockIndex bt1) (mapBlockIndex bt')" "set (setBlockIndexCandidates bt') \<subseteq> set (setBlockIndexCandidates bt1) - {p'}"
      "\<forall>x\<in>set (setBlockIndexCandidates bt1) - set (setBlockIndexCandidates bt'). q \<in> ancestors ?m x"
      "\<forall>x. mapBlockIndex bt' x \<noteq> mapBlockIndex bt1 x \<longrightarrow> x \<noteq> q \<and> q \<in> ancestors ?m x" by auto
    have pq: "q \<in> ancestors ?m p" using Suc.prems(3) unfolding ancestors_def by blast
    show ?thesis unfolding one d(1)
    proof (intro exI conjI)
      show "same_shape ?m (mapBlockIndex bt')" using same_shape_trans [OF sh d(3)] .
      show "\<forall>x\<in>set (setBlockIndexCandidates bt) - set (setBlockIndexCandidates bt'). q \<in> ancestors ?m x"
        using d(5) pq b(2) by (auto simp: erase_candidate_def)
      show "\<forall>x. mapBlockIndex bt' x \<noteq> ?m x \<longrightarrow> x \<noteq> q \<and> q \<in> ancestors ?m x"
        using d(6) b(3) pq False by metis
    qed (use b d in \<open>auto simp: erase_candidate_def\<close>)
  qed
qed


text \<open>Marking descendants of an unusable block does not change which candidates are usable.\<close>

lemma usable_kept:
  assumes "same_shape m m'" "m q = Some bq" "\<not> chain_Contains m c q" "\<not> usable_entry bq"
    and "\<forall>x. m' x \<noteq> m x \<longrightarrow> x \<noteq> q \<and> q \<in> ancestors m x"
  shows "usable m' c p = usable m c p"
proof (cases "q \<in> ancestors m p")
  case True
  have "m' q = Some bq" using assms(2,5) by metis
  then show ?thesis using True assms(1-4) by (auto simp: usable_def same_shape_simps(1,3) [OF assms(1)])
next
  case False
  then have "m' x = m x" if "x \<in> ancestors m p" for x using that assms(5) ancestors_trans by metis
  then show ?thesis by (simp add: usable_def same_shape_simps(1,3) [OF assms(1)])
qed

definition tree_ready :: "block_tree \<Rightarrow> bool" where
  "tree_ready bt \<longleftrightarrow> wf_index (mapBlockIndex bt) \<and> sized (mapBlockIndex bt) \<and> chain_closed (mapBlockIndex bt) (chainActive bt) \<and>
     (\<forall>p\<in>set (setBlockIndexCandidates bt). mapBlockIndex bt p \<noteq> None \<and> linked (mapBlockIndex bt) p)"

lemma note_best_invalid_simps [simp]: "mapBlockIndex (note_best_invalid p bt) = mapBlockIndex bt"
  "chainActive (note_best_invalid p bt) = chainActive bt" "setBlockIndexCandidates (note_best_invalid p bt) = setBlockIndexCandidates bt"
  by (simp_all add: note_best_invalid_def split: option.splits)

definition most_work :: "(bid \<Rightarrow> nat) \<Rightarrow> block_tree \<Rightarrow> bid option \<Rightarrow> bool" where
  "most_work addr bt r \<longleftrightarrow> (let m = mapBlockIndex bt; good = (\<lambda>p. p \<in> set (setBlockIndexCandidates bt) \<and> usable m (chainActive bt) p)
     in case r of None \<Rightarrow> \<forall>p. \<not> good p
        | Some p \<Rightarrow> good p \<and> (\<forall>c bc bp. good c \<longrightarrow> m c = Some bc \<longrightarrow> m p = Some bp \<longrightarrow> \<not> CBlockIndexWorkComparator addr bp bc))"

lemma work_key_status [simp]: "work_key addr (bi\<lparr>nStatus := s\<rparr>) = work_key addr bi"
  by (simp add: work_key_def)

lemma most_work_kept:
  assumes "same_shape (mapBlockIndex bt) (mapBlockIndex bt')" "chainActive bt' = chainActive bt" "sized (mapBlockIndex bt)"
    and "\<And>p. usable (mapBlockIndex bt') (chainActive bt) p = usable (mapBlockIndex bt) (chainActive bt) p"
    and "\<And>p. usable (mapBlockIndex bt) (chainActive bt) p \<Longrightarrow> p \<in> set (setBlockIndexCandidates bt') \<longleftrightarrow> p \<in> set (setBlockIndexCandidates bt)"
    and "most_work addr bt' r"
  shows "most_work addr bt r"
proof (cases r)
  case None
  then show ?thesis using assms(2,4,5,6) by (auto simp: most_work_def)
next
  case (Some p)
  note s' = sized_key [OF same_shape_simps(4) [OF assms(1,3)]] and s = sized_key [OF assms(3)]
  have p: "p \<in> set (setBlockIndexCandidates bt)" "usable (mapBlockIndex bt) (chainActive bt) p"
    using Some assms(2,4,5,6) by (auto simp: most_work_def Let_def)
  have "\<not> CBlockIndexWorkComparator addr bp bc" if c: "c \<in> set (setBlockIndexCandidates bt)" "usable (mapBlockIndex bt) (chainActive bt) c"
      "mapBlockIndex bt c = Some bc" "mapBlockIndex bt p = Some bp" for c bc bp
  proof -
    obtain t where t: "mapBlockIndex bt' c = Some (bc\<lparr>nStatus := t\<rparr>)" using same_shapeE [OF assms(1) c(3)] .
    obtain u where u: "mapBlockIndex bt' p = Some (bp\<lparr>nStatus := u\<rparr>)" using same_shapeE [OF assms(1) c(4)] .
    have "\<not> CBlockIndexWorkComparator addr (bp\<lparr>nStatus := u\<rparr>) (bc\<lparr>nStatus := t\<rparr>)"
      using assms(6) Some c(1,2) assms(2,4,5) t u by (auto simp: most_work_def Let_def)
    then show ?thesis by (simp add: s' [OF u t] s [OF c(4,3)])
  qed
  then show ?thesis using Some p by (auto simp: most_work_def Let_def)
qed

lemma FindMostWorkChain_spec:
  assumes "tree_ready bt"
  shows "\<exists>r bt'. FindMostWorkChain addr bt = Some (r, bt') \<and> most_work addr bt r \<and> tree_ready bt' \<and>
    same_shape (mapBlockIndex bt) (mapBlockIndex bt') \<and> chainActive bt' = chainActive bt"
  using assms
proof (induction "card (set (setBlockIndexCandidates bt))" arbitrary: bt rule: less_induct)
  case less
  let ?m = "mapBlockIndex bt" and ?c = "chainActive bt" and ?cs = "setBlockIndexCandidates bt"
  have ok: "wf_index ?m" "sized ?m" "chain_closed ?m ?c" "\<forall>p\<in>set ?cs. ?m p \<noteq> None" "\<forall>p\<in>set ?cs. linked ?m p"
    using less.prems by (auto simp: tree_ready_def)
  show ?case
  proof (cases "?cs = []")
    case True
    then show ?thesis using less.prems by (auto simp: FindMostWorkChain.simps [of addr bt] most_work_def)
  next
    case False
    obtain p bp where p: "best_candidate addr ?m ?cs = Some p" "p \<in> set ?cs" "?m p = Some bp"
      "\<forall>c\<in>set ?cs. \<forall>bc. ?m c = Some bc \<longrightarrow> work_key addr bc \<le> work_key addr bp"
      using best_candidate_spec [OF ok(2,4) False, of addr] by blast
    note sc = scan_candidate_spec [OF ok(1) p(3) ok(3)] and f = FindMostWorkChain.simps [of addr bt]
    have lp: "linked ?m p" using ok(5) p(2) by blast
    show ?thesis
    proof (cases "usable ?m ?c p")
      case True
      then have "FindMostWorkChain addr bt = Some (Some p, bt)" using sc lp p(1) by (simp add: f)
      moreover have "most_work addr bt (Some p)"
        using True p sized_key [OF ok(2)] by (auto simp: most_work_def Let_def not_less)
      ultimately show ?thesis using less.prems by auto
    next
      case False
      then obtain q bq where q: "scan_candidate ?m ?c (Some p) = Some (Some (q, nStatus bq AND BLOCK_FAILED_MASK \<noteq> 0))"
        "q \<in> ancestors ?m p" "?m q = Some bq" "\<not> chain_Contains ?m ?c q" "\<not> usable_entry bq" using sc lp by blast
      define failed where "failed \<longleftrightarrow> nStatus bq AND BLOCK_FAILED_MASK \<noteq> 0"
      define bt0 where "bt0 = (if failed then note_best_invalid p bt else bt)"
      have [simp]: "mapBlockIndex bt0 = ?m" "chainActive bt0 = ?c" "setBlockIndexCandidates bt0 = ?cs" by (simp_all add: bt0_def)
      obtain n where "walk ?m n p = Some q" using q(2) by (auto simp: ancestors_def)
      then obtain bt1 where d: "drop_chain failed q p bt0 = Some bt1" "chainActive bt1 = ?c" "same_shape ?m (mapBlockIndex bt1)"
        "set (setBlockIndexCandidates bt1) \<subseteq> set ?cs - {p}" "\<forall>x\<in>set ?cs - set (setBlockIndexCandidates bt1). q \<in> ancestors ?m x"
        "\<forall>x. mapBlockIndex bt1 x \<noteq> ?m x \<longrightarrow> x \<noteq> q \<and> q \<in> ancestors ?m x"
        using drop_chain_spec [of bt0 p n q failed] ok(1) p(3) by auto
      note sh = same_shape_simps [OF d(3)]
      have step: "FindMostWorkChain addr bt = FindMostWorkChain addr bt1"
        using p(1) q(1) d(1) by (simp add: f failed_def [symmetric] bt0_def [symmetric])
      have u: "usable (mapBlockIndex bt1) ?c x = usable ?m ?c x" for x by (rule usable_kept [OF d(3) q(3-5) d(6)])
      have r: "tree_ready bt1" unfolding tree_ready_def sh(2) d(2)
        using ok d(4) sh(4-6) same_shape_None [OF d(3)] by auto
      have "card (set (setBlockIndexCandidates bt1)) < card (set ?cs)"
        using d(4) p(2) by (intro psubset_card_mono) auto
      then obtain r bt' where i: "FindMostWorkChain addr bt1 = Some (r, bt')" "most_work addr bt1 r" "tree_ready bt'"
        "same_shape (mapBlockIndex bt1) (mapBlockIndex bt')" "chainActive bt' = chainActive bt1" using less.hyps r by blast
      have "most_work addr bt r"
      proof (rule most_work_kept [OF d(3,2) ok(2) u _ i(2)])
        fix x assume x: "usable ?m ?c x"
        then have "q \<notin> ancestors ?m x" using q(3-5) by (auto simp: usable_def)
        then show "x \<in> set (setBlockIndexCandidates bt1) \<longleftrightarrow> x \<in> set ?cs" using d(4,5) by blast
      qed
      then show ?thesis using step i d(2) same_shape_trans [OF d(3) i(4)] by auto
    qed
  qed
qed


lemma path_parent:
  assumes "wf_index m" "m t = Some b" "m p = Some bi" "pprev bi = Some q" "Some p \<in> set (path m t)"
  shows "Some q \<in> set (path m t)"
proof -
  obtain j where j: "j \<le> height_of m t" "path m t ! j = Some p" using assms(5) by (auto simp: in_set_conv_nth less_Suc_eq_le)
  obtain r br where r: "path m t ! j = Some r" "m r = Some br" "height_of m r = j" "\<forall>i\<le>j. path m t ! i = walk m (j - i) r"
    using path_entry [OF assms(1,2) j(1)] by blast
  have "nHeight bi \<noteq> 0" using wf_root [OF assms(1,3)] assms(4) by simp
  then have "0 < j" using r j assms(3) wf_height [OF assms(1,3)] by (auto simp: height_of_def)
  then have "path m t ! (j - 1) = Some q" using r j(2) assms(3,4) by (cases j) auto
  then show ?thesis using j(1) by (metis less_imp_diff_less less_Suc_eq_le length_path nth_mem Suc_eq_plus1)
qed

lemma chain_ok_closed:
  assumes "wf_index m" "chain_ok m c"
  shows "chain_closed m c"
proof (cases "c = []")
  case False
  then obtain t b where t: "m t = Some b" "c = path m t" using assms(2) by (auto simp: chain_ok_def)
  show ?thesis unfolding chain_closed_def
  proof (intro allI impI)
    fix p bi q assume a: "m p = Some bi" "chain_Contains m c p" "pprev bi = Some q"
    then obtain bq where "m q = Some bq" using wf_indexD [OF assms(1) a(1)] by (auto simp: wf_entry_def split: option.splits)
    then show "chain_Contains m c q" using a t path_parent [OF assms(1) t(1) a(1,3)] path_Contains [OF assms(1) t(1)] by blast
  qed
qed (auto simp: chain_closed_def chain_Contains_def chain_nth_def split: option.splits)

section \<open>The property\<close>

text \<open>
  C34: \<open>FindMostWorkChain\<close> ends, and finds the best of the usable candidates.  A candidate is usable when no block between it
  and the active chain is marked as failed or lacks its data; of these the result has the most work (among equals it came
  first, and then has the lowest address), and there is no result exactly when no candidate is usable.  The assertion on the number of transactions cannot
  fail, links and heights stay as they are, and the state is ready for the next search.
\<close>

theorem most_work_chain_found:
  assumes "tree_ready bt"
  shows "\<exists>r bt'. FindMostWorkChain addr bt = Some (r, bt') \<and> most_work addr bt r \<and> tree_ready bt' \<and>
    same_shape (mapBlockIndex bt) (mapBlockIndex bt') \<and> chainActive bt' = chainActive bt"
  by (rule FindMostWorkChain_spec [OF assms])

definition fork_entry :: "bid \<Rightarrow> bid option \<Rightarrow> bid option \<Rightarrow> int \<Rightarrow> u32 \<Rightarrow> u32 \<Rightarrow> CBlockIndex" where
  "fork_entry h p s n status work = (sample_entry h p s n)\<lparr>nStatus := status, nChainTx := 1, nChainWork := [work, 0, 0, 0, 0, 0, 0, 0]\<rparr>"

definition fork_tree :: block_tree where
  "fork_tree = \<lparr>mapBlockIndex = [[0] \<mapsto> fork_entry [0] None None 0 8 1, [1] \<mapsto> fork_entry [1] (Some [0]) (Some [0]) 1 8 2,
     [2] \<mapsto> fork_entry [2] (Some [1]) (Some [0]) 2 8 3, [3] \<mapsto> fork_entry [3] (Some [0]) (Some [0]) 1 40 9],
     known_blocks = [[0], [1], [2], [3]], chainActive = [Some [0]], setBlockIndexCandidates = [[1], [2], [3]], mapBlocksUnlinked = [], setDirtyBlockIndex = [],
     pindexBestHeader = Some [3], pindexBestInvalid = None, nBlockSequenceId = 1, setStakeSeen = {}, mapProofOfStake = [],
     mapRejectedBlocks = Map.empty, pindexBestForkTip = None, pindexBestForkBase = None, fLargeWorkForkFound = False,
     fLargeWorkInvalidChainFound = False\<rparr>"

lemma fork_tree_ready: "tree_ready fork_tree"
proof -
  let ?m = "mapBlockIndex fork_tree"
  have "wf_index ?m = wf_index sample_index"
    by (rule wf_index_cong) (auto simp: fork_tree_def sample_index_def fork_entry_def)
  then have wf: "wf_index ?m" using sample_index_wf by simp
  have "chain_ok ?m [Some [0]]"
    by (auto simp: chain_ok_def fork_tree_def path_def height_of_def fork_entry_def sample_entry_def intro!: exI [of _ "[0]"])
  then have "chain_closed ?m (chainActive fork_tree)" using chain_ok_closed [OF wf] by (simp add: fork_tree_def)
  moreover have "sized ?m" "linked ?m p" for p
    by (auto simp: sized_def linked_def fork_tree_def fork_entry_def split: if_splits)
  ultimately show ?thesis using wf by (auto simp: tree_ready_def fork_tree_def)
qed


lemma fork_lookup: "mapBlockIndex fork_tree [0] = Some (fork_entry [0] None None 0 8 1)"
  "mapBlockIndex fork_tree [1] = Some (fork_entry [1] (Some [0]) (Some [0]) 1 8 2)"
  "mapBlockIndex fork_tree [2] = Some (fork_entry [2] (Some [1]) (Some [0]) 2 8 3)"
  "mapBlockIndex fork_tree [3] = Some (fork_entry [3] (Some [0]) (Some [0]) 1 40 9)"
  "setBlockIndexCandidates fork_tree = [[1], [2], [3]]"
  by (simp_all add: fork_tree_def)

lemma fork_entry_simps [simp]: "pprev (fork_entry h p s n st w) = p" "nStatus (fork_entry h p s n st w) = st"
  "nHeight (fork_entry h p s n st w) = n" "nChainWork (fork_entry h p s n st w) = [w, 0, 0, 0, 0, 0, 0, 0]"
  by (simp_all add: fork_entry_def)

lemma fork_usable: "usable (mapBlockIndex fork_tree) (chainActive fork_tree) [2]" "\<not> usable (mapBlockIndex fork_tree) (chainActive fork_tree) [3]"
proof -
  let ?m = "mapBlockIndex fork_tree" and ?c = "chainActive fork_tree"
  have "usable_entry (fork_entry h p s n 8 w)" "\<not> usable_entry (fork_entry h p s n 40 w)" for h p s n w
    by (simp_all add: usable_entry_def block_flag_defs)
  moreover have "chain_Contains ?m ?c [0]" "\<not> chain_Contains ?m ?c [3]"
    using fork_lookup by (simp_all add: chain_Contains_def chain_nth_def fork_tree_def)
  ultimately show "usable ?m ?c [2]" "\<not> usable ?m ?c [3]"
    using usable_step(1) [of ?m "[2]" _ "[1]" ?c] usable_step(1) [of ?m "[1]" _ "[0]" ?c] usable_step(1) [of ?m "[3]" _ "[0]" ?c]
      usable_root(1) [of ?m "[0]" _ ?c] fork_lookup by simp_all
qed

theorem most_work_chain_found_witness:
  "\<exists>bt'. FindMostWorkChain (\<lambda>_. 0) fork_tree = Some (Some [2], bt')"
proof -
  obtain r bt' where f: "FindMostWorkChain (\<lambda>_. 0) fork_tree = Some (r, bt')" "most_work (\<lambda>_. 0) fork_tree r"
    using most_work_chain_found [OF fork_tree_ready] by blast
  have "CBlockIndexWorkComparator (\<lambda>_. 0) (fork_entry [1] (Some [0]) (Some [0]) 1 8 2) (fork_entry [2] (Some [1]) (Some [0]) 2 8 3)"
    by (simp add: CBlockIndexWorkComparator_def bu_CompareTo_val)
  then have "r = Some [2]" using f(2) fork_usable fork_lookup
    by (cases r) (auto simp: most_work_def Let_def)
  then show ?thesis using f(1) by simp
qed

end
