(* ===== verification/Tree_Growth.thy ===== *)
theory Tree_Growth
  imports Most_Work
begin

text \<open>
  The block tree grows soundly.  The invariant tree_ok says that the block index is a tree with exact skip
  pointers, that every entry carries the work of its parent plus its own, that the best header has the most
  work and that every candidate for the tip is an entry.  AddToBlockIndex, ReceivedBlockTransactions,
  AcceptBlockHeader and AcceptBlock of main.cpp are shown to keep it on every path, errors included.
\<close>

unbundle bit_operations_syntax

section \<open>The invariant of the tree\<close>

text \<open>The chain work of an entry is that of its parent and its own, and it is at least valid as part of the tree.\<close>

definition entry_ok :: "block_map \<Rightarrow> CBlockIndex \<Rightarrow> bool" where
  "entry_ok m bi \<longleftrightarrow> (\<exists>w. GetBlockProof bi = Some w \<and> nChainWork bi = bu_add (prev_work m bi) w) \<and> length (nChainWork bi) = WIDTH256 \<and>
     BLOCK_VALID_TREE \<le> nStatus bi AND BLOCK_VALID_MASK"

definition best_header_ok :: "block_map \<Rightarrow> bid option \<Rightarrow> bool" where
  "best_header_ok m best \<longleftrightarrow> (case best of None \<Rightarrow> m = Map.empty
     | Some b \<Rightarrow> \<exists>bb. m b = Some bb \<and> (\<forall>p bi. m p = Some bi \<longrightarrow> bu_val (nChainWork bi) \<le> bu_val (nChainWork bb)))"

definition tree_ok :: "block_tree \<Rightarrow> bool" where
  "tree_ok bt \<longleftrightarrow> wf_index (mapBlockIndex bt) \<and> keyed (mapBlockIndex bt) \<and>
     (\<forall>p bi. mapBlockIndex bt p = Some bi \<longrightarrow> entry_ok (mapBlockIndex bt) bi) \<and>
     best_header_ok (mapBlockIndex bt) (pindexBestHeader bt) \<and>
     (\<forall>p\<in>set (setBlockIndexCandidates bt). mapBlockIndex bt p \<noteq> None) \<and> set (known_blocks bt) = dom (mapBlockIndex bt)"

text \<open>Indexes that agree in the links, the work, the target and the tree validity of entries.\<close>

definition skeleton :: "CBlockIndex \<Rightarrow> bid option \<times> bid option \<times> int \<times> bid \<times> base_uint \<times> u32" where
  "skeleton bi = (pprev bi, pskip bi, nHeight bi, phashBlock bi, nChainWork bi, bi_nBits bi)"

definition same_tree :: "block_map \<Rightarrow> block_map \<Rightarrow> bool" where
  "same_tree m m' \<longleftrightarrow> (\<forall>p. case m p of None \<Rightarrow> m' p = None
     | Some a \<Rightarrow> (case m' p of None \<Rightarrow> False | Some b \<Rightarrow> skeleton b = skeleton a \<and> BLOCK_VALID_TREE \<le> nStatus b AND BLOCK_VALID_MASK))"

lemma same_treeE:
  assumes "same_tree m m'" "m' p = Some b"
  obtains a where "m p = Some a" "skeleton b = skeleton a" "BLOCK_VALID_TREE \<le> nStatus b AND BLOCK_VALID_MASK"
  using assms spec [of _ p] unfolding same_tree_def by (fastforce split: option.splits)

lemma same_tree_Some:
  assumes "same_tree m m'" "m p = Some a"
  obtains b where "m' p = Some b" "skeleton b = skeleton a"
  using assms spec [of _ p] unfolding same_tree_def by (fastforce split: option.splits)

lemma same_tree_None: "same_tree m m' \<Longrightarrow> m p = None \<longleftrightarrow> m' p = None"
  unfolding same_tree_def by (auto split: option.splits dest!: spec [of _ p])

lemma same_tree_map:
  assumes "same_tree m m'" "\<And>a b. skeleton a = skeleton b \<Longrightarrow> f a = f b"
  shows "map_option f (m' p) = map_option f (m p)"
proof (cases "m p")
  case None
  then show ?thesis using same_tree_None [OF assms(1)] by simp
next
  case (Some a)
  then show ?thesis using same_tree_Some [OF assms(1) Some] assms(2) by (metis option.simps(9))
qed

lemma GetBlockProof_bits: "bi_nBits a = bi_nBits b \<Longrightarrow> GetBlockProof a = GetBlockProof b"
  by (simp add: GetBlockProof_def)

lemma prev_work_skeleton:
  assumes "same_tree m m'" "pprev a = pprev b"
  shows "prev_work m' a = prev_work m b"
proof (cases "pprev b")
  case (Some q)
  have "map_option nChainWork (m' q) = map_option nChainWork (m q)"
    by (rule same_tree_map [OF assms(1)]) (simp add: skeleton_def)
  then show ?thesis using Some assms(2) by (cases "m q"; cases "m' q") (simp_all add: prev_work_def)
qed (use assms(2) in \<open>simp add: prev_work_def\<close>)

lemma same_tree_ok:
  assumes "tree_ok bt" "same_tree (mapBlockIndex bt) (mapBlockIndex bt')" "pindexBestHeader bt' = pindexBestHeader bt"
    and "\<forall>p\<in>set (setBlockIndexCandidates bt'). mapBlockIndex bt' p \<noteq> None" and "known_blocks bt' = known_blocks bt"
  shows "tree_ok bt'"
proof -
  let ?m = "mapBlockIndex bt" and ?m' = "mapBlockIndex bt'"
  have "map_option (\<lambda>bi. (pprev bi, pskip bi, nHeight bi)) (?m' p) = map_option (\<lambda>bi. (pprev bi, pskip bi, nHeight bi)) (?m p)" for p
    by (rule same_tree_map [OF assms(2)]) (simp add: skeleton_def)
  then have "wf_index ?m'" using wf_index_cong [of ?m' ?m] assms(1) by (simp add: tree_ok_def)
  moreover have "keyed ?m'"
    using assms(1) unfolding tree_ok_def keyed_def by (auto elim!: same_treeE [OF assms(2)] simp: skeleton_def)
  moreover have "entry_ok ?m' bi" if "?m' p = Some bi" for p bi
  proof -
    obtain bj where j: "?m p = Some bj" "skeleton bi = skeleton bj" "BLOCK_VALID_TREE \<le> nStatus bi AND BLOCK_VALID_MASK"
      by (rule same_treeE [OF assms(2) \<open>?m' p = Some bi\<close>])
    then have "entry_ok ?m bj" using assms(1) by (auto simp: tree_ok_def)
    then show ?thesis using j(2) prev_work_skeleton [OF assms(2), of bi bj] GetBlockProof_bits [of bi bj]
      using j(3) by (auto simp: entry_ok_def skeleton_def)
  qed
  moreover have "best_header_ok ?m' (pindexBestHeader bt')"
  proof (cases "pindexBestHeader bt")
    case None
    then have "?m = Map.empty" using assms(1) by (simp add: tree_ok_def best_header_ok_def)
    then have "?m' p = None" for p using same_tree_None [OF assms(2), of p] by simp
    then show ?thesis using None assms(3) by (simp add: best_header_ok_def fun_eq_iff)
  next
    case (Some b)
    then obtain bb where b: "?m b = Some bb" "\<And>p bi. ?m p = Some bi \<Longrightarrow> bu_val (nChainWork bi) \<le> bu_val (nChainWork bb)"
      using assms(1) by (auto simp: tree_ok_def best_header_ok_def)
    obtain bb' where b': "?m' b = Some bb'" "nChainWork bb' = nChainWork bb"
      using same_tree_Some [OF assms(2) b(1)] by (auto simp: skeleton_def)
    have "bu_val (nChainWork bi) \<le> bu_val (nChainWork bb')" if i: "?m' p = Some bi" for p bi
    proof -
      obtain bj where "?m p = Some bj" "skeleton bi = skeleton bj" using same_treeE [OF assms(2) i] by blast
      then show ?thesis using b(2) [of p bj] b'(2) by (simp add: skeleton_def)
    qed
    then show ?thesis using Some assms(3) b'(1) by (auto simp: best_header_ok_def)
  qed
  moreover have "dom ?m' = dom ?m" using same_tree_None [OF assms(2)] by (auto simp: dom_def)
  ultimately show ?thesis using assms(1,4,5) by (auto simp: tree_ok_def)
qed

section \<open>Adding a header\<close>

lemma link_to_parent_spec:
  assumes "wf_index (mapBlockIndex bt)" "pprev new = None" "nHeight new = 0"
  shows "\<exists>new' m'. link_to_parent bt hash hp new = Some (new', m') \<and>
    phashBlock new' = phashBlock new \<and> nStatus new' = nStatus new \<and> nTx new' = nTx new \<and> nChainTx new' = nChainTx new \<and> bi_nBits new' = bi_nBits new \<and>
    (case mapBlockIndex bt hp of None \<Rightarrow> new' = new \<and> m' = mapBlockIndex bt
     | Some prev \<Rightarrow> pprev new' = Some hp \<and> nHeight new' = nHeight prev + 1 \<and> m' = (mapBlockIndex bt)(hp \<mapsto> prev\<lparr>pnext := Some hash\<rparr>) \<and>
         BuildSkip (mapBlockIndex bt) (new\<lparr>pprev := Some hp, nHeight := nHeight prev + 1\<rparr>) =
           Some (new\<lparr>pprev := Some hp, nHeight := nHeight prev + 1, pskip := pskip new'\<rparr>))"
proof (cases "mapBlockIndex bt hp")
  case None
  then show ?thesis by (simp add: link_to_parent_def)
next
  case (Some prev)
  let ?n = "new\<lparr>pprev := Some hp, nHeight := nHeight prev + 1\<rparr>"
  obtain r where r: "BuildSkip (mapBlockIndex bt) ?n = Some (?n\<lparr>pskip := r\<rparr>)"
    using BuildSkip_total [OF assms(1) Some, of ?n] by auto
  obtain t where t: "GetBlockTrust (?n\<lparr>pskip := r\<rparr>) = Some t" using GetBlockTrust_val by blast
  show ?thesis using Some r t
    by (simp add: link_to_parent_def Let_def SetStakeEntropyBit_def split: option.split)
qed


lemma RaiseValidity_fresh: "nStatus bi = 0 \<Longrightarrow> RaiseValidity BLOCK_VALID_TREE bi = Some (True, bi\<lparr>nStatus := BLOCK_VALID_TREE\<rparr>)"
  by (simp add: RaiseValidity_def block_flag_defs)

lemma prev_work_new:
  assumes "wf_index m" "m p = Some bi" "m hash = None" "\<And>q b. m q = Some b \<Longrightarrow> \<exists>c. m' q = Some c \<and> nChainWork c = nChainWork b"
  shows "prev_work m' bi = prev_work m bi"
proof (cases "pprev bi")
  case (Some q)
  then obtain b where "m q = Some b" using wf_indexD [OF assms(1,2)] by (auto simp: wf_entry_def split: option.splits)
  then show ?thesis using Some assms(4) by (fastforce simp: prev_work_def)
qed (simp add: prev_work_def)

lemma AddToBlockIndex_spec:
  assumes "tree_ok bt" "hash = ne_block_hash E block" "mapBlockIndex bt hash = None"
  shows "\<exists>new bt'. AddToBlockIndex E block bt = Some (hash, bt') \<and> tree_ok bt' \<and> mapBlockIndex bt' hash = Some new \<and>
    nHeight new = (case mapBlockIndex bt (hashPrevBlock block) of None \<Rightarrow> 0 | Some prev \<Rightarrow> nHeight prev + 1) \<and>
    pprev new = (if mapBlockIndex bt (hashPrevBlock block) = None then None else Some (hashPrevBlock block)) \<and>
    bi_nBits new = hd_nBits block \<and> nStatus new = BLOCK_VALID_TREE \<and> nTx new = 0 \<and> nChainTx new = 0 \<and>
    chainActive bt' = chainActive bt \<and> setBlockIndexCandidates bt' = setBlockIndexCandidates bt \<and>
    mapBlocksUnlinked bt' = mapBlocksUnlinked bt \<and>
    (\<forall>p. p \<noteq> hash \<longrightarrow> (\<exists>n. mapBlockIndex bt' p = map_option (\<lambda>bi. bi\<lparr>pnext := n\<rparr>) (mapBlockIndex bt p))) \<and>
    mapBlockIndex bt' = (case mapBlockIndex bt (hashPrevBlock block) of None \<Rightarrow> mapBlockIndex bt
       | Some prev \<Rightarrow> (mapBlockIndex bt)(hashPrevBlock block \<mapsto> prev\<lparr>pnext := Some hash\<rparr>))(hash \<mapsto> new)"
proof -
  let ?m = "mapBlockIndex bt" and ?hp = "hashPrevBlock block"
  define new0 where "new0 = new_CBlockIndex hash block"
  have n0: "pprev new0 = None" "nHeight new0 = 0" "phashBlock new0 = hash" "nStatus new0 = 0" "nTx new0 = 0" "nChainTx new0 = 0" "bi_nBits new0 = hd_nBits block"
    by (simp_all add: new0_def new_CBlockIndex_def)
  have ok: "wf_index ?m" "keyed ?m" "\<And>p bi. ?m p = Some bi \<Longrightarrow> entry_ok ?m bi" "best_header_ok ?m (pindexBestHeader bt)"
    "\<forall>p\<in>set (setBlockIndexCandidates bt). ?m p \<noteq> None" using assms(1) by (auto simp: tree_ok_def)
  obtain new1 m1 where l: "link_to_parent bt hash ?hp new0 = Some (new1, m1)" "phashBlock new1 = hash" "nStatus new1 = 0"
    "nTx new1 = 0" "nChainTx new1 = 0" "bi_nBits new1 = hd_nBits block"
    and lp: "case ?m ?hp of None \<Rightarrow> new1 = new0 \<and> m1 = ?m
     | Some prev \<Rightarrow> pprev new1 = Some ?hp \<and> nHeight new1 = nHeight prev + 1 \<and> m1 = ?m(?hp \<mapsto> prev\<lparr>pnext := Some hash\<rparr>) \<and>
         BuildSkip ?m (new0\<lparr>pprev := Some ?hp, nHeight := nHeight prev + 1\<rparr>) =
           Some (new0\<lparr>pprev := Some ?hp, nHeight := nHeight prev + 1, pskip := pskip new1\<rparr>)"
    using link_to_parent_spec [OF ok(1) n0(1,2), of hash ?hp] unfolding n0(3-7) by blast
  obtain w where w: "GetBlockProof new1 = Some w" "length w = WIDTH256" using GetBlockProof_val by blast
  define new2 where "new2 = new1\<lparr>nChainWork := bu_add (prev_work m1 new1) w, nStatus := BLOCK_VALID_TREE\<rparr>"
  define m2 where "m2 = m1(hash \<mapsto> new2)"
  define better where "better \<longleftrightarrow> (case Option.bind (pindexBestHeader bt) m1 of None \<Rightarrow> True
    | Some b \<Rightarrow> bu_CompareTo (nChainWork b) (nChainWork new2) < 0)"
  have old: "\<exists>n. m2 p = map_option (\<lambda>bi. bi\<lparr>pnext := n\<rparr>) (?m p)" if "p \<noteq> hash" for p
  proof (cases "?m p")
    case (Some bi)
    then show ?thesis using that lp
      by (intro exI [of _ "if p = ?hp then Some hash else pnext bi"]) (auto simp: m2_def split: option.splits)
  qed (use that lp in \<open>auto simp: m2_def split: option.splits\<close>)
  have here: "m2 hash = Some new2" by (simp add: m2_def)
  have wf: "wf_index m2"
  proof (cases "?m ?hp")
    case None
    then show ?thesis using lp wf_index_add_root [OF ok(1) assms(3), of new2] n0 by (simp add: m2_def new2_def)
  next
    case (Some prev)
    let ?n = "new0\<lparr>pprev := Some ?hp, nHeight := nHeight prev + 1\<rparr>"
    have "wf_index (?m(hash \<mapsto> ?n\<lparr>pskip := pskip new1\<rparr>))"
      using wf_index_add [OF ok(1) assms(3) Some, of ?n] lp Some by simp
    moreover have "wf_index m2 = wf_index (?m(hash \<mapsto> ?n\<lparr>pskip := pskip new1\<rparr>))"
      by (rule wf_index_cong) (use lp Some in \<open>auto simp: m2_def new2_def\<close>)
    ultimately show ?thesis by simp
  qed
  have works: "\<exists>c. m2 q = Some c \<and> nChainWork c = nChainWork b" if "?m q = Some b" for q b
    using old [of q] that assms(3) by (cases "q = hash") auto
  have pw: "prev_work m2 new2 = prev_work m1 new1" using lp assms(3)
    by (auto simp: prev_work_def m2_def new2_def n0 split: option.splits)
  have sized: "length (prev_work m1 new1) = WIDTH256"
  proof (cases "?m ?hp")
    case (Some prev)
    then show ?thesis using lp ok(3) [OF Some] by (simp add: prev_work_def entry_ok_def)
  qed (use lp n0 in \<open>simp add: prev_work_def\<close>)
  have new_ok: "entry_ok m2 new2"
    using w sized pw GetBlockProof_bits [of new2 new1] by (simp add: entry_ok_def new2_def block_flag_defs)
  have entries: "entry_ok m2 bi" if b: "m2 p = Some bi" for p bi
  proof (cases "p = hash")
    case True
    then show ?thesis using b here new_ok by simp
  next
    case False
    then obtain a n where a: "?m p = Some a" "bi = a\<lparr>pnext := n\<rparr>" using old [OF False] b by (cases "?m p") auto
    have "prev_work m2 bi = prev_work ?m a"
      using prev_work_new [OF ok(1) a(1) assms(3), of m2] works a(2) by (simp add: prev_work_def)
    then show ?thesis using ok(3) [OF a(1)] a(2) GetBlockProof_bits [of bi a] by (simp add: entry_ok_def)
  qed
  have best: "best_header_ok m2 (if better then Some hash else pindexBestHeader bt)"
  proof (cases "pindexBestHeader bt")
    case None
    then have "?m = Map.empty" using ok(4) by (simp add: best_header_ok_def)
    then have "m2 p = None" if "p \<noteq> hash" for p using old [OF that] by simp
    then show ?thesis using None here by (auto simp: better_def best_header_ok_def) (metis option.distinct(1) option.inject order_refl)
  next
    case (Some b)
    then obtain bb where b: "?m b = Some bb" "\<And>p bi. ?m p = Some bi \<Longrightarrow> bu_val (nChainWork bi) \<le> bu_val (nChainWork bb)"
      using ok(4) by (auto simp: best_header_ok_def)
    then have bh: "b \<noteq> hash" using assms(3) by auto
    obtain n where n: "m2 b = Some (bb\<lparr>pnext := n\<rparr>)" using old [OF bh] b(1) by auto
    then have n1: "m1 b = Some (bb\<lparr>pnext := n\<rparr>)" using bh by (simp add: m2_def)
    have bt: "better \<longleftrightarrow> bu_val (nChainWork bb) < bu_val (nChainWork new2)"
      using ok(3) [OF b(1)] new_ok Some n1 by (simp add: better_def entry_ok_def bu_CompareTo_val)
    have le: "bu_val (nChainWork bi) \<le> max (bu_val (nChainWork bb)) (bu_val (nChainWork new2))" if i: "m2 p = Some bi" for p bi
    proof (cases "p = hash")
      case False
      then obtain a where "?m p = Some a" "nChainWork a = nChainWork bi" using old [OF False] i by (cases "?m p") auto
      then show ?thesis using b(2) by fastforce
    qed (use that here in simp)
    show ?thesis
    proof (cases better)
      case True
      then show ?thesis using le bt here by (fastforce simp: best_header_ok_def)
    next
      case False
      then show ?thesis using le bt n Some by (fastforce simp: best_header_ok_def)
    qed
  qed
  define bt' where "bt' = update_index hash new2 (bt\<lparr>mapBlockIndex := m1, known_blocks := hash # known_blocks bt,
      setStakeSeen := (if bi_IsProofOfStake new2 then insert (prevoutStake new2, nStakeTime new2) (setStakeSeen bt) else setStakeSeen bt),
      pindexBestHeader := (if better then Some hash else pindexBestHeader bt)\<rparr>)"
  have add: "AddToBlockIndex E block bt = Some (hash, bt')"
    unfolding AddToBlockIndex_def assms(2) [symmetric] new0_def [symmetric] bt'_def better_def new2_def
    using assms(3) l(1,3) w(1) RaiseValidity_fresh [of "new1\<lparr>nChainWork := bu_add (prev_work m1 new1) w\<rparr>"]
    by (simp add: Let_def new0_def [symmetric])
  have m1: "m1 = (case ?m ?hp of None \<Rightarrow> ?m | Some prev \<Rightarrow> ?m(?hp \<mapsto> prev\<lparr>pnext := Some hash\<rparr>))" using lp by (auto split: option.splits)
  have known: "set (known_blocks bt') = dom m2"
    using assms(1) by (auto simp: bt'_def update_index_def m2_def m1 tree_ok_def split: option.splits)
  have m': "mapBlockIndex bt' = m2" "pindexBestHeader bt' = (if better then Some hash else pindexBestHeader bt)"
      "setBlockIndexCandidates bt' = setBlockIndexCandidates bt" "chainActive bt' = chainActive bt"
      "mapBlocksUnlinked bt' = mapBlocksUnlinked bt" by (simp_all add: bt'_def update_index_def m2_def)
  have "phashBlock bi = p" if i: "m2 p = Some bi" for p bi
  proof (cases "p = hash")
    case False
    then obtain a n where "?m p = Some a" "bi = a\<lparr>pnext := n\<rparr>" using old [OF False] i by (cases "?m p") auto
    then show ?thesis using ok(2) by (simp add: keyed_def)
  qed (use i here l(2) in \<open>auto simp: new2_def\<close>)
  then have "keyed m2" by (simp add: keyed_def)
  then have "tree_ok bt'" using wf entries best ok(5) works m' known unfolding tree_ok_def by fastforce
  then show ?thesis using add m' here old l lp n0
    by (intro exI [of _ new2] exI [of _ bt']) (auto simp: new2_def m1 m2_def split: option.splits)
qed

section \<open>Numbers of transactions\<close>

text \<open>
  A block has at most \<open>B\<close> transactions and a height of at most \<open>H\<close>; the sum over a chain then stays below the limit of the
  32-bit counter.  The counter of a block is set only when the block and all its ancestors have their data.
\<close>

definition tx_ok :: "nat \<Rightarrow> int \<Rightarrow> block_map \<Rightarrow> CBlockIndex \<Rightarrow> bool" where
  "tx_ok B H m bi \<longleftrightarrow> unat (nTx bi) \<le> B \<and> nHeight bi \<le> H \<and> int (unat (nChainTx bi)) \<le> int B * (nHeight bi + 1) \<and>
     (nChainTx bi \<noteq> 0 \<longrightarrow> nStatus bi AND BLOCK_HAVE_DATA \<noteq> 0 \<and> (case pprev bi of None \<Rightarrow> True | Some q \<Rightarrow> \<exists>prev. m q = Some prev \<and> nChainTx prev \<noteq> 0))"

definition unlinked_ok :: "block_map \<Rightarrow> bid option \<times> bid \<Rightarrow> bool" where
  "unlinked_ok m e \<longleftrightarrow> (\<exists>bi. m (snd e) = Some bi \<and> fst e = pprev bi \<and> nTx bi \<noteq> 0 \<and> nStatus bi AND BLOCK_HAVE_DATA \<noteq> 0)"

definition tree_inv :: "nat \<Rightarrow> int \<Rightarrow> block_tree \<Rightarrow> bool" where
  "tree_inv B H bt \<longleftrightarrow> tree_ok bt \<and> chain_ok (mapBlockIndex bt) (chainActive bt) \<and>
     (\<forall>p bi. mapBlockIndex bt p = Some bi \<longrightarrow> tx_ok B H (mapBlockIndex bt) bi) \<and>
     (\<forall>p\<in>set (setBlockIndexCandidates bt). \<exists>bi. mapBlockIndex bt p = Some bi \<and> nChainTx bi \<noteq> 0) \<and>
     (\<forall>e\<in>set (mapBlocksUnlinked bt). unlinked_ok (mapBlockIndex bt) e)"

lemma linked_of_tx_ok:
  assumes "wf_index m" "m p = Some bi" "nChainTx bi \<noteq> 0" "\<And>p bi. m p = Some bi \<Longrightarrow> tx_ok B H m bi"
  shows "linked m p"
  using assms(1,2,3)
proof (induction rule: pprev_induct)
  case (root p bi)
  then show ?case by (simp add: usable_root)
next
  case (step p bi q bj)
  then have "nChainTx bj \<noteq> 0" using assms(4) [OF step(1)] by (auto simp: tx_ok_def)
  then show ?case using step usable_step(2) [of m p bi q, OF step(1,2)] by blast
qed

lemma tree_inv_ready:
  assumes "tree_inv B H bt"
  shows "tree_ready bt"
proof -
  have wf: "wf_index (mapBlockIndex bt)" using assms by (simp add: tree_inv_def tree_ok_def)
  have "chain_closed (mapBlockIndex bt) (chainActive bt)"
    using chain_ok_closed [OF wf] assms by (simp add: tree_inv_def)
  moreover have "sized (mapBlockIndex bt)" using assms by (auto simp: tree_inv_def tree_ok_def sized_def entry_ok_def)
  moreover have "mapBlockIndex bt p \<noteq> None \<and> linked (mapBlockIndex bt) p" if p: "p \<in> set (setBlockIndexCandidates bt)" for p
  proof -
    obtain bi where "mapBlockIndex bt p = Some bi" "nChainTx bi \<noteq> 0" using assms p by (auto simp: tree_inv_def)
    then show ?thesis using linked_of_tx_ok [OF wf] assms by (auto simp: tree_inv_def)
  qed
  ultimately show ?thesis using wf by (auto simp: tree_ready_def)
qed

lemma chain_ok_mono:
  assumes "wf_index m" "chain_ok m c" "\<And>q b. m q = Some b \<Longrightarrow> \<exists>b'. m' q = Some b' \<and> pprev b' = pprev b \<and> nHeight b' = nHeight b"
  shows "chain_ok m' c"
proof (cases "c = []")
  case False
  then obtain t b where t: "m t = Some b" "c = path m t" using assms(2) by (auto simp: chain_ok_def)
  obtain b' where b': "m' t = Some b'" "nHeight b' = nHeight b" using assms(3) [OF t(1)] by blast
  have h: "height_of m' t = height_of m t" using t(1) b' by (simp add: height_of_def)
  have "walk m' (height_of m t - j) t = walk m (height_of m t - j) t" for j
  proof -
    obtain r where "walk m (height_of m t - j) t = Some r"
      using walk_ex [OF assms(1) t(1), of "height_of m t - j"] by auto
    then show ?thesis using walk_mono [of m m'] assms(3) by metis
  qed
  then have "path m' t = path m t" by (simp add: path_def h)
  then show ?thesis using t b' by (auto simp: chain_ok_def)
qed (simp add: chain_ok_def)

lemma header_keeps_inv:
  assumes "tree_inv B H bt" "hash = ne_block_hash E block" "mapBlockIndex bt hash = None"
    and "case mapBlockIndex bt (hashPrevBlock block) of None \<Rightarrow> 0 \<le> H | Some prev \<Rightarrow> nHeight prev < H"
    and "AddToBlockIndex E block bt = Some (hash, bt')"
  shows "tree_inv B H bt'"
proof -
  let ?m = "mapBlockIndex bt" and ?m' = "mapBlockIndex bt'"
  have ok: "tree_ok bt" using assms(1) by (simp add: tree_inv_def)
  obtain new where n: "tree_ok bt'" "?m' hash = Some new" "nTx new = 0" "nChainTx new = 0" "chainActive bt' = chainActive bt"
    "setBlockIndexCandidates bt' = setBlockIndexCandidates bt" "mapBlocksUnlinked bt' = mapBlocksUnlinked bt"
    "nHeight new = (case ?m (hashPrevBlock block) of None \<Rightarrow> 0 | Some prev \<Rightarrow> nHeight prev + 1)"
    "\<And>p. p \<noteq> hash \<Longrightarrow> \<exists>n. ?m' p = map_option (\<lambda>bi. bi\<lparr>pnext := n\<rparr>) (?m p)"
    using AddToBlockIndex_spec [OF ok assms(2,3)] assms(5) by auto
  have old: "\<exists>n. ?m' p = Some (b\<lparr>pnext := n\<rparr>)" if "?m p = Some b" for p b
    using n(9) [of p] that assms(3) by (cases "p = hash") auto
  have "chain_ok ?m' (chainActive bt')" unfolding n(5)
    by (rule chain_ok_mono [of ?m]) (use assms(1) old in \<open>fastforce simp: tree_inv_def tree_ok_def\<close>)+
  moreover have "tx_ok B H ?m' bi" if i: "?m' p = Some bi" for p bi
  proof (cases "p = hash")
    case True
    have "wf_index ?m'" using n(1) by (simp add: tree_ok_def)
    then have "0 \<le> nHeight new" using n(2) by (rule wf_height)
    then show ?thesis using True i n(2-4,8) assms(4) by (auto simp: tx_ok_def split: option.splits)
  next
    case False
    then obtain a k where a: "?m p = Some a" "bi = a\<lparr>pnext := k\<rparr>" using n(9) [OF False] i by (cases "?m p") auto
    have "tx_ok B H ?m a" using assms(1) a(1) by (auto simp: tree_inv_def)
    then show ?thesis using a(2) old by (fastforce simp: tx_ok_def split: option.splits)
  qed
  moreover have "\<exists>bi. ?m' p = Some bi \<and> nChainTx bi \<noteq> 0" if "p \<in> set (setBlockIndexCandidates bt')" for p
    using assms(1) that old n(6) by (fastforce simp: tree_inv_def)
  moreover have "unlinked_ok ?m' e" if "e \<in> set (mapBlocksUnlinked bt')" for e
    using assms(1) that old n(7) by (fastforce simp: tree_inv_def unlinked_ok_def)
  ultimately show ?thesis using n(1) by (auto simp: tree_inv_def)
qed


section \<open>Receiving a body\<close>

lemma status_or_valid:
  fixes s :: u32
  assumes "c AND BLOCK_VALID_MASK = 0"
  shows "(s OR c) AND BLOCK_VALID_MASK = s AND BLOCK_VALID_MASK"
  using assms by (simp add: and.commute [of _ BLOCK_VALID_MASK] bit.conj_disj_distrib)

lemma status_or_data: "(s :: u32) AND BLOCK_HAVE_DATA \<noteq> 0 \<Longrightarrow> (s OR c) AND BLOCK_HAVE_DATA \<noteq> 0"
  by (metis and.commute bit.conj_disj_distrib or_eq_0_iff)

lemma tx_ok_mono:
  assumes "tx_ok B H m bi" "\<And>q b. m q = Some b \<Longrightarrow> \<exists>c. m' q = Some c \<and> (nChainTx b \<noteq> 0 \<longrightarrow> nChainTx c \<noteq> 0)"
  shows "tx_ok B H m' bi"
  using assms(1) assms(2) by (fastforce simp: tx_ok_def split: option.splits)

text \<open>An update of an entry that keeps its place in the tree and does not take back what is known of its data.\<close>

lemma update_inv:
  assumes inv: "tree_inv B H bt" and old: "mapBlockIndex bt p = Some old"
    and new: "skeleton new = skeleton old" "BLOCK_VALID_TREE \<le> nStatus new AND BLOCK_VALID_MASK" "tx_ok B H (mapBlockIndex bt) new"
      "nChainTx old \<noteq> 0 \<Longrightarrow> nChainTx new \<noteq> 0" "nTx old \<noteq> 0 \<Longrightarrow> nTx new \<noteq> 0"
      "nStatus old AND BLOCK_HAVE_DATA \<noteq> 0 \<Longrightarrow> nStatus new AND BLOCK_HAVE_DATA \<noteq> 0"
  shows "tree_inv B H (update_index p new bt)"
proof -
  let ?m = "mapBlockIndex bt" and ?m' = "(mapBlockIndex bt)(p \<mapsto> new)" and ?bt' = "update_index p new bt"
  have s: "mapBlockIndex ?bt' = ?m'" "chainActive ?bt' = chainActive bt" "setBlockIndexCandidates ?bt' = setBlockIndexCandidates bt"
    "mapBlocksUnlinked ?bt' = mapBlocksUnlinked bt" "pindexBestHeader ?bt' = pindexBestHeader bt"
    "known_blocks ?bt' = known_blocks bt" by (simp_all add: update_index_def)
  have ok: "tree_ok bt" using inv by (simp add: tree_inv_def)
  have valid: "?m q = Some b \<Longrightarrow> BLOCK_VALID_TREE \<le> nStatus b AND BLOCK_VALID_MASK" for q b
    using ok by (auto simp: tree_ok_def entry_ok_def)
  have "same_tree ?m ?m'" using old new(1,2) valid by (auto simp: same_tree_def split: option.splits)
  moreover have "\<forall>q\<in>set (setBlockIndexCandidates bt). ?m' q \<noteq> None" using ok by (auto simp: tree_ok_def)
  ultimately have "tree_ok ?bt'" using same_tree_ok [OF ok, of ?bt'] s by simp
  moreover have "chain_ok ?m' (chainActive bt)"
    by (rule chain_ok_mono [of ?m]) (use inv old new(1) in \<open>auto simp: tree_inv_def tree_ok_def skeleton_def\<close>)
  moreover have "tx_ok B H ?m' b" if "?m' q = Some b" for q b
  proof -
    have "tx_ok B H ?m b" using that inv new(3) by (auto simp: tree_inv_def split: if_splits)
    then show ?thesis by (rule tx_ok_mono) (use old new(4) in auto)
  qed
  moreover have "\<exists>b. ?m' q = Some b \<and> nChainTx b \<noteq> 0" if "q \<in> set (setBlockIndexCandidates bt)" for q
  proof -
    obtain b where "?m q = Some b" "nChainTx b \<noteq> 0" using inv \<open>q \<in> _\<close> by (auto simp: tree_inv_def)
    then show ?thesis using old new(4) by (cases "q = p") auto
  qed
  moreover have "unlinked_ok ?m' e" if "e \<in> set (mapBlocksUnlinked bt)" for e
  proof -
    obtain b where "?m (snd e) = Some b" "fst e = pprev b" "nTx b \<noteq> 0" "nStatus b AND BLOCK_HAVE_DATA \<noteq> 0"
      using inv \<open>e \<in> _\<close> by (auto simp: tree_inv_def unlinked_ok_def)
    then show ?thesis using old new(1,5,6) by (cases "snd e = p") (auto simp: unlinked_ok_def skeleton_def)
  qed
  ultimately show ?thesis using s by (auto simp: tree_inv_def)
qed

lemma tree_inv_more:
  assumes "tree_inv B H bt" "mapBlockIndex bt' = mapBlockIndex bt" "chainActive bt' = chainActive bt" "pindexBestHeader bt' = pindexBestHeader bt"
    and "\<forall>p\<in>set (setBlockIndexCandidates bt'). \<exists>bi. mapBlockIndex bt p = Some bi \<and> nChainTx bi \<noteq> 0"
    and "\<forall>e\<in>set (mapBlocksUnlinked bt'). unlinked_ok (mapBlockIndex bt) e" and "known_blocks bt' = known_blocks bt"
  shows "tree_inv B H bt'"
  using assms by (fastforce simp: tree_inv_def tree_ok_def)

lemma last_modifier_total:
  assumes "wf_index m" "m p = Some bi"
  shows "\<exists>bj. last_modifier_loop m p = Some bj"
  using assms
proof (induction rule: pprev_induct)
  case (step p bi q bj)
  then show ?case by (cases "GeneratedStakeModifier bi") (simp_all add: last_modifier_loop.simps [of m p])
qed (simp add: last_modifier_loop.simps)

lemma next_modifier_total:
  assumes "wf_index m" "keyed m" "m p = Some prev"
  shows "\<exists>x. ComputeNextStakeModifier P Hash literal m (Some p) = Some x"
proof -
  obtain bj where "last_modifier_loop m p = Some bj" using last_modifier_total [OF assms(1,3)] by blast
  define start where "start = (bi_GetBlockTime prev div getIntervalVersion False) * getIntervalVersion False - GetStakeModifierSelectionInterval"
  obtain cs where cs: "candidates_loop m start (Some p) [] = Some cs"
    using candidates_return [OF assms(1,3,2), of start "[]"] by auto
  show ?thesis
    using \<open>last_modifier_loop m p = Some bj\<close> cs assms(3)
    by (auto simp: ComputeNextStakeModifier_def GetLastStakeModifier_def Let_def start_def [symmetric] split: option.split)
qed

lemma finalise_modifier_spec:
  assumes "wf_index m" "keyed m" "pprev bi = None \<or> (\<exists>q prev. pprev bi = Some q \<and> m q = Some prev)"
  shows "\<exists>ok bi'. finalise_modifier E literal m bi = Some (ok, bi') \<and> skeleton bi' = skeleton bi \<and> nTx bi' = nTx bi \<and>
    nChainTx bi' = nChainTx bi \<and> nSequenceId bi' = nSequenceId bi \<and> nStatus bi' \<in> {nStatus bi, nStatus bi OR BLOCK_FAILED_VALID}"
proof (cases "pprev bi")
  case None
  then show ?thesis by (intro exI [of _ True] exI [of _ bi]) (simp add: finalise_modifier_def)
next
  case (Some q)
  then obtain prev where prev: "m q = Some prev" using assms(3) by auto
  obtain ok md g where c: "ComputeNextStakeModifier (ne_params E) (ne_Hash E) literal m (Some q) = Some (ok, md, g)"
    using next_modifier_total [OF assms(1,2) prev] by (metis prod_cases3)
  define b1 where "b1 = SetStakeModifier md g (bi\<lparr>nFlags := nFlags bi AND NOT BLOCK_STAKE_MODIFIER\<rparr>)"
  have b1: "skeleton b1 = skeleton bi" "nTx b1 = nTx bi" "nChainTx b1 = nChainTx bi" "nSequenceId b1 = nSequenceId bi" "nStatus b1 = nStatus bi"
    "pprev b1 = Some q" using Some by (simp_all add: b1_def SetStakeModifier_def skeleton_def)
  obtain ck where k: "GetStakeModifierChecksum (ne_params E) (ne_Hash E) m b1 = Some ck" using b1(6) prev by (auto simp: GetStakeModifierChecksum_def)
  show ?thesis using Some c k b1
    by (cases "CheckStakeModifierCheckpoints (nHeight bi) ck") (auto simp: finalise_modifier_def b1_def [symmetric] Let_def skeleton_def)
qed


text \<open>A block whose own data and whose ancestors' data are there.\<close>

definition linkable :: "block_map \<Rightarrow> bid \<Rightarrow> bool" where
  "linkable m p \<longleftrightarrow> (\<exists>bi. m p = Some bi \<and> nTx bi \<noteq> 0 \<and> nStatus bi AND BLOCK_HAVE_DATA \<noteq> 0 \<and>
     (case pprev bi of None \<Rightarrow> True | Some q \<Rightarrow> \<exists>prev. m q = Some prev \<and> nChainTx prev \<noteq> 0))"

lemma link_block_spec:
  assumes inv: "tree_inv B H bt" and lim: "int B * (H + 1) < 2 ^ 32" and p: "linkable (mapBlockIndex bt) p"
  shows "\<exists>ok bt' new. link_block E literal addr p bt = Some (ok, bt') \<and> tree_inv B H bt' \<and> mapBlocksUnlinked bt' = mapBlocksUnlinked bt \<and>
    mapBlockIndex bt' = (mapBlockIndex bt)(p \<mapsto> new) \<and> skeleton new = skeleton (the (mapBlockIndex bt p)) \<and> nChainTx new \<noteq> 0 \<and>
    nTx new = nTx (the (mapBlockIndex bt p)) \<and> nStatus new AND BLOCK_HAVE_DATA \<noteq> 0 \<and> chainActive bt' = chainActive bt \<and>
    nSequenceId new = nBlockSequenceId bt \<and> nBlockSequenceId bt' = nBlockSequenceId bt + 1 \<and>
    unat (nChainTx new) = unat (prev_chain_tx (mapBlockIndex bt) (the (mapBlockIndex bt p))) + unat (nTx new)"
proof -
  let ?m = "mapBlockIndex bt"
  obtain bi where bi: "?m p = Some bi" "nTx bi \<noteq> 0" "nStatus bi AND BLOCK_HAVE_DATA \<noteq> 0"
    "case pprev bi of None \<Rightarrow> True | Some q \<Rightarrow> \<exists>prev. ?m q = Some prev \<and> nChainTx prev \<noteq> 0" using p by (auto simp: linkable_def)
  have wf: "wf_index ?m" "keyed ?m" and all: "\<And>q b. ?m q = Some b \<Longrightarrow> tx_ok B H ?m b"
    and valid: "BLOCK_VALID_TREE \<le> nStatus bi AND BLOCK_VALID_MASK"
    using inv bi(1) by (auto simp: tree_inv_def tree_ok_def entry_ok_def)
  have prev: "int (unat (prev_chain_tx ?m bi)) \<le> int B * nHeight bi"
  proof (cases "pprev bi")
    case None
    then show ?thesis using wf_height [OF wf(1) bi(1)] by (simp add: prev_chain_tx_def)
  next
    case (Some q)
    then obtain b where b: "?m q = Some b" "nHeight bi = nHeight b + 1"
      using wf_indexD [OF wf(1) bi(1)] by (auto simp: wf_entry_def split: option.splits)
    then show ?thesis using all [OF b(1)] Some by (simp add: prev_chain_tx_def tx_ok_def)
  qed
  have own: "unat (nTx bi) \<le> B" "nHeight bi \<le> H" using all [OF bi(1)] by (simp_all add: tx_ok_def)
  then have h: "int B * nHeight bi + int B \<le> int B * (H + 1)" by (simp add: distrib_left mult_left_mono)
  have k: "int (unat (nTx bi)) \<le> int B" using own(1) by linarith
  have d: "int B * (nHeight bi + 1) = int B * nHeight bi + int B" by (simp add: distrib_left)
  have sum: "int (unat (prev_chain_tx ?m bi)) + int (unat (nTx bi)) \<le> int B * (nHeight bi + 1)" using prev k d by linarith
  have "int (unat (prev_chain_tx ?m bi) + unat (nTx bi)) < 2 ^ 32" unfolding of_nat_add using sum h d lim by linarith
  then have "unat (prev_chain_tx ?m bi) + unat (nTx bi) < 2 ^ 32"
    by (metis of_nat_less_iff of_nat_numeral of_nat_power)
  then have add: "unat (prev_chain_tx ?m bi + nTx bi) = unat (prev_chain_tx ?m bi) + unat (nTx bi)" by (simp add: unat_word_ariths)
  have nz: "unat (nTx bi) \<noteq> 0" using bi(2) by (simp add: unat_eq_0)
  define b0 where "b0 = bi\<lparr>nChainTx := prev_chain_tx ?m bi + nTx bi, nSequenceId := nBlockSequenceId bt\<rparr>"
  have "pprev b0 = None \<or> (\<exists>q prev. pprev b0 = Some q \<and> ?m q = Some prev)" using bi(4) by (auto simp: b0_def split: option.splits)
  then obtain ok b1 where f: "finalise_modifier E literal ?m b0 = Some (ok, b1)" "skeleton b1 = skeleton b0" "nTx b1 = nTx b0"
    "nChainTx b1 = nChainTx b0" "nSequenceId b1 = nSequenceId b0" "nStatus b1 \<in> {nStatus b0, nStatus b0 OR BLOCK_FAILED_VALID}"
    using finalise_modifier_spec [OF wf, of b0] by blast
  have sk: "skeleton b1 = skeleton bi" using f(2) by (simp add: skeleton_def b0_def)
  have st: "nStatus b1 AND BLOCK_VALID_MASK = nStatus bi AND BLOCK_VALID_MASK" "nStatus b1 AND BLOCK_HAVE_DATA \<noteq> 0"
    using f(6) status_or_valid [of BLOCK_FAILED_VALID "nStatus bi"] status_or_data [OF bi(3)] bi(3)
    by (auto simp: b0_def block_flag_defs)
  have "nChainTx b1 \<noteq> 0"
  proof
    assume "nChainTx b1 = 0"
    then have "unat (prev_chain_tx ?m bi + nTx bi) = 0" using f(4) by (simp add: b0_def)
    then show False using add nz by simp
  qed
  have links: "pprev b1 = pprev bi" "nHeight b1 = nHeight bi" using sk by (simp_all add: skeleton_def)
  have tx: "tx_ok B H ?m b1" using all [OF bi(1)] bi(4) f(3,4) links sum st(2) add by (simp add: tx_ok_def b0_def)
  define bt1 where "bt1 = (update_index p b1 bt)\<lparr>nBlockSequenceId := nBlockSequenceId bt + 1\<rparr>"
  have i0: "tree_inv B H (update_index p b1 bt)"
    by (rule update_inv [OF inv bi(1) sk _ tx]) (use st valid \<open>nChainTx b1 \<noteq> 0\<close> f(3) bi(2) in \<open>simp_all add: b0_def\<close>)
  have i1: "tree_inv B H bt1" by (rule tree_inv_more [OF i0]) (use i0 in \<open>auto simp: bt1_def tree_inv_def\<close>)
  define cs where "cs = (if \<not> ok then setBlockIndexCandidates bt1 else case tip_index bt1 of
      None \<Rightarrow> insert_candidate p (setBlockIndexCandidates bt1)
    | Some tip \<Rightarrow> if \<not> CBlockIndexWorkComparator addr b1 tip then insert_candidate p (setBlockIndexCandidates bt1) else setBlockIndexCandidates bt1)"
  have m1: "mapBlockIndex bt1 = ?m(p \<mapsto> b1)" "mapBlocksUnlinked bt1 = mapBlocksUnlinked bt" "chainActive bt1 = chainActive bt"
    "nBlockSequenceId bt1 = nBlockSequenceId bt + 1" by (simp_all add: bt1_def update_index_def)
  have l: "link_block E literal addr p bt = Some (ok, bt1\<lparr>setBlockIndexCandidates := cs\<rparr>)"
    using bi(1) f(1) by (simp add: link_block_def Let_def b0_def [symmetric] bt1_def [symmetric] cs_def split: option.split)
  have "set cs \<subseteq> insert p (set (setBlockIndexCandidates bt1))"
    by (auto simp: cs_def insert_candidate_def split: option.splits if_splits)
  then have "\<exists>b. mapBlockIndex bt1 q = Some b \<and> nChainTx b \<noteq> 0" if "q \<in> set cs" for q
    using that i1 m1(1) \<open>nChainTx b1 \<noteq> 0\<close> by (cases "q = p") (force simp: tree_inv_def)+
  then have "tree_inv B H (bt1\<lparr>setBlockIndexCandidates := cs\<rparr>)"
    by (intro tree_inv_more [OF i1]) (use i1 in \<open>auto simp: tree_inv_def\<close>)
  then show ?thesis using l m1 sk st(2) f(3-5) \<open>nChainTx b1 \<noteq> 0\<close> bi(1) add
    by (intro exI [of _ ok] exI [of _ "bt1\<lparr>setBlockIndexCandidates := cs\<rparr>"] exI [of _ b1]) (simp add: b0_def)
qed


lemma linkable_update:
  assumes "linkable m q" "m' = m(p \<mapsto> new)" "m p = Some old" "skeleton new = skeleton old" "nTx new = nTx old" "nChainTx new \<noteq> 0"
    "nStatus new AND BLOCK_HAVE_DATA \<noteq> 0"
  shows "linkable m' q"
proof -
  obtain bi where b: "m q = Some bi" "nTx bi \<noteq> 0" "nStatus bi AND BLOCK_HAVE_DATA \<noteq> 0"
    "case pprev bi of None \<Rightarrow> True | Some r \<Rightarrow> \<exists>prev. m r = Some prev \<and> nChainTx prev \<noteq> 0" using assms(1) by (auto simp: linkable_def)
  have "case pprev bi of None \<Rightarrow> True | Some r \<Rightarrow> \<exists>prev. m' r = Some prev \<and> nChainTx prev \<noteq> 0"
    using b(4) assms(2,6) by (auto split: option.splits)
  then show ?thesis using b assms by (cases "q = p") (auto simp: linkable_def skeleton_def)
qed

lemma link_loop_spec:
  assumes "tree_inv B H bt" "int B * (H + 1) < 2 ^ 32" "\<forall>p\<in>set queue. linkable (mapBlockIndex bt) p"
  shows "\<exists>bt'. link_loop E literal addr queue bt = Some bt' \<and> tree_inv B H bt' \<and> chainActive bt' = chainActive bt \<and>
    set (mapBlocksUnlinked bt') \<subseteq> set (mapBlocksUnlinked bt) \<and>
    (\<forall>q b. mapBlockIndex bt q = Some b \<longrightarrow> (\<exists>b'. mapBlockIndex bt' q = Some b' \<and> skeleton b' = skeleton b \<and> (nChainTx b \<noteq> 0 \<longrightarrow> nChainTx b' \<noteq> 0))) \<and>
    (\<forall>q\<in>set queue. \<exists>b'. mapBlockIndex bt' q = Some b' \<and> nChainTx b' \<noteq> 0)"
  using assms(1,3)
proof (induction "length queue + length (mapBlocksUnlinked bt)" arbitrary: queue bt rule: less_induct)
  case less
  show ?case
  proof (cases queue)
    case Nil
    then have "link_loop E literal addr [] bt = Some bt" by (simp add: link_loop.simps [of E literal addr "[]"])
    then show ?thesis using less.prems(1) Nil by auto
  next
    case (Cons p rest)
    let ?m = "mapBlockIndex bt"
    have lp: "linkable ?m p" using less.prems(2) Cons by simp
    then obtain old where old: "?m p = Some old" by (auto simp: linkable_def)
    obtain ok bt1 new where l: "link_block E literal addr p bt = Some (ok, bt1)" "tree_inv B H bt1" "mapBlocksUnlinked bt1 = mapBlocksUnlinked bt"
      "mapBlockIndex bt1 = ?m(p \<mapsto> new)" "skeleton new = skeleton old" "nChainTx new \<noteq> 0" "nTx new = nTx old"
      "nStatus new AND BLOCK_HAVE_DATA \<noteq> 0" "chainActive bt1 = chainActive bt"
      using link_block_spec [OF less.prems(1) assms(2) lp, of E literal addr] old by auto
    define more where "more = (if ok then map snd (filter (\<lambda>e. fst e = Some p) (mapBlocksUnlinked bt)) else [])"
    define bt2 where "bt2 = (if ok then bt1\<lparr>mapBlocksUnlinked := filter (\<lambda>e. fst e \<noteq> Some p) (mapBlocksUnlinked bt)\<rparr> else bt1)"
    have step: "link_loop E literal addr queue bt = link_loop E literal addr (rest @ more) bt2"
      using l(1,3) Cons by (simp add: link_loop.simps [of E literal addr "p # rest"] more_def bt2_def)
    have b2: "mapBlockIndex bt2 = ?m(p \<mapsto> new)" "chainActive bt2 = chainActive bt" "set (mapBlocksUnlinked bt2) \<subseteq> set (mapBlocksUnlinked bt)"
      using l(3,4,9) by (auto simp: bt2_def)
    have inv2: "tree_inv B H bt2" unfolding bt2_def
      using l(2) tree_inv_more [OF l(2), of "bt1\<lparr>mapBlocksUnlinked := filter (\<lambda>e. fst e \<noteq> Some p) (mapBlocksUnlinked bt)\<rparr>"] l(3)
      by (auto simp: tree_inv_def)
    have "length (filter (\<lambda>e. fst e = Some p) (mapBlocksUnlinked bt)) + length (filter (\<lambda>e. fst e \<noteq> Some p) (mapBlocksUnlinked bt)) = length (mapBlocksUnlinked bt)"
      by (rule sum_length_filter_compl)
    then have smaller: "length (rest @ more) + length (mapBlocksUnlinked bt2) < length queue + length (mapBlocksUnlinked bt)"
      using Cons l(3) by (simp add: more_def bt2_def)
    have q2: "\<forall>q\<in>set (rest @ more). linkable (mapBlockIndex bt2) q"
    proof
      fix q assume "q \<in> set (rest @ more)"
      then consider "q \<in> set rest" | e where "e \<in> set (mapBlocksUnlinked bt)" "fst e = Some p" "q = snd e"
        by (auto simp: more_def split: if_splits)
      then show "linkable (mapBlockIndex bt2) q"
      proof cases
        case 1
        then show ?thesis using less.prems(2) Cons linkable_update [of ?m q _ p new old, OF _ b2(1) old l(5,7,6,8)] by simp
      next
        case 2
        have "unlinked_ok (mapBlockIndex bt1) e" using l(2,3) 2(1) by (auto simp: tree_inv_def)
        then obtain b where "mapBlockIndex bt1 q = Some b" "pprev b = Some p" "nTx b \<noteq> 0" "nStatus b AND BLOCK_HAVE_DATA \<noteq> 0"
          using 2(2,3) by (auto simp: unlinked_ok_def)
        then show ?thesis using b2(1) l(4,6) by (simp add: linkable_def)
      qed
    qed
    obtain bt' where r: "link_loop E literal addr (rest @ more) bt2 = Some bt'" "tree_inv B H bt'" "chainActive bt' = chainActive bt2"
      "set (mapBlocksUnlinked bt') \<subseteq> set (mapBlocksUnlinked bt2)"
      "\<And>q b. mapBlockIndex bt2 q = Some b \<Longrightarrow> \<exists>b'. mapBlockIndex bt' q = Some b' \<and> skeleton b' = skeleton b \<and> (nChainTx b \<noteq> 0 \<longrightarrow> nChainTx b' \<noteq> 0)"
      "\<And>q. q \<in> set (rest @ more) \<Longrightarrow> \<exists>b'. mapBlockIndex bt' q = Some b' \<and> nChainTx b' \<noteq> 0"
      using less.hyps [OF smaller inv2 q2] by blast
    have pp: "\<exists>b'. mapBlockIndex bt' p = Some b' \<and> skeleton b' = skeleton old \<and> nChainTx b' \<noteq> 0"
      using r(5) [of p new] b2(1) l(5,6) by simp
    have "\<exists>b'. mapBlockIndex bt' q = Some b' \<and> skeleton b' = skeleton b \<and> (nChainTx b \<noteq> 0 \<longrightarrow> nChainTx b' \<noteq> 0)" if "?m q = Some b" for q b
      using that pp old r(5) [of q b] b2(1) by (cases "q = p") auto
    moreover have "\<exists>b'. mapBlockIndex bt' q = Some b' \<and> nChainTx b' \<noteq> 0" if "q \<in> set queue" for q
      using that pp r(6) [of q] Cons by auto
    ultimately show ?thesis using step r(1-4) b2(2,3) by auto
  qed
qed


lemma have_data_bit: "(s :: u32) AND BLOCK_HAVE_DATA \<noteq> 0 \<longleftrightarrow> bit s 3"
  using and_exp_eq_0_iff_not_bit [of s 3] by (simp add: BLOCK_HAVE_DATA_def)

lemma raised_status:
  fixes s :: u32
  shows "bit ((s AND NOT BLOCK_VALID_MASK) OR BLOCK_VALID_TRANSACTIONS) 3 = bit s 3"
    "((s AND NOT BLOCK_VALID_MASK) OR BLOCK_VALID_TRANSACTIONS) AND BLOCK_VALID_MASK = BLOCK_VALID_TRANSACTIONS"
proof -
  show "bit ((s AND NOT BLOCK_VALID_MASK) OR BLOCK_VALID_TRANSACTIONS) 3 = bit s 3"
    by (simp add: bit_simps block_flag_defs)
  have "(s AND NOT BLOCK_VALID_MASK) AND BLOCK_VALID_MASK = 0" by (simp add: and.assoc)
  then show "((s AND NOT BLOCK_VALID_MASK) OR BLOCK_VALID_TRANSACTIONS) AND BLOCK_VALID_MASK = BLOCK_VALID_TRANSACTIONS"
    by (simp add: and.commute [of _ BLOCK_VALID_MASK] bit.conj_disj_distrib) (simp add: and.commute block_flag_defs)
qed

lemma RaiseValidity_spec:
  assumes "BLOCK_VALID_TREE \<le> nStatus bi AND BLOCK_VALID_MASK" "bit (nStatus bi) 3"
  shows "\<exists>r s. RaiseValidity BLOCK_VALID_TRANSACTIONS bi = Some (r, bi\<lparr>nStatus := s\<rparr>) \<and> bit s 3 \<and> BLOCK_VALID_TREE \<le> s AND BLOCK_VALID_MASK"
proof -
  have "BLOCK_VALID_TRANSACTIONS AND NOT BLOCK_VALID_MASK = 0" "BLOCK_VALID_TREE \<le> BLOCK_VALID_TRANSACTIONS" by (simp_all add: block_flag_defs)
  moreover have "bi = bi\<lparr>nStatus := nStatus bi\<rparr>" by simp
  ultimately show ?thesis using assms raised_status [of "nStatus bi"] unfolding RaiseValidity_def by (metis (full_types))
qed

lemma received_entry_spec:
  assumes "BLOCK_VALID_TREE \<le> nStatus bi AND BLOCK_VALID_MASK"
  shows "\<exists>new. received_entry E proofs block pos bi = Some new \<and> skeleton new = skeleton bi \<and> nTx new = of_nat (length (vtx block)) \<and>
    nChainTx new = 0 \<and> nStatus new AND BLOCK_HAVE_DATA \<noteq> 0 \<and> BLOCK_VALID_TREE \<le> nStatus new AND BLOCK_VALID_MASK \<and>
    (IsProofOfStake block \<longrightarrow> prevoutStake new = fst (GetProofOfStake block) \<and> bi_IsProofOfStake new) \<and> GetBlockPos new = pos"
proof -
  define b0 where "b0 = (if IsProofOfStake block
      then (let bi = (SetProofOfStake bi)\<lparr>prevoutStake := fst (GetProofOfStake block), nStakeTime := hd_nTime block\<rparr>
            in if bu_IsNull (hashProofOfStake bi)
               then (case map_of proofs (ne_block_hash E block) of None \<Rightarrow> bi | Some h \<Rightarrow> bi\<lparr>hashProofOfStake := h\<rparr>)
               else bi)
      else bi)"
  have "bit (nFlags bi OR BLOCK_PROOF_OF_STAKE) 0" by (simp add: bit_simps BLOCK_PROOF_OF_STAKE_def)
  then have "(nFlags bi OR BLOCK_PROOF_OF_STAKE) AND BLOCK_PROOF_OF_STAKE \<noteq> 0"
    using and_exp_eq_0_iff_not_bit [of "nFlags bi OR BLOCK_PROOF_OF_STAKE" 0] by (simp add: BLOCK_PROOF_OF_STAKE_def)
  then have b0: "skeleton b0 = skeleton bi" "nStatus b0 = nStatus bi"
      "IsProofOfStake block \<longrightarrow> prevoutStake b0 = fst (GetProofOfStake block) \<and> bi_IsProofOfStake b0"
    by (auto simp: b0_def Let_def SetProofOfStake_def skeleton_def bi_IsProofOfStake_def split: option.split)
  define b1 where "b1 = b0\<lparr>nTx := of_nat (length (vtx block)), nChainTx := 0, bi_nFile := dp_nFile pos, nDataPos := dp_nPos pos, nUndoPos := 0,
                  nStatus := nStatus b0 OR BLOCK_HAVE_DATA\<rparr>"
  have "(nStatus bi OR BLOCK_HAVE_DATA) AND BLOCK_VALID_MASK = nStatus bi AND BLOCK_VALID_MASK"
    by (rule status_or_valid) (simp add: block_flag_defs)
  moreover have "bit (nStatus bi OR BLOCK_HAVE_DATA) 3" by (simp add: bit_simps BLOCK_HAVE_DATA_def)
  ultimately obtain r s where r: "RaiseValidity BLOCK_VALID_TRANSACTIONS b1 = Some (r, b1\<lparr>nStatus := s\<rparr>)" "bit s 3"
      "BLOCK_VALID_TREE \<le> s AND BLOCK_VALID_MASK"
    using RaiseValidity_spec [of b1] assms b0(2) by (auto simp: b1_def)
  have e: "received_entry E proofs block pos bi = Some (b1\<lparr>nStatus := s\<rparr>)"
    using r(1) by (simp add: received_entry_def b0_def [symmetric] b1_def [symmetric] Let_def)
  have "skeleton (b1\<lparr>nStatus := s\<rparr>) = skeleton bi" "prevoutStake (b1\<lparr>nStatus := s\<rparr>) = prevoutStake b0"
    "bi_IsProofOfStake (b1\<lparr>nStatus := s\<rparr>) = bi_IsProofOfStake b0" using b0(1) by (simp_all add: b1_def skeleton_def bi_IsProofOfStake_def)
  moreover have "GetBlockPos (b1\<lparr>nStatus := s\<rparr>) = pos" using r(2) have_data_bit [of s] by (simp add: GetBlockPos_def b1_def)
  moreover have "nTx (b1\<lparr>nStatus := s\<rparr>) = of_nat (length (vtx block))" "nChainTx (b1\<lparr>nStatus := s\<rparr>) = 0" by (simp_all add: b1_def)
  ultimately show ?thesis unfolding e using r(2,3) b0(3) have_data_bit [of s] by (intro exI [of _ "b1\<lparr>nStatus := s\<rparr>"]) simp
qed

lemma received_spec:
  assumes inv: "tree_inv B H bt" and lim: "int B * (H + 1) < 2 ^ 32" and p: "mapBlockIndex bt p = Some bi" "nStatus bi AND BLOCK_HAVE_DATA = 0"
    and len: "vtx block \<noteq> []" "length (vtx block) \<le> B"
  shows "\<exists>bt' new. ReceivedBlockTransactions E literal addr block p pos bt = Some bt' \<and> tree_inv B H bt' \<and> chainActive bt' = chainActive bt \<and>
    mapBlockIndex bt' p = Some new \<and> skeleton new = skeleton bi \<and> nStatus new AND BLOCK_HAVE_DATA \<noteq> 0 \<and>
    ((case pprev bi of None \<Rightarrow> True | Some q \<Rightarrow> \<exists>prev. mapBlockIndex bt q = Some prev \<and> nChainTx prev \<noteq> 0) \<longrightarrow> nChainTx new \<noteq> 0)"
proof -
  let ?m = "mapBlockIndex bt"
  have valid: "BLOCK_VALID_TREE \<le> nStatus bi AND BLOCK_VALID_MASK" and tx: "tx_ok B H ?m bi" and wf: "wf_index ?m"
    using inv p(1) by (auto simp: tree_inv_def tree_ok_def entry_ok_def)
  have old0: "nChainTx bi = 0" using tx p(2) by (auto simp: tx_ok_def)
  have h: "0 \<le> nHeight bi" "nHeight bi \<le> H" using wf_height [OF wf p(1)] tx by (auto simp: tx_ok_def)
  have "int B \<le> int B * (H + 1)" using h by (simp add: mult_le_cancel_left1)
  then have "length (vtx block) < 2 ^ 32" using lim len(2) by (metis le_less_trans of_nat_le_iff of_nat_less_iff of_nat_numeral of_nat_power)
  then have n: "unat (of_nat (length (vtx block)) :: u32) = length (vtx block)" by (simp add: unat_of_nat)
  then have nz: "(of_nat (length (vtx block)) :: u32) \<noteq> 0" using len(1) by (metis length_0_conv unat_0)
  obtain new where r: "received_entry E (mapProofOfStake bt) block pos bi = Some new" "skeleton new = skeleton bi"
    "nTx new = of_nat (length (vtx block))" "nChainTx new = 0" "nStatus new AND BLOCK_HAVE_DATA \<noteq> 0"
    "BLOCK_VALID_TREE \<le> nStatus new AND BLOCK_VALID_MASK"
    using received_entry_spec [OF valid, of E "mapProofOfStake bt" block pos] by blast
  have links: "pprev new = pprev bi" "nHeight new = nHeight bi" using r(2) by (simp_all add: skeleton_def)
  have txn: "tx_ok B H ?m new" using r(3,4) n len(2) links h by (simp add: tx_ok_def)
  define bt1 where "bt1 = (update_index p new bt)\<lparr>setStakeSeen :=
      (if IsProofOfStake block then insert (prevoutStake new, nStakeTime new) (setStakeSeen bt) else setStakeSeen bt)\<rparr>"
  have i0: "tree_inv B H (update_index p new bt)"
    by (rule update_inv [OF inv p(1) r(2,6) txn]) (use old0 nz r(3,5) in simp_all)
  have i1: "tree_inv B H bt1" by (rule tree_inv_more [OF i0]) (use i0 in \<open>auto simp: bt1_def tree_inv_def\<close>)
  have m1: "mapBlockIndex bt1 = ?m(p \<mapsto> new)" "chainActive bt1 = chainActive bt" by (simp_all add: bt1_def update_index_def)
  have start: "ReceivedBlockTransactions E literal addr block p pos bt = (case Option.bind (pprev new) (mapBlockIndex bt1) of
        None \<Rightarrow> link_loop E literal addr [p] bt1
      | Some prev \<Rightarrow> if nChainTx prev \<noteq> 0 then link_loop E literal addr [p] bt1
          else (case bi_IsValid BLOCK_VALID_TREE prev of None \<Rightarrow> None
             | Some valid \<Rightarrow> Some (if valid then bt1\<lparr>mapBlocksUnlinked := mapBlocksUnlinked bt1 @ [(pprev new, p)]\<rparr> else bt1)))"
    using p(1) r(1) by (simp add: ReceivedBlockTransactions_def bt1_def Let_def Option.bind_def split: option.split)
  have np: "pprev bi \<noteq> Some p" using wf_indexD [OF wf p(1)] p(1) by (auto simp: wf_entry_def)
  show ?thesis
  proof (cases "case pprev bi of None \<Rightarrow> True | Some q \<Rightarrow> \<exists>prev. ?m q = Some prev \<and> nChainTx prev \<noteq> 0")
    case True
    have "linkable (mapBlockIndex bt1) p" using True np m1(1) r(3,5) nz links(1)
      by (auto simp: linkable_def split: option.splits)
    then have "\<forall>x\<in>set [p]. linkable (mapBlockIndex bt1) x" by simp
    from link_loop_spec [OF i1 lim this, of E literal addr] obtain bt' where
      l: "link_loop E literal addr [p] bt1 = Some bt'" "tree_inv B H bt'" "chainActive bt' = chainActive bt1"
      and k: "\<forall>q b. mapBlockIndex bt1 q = Some b \<longrightarrow> (\<exists>b'. mapBlockIndex bt' q = Some b' \<and> skeleton b' = skeleton b \<and> (nChainTx b \<noteq> 0 \<longrightarrow> nChainTx b' \<noteq> 0))"
        "\<forall>q\<in>set [p]. \<exists>b'. mapBlockIndex bt' q = Some b' \<and> nChainTx b' \<noteq> 0" by blast
    obtain b' where b': "mapBlockIndex bt' p = Some b'" "nChainTx b' \<noteq> 0" using k(2) by auto
    have "mapBlockIndex bt1 p = Some new" by (simp add: m1(1))
    then have "skeleton b' = skeleton new" using k(1) b'(1) by fastforce
    have "ReceivedBlockTransactions E literal addr block p pos bt = Some bt'"
      unfolding start using True np m1(1) links(1) l(1) by (auto split: option.splits)
    moreover have "nStatus b' AND BLOCK_HAVE_DATA \<noteq> 0" using l(2) b' by (auto simp: tree_inv_def tx_ok_def)
    ultimately show ?thesis using l(2,3) b' m1(2) r(2) \<open>skeleton b' = _\<close> by simp
  next
    case False
    then obtain q prev where q: "pprev bi = Some q" "?m q = Some prev" "nChainTx prev = 0"
      using wf_indexD [OF wf p(1)] by (auto simp: wf_entry_def split: option.splits)
    have "q \<noteq> p" using np q(1) by auto
    obtain v where v: "bi_IsValid BLOCK_VALID_TREE prev = Some v"
      by (cases "nStatus prev AND BLOCK_FAILED_MASK = 0") (auto simp: bi_IsValid_def block_flag_defs)
    define bt2 where "bt2 = (if v then bt1\<lparr>mapBlocksUnlinked := mapBlocksUnlinked bt1 @ [(pprev new, p)]\<rparr> else bt1)"
    have "ReceivedBlockTransactions E literal addr block p pos bt = Some bt2"
      unfolding start using q \<open>q \<noteq> p\<close> m1(1) links(1) v by (simp add: bt2_def)
    moreover have "tree_inv B H bt2"
    proof (rule tree_inv_more [OF i1])
      have "unlinked_ok (mapBlockIndex bt1) (pprev new, p)" using m1(1) r(3,5) nz by (simp add: unlinked_ok_def)
      then show "\<forall>e\<in>set (mapBlocksUnlinked bt2). unlinked_ok (mapBlockIndex bt1) e"
        using i1 by (auto simp: bt2_def tree_inv_def)
    qed (use i1 in \<open>auto simp: bt2_def tree_inv_def\<close>)
    ultimately show ?thesis using m1 r(2,5) False by (simp add: bt2_def)
  qed
qed


section \<open>Accepting blocks\<close>

definition height_fits :: "int \<Rightarrow> CBlock \<Rightarrow> block_map \<Rightarrow> bool" where
  "height_fits H block m \<longleftrightarrow> (case m (hashPrevBlock block) of None \<Rightarrow> 0 \<le> H | Some prev \<Rightarrow> nHeight prev < H)"

lemma contextual_returns:
  assumes "prev = None \<Longrightarrow> ne_block_hash E block = hashGenesisBlock (ne_params E)"
  shows "\<exists>r. ContextualCheckBlockHeader E m vChain maxReorg checkpoint lastCheckpoint block st prev = Returns r"
proof (cases "ne_block_hash E block = hashGenesisBlock (ne_params E)")
  case False
  then obtain b where "prev = Some b" using assms by (cases prev) auto
  then show ?thesis using False by (auto simp: ContextualCheckBlockHeader_def Let_def)
qed (auto simp: ContextualCheckBlockHeader_def)

lemma AcceptBlockHeader_spec:
  assumes "tree_inv B H bt" "height_fits H block (mapBlockIndex bt)"
  shows "\<exists>ok p st' bt'. AcceptBlockHeader A block st bt = Returns (ok, p, st', bt') \<and> tree_inv B H bt' \<and> chainActive bt' = chainActive bt \<and>
    (ok \<longrightarrow> p = Some (ne_block_hash (ai_env A) block) \<and>
      (\<exists>bi. mapBlockIndex bt' (ne_block_hash (ai_env A) block) = Some bi \<and> nStatus bi AND BLOCK_FAILED_MASK = 0))"
proof (cases "mapBlockIndex bt (ne_block_hash (ai_env A) block)")
  case (Some bi)
  then show ?thesis using assms(1)
    by (cases "nStatus bi AND BLOCK_FAILED_MASK = 0") (auto simp: AcceptBlockHeader_def Let_def)
next
  case None
  let ?E = "ai_env A" and ?m = "mapBlockIndex bt"
  let ?hash = "ne_block_hash ?E block"
  have ok: "tree_ok bt" using assms(1) by (simp add: tree_inv_def)
  have h: "CheckBlockHeader ?E ?hash (hd_nBits block) st False = (True, st)" by (simp add: CheckBlockHeader_def)
  show ?thesis
  proof (cases "find_parent ?E block ?m st")
    case (Inl st')
    then show ?thesis using None assms(1) h by (auto simp: AcceptBlockHeader_def Let_def)
  next
    case (Inr prev)
    have "prev = None \<Longrightarrow> ?hash = hashGenesisBlock (ne_params ?E)"
      using Inr by (auto simp: find_parent_def split: if_splits option.splits)
    then obtain cok cst where c: "ContextualCheckBlockHeader ?E ?m (chainActive bt) (ai_maxReorg A) (ai_checkpoint A)
        (ai_lastCheckpoint A ?m) block st prev = Returns (cok, cst)"
      using contextual_returns [of prev ?E block ?m "chainActive bt" "ai_maxReorg A" "ai_checkpoint A" "ai_lastCheckpoint A ?m" st] by auto
    show ?thesis
    proof (cases cok)
      case False
      then show ?thesis using None assms(1) h Inr c by (auto simp: AcceptBlockHeader_def Let_def)
    next
      case True
      obtain new bt' where n: "AddToBlockIndex ?E block bt = Some (?hash, bt')" "mapBlockIndex bt' ?hash = Some new"
        "nStatus new = BLOCK_VALID_TREE" "chainActive bt' = chainActive bt"
        using AddToBlockIndex_spec [OF ok refl None] by blast
      have "tree_inv B H bt'"
        by (rule header_keeps_inv [OF assms(1) refl None _ n(1)]) (use assms(2) in \<open>simp add: height_fits_def\<close>)
      then show ?thesis using True None h Inr c n by (auto simp: AcceptBlockHeader_def Let_def block_flag_defs)
    qed
  qed
qed

lemma CheckBlock_nonempty:
  assumes "CheckBlock E IO block fCheckPOW fCheckMerkleRoot rejected st = (True, st', rejected')"
  shows "vtx block \<noteq> []"
proof
  assume v: "vtx block = []"
  have "check_shape block st1 \<noteq> (True, st2)" for st1 st2 by (simp add: check_shape_def v)
  then show False using assms by (auto simp: CheckBlock_def split: prod.splits bool.splits if_splits)
qed

lemma accept_body_spec:
  assumes "tree_inv B H bt" "int B * (H + 1) < 2 ^ 32" "mapBlockIndex bt p = Some pindex" "nStatus pindex AND BLOCK_HAVE_DATA = 0"
    and "length (vtx block) \<le> B"
  shows "\<exists>ok st' bt'. accept_body A block p pindex st bt = Returns (ok, Some p, st', bt') \<and> tree_inv B H bt' \<and> chainActive bt' = chainActive bt \<and>
    (ok \<longrightarrow> (\<exists>new. mapBlockIndex bt' p = Some new \<and> nStatus new AND BLOCK_HAVE_DATA \<noteq> 0))"
proof -
  obtain ok0 st0 rejected where c: "CheckBlock (ai_env A) (check_io_of A block bt) block True True (mapRejectedBlocks bt) st = (ok0, st0, rejected)"
    by (metis prod_cases3)
  define bt1 where "bt1 = bt\<lparr>mapRejectedBlocks := rejected\<rparr>"
  have i1: "tree_inv B H bt1" by (rule tree_inv_more [OF assms(1)]) (use assms(1) in \<open>auto simp: bt1_def tree_inv_def\<close>)
  obtain ok1 st1 where x: "(if ok0 then ContextualCheckBlock (ai_env A) (chainActive bt1) (pe_adjusted (ai_pointers A)) block st0
      (Option.bind (pprev pindex) (mapBlockIndex bt1)) else (ok0, st0)) = (ok1, st1)" by fastforce
  have m1: "mapBlockIndex bt1 p = Some pindex" "chainActive bt1 = chainActive bt" using assms(3) by (simp_all add: bt1_def)
  note unf = accept_body_def Let_def c prod.case bt1_def [symmetric] x
  show ?thesis
  proof (cases ok1)
    case False
    define bt2 where "bt2 = (if state_IsInvalid st1 \<noteq> None \<and> \<not> corruptionPossible st1
       then update_index p (pindex\<lparr>nStatus := nStatus pindex OR BLOCK_FAILED_VALID\<rparr>) bt1 else bt1)"
    have r: "accept_body A block p pindex st bt = Returns (False, Some p, st1, bt2)" unfolding unf using False by (simp add: bt2_def)
    have st: "(nStatus pindex OR BLOCK_FAILED_VALID) AND BLOCK_VALID_MASK = nStatus pindex AND BLOCK_VALID_MASK"
      by (rule status_or_valid) (simp add: block_flag_defs)
    have tx: "tx_ok B H (mapBlockIndex bt1) pindex" "BLOCK_VALID_TREE \<le> nStatus pindex AND BLOCK_VALID_MASK"
      using i1 m1(1) by (auto simp: tree_inv_def tree_ok_def entry_ok_def)
    have "tx_ok B H (mapBlockIndex bt1) (pindex\<lparr>nStatus := nStatus pindex OR BLOCK_FAILED_VALID\<rparr>)"
      using tx(1) status_or_data by (auto simp: tx_ok_def)
    then have "tree_inv B H (update_index p (pindex\<lparr>nStatus := nStatus pindex OR BLOCK_FAILED_VALID\<rparr>) bt1)"
      by (intro update_inv [OF i1 m1(1)]) (use tx(2) st status_or_data in \<open>auto simp: skeleton_def\<close>)
    then have "tree_inv B H bt2" "chainActive bt2 = chainActive bt" using i1 m1(2) by (simp_all add: bt2_def update_index_def)
    then show ?thesis unfolding r by (intro exI [of _ False] exI [of _ st1] exI [of _ bt2]) simp
  next
    case True
    then have "ok0" using x by (auto split: if_splits)
    then have "CheckBlock (ai_env A) (check_io_of A block bt) block True True (mapRejectedBlocks bt) st = (True, st0, rejected)"
      using c by simp
    then have ne: "vtx block \<noteq> []" by (rule CheckBlock_nonempty)
    show ?thesis
    proof (cases "ai_pos A")
      case None
      then show ?thesis unfolding unf using True i1 m1 by auto
    next
      case (Some pos)
      show ?thesis
      proof (cases "\<not> ai_known A \<and> \<not> ai_written A")
        case True
        then show ?thesis unfolding unf using \<open>ok1\<close> True Some i1 m1 by auto
      next
        case False
        obtain bt' new where "ReceivedBlockTransactions (ai_env A) (ai_literal A) (ai_addr A) block p pos bt1 = Some bt'" "tree_inv B H bt'"
          "chainActive bt' = chainActive bt1" "mapBlockIndex bt' p = Some new" "nStatus new AND BLOCK_HAVE_DATA \<noteq> 0"
          using received_spec [OF i1 assms(2) m1(1) assms(4) ne assms(5)] by blast
        then show ?thesis unfolding unf using False \<open>ok1\<close> Some m1(2) by auto
      qed
    qed
  qed
qed


lemma AcceptBlock_spec:
  assumes "tree_inv B H bt" "int B * (H + 1) < 2 ^ 32" "length (vtx block) \<le> B" "height_fits H block (mapBlockIndex bt)"
    and "\<And>prev. find_parent (ai_env A) block (mapBlockIndex bt) st = Inr prev \<Longrightarrow>
      ne_block_hash (ai_env A) block \<noteq> hashGenesisBlock (ne_params (ai_env A)) \<Longrightarrow>
      \<exists>r. CheckWork (ai_env A) (ai_pointers A) (mapBlockIndex bt) (chainActive bt) (ai_close A) (ai_found A block) (ai_evict A) block prev
        (mapProofOfStake bt) = Returns r"
  shows "\<exists>ok p st' bt'. AcceptBlock A block st bt = Returns (ok, p, st', bt') \<and> tree_inv B H bt' \<and> tree_ready bt' \<and>
    chainActive bt' = chainActive bt \<and>
    (ok \<longrightarrow> (\<exists>new. mapBlockIndex bt' (ne_block_hash (ai_env A) block) = Some new \<and> nStatus new AND BLOCK_HAVE_DATA \<noteq> 0))"
proof (cases "find_parent (ai_env A) block (mapBlockIndex bt) st")
  case (Inl st')
  then show ?thesis using assms(1) tree_inv_ready by (auto simp: AcceptBlock_def Let_def)
next
  case (Inr prev)
  let ?hash = "ne_block_hash (ai_env A) block"
  obtain wok proofs where w: "(if ?hash = hashGenesisBlock (ne_params (ai_env A)) then Returns (True, mapProofOfStake bt)
      else CheckWork (ai_env A) (ai_pointers A) (mapBlockIndex bt) (chainActive bt) (ai_close A) (ai_found A block) (ai_evict A) block prev
        (mapProofOfStake bt)) = Returns (wok, proofs)"
    using assms(5) [OF Inr] by (cases "?hash = hashGenesisBlock (ne_params (ai_env A))") auto
  define bt1 where "bt1 = bt\<lparr>mapProofOfStake := proofs\<rparr>"
  have i1: "tree_inv B H bt1" by (rule tree_inv_more [OF assms(1)]) (use assms(1) in \<open>auto simp: bt1_def tree_inv_def\<close>)
  have "height_fits H block (mapBlockIndex bt1)" using assms(4) by (simp add: bt1_def)
  from AcceptBlockHeader_spec [OF i1 this, of A st] obtain hok p st1 bt2 where h: "AcceptBlockHeader A block st bt1 = Returns (hok, p, st1, bt2)"
    "tree_inv B H bt2" "chainActive bt2 = chainActive bt"
    "hok \<Longrightarrow> p = Some ?hash \<and> (\<exists>bi. mapBlockIndex bt2 ?hash = Some bi)" by (auto simp: bt1_def)
  note unf = AcceptBlock_def Let_def Inr sum.case w obind.simps prod.case bt1_def [symmetric]
  show ?thesis
  proof (cases "wok \<and> hok")
    case False
    then show ?thesis unfolding unf using i1 h tree_inv_ready by (auto simp: bt1_def)
  next
    case True
    then obtain pindex where p: "p = Some ?hash" "mapBlockIndex bt2 ?hash = Some pindex" using h(4) by blast
    show ?thesis
    proof (cases "nStatus pindex AND BLOCK_HAVE_DATA = 0")
      case True
      obtain ok st' bt' where "accept_body A block ?hash pindex st1 bt2 = Returns (ok, Some ?hash, st', bt')" "tree_inv B H bt'"
        "chainActive bt' = chainActive bt2" "ok \<longrightarrow> (\<exists>new. mapBlockIndex bt' ?hash = Some new \<and> nStatus new AND BLOCK_HAVE_DATA \<noteq> 0)"
        using accept_body_spec [OF h(2) assms(2) p(2) True assms(3), of A st1] by blast
      then show ?thesis unfolding unf using \<open>wok \<and> hok\<close> True h(1,3) p tree_inv_ready by auto
    next
      case False
      then show ?thesis unfolding unf using \<open>wok \<and> hok\<close> h(1-3) p tree_inv_ready by auto
    qed
  qed
qed

text \<open>
  C35: the tree of blocks stays in order when a block is offered, whatever the block is and whatever the verdict.
  \<open>AcceptBlock\<close> returns on every proof-of-work block, and on a proof-of-stake block with a known parent if the check of its
  stake returns; none of its other assertions can fail, and no other null pointer is followed.  The index stays well formed,
  with every entry under its hash and one above its parent, the chain work of an entry is that of its parent plus its own, the
  best header has the most work, the transaction counters are set only where all data are there, blocks that wait for a
  parent have their data, and the state is ready for the search for the best chain.  The active chain is not touched, and an
  accepted block is in the index with its data.  The bounds \<open>B\<close> on transactions and \<open>H\<close> on heights exclude a wrap-around of
  the 32-bit counters.
\<close>

theorem accept_block_keeps_tree:
  assumes "tree_inv B H bt" "int B * (H + 1) < 2 ^ 32" "length (vtx block) \<le> B" "height_fits H block (mapBlockIndex bt)"
    and "length (bnProofOfWorkLimit (ne_params (ai_env A))) = WIDTH256"
    and "\<And>prev. IsProofOfStake block \<Longrightarrow> mapBlockIndex bt (hashPrevBlock block) = Some prev \<Longrightarrow>
      \<exists>r. stake_verdict (ai_env A) (ai_pointers A) (mapBlockIndex bt) (chainActive bt) (ai_found A block) block prev = Returns r"
  shows "\<exists>ok p st' bt'. AcceptBlock A block st bt = Returns (ok, p, st', bt') \<and> tree_inv B H bt' \<and> tree_ready bt' \<and>
    chainActive bt' = chainActive bt \<and>
    (ok \<longrightarrow> (\<exists>new. mapBlockIndex bt' (ne_block_hash (ai_env A) block) = Some new \<and> nStatus new AND BLOCK_HAVE_DATA \<noteq> 0))"
proof (rule AcceptBlock_spec [OF assms(1-4)])
  fix prev
  assume p: "find_parent (ai_env A) block (mapBlockIndex bt) st = Inr prev"
    and g: "ne_block_hash (ai_env A) block \<noteq> hashGenesisBlock (ne_params (ai_env A))"
  have "\<exists>b. prev = Some b \<and> mapBlockIndex bt (hashPrevBlock block) = Some b"
  proof (cases "mapBlockIndex bt (hashPrevBlock block)")
    case (Some b)
    then have "prev = Some b" using p g by (simp add: find_parent_def split: if_splits)
    then show ?thesis using Some by simp
  qed (use p g in \<open>simp add: find_parent_def\<close>)
  then obtain b where b: "prev = Some b" "mapBlockIndex bt (hashPrevBlock block) = Some b" by blast
  have w: "wf_index (mapBlockIndex bt)" "keyed (mapBlockIndex bt)" using assms(1) by (simp_all add: tree_inv_def tree_ok_def)
  then have "mapBlockIndex bt (phashBlock b) = Some b" using b(2) by (auto simp: keyed_def)
  from CheckWork_returns [OF w(1) this assms(5) assms(6) [OF _ b(2)]]
  show "\<exists>r. CheckWork (ai_env A) (ai_pointers A) (mapBlockIndex bt) (chainActive bt) (ai_close A) (ai_found A block) (ai_evict A) block prev
      (mapProofOfStake bt) = Returns r" unfolding b(1) .
qed

text \<open>
  C36: a new header is linked in with the right height and work.  On a tree in order, \<open>AddToBlockIndex\<close> of a block that is not
  known returns: the entry is under the block's hash, one above its parent, or at height zero if the parent is unknown; its
  chain work is the parent's plus the work of its target.  The parent's forward link is set to the new block, and nothing else
  in the index changes; and the tree is in order again, with the best header the one with the most work.
\<close>

theorem new_header_linked:
  assumes "tree_ok bt" "mapBlockIndex bt (ne_block_hash E block) = None"
  shows "\<exists>new bt'. AddToBlockIndex E block bt = Some (ne_block_hash E block, bt') \<and> tree_ok bt' \<and>
    (case mapBlockIndex bt (hashPrevBlock block) of
       None \<Rightarrow> pprev new = None \<and> nHeight new = 0 \<and> mapBlockIndex bt' = (mapBlockIndex bt)(ne_block_hash E block \<mapsto> new)
     | Some prev \<Rightarrow> pprev new = Some (hashPrevBlock block) \<and> nHeight new = nHeight prev + 1 \<and>
         mapBlockIndex bt' = (mapBlockIndex bt)(hashPrevBlock block \<mapsto> prev\<lparr>pnext := Some (ne_block_hash E block)\<rparr>, ne_block_hash E block \<mapsto> new)) \<and>
    (\<exists>w. GetBlockProof new = Some w \<and> bi_nBits new = hd_nBits block \<and> nChainWork new = bu_add (prev_work (mapBlockIndex bt') new) w)"
proof -
  obtain new bt' where n: "AddToBlockIndex E block bt = Some (ne_block_hash E block, bt')" "tree_ok bt'"
    "mapBlockIndex bt' (ne_block_hash E block) = Some new"
    "nHeight new = (case mapBlockIndex bt (hashPrevBlock block) of None \<Rightarrow> 0 | Some prev \<Rightarrow> nHeight prev + 1)"
    "pprev new = (if mapBlockIndex bt (hashPrevBlock block) = None then None else Some (hashPrevBlock block))"
    "bi_nBits new = hd_nBits block"
    "mapBlockIndex bt' = (case mapBlockIndex bt (hashPrevBlock block) of None \<Rightarrow> mapBlockIndex bt
       | Some prev \<Rightarrow> (mapBlockIndex bt)(hashPrevBlock block \<mapsto> prev\<lparr>pnext := Some (ne_block_hash E block)\<rparr>))(ne_block_hash E block \<mapsto> new)"
    using AddToBlockIndex_spec [OF assms(1) refl assms(2)] by blast
  have "entry_ok (mapBlockIndex bt') new" using n(2,3) by (auto simp: tree_ok_def)
  then obtain w where "GetBlockProof new = Some w" "nChainWork new = bu_add (prev_work (mapBlockIndex bt') new) w" by (auto simp: entry_ok_def)
  then show ?thesis using n(1,2,4-7) by (intro exI [of _ new] exI [of _ bt']) (auto split: option.splits)
qed

section \<open>Witnesses\<close>

definition empty_tree :: block_tree where
  "empty_tree = \<lparr>mapBlockIndex = Map.empty, known_blocks = [], chainActive = [], setBlockIndexCandidates = [], mapBlocksUnlinked = [], setDirtyBlockIndex = [],
     pindexBestHeader = None, pindexBestInvalid = None, nBlockSequenceId = 1, setStakeSeen = {}, mapProofOfStake = [],
     mapRejectedBlocks = Map.empty, pindexBestForkTip = None, pindexBestForkBase = None, fLargeWorkForkFound = False,
     fLargeWorkInvalidChainFound = False\<rparr>"

lemma empty_tree_inv: "tree_inv B H empty_tree"
  by (simp add: tree_inv_def tree_ok_def empty_tree_def wf_index_def keyed_def best_header_ok_def chain_ok_def)

definition child_block :: CBlock where
  "child_block = mint_block\<lparr>hashPrevBlock := small_hash 100\<rparr>"

text \<open>Two headers one after the other; the environment gives the second another hash.\<close>

definition second_env :: node_env where
  "second_env = small_env\<lparr>ne_block_hash := (\<lambda>b. small_hash 101)\<rparr>"

theorem new_header_linked_witness:
  "\<exists>bt1 bt2 new. AddToBlockIndex small_env mint_block empty_tree = Some (small_hash 100, bt1) \<and>
     AddToBlockIndex second_env child_block bt1 = Some (small_hash 101, bt2) \<and> tree_ok bt2 \<and>
     mapBlockIndex bt2 (small_hash 101) = Some new \<and> pprev new = Some (small_hash 100) \<and> nHeight new = 1"
proof -
  have ok: "tree_ok empty_tree" using empty_tree_inv by (simp add: tree_inv_def)
  obtain n1 bt1 where n1: "AddToBlockIndex small_env mint_block empty_tree = Some (small_hash 100, bt1)" "tree_ok bt1"
    "mapBlockIndex bt1 (small_hash 100) = Some n1" "nHeight n1 = 0"
    "\<forall>p. p \<noteq> small_hash 100 \<longrightarrow> mapBlockIndex bt1 p = None"
    using new_header_linked [OF ok, of small_env mint_block] by (auto simp: empty_tree_def)
  have h: "ne_block_hash second_env child_block = small_hash 101" "hashPrevBlock child_block = small_hash 100"
    by (simp_all add: second_env_def child_block_def)
  have "mapBlockIndex bt1 (small_hash 101) = None" using n1(5) by simp
  then show ?thesis using new_header_linked [OF n1(2), of second_env child_block] n1(1,3,4) h by auto
qed

definition sample_accept :: accept_io where
  "sample_accept = \<lparr>ai_env = small_env\<lparr>ne_params := (CMainParams (small_hash 100))\<lparr>fSkipProofOfWorkCheck := True\<rparr>\<rparr>, ai_pointers = stake_pointers,
     ai_now = 0, ai_filter = False, ai_locked = (\<lambda>_. None), ai_ibd = False, ai_payee = (\<lambda>_ _. True), ai_maxReorg = 100,
     ai_checkpoint = (\<lambda>_ _. True), ai_lastCheckpoint = (\<lambda>_. None), ai_close = (=), ai_found = (\<lambda>_. None), ai_evict = 0, ai_literal = 7,
     ai_addr = (\<lambda>_. 0), ai_pos = Some \<lparr>dp_nFile = 0, dp_nPos = 8\<rparr>, ai_known = False, ai_written = True\<rparr>"

end
