(* ===== verification/View_Safety.thy ===== *)
theory View_Safety
  imports Tree_Growth
begin

text \<open>
  What connecting and disconnecting a block do to the views below, on every path, refusals included.  All access to the
  view below goes through \<open>GetCoins\<close>, so its map stays as it was; the block index entry changes only in its amounts, the
  place of its undo data and status bits; and on success the best block of the view is set.  The lemmas hold for any coin view.
\<close>

unbundle bit_operations_syntax

definition base_kept :: "('v \<times> CCoinsViewCache \<Rightarrow> bool) \<Rightarrow> ('v \<Rightarrow> 'm) \<Rightarrow> 'v \<times> CCoinsViewCache \<Rightarrow> 'v \<times> CCoinsViewCache \<Rightarrow> bool" where
  "base_kept good look vc vc' \<longleftrightarrow> (good vc \<longrightarrow> good vc' \<and> look (fst vc') = look (fst vc))"

lemma base_kept_refl [simp]: "base_kept g l a a"
  by (simp add: base_kept_def)

lemma base_kept_trans: "base_kept g l a b \<Longrightarrow> base_kept g l b c \<Longrightarrow> base_kept g l a c"
  by (simp add: base_kept_def)

lemma base_kept_SetBest [simp]: "base_kept (cache_good l r g) f vc (SetBestBlock h vc)"
  by (cases vc) (simp add: SetBestBlock_def base_kept_def cache_good_def)

lemma base_kept_GetBest: "cache_GetBestBlock best vc = (h, vc') \<Longrightarrow> base_kept (cache_good l r g) f vc vc'"
  by (cases vc) (auto simp: cache_GetBestBlock_def base_kept_def cache_good_def Let_def split: if_splits)

text \<open>A coin view whose reads leave some further information as it is: here, which block the view is at.\<close>

locale informed_view = coins_view get batch look ready good
  for get :: "'v getter" and batch :: "'v writer" and look :: "'v \<Rightarrow> base_uint \<Rightarrow> CCoins option"
    and ready :: "'v \<Rightarrow> base_uint \<Rightarrow> bool" and good :: "'v \<Rightarrow> bool" +
  fixes info :: "'v \<Rightarrow> 'i"
  assumes get_info: "get v k = (r, v') \<Longrightarrow> info v' = info v"
begin

abbreviation bk where "bk \<equiv> base_kept (cache_good look ready good) (\<lambda>v. (look v, info v))"

lemma bk_fetch: 
  assumes "FetchCoins get k vc = (r, vc')" shows "bk vc vc'"
  unfolding base_kept_def
proof
  assume g: "cache_good look ready good vc"
  have "look (fst vc') = look (fst vc) \<and> info (fst vc') = info (fst vc)"
    using assms g get_keeps get_info by (cases vc) (auto simp: FetchCoins_def cache_good_def split: option.splits prod.splits)
  then show "cache_good look ready good vc' \<and> (look (fst vc'), info (fst vc')) = (look (fst vc), info (fst vc))"
    using fetch_spec [OF g assms] by simp
qed

lemma bk_access: "AccessCoins get k vc = (r, vc') \<Longrightarrow> bk vc vc'"
  unfolding AccessCoins_def by (rule bk_fetch)

lemma bk_modify:
  assumes "with_modifier get k f vc = Some (r, vc')" shows "bk vc vc'"
  unfolding base_kept_def
proof
  assume g: "cache_good look ready good vc"
  have "look (fst vc') = look (fst vc) \<and> info (fst vc') = info (fst vc)"
    using assms g get_keeps get_info
    by (cases vc) (auto simp: with_modifier_def ModifyCoins_def cache_good_def split: option.splits prod.splits if_splits)
  then show "cache_good look ready good vc' \<and> (look (fst vc'), info (fst vc')) = (look (fst vc), info (fst vc))"
    using modifier_spec [OF g, of k f] assms by auto
qed

lemma bk_output: "GetOutputFor get i vc = Some (out, vc') \<Longrightarrow> bk vc vc'"
  by (auto simp: GetOutputFor_def bk_access split: prod.splits option.splits if_splits)

lemma bk_have_loop: "have_inputs_loop get ins vc = (b, vc') \<Longrightarrow> bk vc vc'"
proof (induction ins arbitrary: vc)
  case (Cons i ins)
  obtain r v1 c1 where a: "AccessCoins get (op_hash (prevout i)) vc = (r, v1, c1)" by (metis surj_pair)
  from bk_access [OF a] show ?case using Cons a by (auto split: option.splits if_splits intro: base_kept_trans)
qed simp

lemma bk_have: "HaveInputs get tx vc = (b, vc') \<Longrightarrow> bk vc vc'"
  by (auto simp: HaveInputs_def bk_have_loop split: if_splits)

lemma bk_value_loop: "value_in_loop get ins n vc = Some (v, vc') \<Longrightarrow> bk vc vc'"
proof (induction ins arbitrary: n vc)
  case (Cons i ins)
  from Cons.prems show ?case using Cons.IH by (auto split: option.splits dest!: bk_output intro: base_kept_trans)
qed simp

lemma bk_value: "GetValueIn get tx vc = Some (v, vc') \<Longrightarrow> bk vc vc'"
  by (auto simp: GetValueIn_def bk_value_loop split: if_splits)

lemma bk_sigops_loop: "p2sh_sigops_loop get ins k vc = Returns (n, vc') \<Longrightarrow> bk vc vc'"
proof (induction ins arbitrary: k vc)
  case (Cons i ins)
  from Cons.prems show ?case using Cons.IH by (auto simp: obind_Returns dest!: bk_output intro: base_kept_trans)
qed simp

lemma bk_sigops: "GetP2SHSigOpCount get tx vc = Returns (n, vc') \<Longrightarrow> bk vc vc'"
  by (auto simp: GetP2SHSigOpCount_def bk_sigops_loop split: if_splits)

lemma bk_input_values: "input_values P get h ins n st vc = Returns (r, st', vc') \<Longrightarrow> bk vc vc'"
proof (induction ins arbitrary: n vc)
  case (Cons i ins)
  obtain r1 v1 c1 where a: "AccessCoins get (op_hash (prevout i)) vc = (r1, v1, c1)" by (metis surj_pair)
  from bk_access [OF a] show ?case using Cons a by (auto simp: Let_def split: option.splits if_splits intro: base_kept_trans)
qed simp

lemma bk_check_scripts: "check_scripts E get tx flags d i ins pv st vc = Returns (ok, pv', st', vc') \<Longrightarrow> bk vc vc'"
proof (induction ins arbitrary: i pv st vc)
  case (Cons txin ins)
  obtain r1 v1 c1 where a: "AccessCoins get (op_hash (prevout txin)) vc = (r1, v1, c1)" by (metis surj_pair)
  consider "vc' = (v1, c1)" | i' pv1 st1 where "check_scripts E get tx flags d i' ins pv1 st1 (v1, c1) = Returns (ok, pv', st', vc')"
    using Cons.prems a by (auto simp: Let_def obind_Returns split: option.splits if_splits sum.splits) (metis obj_sumE old.unit.exhaust)+
  then show ?case
  proof cases
    case 2
    from Cons.IH [OF this] show ?thesis by (rule base_kept_trans [OF bk_access [OF a]])
  qed (use bk_access [OF a] in simp)
qed simp

lemma bk_check_inputs:
  assumes "CheckInputs E get best heights tx st fs flags d vc = Returns (ok, pv, st', vc')"
  shows "bk vc vc'"
proof -
  obtain b vc1 where h: "HaveInputs get tx vc = (b, vc1)" by (meson surj_pair)
  obtain hash vc2 where bb: "cache_GetBestBlock best vc1 = (hash, vc2)" by (meson surj_pair)
  note k = bk_have [OF h] base_kept_GetBest [OF bb, of look ready good "\<lambda>v. (look v, info v)"]
  show ?thesis using assms h bb k
    by (auto simp: CheckInputs_def obind_Returns split: if_splits bool.splits option.splits dest!: bk_input_values bk_check_scripts)
      (blast intro: base_kept_trans)+
qed

lemma bk_bip30: "bip30_loop E get txs vc = (ok, vc') \<Longrightarrow> bk vc vc'"
proof (induction txs arbitrary: vc)
  case (Cons tx txs)
  obtain r1 v1 c1 where a: "AccessCoins get (ne_tx_hash E tx) vc = (r1, v1, c1)" by (metis surj_pair)
  from bk_access [OF a] show ?case using Cons a by (auto split: option.splits if_splits intro: base_kept_trans)
qed simp

lemma bk_spend_inputs: "spend_inputs get ins us vc = Returns (ok, us', vc') \<Longrightarrow> bk vc vc'"
proof (induction ins arbitrary: us vc)
  case (Cons i ins)
  from Cons.prems show ?case using Cons.IH
    by (auto simp: obind_Returns assertion_Returns split: option.splits dest!: bk_modify) (blast intro: base_kept_trans)+
qed simp

lemma bk_update: "UpdateCoins E get tx st h vc = Returns (ok, st', u, vc') \<Longrightarrow> bk vc vc'"
  by (auto simp: UpdateCoins_def obind_Returns assertion_Returns split: if_splits
      dest!: bk_spend_inputs bk_modify intro: base_kept_trans)

lemma bk_connect_inputs:
  assumes "connect_inputs E get best heights C tx s st vc = Returns (r, st', vc')" shows "bk vc vc'"
proof -
  obtain b v1 c1 where h: "HaveInputs get tx vc = (b, v1, c1)" by (metis surj_pair)
  show ?thesis
  proof (cases b)
    case True
    obtain n v2 c2 where n: "(if fStrictPayToScriptHash C then GetP2SHSigOpCount get tx (v1, c1) else Returns (0, v1, c1)) = Returns (n, v2, c2)"
      using assms h True by (auto simp: connect_inputs_def obind_Returns)
    have "bk (v1, c1) (v2, c2)" using n by (auto split: if_splits dest: bk_sigops)
    then have k: "bk vc (v2, c2)" by (rule base_kept_trans [OF bk_have [OF h]])
    consider "vc' = (v2, c2)" | v vc3 ok chks where "GetValueIn get tx (v2, c2) = Some (v, vc3)"
        "CheckInputs E get best heights tx st (cm_fScriptChecks C) (cm_flags C) (cm_threads C) vc3 = Returns (ok, chks, st', vc')"
      using assms h True n by (auto simp: connect_inputs_def obind_Returns assertion_Returns Let_def split: if_splits)
    then show ?thesis
    proof cases
      case 2
      show ?thesis by (rule base_kept_trans [OF k base_kept_trans [OF bk_value [OF 2(1)] bk_check_inputs [OF 2(2)]]])
    qed (use k in simp)
  qed (use assms h bk_have [OF h] in \<open>simp add: connect_inputs_def\<close>)
qed

lemma bk_connect_value: "connect_value E get best heights C tx s st vc = Returns (r, st', vc') \<Longrightarrow> bk vc vc'"
  by (auto simp: connect_value_def bk_connect_inputs split: if_splits)

lemma bk_connect_update: "connect_update E get C first tx s st vc = Returns (r, st', vc') \<Longrightarrow> bk vc vc'"
  by (auto simp: connect_update_def obind_Returns Let_def dest!: bk_update)

lemma bk_connect_tx:
  assumes "connect_tx E get best heights C first tx s st vc = Returns (r, st', vc')" shows "bk vc vc'"
proof -
  note unf = connect_tx_def obind_Returns Let_def
  show ?thesis using assms
    by (auto simp: unf split: if_splits option.splits dest!: bk_connect_value bk_connect_update) (blast intro: base_kept_trans)+
qed

lemma bk_connect_txs: "connect_txs E get best heights C first txs s st vc = Returns (r, st', vc') \<Longrightarrow> bk vc vc'"
proof (induction txs arbitrary: first s st vc)
  case (Cons tx txs)
  then show ?case
    by (auto simp: obind_Returns split: option.splits dest!: bk_connect_tx) (blast intro: base_kept_trans)
qed simp

end

section \<open>What connecting does to the index entry\<close>

text \<open>Only amounts, the place of the undo data and the status change; the status gains bits and validity.\<close>

definition status_grows :: "u32 \<Rightarrow> u32 \<Rightarrow> bool" where
  "status_grows s s' \<longleftrightarrow> s AND BLOCK_VALID_MASK \<le> s' AND BLOCK_VALID_MASK \<and> s' AND BLOCK_HAVE_DATA = s AND BLOCK_HAVE_DATA \<and>
     s' AND BLOCK_FAILED_MASK = s AND BLOCK_FAILED_MASK"

definition entry_grows :: "CBlockIndex \<Rightarrow> CBlockIndex \<Rightarrow> bool" where
  "entry_grows a b \<longleftrightarrow> (\<exists>undo mint supply s. status_grows (nStatus a) s \<and>
     b = a\<lparr>nUndoPos := undo, nMint := mint, nMoneySupply := supply, nStatus := s\<rparr>)"

lemma status_grows_refl [simp]: "status_grows s s"
  by (simp add: status_grows_def)

lemma status_grows_trans: "status_grows a b \<Longrightarrow> status_grows b c \<Longrightarrow> status_grows a c"
  by (auto simp: status_grows_def)

lemma and_masked: 
  fixes s v m F :: u32
  assumes "v AND F = 0" "NOT m AND F = F" shows "((s AND NOT m) OR v) AND F = s AND F"
  using assms by (simp add: bit.conj_disj_distrib2 and.assoc)

lemma status_grows_undo: "status_grows s (s OR BLOCK_HAVE_UNDO)"
proof -
  have z: "BLOCK_HAVE_UNDO AND BLOCK_VALID_MASK = 0" "BLOCK_HAVE_UNDO AND BLOCK_HAVE_DATA = 0" "BLOCK_HAVE_UNDO AND BLOCK_FAILED_MASK = 0"
    by (simp_all add: block_flag_defs)
  show ?thesis by (simp add: status_grows_def bit.conj_disj_distrib2 z)
qed

lemma RaiseValidity_grows:
  assumes "RaiseValidity BLOCK_VALID_SCRIPTS bi = Some (b, bi')"
  shows "\<exists>s. status_grows (nStatus bi) s \<and> bi' = bi\<lparr>nStatus := s\<rparr>"
proof (cases "bi' = bi")
  case True
  then show ?thesis by (intro exI [of _ "nStatus bi"]) simp
next
  case False
  let ?s = "(nStatus bi AND NOT BLOCK_VALID_MASK) OR BLOCK_VALID_SCRIPTS"
  have r: "bi' = bi\<lparr>nStatus := ?s\<rparr>" "nStatus bi AND BLOCK_VALID_MASK < BLOCK_VALID_SCRIPTS"
    using assms False by (auto simp: RaiseValidity_def split: if_splits)
  have "?s AND BLOCK_HAVE_DATA = nStatus bi AND BLOCK_HAVE_DATA" "?s AND BLOCK_FAILED_MASK = nStatus bi AND BLOCK_FAILED_MASK"
    by (rule and_masked; simp add: block_flag_defs)+
  moreover have "?s AND BLOCK_VALID_MASK = BLOCK_VALID_SCRIPTS" 
    by (simp add: bit.conj_disj_distrib2 and.assoc) (simp add: block_flag_defs)
  ultimately show ?thesis using r by (intro exI [of _ ?s]) (auto simp: status_grows_def)
qed

lemma entry_growsI: "status_grows (nStatus a) s \<Longrightarrow> b = a\<lparr>nUndoPos := u, nMint := m, nMoneySupply := y, nStatus := s\<rparr> \<Longrightarrow> entry_grows a b"
  unfolding entry_grows_def by blast

lemma entry_grows_refl [simp]: "entry_grows a a"
  by (rule entry_growsI [where s = "nStatus a" and u = "nUndoPos a" and m = "nMint a" and y = "nMoneySupply a"]) simp_all

lemma entry_grows_trans:
  assumes "entry_grows a b" "entry_grows b c" shows "entry_grows a c"
proof -
  obtain u m y s where b: "b = a\<lparr>nUndoPos := u, nMint := m, nMoneySupply := y, nStatus := s\<rparr>" "status_grows (nStatus a) s"
    using assms(1) by (auto simp: entry_grows_def)
  obtain u' m' y' s' where c: "c = b\<lparr>nUndoPos := u', nMint := m', nMoneySupply := y', nStatus := s'\<rparr>" "status_grows (nStatus b) s'"
    using assms(2) by (auto simp: entry_grows_def)
  have "status_grows (nStatus a) s'" using b(2) c(2) status_grows_trans by (simp add: b(1))
  then show ?thesis by (rule entry_growsI [where u = u' and m = m' and y = y']) (simp add: b(1) c(1))
qed

lemma entry_grows_skeleton: "entry_grows a b \<Longrightarrow> skeleton b = skeleton a \<and> nTx b = nTx a \<and> nChainTx b = nChainTx a \<and> nSequenceId b = nSequenceId a \<and> status_grows (nStatus a) (nStatus b)"
  by (auto simp: entry_grows_def skeleton_def)

lemma entry_grows_raise: "RaiseValidity BLOCK_VALID_SCRIPTS bi = Some (b, bi') \<Longrightarrow> entry_grows bi bi'"
  using RaiseValidity_grows [of bi b bi'] by (auto intro!: entry_growsI [where a = bi and u = "nUndoPos bi" and m = "nMint bi" and y = "nMoneySupply bi"])

lemma entry_grows_undo: "entry_grows bi (bi\<lparr>nUndoPos := u, nStatus := nStatus bi OR BLOCK_HAVE_UNDO\<rparr>)"
  by (intro entry_growsI [OF status_grows_undo, where u = u and m = "nMint bi" and y = "nMoneySupply bi"]) simp

lemma entry_grows_amounts: "entry_grows bi (bi\<lparr>nMoneySupply := y, nMint := m\<rparr>)"
  by (rule entry_growsI [where s = "nStatus bi" and u = "nUndoPos bi" and m = m and y = y]) simp_all

lemma entry_grows_hash: "entry_grows a b \<Longrightarrow> phashBlock b = phashBlock a"
  by (auto simp: entry_grows_def)

definition tail_result where
  "tail_result vc pindex undo used ok p' undo' used' vc' \<longleftrightarrow> entry_grows pindex p' \<and>
     vc' = (if ok then SetBestBlock (phashBlock pindex) vc else vc) \<and> undo' = undo \<and> (\<not> ok \<longrightarrow> used' = used)"

lemma connect_finish_any:
  assumes "connect_finish E IO block pindex undo used st vc = Returns (ok, st', p', undo', used', vc')"
  shows "tail_result vc pindex undo used ok p' undo' used' vc'"
proof (cases "p' = pindex \<and> \<not> ok")
  case True
  then show ?thesis using assms
    by (auto simp: tail_result_def connect_finish_def connect_result_def obind_Returns Let_def split: if_splits)
next
  case False
  have "\<exists>q. entry_grows pindex q \<and>
       (if \<not> io_txindex_written IO then connect_result q undo used vc False (state_Error ''Failed to write transaction index'' st)
            else if is_v5_stake (ne_params E) block (nHeight q) \<and> used (pointer_hash E block) \<noteq> None
            then connect_result q undo used vc False (state_DoS 100 REJECT_INVALID ''stake-pointer-reuse'' False st)
            else connect_result q undo
                   (if is_v5_stake (ne_params E) block (nHeight q)
                    then used(pointer_hash E block \<mapsto> ne_block_hash E block) else used)
                   (SetBestBlock (phashBlock q) vc) True st) = Returns (ok, st', p', undo', used', vc')"
    using assms False entry_grows_trans [OF entry_grows_undo entry_grows_raise]
    unfolding connect_finish_def obind_Returns Let_def
    by (fastforce simp: connect_result_def obind_Returns dest: entry_grows_raise split: if_splits)
  then show ?thesis by (auto simp: tail_result_def connect_result_def entry_grows_hash split: if_splits)
qed

lemma connect_amounts_any:
  assumes "connect_amounts E IO block pindex False used st s vc = Returns (ok, st', p', undo', used', vc')"
  shows "\<exists>undo. tail_result vc pindex undo used ok p' undo' used' vc'"
proof -
  consider undo y m where "p' = pindex\<lparr>nMoneySupply := y, nMint := m\<rparr>" "vc' = vc" "undo' = undo" "used' = used" "\<not> ok"
    | undo y m st1 where "connect_finish E IO block (pindex\<lparr>nMoneySupply := y, nMint := m\<rparr>) undo used st1 vc = Returns (ok, st', p', undo', used', vc')"
    using assms unfolding connect_amounts_def Let_def obind_Returns
    by (auto simp: connect_result_def obind_Returns split: if_splits)
  then show ?thesis
  proof cases
    case 2
    from connect_finish_any [OF this] show ?thesis
      using entry_grows_trans [OF entry_grows_amounts] unfolding tail_result_def by (intro exI [of _ undo]) auto
  qed (auto simp: tail_result_def entry_grows_amounts)
qed

definition connect_summary where
  "connect_summary vc pindex used ok p' used' vc' \<longleftrightarrow> entry_grows pindex p' \<and> (ok \<longrightarrow> cv_hashBlock (snd vc') = phashBlock pindex) \<and>
     (\<not> ok \<longrightarrow> used' = used)"

lemma SetBestBlock_hash [simp]: "cv_hashBlock (snd (SetBestBlock h vc)) = h" "fst (SetBestBlock h vc) = fst vc"
  by (cases vc; simp add: SetBestBlock_def)+

context informed_view begin

lemma connect_body_any:
  assumes "connect_body E get best heights IO block pindex False used st fs vc = Returns (ok, st', p', undo, used', vc')"
  shows "bk vc vc' \<and> connect_summary vc pindex used ok p' used' vc'"
proof -
  define C where "C = \<lparr>fStrictPayToScriptHash = bi_GetBlockTime pindex \<ge> 1333238400, cm_fScriptChecks = fs,
                   cm_flags = (if bi_GetBlockTime pindex \<ge> 1333238400 then SCRIPT_VERIFY_P2SH else SCRIPT_VERIFY_NONE) OR SCRIPT_VERIFY_DERSIG,
                   cm_threads = io_threads IO, cm_height = nHeight pindex\<rparr>"
  obtain b v0 c0 where b: "(if fEnforceBIP30 pindex then bip30_loop E get (vtx block) vc else (True, vc)) = (b, v0, c0)" by (metis surj_pair)
  have k0: "bk vc (v0, c0)" using b by (auto split: if_splits dest: bk_bip30)
  show ?thesis
  proof (cases b)
    case False
    then show ?thesis using assms b k0 by (auto simp: connect_body_def connect_result_def connect_summary_def)
  next
    case True
    let ?s0 = "\<lparr>nFees = 0, nSigOps = 0, nValueOut = 0, nValueIn = 0, blockundo = [], checks = []\<rparr>"
    obtain s st1 vc1 where t: "connect_txs E get best heights C True (vtx block) ?s0 st (v0, c0) = Returns (s, st1, vc1)"
      using assms b True by (auto simp: connect_body_def C_def Let_def obind_Returns)
    have k1: "bk vc vc1" by (rule base_kept_trans [OF k0 bk_connect_txs [OF t]])
    show ?thesis
    proof (cases s)
      case None
      then show ?thesis using assms b True t k1 unfolding C_def
        by (cases vc1) (auto simp: connect_body_def Let_def connect_result_def connect_summary_def)
    next
      case (Some s')
      then have "connect_amounts E IO block pindex False used st1 s' vc1 = Returns (ok, st', p', undo, used', vc')"
        using assms b True t unfolding C_def by (cases vc1) (simp add: connect_body_def Let_def)
      from connect_amounts_any [OF this] show ?thesis
        using base_kept_trans [OF k1 base_kept_SetBest] k1 by (auto simp: tail_result_def connect_summary_def)
    qed
  qed
qed

lemma ConnectBlock_any:
  assumes "ConnectBlock E get best heights IO block pindex False used st vc = Returns (ok, st', p', undo, used', vc')"
  shows "bk vc vc' \<and> connect_summary vc pindex used ok p' used' vc'"
proof -
  obtain hash v0 c0 where b: "cache_GetBestBlock best vc = (hash, v0, c0)" by (metis surj_pair)
  note k0 = base_kept_GetBest [OF b, of look ready good "\<lambda>v. (look v, info v)"]
  consider "p' = pindex" "used' = used" "\<not> ok" "vc' = vc \<or> vc' = (v0, c0)"
    | "p' = pindex" "used' = used" "ok" "vc' = SetBestBlock (phashBlock pindex) (v0, c0)"
    | st1 fs where "connect_body E get best heights IO block pindex False used st1 fs (v0, c0) = Returns (ok, st', p', undo, used', vc')"
    using assms b unfolding ConnectBlock_def Let_def
    by (cases "io_CheckBlock IO st"; cases "fst (io_CheckBlock IO st)") (auto simp: connect_result_def obind_Returns split: if_splits)
  then show ?thesis
  proof cases
    case 3
    from connect_body_any [OF this] show ?thesis using base_kept_trans [OF k0] by (simp add: connect_summary_def)
  qed (use k0 base_kept_trans [OF k0 base_kept_SetBest] in \<open>auto simp: connect_summary_def\<close>)
qed

lemma bk_restore: "restore_inputs get us fClean vc = Returns (r, vc') \<Longrightarrow> bk vc vc'"
proof (induction us arbitrary: fClean vc)
  case (Cons u us)
  then show ?case
    by (cases u) (auto simp: obind_Returns assertion_Returns dest!: bk_modify, blast intro: base_kept_trans)
qed simp

lemma bk_disconnect_txs: "disconnect_txs E get h txs fClean vc = Returns (r, vc') \<Longrightarrow> bk vc vc'"
proof (induction txs arbitrary: fClean vc)
  case (Cons u txs)
  obtain tx txundo where u: "u = (tx, txundo)" by fastforce
  obtain ok v1 c1 where m: "with_modifier get (ne_tx_hash E tx) (remove_outputs tx h) vc = Some (ok, v1, c1)"
    using Cons.prems u by (auto simp: obind_Returns assertion_Returns)
  note k1 = bk_modify [OF m]
  consider "vc' = (v1, c1)" | f where "disconnect_txs E get h txs f (v1, c1) = Returns (r, vc')"
    | us f1 f v2 c2 where "restore_inputs get us f1 (v1, c1) = Returns (f, v2, c2)" "disconnect_txs E get h txs f (v2, c2) = Returns (r, vc')"
    using Cons.prems m unfolding u
    by (auto simp: obind_Returns Let_def split: if_splits option.splits)
  then show ?case
  proof cases
    case 2 then show ?thesis using base_kept_trans [OF k1 Cons.IH] by blast
  next
    case 3 then show ?thesis using base_kept_trans [OF k1 base_kept_trans [OF bk_restore Cons.IH]] by blast
  qed (use k1 in simp)
qed simp

lemma DisconnectBlock_any:
  assumes "DisconnectBlock E get best pindex undo block used vc = Returns (ok, fClean, used', vc')"
  shows "bk vc vc' \<and> (ok \<longrightarrow> pprev pindex = Some (cv_hashBlock (snd vc')))"
proof -
  obtain hash v0 c0 where b: "cache_GetBestBlock best vc = (hash, v0, c0)" by (metis surj_pair)
  note k0 = base_kept_GetBest [OF b, of look ready good "\<lambda>v. (look v, info v)"]
  show ?thesis
  proof (cases "vc' = (v0, c0) \<and> \<not> ok")
    case False
    then obtain bu where u: "undo = Some bu" "phashBlock pindex = hash" "length (vtxundo bu) + 1 = length (vtx block)"
      using assms b by (cases undo) (auto simp: DisconnectBlock_def split: if_splits)
    let ?us = "rev (zip (vtx block) (None # map Some (vtxundo bu)))"
    obtain r v1 c1 where d: "disconnect_txs E get (nHeight pindex) ?us True (v0, c0) = Returns (r, v1, c1)"
      using assms b u by (auto simp: DisconnectBlock_def obind_Returns)
    have e: "r = None \<and> \<not> ok \<and> vc' = (v1, c1) \<or> (\<exists>q. pprev pindex = Some q \<and> vc' = SetBestBlock q (v1, c1))"
      using assms b u d by (cases r; cases "pprev pindex") (auto simp: DisconnectBlock_def)
    have k1: "bk vc (v1, c1)" by (rule base_kept_trans [OF k0 bk_disconnect_txs [OF d]])
    from e show ?thesis using k1 base_kept_trans [OF k1 base_kept_SetBest] by auto
  qed (use k0 in simp)
qed

end

section \<open>The coin cache over the database\<close>

definition tip_info :: "CCoinsViewDB \<times> CCoinsViewCache \<Rightarrow> base_uint \<times> base_uint option" where
  "tip_info v = (cv_hashBlock (snd v), db_best (fst v))"

interpretation tip_view: informed_view "cache_GetCoins db_GetCoins" cache_BatchWrite tip_look cache_ready tip_good tip_info
  by (intro informed_view.intro tip.coins_view_axioms informed_view_axioms.intro)
    (auto simp: tip_info_def cache_GetCoins_def FetchCoins_def db_GetCoins_def split: option.splits prod.splits)

end
