(* ===== verification/Activation.thy ===== *)
theory Activation
  imports View_Safety
begin

text \<open>
  Making the best chain active (\<open>src/main.cpp\<close>): connecting and disconnecting the tip over the coin cache
  \<open>pcoinsTip\<close>, writing the state to disk, the step and the loop of \<open>ActivateBestChain\<close>, taking blocks out of the chain
  by hand, and \<open>ProcessNewBlock\<close>, the entry of a block into the node.

  The state is the block tree with the coin cache over the coin database, the used stake pointers and the undo data in
  the \<open>rev\<close> files.  The answers of the disk change with time: they are a function of the number of calls of
  \<open>FlushStateToDisk\<close> so far.  Left out are the memory pool, the wallet, the masternode hooks, messages to peers and logs,
  which do not change this state, and what the block index database holds.
\<close>

section \<open>The state and the surroundings\<close>

record node_state =
  ns_tree :: block_tree
  pcoinsTip :: "CCoinsViewDB \<times> CCoinsViewCache"
  mapUsedStakePointers :: "base_uint \<Rightarrow> base_uint option"
  rev_files :: "CDiskBlockPos \<Rightarrow> CBlockUndo option"
  flush_count :: nat

text \<open>What one call of \<open>FlushStateToDisk\<close> finds; a failed write comes with the message of the abort, the exception's included.\<close>

record flush_io =
  fl_elapsed :: bool
  fl_space :: bool
  fl_files :: "string option"
  fl_index :: "bid \<Rightarrow> string option"
  fl_coins :: "string option"

record activate_io =
  ac_accept :: accept_io
  ac_disk :: "CDiskBlockPos \<Rightarrow> bytes option"
  ac_junk :: "bytes \<times> bytes"
  ac_hashAssumeValid :: base_uint
  ac_nMinimumChainWork :: base_uint
  ac_recent :: "CBlockIndex \<Rightarrow> bool"
  ac_threads :: bool
  ac_synced :: bool
  ac_superblocks :: bool
  ac_cycle :: int
  ac_budget :: "int \<Rightarrow> bool"
  ac_index_written :: "CBlockIndex \<Rightarrow> bool"
  ac_undo_pos :: "CBlockIndex \<Rightarrow> CDiskBlockPos option"
  ac_undo_written :: "CBlockIndex \<Rightarrow> bool"
  ac_undo_readable :: "CBlockIndex \<Rightarrow> bool"
  ac_txindex_written :: "CBlockIndex \<Rightarrow> bool"
  ac_nCoinCacheSize :: nat
  ac_flush :: "nat \<Rightarrow> flush_io"
  ac_shutdown :: "nat \<Rightarrow> bool"

section \<open>Blocks and undo data on disk\<close>

text \<open>\<open>disk\<close> gives the bytes of a block file from a position on, where it can be opened.\<close>

definition ReadBlock_pos :: "node_env \<Rightarrow> bytes \<times> bytes \<Rightarrow> (CDiskBlockPos \<Rightarrow> bytes option) \<Rightarrow> CDiskBlockPos \<Rightarrow> CBlock option" where
  "ReadBlock_pos E junk disk pos =
     (case disk pos of None \<Rightarrow> None
      | Some s \<Rightarrow> (case Unserialize_block (fst junk) (snd junk) s of None \<Rightarrow> None
         | Some (block, rest) \<Rightarrow>
             if IsProofOfWork block \<and>
                \<not> CheckProofOfWork (fSkipProofOfWorkCheck (ne_params E)) (bnProofOfWorkLimit (ne_params E)) (ne_block_hash E block) (hd_nBits block)
             then None else Some block))"

definition ReadBlockFromDisk :: "node_env \<Rightarrow> bytes \<times> bytes \<Rightarrow> (CDiskBlockPos \<Rightarrow> bytes option) \<Rightarrow> CBlockIndex \<Rightarrow> CBlock option" where
  "ReadBlockFromDisk E junk disk pindex =
     (case ReadBlock_pos E junk disk (GetBlockPos pindex) of None \<Rightarrow> None
      | Some block \<Rightarrow> if ne_block_hash E block \<noteq> phashBlock pindex then None else Some block)"

section \<open>Writing the state to disk\<close>

datatype FlushStateMode = FLUSH_STATE_IF_NEEDED | FLUSH_STATE_PERIODIC | FLUSH_STATE_ALWAYS

text \<open>The loop over \<open>setDirtyBlockIndex\<close>: each entry written leaves the set.  The result is the failure and what is left.\<close>

fun write_dirty :: "(bid \<Rightarrow> string option) \<Rightarrow> bid list \<Rightarrow> string option \<times> bid list" where
  "write_dirty failed [] = (None, [])"
| "write_dirty failed (p # dirty) = (case failed p of Some reason \<Rightarrow> (Some reason, p # dirty) | None \<Rightarrow> write_dirty failed dirty)"

definition flush_needed :: "activate_io \<Rightarrow> FlushStateMode \<Rightarrow> flush_io \<Rightarrow> node_state \<Rightarrow> bool" where
  "flush_needed A mode io ns \<longleftrightarrow>
     mode = FLUSH_STATE_ALWAYS \<or>
     (mode = FLUSH_STATE_PERIODIC \<or> mode = FLUSH_STATE_IF_NEEDED) \<and> GetCacheSize (pcoinsTip ns) > ac_nCoinCacheSize A \<or>
     mode = FLUSH_STATE_PERIODIC \<and> fl_elapsed io"

text \<open>
  The writing itself.  When the database throws while coins are written, \<open>BatchWrite\<close> has already taken the entries out of
  the cache.
\<close>

definition flush_coins :: "flush_io \<Rightarrow> CValidationState \<Rightarrow> node_state \<Rightarrow> (bool \<times> CValidationState \<times> node_state) outcome" where
  "flush_coins io st ns =
     (case fl_coins io of
        Some reason \<Rightarrow> Returns (False, state_Error reason st,
          ns\<lparr>pcoinsTip := (fst (pcoinsTip ns), (snd (pcoinsTip ns))\<lparr>cacheCoins := []\<rparr>)\<rparr>)
      | None \<Rightarrow> obind (assertion (cache_Flush db_BatchWrite (pcoinsTip ns))) (\<lambda>(fOk, tip).
          let ns = ns\<lparr>pcoinsTip := tip\<rparr>
          in if \<not> fOk then Returns (False, state_Error ''Failed to write to coin database'' st, ns) else Returns (True, st, ns)))"

definition FlushStateToDisk ::
  "activate_io \<Rightarrow> CValidationState \<Rightarrow> FlushStateMode \<Rightarrow> node_state \<Rightarrow> (bool \<times> CValidationState \<times> node_state) outcome" where
  "FlushStateToDisk A st mode ns =
     (let io = ac_flush A (flush_count ns); ns = ns\<lparr>flush_count := flush_count ns + 1\<rparr>
      in if \<not> flush_needed A mode io ns then Returns (True, st, ns)
         else if \<not> fl_space io then Returns (False, state_Error ''out of disk space'' st, ns)
         else case fl_files io of Some reason \<Rightarrow> Returns (False, state_Error reason st, ns)
         | None \<Rightarrow>
           (case write_dirty (fl_index io) (sort_key (ai_addr (ac_accept A)) (setDirtyBlockIndex (ns_tree ns))) of
              (failure, dirty) \<Rightarrow>
                let ns = ns\<lparr>ns_tree := (ns_tree ns)\<lparr>setDirtyBlockIndex := dirty\<rparr>\<rparr>
                in case failure of Some reason \<Rightarrow> Returns (False, state_Error reason st, ns) | None \<Rightarrow> flush_coins io st ns))"

section \<open>Connecting and disconnecting the tip\<close>

text \<open>The tip must be there for the log; the warning about new block versions is left out.\<close>

definition UpdateTip :: "bid option \<Rightarrow> node_state \<Rightarrow> node_state option" where
  "UpdateTip pindexNew ns = do {
     c \<leftarrow> SetTip (mapBlockIndex (ns_tree ns)) (chainActive (ns_tree ns)) pindexNew;
     let bt = (ns_tree ns)\<lparr>chainActive := c\<rparr>;
     if tip_index bt = None then None else Some (ns\<lparr>ns_tree := bt\<rparr>)
   }"

definition heights_of :: "block_map \<Rightarrow> base_uint \<Rightarrow> int option" where
  "heights_of m h = map_option nHeight (m h)"

definition run_CheckBlock :: "activate_io \<Rightarrow> CBlock \<Rightarrow> block_tree \<Rightarrow> CValidationState \<Rightarrow> bool \<times> CValidationState \<times> (base_uint \<Rightarrow> int option)" where
  "run_CheckBlock A block bt st =
     CheckBlock (ai_env (ac_accept A)) (check_io_of (ac_accept A) block bt) block True True (mapRejectedBlocks bt) st"

text \<open>What \<open>ConnectBlock\<close> finds.  The supply is read only when there is a tip.\<close>

definition connect_io_of :: "activate_io \<Rightarrow> CBlock \<Rightarrow> CBlockIndex \<Rightarrow> block_tree \<Rightarrow> connect_io" where
  "connect_io_of A block pindex bt = \<lparr>
     io_CheckBlock = (\<lambda>st. case run_CheckBlock A block bt st of (ok, st, rejected) \<Rightarrow> (ok, st)),
     io_map = mapBlockIndex bt, io_hashAssumeValid = ac_hashAssumeValid A,
     io_pindexBestHeader = Option.bind (pindexBestHeader bt) (mapBlockIndex bt),
     io_nMinimumChainWork = ac_nMinimumChainWork A, io_recent = ac_recent A pindex, io_threads = ac_threads A,
     io_value_valid = IsBlockValueValid (ne_params (ai_env (ac_accept A))) (mapBlockIndex bt) (tip_index bt) (ac_synced A)
       (ac_superblocks A) (ac_cycle A) (ac_budget A) block,
     io_tip_supply = (case tip_index bt of None \<Rightarrow> 0 | Some tip \<Rightarrow> nMoneySupply tip),
     io_index_written = ac_index_written A pindex, io_undo_pos = ac_undo_pos A pindex,
     io_undo_written = ac_undo_written A pindex, io_txindex_written = ac_txindex_written A pindex\<rparr>"

text \<open>
  What \<open>ConnectBlock\<close> leaves in the tree and on disk: the changed entry, dirty when undo data or validity were brought up to
  date, which changes the status of a block that is not marked as failed; the rejections of \<open>CheckBlock\<close>; and the undo data
  where they were given a place.
\<close>

definition after_connect ::
  "activate_io \<Rightarrow> CBlock \<Rightarrow> bid \<Rightarrow> CBlockIndex \<Rightarrow> CBlockIndex \<Rightarrow> CValidationState \<Rightarrow> CBlockUndo \<Rightarrow>
   (base_uint \<Rightarrow> base_uint option) \<Rightarrow> (CCoinsViewDB \<times> CCoinsViewCache) \<Rightarrow> node_state \<Rightarrow> node_state" where
  "after_connect A block p pindex pindex' st0 undo used tip ns =
     (let bt = ns_tree ns;
          bt = bt\<lparr>mapBlockIndex := (mapBlockIndex bt)(p \<mapsto> pindex'),
                  setDirtyBlockIndex := (if nStatus pindex' \<noteq> nStatus pindex then List.insert p (setDirtyBlockIndex bt) else setDirtyBlockIndex bt),
                  mapRejectedBlocks := snd (snd (run_CheckBlock A block bt st0))\<rparr>
      in ns\<lparr>ns_tree := bt, mapUsedStakePointers := used, pcoinsTip := tip,
            rev_files := (if diskpos_IsNull (GetUndoPos pindex) \<and> \<not> diskpos_IsNull (GetUndoPos pindex')
                          then (rev_files ns)(GetUndoPos pindex' \<mapsto> undo) else rev_files ns)\<rparr>)"

definition connect_refused :: "activate_io \<Rightarrow> bid \<Rightarrow> CValidationState \<Rightarrow> node_state \<Rightarrow> (bool \<times> CValidationState \<times> node_state) outcome" where
  "connect_refused A p st ns =
     (if state_IsInvalid st = None then Returns (False, st, ns)
      else obind (assertion (InvalidBlockFound (ai_ibd (ac_accept A)) p st (ns_tree ns))) (\<lambda>bt. Returns (False, st, ns\<lparr>ns_tree := bt\<rparr>)))"

text \<open>The state is always written at the first block of a new file.\<close>

definition connect_done :: "activate_io \<Rightarrow> bid \<Rightarrow> CBlockIndex \<Rightarrow> CValidationState \<Rightarrow> node_state \<Rightarrow> (bool \<times> CValidationState \<times> node_state) outcome" where
  "connect_done A p pindex st ns =
     (let mode = (case Option.bind (pprev pindex) (mapBlockIndex (ns_tree ns)) of None \<Rightarrow> FLUSH_STATE_IF_NEEDED
                  | Some prev \<Rightarrow> if dp_nFile (GetBlockPos pindex) \<noteq> dp_nFile (GetBlockPos prev) then FLUSH_STATE_ALWAYS
                                else FLUSH_STATE_IF_NEEDED)
      in obind (FlushStateToDisk A st mode ns) (\<lambda>(ok, st, ns).
           if \<not> ok then Returns (False, st, ns)
           else obind (assertion (UpdateTip (Some p) ns)) (\<lambda>ns. Returns (True, st, ns))))"

definition ConnectTip ::
  "activate_io \<Rightarrow> CValidationState \<Rightarrow> bid \<Rightarrow> CBlock option \<Rightarrow> node_state \<Rightarrow> (bool \<times> CValidationState \<times> node_state) outcome" where
  "ConnectTip A st p pblock ns =
     (let E = ai_env (ac_accept A); bt = ns_tree ns
      in case mapBlockIndex bt p of None \<Rightarrow> Asserts
      | Some pindex \<Rightarrow>
        if pprev pindex \<noteq> Tip bt then Asserts
        else case (case pblock of Some block \<Rightarrow> Some block | None \<Rightarrow> ReadBlockFromDisk E (ac_junk A) (ac_disk A) pindex) of
          None \<Rightarrow> Returns (False, state_Error ''Failed to read block'' st, ns)
        | Some block \<Rightarrow>
          obind (ConnectBlock E (cache_GetCoins db_GetCoins) tip_best (heights_of (mapBlockIndex bt)) (connect_io_of A block pindex bt)
                   block pindex False (mapUsedStakePointers ns) st (pcoinsTip ns, new_CCoinsViewCache))
            (\<lambda>(rv, st', pindex', undo, used, tip, view).
               if \<not> rv then connect_refused A p st' (after_connect A block p pindex pindex' st undo used tip ns)
               else obind (assertion (cache_Flush cache_BatchWrite (tip, view))) (\<lambda>(fOk, tip, view).
                 if \<not> fOk then Asserts
                 else connect_done A p pindex' st' (after_connect A block p pindex pindex' st undo used tip ns))))"

text \<open>The undo data of a block: none without a place, or when they cannot be read.\<close>

definition read_undo :: "activate_io \<Rightarrow> node_state \<Rightarrow> CBlockIndex \<Rightarrow> CBlockUndo option" where
  "read_undo A ns pindex =
     (if diskpos_IsNull (GetUndoPos pindex) \<or> \<not> ac_undo_readable A pindex then None else rev_files ns (GetUndoPos pindex))"

definition disconnect_done :: "activate_io \<Rightarrow> CBlockIndex \<Rightarrow> CValidationState \<Rightarrow> node_state \<Rightarrow> (bool \<times> CValidationState \<times> node_state) outcome" where
  "disconnect_done A pindex st ns =
     obind (FlushStateToDisk A st FLUSH_STATE_ALWAYS ns) (\<lambda>(ok, st, ns).
       if \<not> ok then Returns (False, st, ns)
       else obind (assertion (UpdateTip (pprev pindex) ns)) (\<lambda>ns. Returns (True, st, ns)))"

definition DisconnectTip :: "activate_io \<Rightarrow> CValidationState \<Rightarrow> node_state \<Rightarrow> (bool \<times> CValidationState \<times> node_state) outcome" where
  "DisconnectTip A st ns =
     (let E = ai_env (ac_accept A)
      in case tip_index (ns_tree ns) of None \<Rightarrow> Asserts
      | Some pindex \<Rightarrow>
        (case ReadBlockFromDisk E (ac_junk A) (ac_disk A) pindex of
          None \<Rightarrow> Returns (False, state_Error ''Failed to read block'' st, ns)
        | Some block \<Rightarrow>
          obind (DisconnectBlock E (cache_GetCoins db_GetCoins) tip_best pindex (read_undo A ns pindex) block (mapUsedStakePointers ns)
                   (pcoinsTip ns, new_CCoinsViewCache))
            (\<lambda>(ok, fClean, used, tip, view).
               let ns = ns\<lparr>mapUsedStakePointers := used, pcoinsTip := tip\<rparr>
               in if \<not> (ok \<and> fClean) then Returns (False, st, ns)
                  else obind (assertion (cache_Flush cache_BatchWrite (tip, view))) (\<lambda>(fOk, tip, view).
                    if \<not> fOk then Asserts else disconnect_done A pindex st (ns\<lparr>pcoinsTip := tip\<rparr>)))))"

text \<open>The results of the single disconnections are not looked at.\<close>

fun disconnect_times :: "activate_io \<Rightarrow> nat \<Rightarrow> CValidationState \<Rightarrow> node_state \<Rightarrow> (CValidationState \<times> node_state) outcome" where
  "disconnect_times A 0 st ns = Returns (st, ns)"
| "disconnect_times A (Suc n) st ns = obind (DisconnectTip A st ns) (\<lambda>(ok, st, ns). disconnect_times A n st ns)"

definition DisconnectBlocksAndReprocess :: "activate_io \<Rightarrow> int \<Rightarrow> node_state \<Rightarrow> (bool \<times> node_state) outcome" where
  "DisconnectBlocksAndReprocess A blocks ns =
     obind (disconnect_times A (nat (blocks + 1)) new_CValidationState ns) (\<lambda>(st, ns). Returns (True, ns))"

text \<open>
  The loop of \<open>DisconnectBlockAndInputs\<close> over at most five blocks from the tip down, above the first block: whether one of
  them spends an input of the locked transaction, how many blocks were read and the block below them; nothing when a block
  cannot be read.
\<close>

definition spends_same_input :: "CTransaction \<Rightarrow> CBlock \<Rightarrow> bool" where
  "spends_same_input txLock block \<longleftrightarrow>
     (\<exists>tx\<in>set (vtx block). \<not> IsCoinBase tx \<and> (\<exists>in1\<in>set (vin txLock). \<exists>in2\<in>set (vin tx). prevout in1 = prevout in2))"

fun find_conflict ::
  "activate_io \<Rightarrow> block_map \<Rightarrow> CTransaction \<Rightarrow> nat \<Rightarrow> CBlockIndex option \<Rightarrow> nat \<Rightarrow> bid option \<Rightarrow> (bool \<times> nat \<times> bid option) option" where
  "find_conflict A m txLock 0 BlockReading k pindexNew = Some (False, k, pindexNew)"
| "find_conflict A m txLock (Suc i) None k pindexNew = Some (False, k, pindexNew)"
| "find_conflict A m txLock (Suc i) (Some bi) k pindexNew =
     (if nHeight bi \<le> 0 then Some (False, k, pindexNew)
      else case ReadBlockFromDisk (ai_env (ac_accept A)) (ac_junk A) (ac_disk A) bi of None \<Rightarrow> None
      | Some block \<Rightarrow>
        if spends_same_input txLock block then Some (True, k + 1, pprev bi)
        else find_conflict A m txLock i (Option.bind (pprev bi) m) (k + 1) (pprev bi))"

definition DisconnectBlockAndInputs ::
  "activate_io \<Rightarrow> CValidationState \<Rightarrow> CTransaction \<Rightarrow> node_state \<Rightarrow> (bool \<times> CValidationState \<times> node_state) outcome" where
  "DisconnectBlockAndInputs A st txLock ns =
     (case find_conflict A (mapBlockIndex (ns_tree ns)) txLock 5 (tip_index (ns_tree ns)) 0 None of
        None \<Rightarrow> Returns (False, state_Error ''Failed to read block'' st, ns)
      | Some (foundConflictingTx, k, pindexNew) \<Rightarrow>
          if \<not> foundConflictingTx then Returns (False, st, ns)
          else if pindexNew = None then Asserts
          else obind (disconnect_times A k st ns) (\<lambda>(st, ns). Returns (True, st, ns)))"

section \<open>Activating the best chain\<close>

partial_function (option) disconnect_to ::
  "activate_io \<Rightarrow> CValidationState \<Rightarrow> bid option \<Rightarrow> node_state \<Rightarrow> (bool \<times> CValidationState \<times> node_state) outcome option" where
  "disconnect_to A st fork ns =
     (if Tip (ns_tree ns) \<noteq> None \<and> Tip (ns_tree ns) \<noteq> fork
      then (case DisconnectTip A st ns of
              Returns r \<Rightarrow> (case r of (ok, st, ns) \<Rightarrow> if \<not> ok then Some (Returns (False, st, ns)) else disconnect_to A st fork ns)
            | Throws \<Rightarrow> Some Throws
            | Asserts \<Rightarrow> Some Asserts)
      else Some (Returns (True, st, ns)))"

text \<open>The blocks from the target down to above a height, the lowest first: the order in which they are connected.\<close>

partial_function (option) blocks_above :: "block_map \<Rightarrow> int \<Rightarrow> bid option \<Rightarrow> bid list \<Rightarrow> bid list option" where
  "blocks_above m height pindexIter acc =
     (case pindexIter of None \<Rightarrow> Some acc
      | Some p \<Rightarrow> (case m p of None \<Rightarrow> None
         | Some bi \<Rightarrow> if nHeight bi = height then Some acc else blocks_above m height (pprev bi) (p # acc)))"

datatype step_end = All_connected | Better_tip | Invalid_found | System_failure

definition better_tip :: "CBlockIndex option \<Rightarrow> block_tree \<Rightarrow> bool" where
  "better_tip pindexOldTip bt \<longleftrightarrow>
     (case pindexOldTip of None \<Rightarrow> True
      | Some old \<Rightarrow> (case tip_index bt of None \<Rightarrow> False | Some tip \<Rightarrow> bu_CompareTo (nChainWork tip) (nChainWork old) > 0))"

text \<open>\<open>first\<close> is the lowest block of the batch, on which the code reports an invalid chain.\<close>

definition invalid_batch :: "activate_io \<Rightarrow> bid \<Rightarrow> CValidationState \<Rightarrow> node_state \<Rightarrow> (step_end \<times> CValidationState \<times> node_state) outcome" where
  "invalid_batch A first st ns =
     (if state_IsInvalid st = None then Returns (System_failure, st, ns)
      else if corruptionPossible st then Returns (Invalid_found, new_CValidationState, ns)
      else obind (assertion (InvalidChainFound (ai_ibd (ac_accept A)) first (ns_tree ns))) (\<lambda>bt.
        Returns (Invalid_found, new_CValidationState, ns\<lparr>ns_tree := bt\<rparr>)))"

fun connect_batch ::
  "activate_io \<Rightarrow> CBlock option \<Rightarrow> bid \<Rightarrow> CBlockIndex option \<Rightarrow> bid \<Rightarrow> bid list \<Rightarrow> CValidationState \<Rightarrow> node_state \<Rightarrow>
   (step_end \<times> CValidationState \<times> node_state) outcome" where
  "connect_batch A pblock mostWork pindexOldTip first [] st ns = Returns (All_connected, st, ns)"
| "connect_batch A pblock mostWork pindexOldTip first (p # ps) st ns =
     obind (ConnectTip A st p (if p = mostWork then pblock else None) ns) (\<lambda>(ok, st, ns).
       if \<not> ok then invalid_batch A first st ns
       else obind (assertion (PruneBlockIndexCandidates (ai_addr (ac_accept A)) (ns_tree ns))) (\<lambda>bt.
         if better_tip pindexOldTip bt then Returns (Better_tip, st, ns\<lparr>ns_tree := bt\<rparr>)
         else connect_batch A pblock mostWork pindexOldTip first ps st (ns\<lparr>ns_tree := bt\<rparr>)))"

text \<open>The loop over batches of at most 32 blocks, with the lowest block of the last batch.\<close>

definition batch_of :: "block_map \<Rightarrow> bid \<Rightarrow> int \<Rightarrow> int \<Rightarrow> bid list option" where
  "batch_of m mostWork height target =
     (case GetAncestor m mostWork target of None \<Rightarrow> None | Some q \<Rightarrow> blocks_above m height q [])"

function connect_loop ::
  "activate_io \<Rightarrow> CBlock option \<Rightarrow> bid \<Rightarrow> int \<Rightarrow> CBlockIndex option \<Rightarrow> int \<Rightarrow> bid option \<Rightarrow> CValidationState \<Rightarrow> node_state \<Rightarrow>
   (step_end \<times> bid option \<times> CValidationState \<times> node_state) outcome" where
  "connect_loop A pblock mostWork mostHeight pindexOldTip height first st ns =
     (if height = mostHeight then Returns (All_connected, first, st, ns)
      else obind (assertion (batch_of (mapBlockIndex (ns_tree ns)) mostWork height (min (height + 32) mostHeight))) (\<lambda>ps.
        let first = (case ps of [] \<Rightarrow> None | p # _ \<Rightarrow> Some p)
        in obind (connect_batch A pblock mostWork pindexOldTip (case ps of [] \<Rightarrow> mostWork | p # _ \<Rightarrow> p) ps st ns) (\<lambda>(e, st, ns).
             if e = All_connected
             then connect_loop A pblock mostWork mostHeight pindexOldTip (min (height + 32) mostHeight) first st ns
             else Returns (e, first, st, ns))))"
  by pat_completeness auto
termination by (relation "measure (\<lambda>(A, b, w, most, old, h, f, st, ns). nat \<bar>most - h\<bar>)") auto

declare connect_loop.simps [simp del]

definition finish_step ::
  "activate_io \<Rightarrow> step_end \<times> bid option \<times> CValidationState \<times> node_state \<Rightarrow> (bool \<times> CValidationState \<times> node_state) outcome" where
  "finish_step A = (\<lambda>(e, first, st, ns).
     if e = System_failure then Returns (False, st, ns)
     else obind (assertion (if e = Invalid_found
                            then Option.bind first (\<lambda>q. CheckForkWarningConditionsOnNewFork (ai_ibd (ac_accept A)) q (ns_tree ns))
                            else CheckForkWarningConditions (ai_ibd (ac_accept A)) (ns_tree ns)))
       (\<lambda>bt. Returns (True, st, ns\<lparr>ns_tree := bt\<rparr>)))"

definition ActivateBestChainStep ::
  "activate_io \<Rightarrow> CValidationState \<Rightarrow> bid \<Rightarrow> CBlock option \<Rightarrow> node_state \<Rightarrow> (bool \<times> CValidationState \<times> node_state) outcome option" where
  "ActivateBestChainStep A st mostWork pblock ns =
     (let m = mapBlockIndex (ns_tree ns)
      in case (m mostWork, FindFork m (chainActive (ns_tree ns)) mostWork) of
        (Some most, Some fork) \<Rightarrow>
          map_option (\<lambda>r. obind r (\<lambda>(ok, st, ns').
              if \<not> ok then Returns (False, st, ns')
              else obind (connect_loop A pblock mostWork (nHeight most) (tip_index (ns_tree ns))
                            (case Option.bind fork m of None \<Rightarrow> - 1 | Some f \<Rightarrow> nHeight f) None st ns') (finish_step A)))
            (disconnect_to A st fork ns)
      | _ \<Rightarrow> Some Asserts)"

text \<open>
  The loop, with the number of rounds so far, on which a request to shut down depends.  \<open>None\<close> is also a failed assertion of
  \<open>FindMostWorkChain\<close>.
\<close>

partial_function (option) ActivateBestChain ::
  "activate_io \<Rightarrow> nat \<Rightarrow> CValidationState \<Rightarrow> CBlock option \<Rightarrow> node_state \<Rightarrow> (bool \<times> CValidationState \<times> node_state) outcome option" where
  "ActivateBestChain A n st pblock ns =
     (if ac_shutdown A n then Some (Returns (True, st, ns))
      else case FindMostWorkChain (ai_addr (ac_accept A)) (ns_tree ns) of
        None \<Rightarrow> None
      | Some (r, bt) \<Rightarrow>
        (case r of None \<Rightarrow> Some (Returns (True, st, ns\<lparr>ns_tree := bt\<rparr>))
         | Some p \<Rightarrow>
           if Tip bt = Some p then Some (Returns (True, st, ns\<lparr>ns_tree := bt\<rparr>))
           else (case ActivateBestChainStep A st p
                        (case pblock of None \<Rightarrow> None
                         | Some block \<Rightarrow> if ne_block_hash (ai_env (ac_accept A)) block = p then Some block else None)
                        (ns\<lparr>ns_tree := bt\<rparr>) of
                   None \<Rightarrow> None
                 | Some res \<Rightarrow>
                   (case res of Throws \<Rightarrow> Some Throws | Asserts \<Rightarrow> Some Asserts
                    | Returns x \<Rightarrow> (case x of (ok, st, ns) \<Rightarrow>
                        if \<not> ok then Some (Returns (False, st, ns))
                        else if \<not> ai_ibd (ac_accept A) \<and> Tip (ns_tree ns) = None then Some Asserts
                        else if Tip (ns_tree ns) \<noteq> Some p then ActivateBestChain A (n + 1) st pblock ns
                        else Some (FlushStateToDisk A st FLUSH_STATE_PERIODIC ns))))))"

section \<open>Invalidating a block\<close>

definition mark_failed :: "u32 \<Rightarrow> bid \<Rightarrow> block_tree \<Rightarrow> block_tree option" where
  "mark_failed flag p bt =
     (case mapBlockIndex bt p of None \<Rightarrow> None
      | Some bi \<Rightarrow> Some ((update_index p (bi\<lparr>nStatus := nStatus bi OR flag\<rparr>) bt)
          \<lparr>setBlockIndexCandidates := erase_candidate p (setBlockIndexCandidates bt)\<rparr>))"

partial_function (option) invalidate_loop ::
  "activate_io \<Rightarrow> CValidationState \<Rightarrow> bid \<Rightarrow> node_state \<Rightarrow> (bool \<times> CValidationState \<times> node_state) outcome option" where
  "invalidate_loop A st p ns =
     (if \<not> chain_Contains (mapBlockIndex (ns_tree ns)) (chainActive (ns_tree ns)) p then Some (Returns (True, st, ns))
      else case Option.bind (Tip (ns_tree ns)) (\<lambda>t. mark_failed BLOCK_FAILED_CHILD t (ns_tree ns)) of
        None \<Rightarrow> Some Asserts
      | Some bt \<Rightarrow>
        (case DisconnectTip A st (ns\<lparr>ns_tree := bt\<rparr>) of
           Throws \<Rightarrow> Some Throws | Asserts \<Rightarrow> Some Asserts
         | Returns r \<Rightarrow> (case r of (ok, st, ns) \<Rightarrow>
             if \<not> ok then Some (Returns (False, st, ns)) else invalidate_loop A st p ns)))"

text \<open>The blocks that are as good as the new tip are candidates again; the loop runs over the whole index.\<close>

fun readd_candidates :: "(bid \<Rightarrow> nat) \<Rightarrow> bid list \<Rightarrow> block_tree \<Rightarrow> block_tree option" where
  "readd_candidates addr [] bt = Some bt"
| "readd_candidates addr (q # qs) bt =
     (case mapBlockIndex bt q of None \<Rightarrow> readd_candidates addr qs bt
      | Some bi \<Rightarrow>
        (case bi_IsValid BLOCK_VALID_TRANSACTIONS bi of None \<Rightarrow> None
         | Some valid \<Rightarrow>
           if \<not> (valid \<and> nChainTx bi \<noteq> 0) then readd_candidates addr qs bt
           else case tip_index bt of None \<Rightarrow> None
           | Some tip \<Rightarrow>
             readd_candidates addr qs (if CBlockIndexWorkComparator addr bi tip then bt
               else bt\<lparr>setBlockIndexCandidates := insert_candidate q (setBlockIndexCandidates bt)\<rparr>)))"

definition InvalidateBlock ::
  "activate_io \<Rightarrow> CValidationState \<Rightarrow> bid \<Rightarrow> node_state \<Rightarrow> (bool \<times> CValidationState \<times> node_state) outcome option" where
  "InvalidateBlock A st p ns =
     (case mark_failed BLOCK_FAILED_VALID p (ns_tree ns) of None \<Rightarrow> Some Asserts
      | Some bt \<Rightarrow>
        map_option (\<lambda>r. obind r (\<lambda>(ok, st, ns).
            if \<not> ok then Returns (False, st, ns)
            else obind (assertion (Option.bind (readd_candidates (ai_addr (ac_accept A)) (known_blocks (ns_tree ns)) (ns_tree ns))
                                     (InvalidChainFound (ai_ibd (ac_accept A)) p)))
              (\<lambda>bt. Returns (True, st, ns\<lparr>ns_tree := bt\<rparr>))))
          (invalidate_loop A st p (ns\<lparr>ns_tree := bt\<rparr>)))"

section \<open>A new block\<close>

text \<open>The refusals before the block is offered to the tree; \<open>from\<close> is whether it came from a peer.\<close>

definition early_refusal :: "activate_io \<Rightarrow> bool \<Rightarrow> CBlock \<Rightarrow> block_tree \<Rightarrow> bool" where
  "early_refusal A peer block bt \<longleftrightarrow>
     (let E = ai_env (ac_accept A);
          fHaveBlockData = (case mapBlockIndex bt (ne_block_hash E block) of None \<Rightarrow> False | Some bi \<Rightarrow> nStatus bi AND BLOCK_HAVE_DATA \<noteq> 0)
      in (IsProofOfStake block \<and> GetProofOfStake block \<in> setStakeSeen bt \<and> \<not> fHaveBlockData) \<or>
         (ne_block_hash E block \<noteq> hashGenesisBlock (ne_params E) \<and> peer \<and> mapBlockIndex bt (hashPrevBlock block) = None))"

definition early_signature :: "activate_io \<Rightarrow> CBlock \<Rightarrow> bool option" where
  "early_signature A block =
     (if IsProofOfStake block \<and> hd_nVersion block \<ge> 5 then Some True
      else CheckBlockSignature (ne_Verify (ai_env (ac_accept A))) (ne_block_hash (ai_env (ac_accept A))) block)"

definition ProcessNewBlock ::
  "activate_io \<Rightarrow> CValidationState \<Rightarrow> bool \<Rightarrow> CBlock \<Rightarrow> node_state \<Rightarrow> (bool \<times> CValidationState \<times> node_state) outcome option" where
  "ProcessNewBlock A st peer block ns =
     (case run_CheckBlock A block (ns_tree ns) st of
        (checked, st, rejected) \<Rightarrow>
          let bt = (ns_tree ns)\<lparr>mapRejectedBlocks := rejected\<rparr>; ns = ns\<lparr>ns_tree := bt\<rparr>
          in case early_signature A block of None \<Rightarrow> Some Asserts
          | Some sigOk \<Rightarrow>
            if \<not> sigOk \<or> early_refusal A peer block bt \<or> \<not> checked then Some (Returns (False, st, ns))
            else (case AcceptBlock (ac_accept A) block st bt of
                    Throws \<Rightarrow> Some Throws | Asserts \<Rightarrow> Some Asserts
                  | Returns (ok, p, st, bt) \<Rightarrow>
                      if \<not> ok then Some (Returns (False, st, ns\<lparr>ns_tree := bt\<rparr>))
                      else ActivateBestChain A 0 st (Some block) (ns\<lparr>ns_tree := bt\<rparr>)))"

end
