(* ===== verification/Activation_Safe.thy ===== *)
theory Activation_Safe
  imports Activation
begin

text \<open>
  What the operations of the theory Activation keep: the tree stays in order, the coin cache stays at the tip of the active
  chain, and every way out that does not keep this reports a system error.
\<close>

unbundle bit_operations_syntax


section \<open>Changes of the tree that keep its order\<close>

text \<open>
  The entries keep their place, their work and their age; no block becomes a candidate or usable that was not.
\<close>

definition order_key :: "CBlockIndex \<Rightarrow> (bid option \<times> bid option \<times> int \<times> bid \<times> base_uint \<times> u32) \<times> u32" where
  "order_key bi = (skeleton bi, nSequenceId bi)"

definition tree_follows :: "block_tree \<Rightarrow> block_tree \<Rightarrow> bool" where
  "tree_follows bt bt' \<longleftrightarrow> (\<forall>p. map_option order_key (mapBlockIndex bt' p) = map_option order_key (mapBlockIndex bt p)) \<and>
     set (setBlockIndexCandidates bt') \<subseteq> set (setBlockIndexCandidates bt) \<and> known_blocks bt' = known_blocks bt \<and>
     (\<forall>p a b. mapBlockIndex bt p = Some a \<longrightarrow> mapBlockIndex bt' p = Some b \<longrightarrow> usable_entry b \<longrightarrow> usable_entry a)"

lemma tree_follows_refl [simp]: "tree_follows bt bt"
  by (simp add: tree_follows_def)

lemma tree_follows_None: "tree_follows bt bt' \<Longrightarrow> mapBlockIndex bt' p = None \<longleftrightarrow> mapBlockIndex bt p = None"
  unfolding tree_follows_def by (metis option.map_disc_iff)

lemma tree_follows_trans:
  assumes "tree_follows a b" "tree_follows b c" shows "tree_follows a c"
  unfolding tree_follows_def
proof (intro conjI allI impI)
  fix p x z assume p: "mapBlockIndex a p = Some x" "mapBlockIndex c p = Some z" "usable_entry z"
  then obtain y where "mapBlockIndex b p = Some y" using tree_follows_None [OF assms(1), of p] by (cases "mapBlockIndex b p") auto
  then show "usable_entry x" using p assms by (auto simp: tree_follows_def)
qed (use assms in \<open>auto simp: tree_follows_def\<close>)

definition tree_kept :: "nat \<Rightarrow> int \<Rightarrow> block_tree \<Rightarrow> block_tree \<Rightarrow> bool" where
  "tree_kept B H bt bt' \<longleftrightarrow> (tree_inv B H bt \<longrightarrow> tree_inv B H bt') \<and> chainActive bt' = chainActive bt \<and> tree_follows bt bt'"

lemma tree_kept_refl [simp]: "tree_kept B H bt bt"
  by (simp add: tree_kept_def)

lemma tree_kept_trans: "tree_kept B H a b \<Longrightarrow> tree_kept B H b c \<Longrightarrow> tree_kept B H a c"
  using tree_follows_trans by (auto simp: tree_kept_def)

definition status_kept :: "u32 \<Rightarrow> u32 \<Rightarrow> bool" where
  "status_kept s s' \<longleftrightarrow> s AND BLOCK_VALID_MASK \<le> s' AND BLOCK_VALID_MASK \<and> s' AND BLOCK_HAVE_DATA = s AND BLOCK_HAVE_DATA \<and>
     (s' AND BLOCK_FAILED_MASK = 0 \<longrightarrow> s AND BLOCK_FAILED_MASK = 0)"

lemma status_kept_grows: "status_grows s s' \<Longrightarrow> status_kept s s'"
  by (simp add: status_grows_def status_kept_def)

lemma status_kept_failed: "status_kept s (s OR BLOCK_FAILED_VALID)" "status_kept s (s OR BLOCK_FAILED_CHILD)"
proof -
  have z: "BLOCK_FAILED_VALID AND BLOCK_VALID_MASK = 0" "BLOCK_FAILED_CHILD AND BLOCK_VALID_MASK = 0"
    "BLOCK_FAILED_VALID AND BLOCK_HAVE_DATA = 0" "BLOCK_FAILED_CHILD AND BLOCK_HAVE_DATA = 0"
    "BLOCK_FAILED_VALID AND BLOCK_FAILED_MASK \<noteq> 0" "BLOCK_FAILED_CHILD AND BLOCK_FAILED_MASK \<noteq> 0" by (simp_all add: block_flag_defs)
  then show "status_kept s (s OR BLOCK_FAILED_VALID)" "status_kept s (s OR BLOCK_FAILED_CHILD)"
    by (simp_all add: status_kept_def bit.conj_disj_distrib2 or_eq_0_iff)
qed

lemma status_kept_usable: "status_kept (nStatus a) (nStatus b) \<Longrightarrow> usable_entry b \<Longrightarrow> usable_entry a"
  by (simp add: status_kept_def usable_entry_def)

text \<open>A change that leaves the index, the active chain and the best header as they are, and adds no candidate and no unlinked block.\<close>

lemma tree_kept_same:
  assumes "mapBlockIndex bt' = mapBlockIndex bt" "chainActive bt' = chainActive bt" "pindexBestHeader bt' = pindexBestHeader bt"
    and "set (setBlockIndexCandidates bt') \<subseteq> set (setBlockIndexCandidates bt)" "set (mapBlocksUnlinked bt') \<subseteq> set (mapBlocksUnlinked bt)"
    and "known_blocks bt' = known_blocks bt"
  shows "tree_kept B H bt bt'"
proof -
  have "tree_inv B H bt'" if "tree_inv B H bt"
    by (rule tree_inv_more [OF that assms(1-3)]) (use that assms(4-6) in \<open>auto simp: tree_inv_def\<close>)
  then show ?thesis using assms(1,2,4,6) by (simp add: tree_kept_def tree_follows_def)
qed

lemma tree_kept_entry:
  assumes "mapBlockIndex bt p = Some old" "skeleton new = skeleton old" "nTx new = nTx old" "nChainTx new = nChainTx old"
    "nSequenceId new = nSequenceId old" "status_kept (nStatus old) (nStatus new)"
    and "mapBlockIndex bt' = (mapBlockIndex bt)(p \<mapsto> new)" "chainActive bt' = chainActive bt" "pindexBestHeader bt' = pindexBestHeader bt"
    and "set (setBlockIndexCandidates bt') \<subseteq> set (setBlockIndexCandidates bt)" "set (mapBlocksUnlinked bt') \<subseteq> set (mapBlocksUnlinked bt)"
    and "known_blocks bt' = known_blocks bt"
  shows "tree_kept B H bt bt'"
proof -
  have k: "tree_inv B H (update_index p new bt)" if inv: "tree_inv B H bt"
  proof (rule update_inv [OF inv assms(1,2)])
    have "BLOCK_VALID_TREE \<le> nStatus old AND BLOCK_VALID_MASK" using inv assms(1) by (auto simp: tree_inv_def tree_ok_def entry_ok_def)
    then show "BLOCK_VALID_TREE \<le> nStatus new AND BLOCK_VALID_MASK" using assms(6) by (auto simp: status_kept_def)
    have "tx_ok B H (mapBlockIndex bt) old" using inv assms(1) by (auto simp: tree_inv_def)
    then show "tx_ok B H (mapBlockIndex bt) new" using assms(2-6) by (auto simp: tx_ok_def skeleton_def status_kept_def)
  qed (use assms(3-6) in \<open>auto simp: status_kept_def\<close>)
  have "tree_kept B H (update_index p new bt) bt'"
    by (rule tree_kept_same) (use assms in \<open>auto simp: update_index_def\<close>)
  moreover have "tree_kept B H bt (update_index p new bt)"
    using k assms(1,2,5) status_kept_usable [OF assms(6)] by (auto simp: tree_kept_def tree_follows_def order_key_def update_index_def)
  ultimately show ?thesis using tree_kept_trans by blast
qed

lemma note_best_invalid_kept: "tree_kept B H bt (note_best_invalid p bt)"
  by (rule tree_kept_same) (auto simp: note_best_invalid_def split: option.splits)

lemma fork_warning_kept: "CheckForkWarningConditions ibd bt = Some bt' \<Longrightarrow> tree_kept B H bt bt'"
  by (rule tree_kept_same)
    (auto simp: CheckForkWarningConditions_def Let_def bind_eq_Some_conv split: option.splits if_splits)

lemma new_fork_kept:
  assumes "CheckForkWarningConditionsOnNewFork ibd p bt = Some bt'"
  shows "tree_kept B H bt bt'"
proof -
  obtain new :: CBlockIndex and pfork bt1 where b: "CheckForkWarningConditions ibd bt1 = Some bt'"
      "(case Option.bind pfork (mapBlockIndex bt) of None \<Rightarrow> Some bt
        | Some fork \<Rightarrow> Option.bind (GetBlockProof fork) (\<lambda>work.
            Some (if (case Option.bind (pindexBestForkTip bt) (mapBlockIndex bt) of None \<Rightarrow> True | Some t \<Rightarrow> nHeight new > nHeight t) \<and>
                     bu_CompareTo (bu_sub (nChainWork new) (nChainWork fork)) (bu_mul32 work 7) > 0 \<and>
                     chain_Height (chainActive bt) - nHeight new < 72
                  then bt\<lparr>pindexBestForkTip := Some p, pindexBestForkBase := pfork\<rparr> else bt))) = Some bt1"
    using assms unfolding CheckForkWarningConditionsOnNewFork_def Let_def bind_eq_Some_conv
    apply (elim exE conjE)
    subgoal for new pfork bt1 by (rule that [of bt1 new pfork])
    done
  have "tree_kept B H bt bt1"
    by (rule tree_kept_same) (use b(2) in \<open>auto simp: bind_eq_Some_conv split: option.splits if_splits\<close>)
  then show ?thesis using fork_warning_kept [OF b(1)] tree_kept_trans by blast
qed

lemma invalid_chain_kept: "InvalidChainFound ibd p bt = Some bt' \<Longrightarrow> tree_kept B H bt bt'"
  using note_best_invalid_kept fork_warning_kept tree_kept_trans
  by (auto simp: InvalidChainFound_def Let_def split: if_splits) blast

lemma invalid_block_kept:
  assumes "InvalidBlockFound ibd p st bt = Some bt'" shows "tree_kept B H bt bt'"
proof (cases "corruptionPossible st")
  case False
  then obtain bi bt1 where b: "mapBlockIndex bt p = Some bi" "InvalidChainFound ibd p bt1 = Some bt'"
    "bt1 = (update_index p (bi\<lparr>nStatus := nStatus bi OR BLOCK_FAILED_VALID\<rparr>) bt)\<lparr>setBlockIndexCandidates := erase_candidate p (setBlockIndexCandidates bt)\<rparr>"
    using assms by (auto simp: InvalidBlockFound_def bind_eq_Some_conv Let_def update_index_def)
  have "tree_kept B H bt bt1"
    by (rule tree_kept_entry [OF b(1)]) (auto simp: b(3) update_index_def skeleton_def status_kept_failed erase_candidate_def)
  then show ?thesis using invalid_chain_kept [OF b(2)] tree_kept_trans by blast
qed (use assms in \<open>simp add: InvalidBlockFound_def\<close>)

lemma prune_kept: "PruneBlockIndexCandidates addr bt = Some bt' \<Longrightarrow> tree_kept B H bt bt'"
  by (rule tree_kept_same) (auto simp: PruneBlockIndexCandidates_def bind_eq_Some_conv Let_def split: if_splits)

lemma mark_failed_kept:
  assumes "mark_failed f p bt = Some bt'" "f = BLOCK_FAILED_VALID \<or> f = BLOCK_FAILED_CHILD" shows "tree_kept B H bt bt'"
proof -
  obtain bi where b: "mapBlockIndex bt p = Some bi" using assms(1) by (auto simp: mark_failed_def split: option.splits)
  show ?thesis
    by (rule tree_kept_entry [OF b, of "bi\<lparr>nStatus := nStatus bi OR f\<rparr>"])
      (use assms b in \<open>auto simp: mark_failed_def update_index_def skeleton_def status_kept_failed erase_candidate_def\<close>)
qed

lemma drop_chain_kept:
  assumes "drop_chain f q p bt = Some bt'" shows "f \<longrightarrow> tree_kept B H bt bt'"
proof (rule drop_chain.raw_induct [OF _ assms, where P = "\<lambda>f q p bt bt'. f \<longrightarrow> tree_kept B H bt bt'"])
  fix drop f q p bt bt'
  assume IH: "\<And>f q p bt bt'. drop f q p bt = Some bt' \<Longrightarrow> f \<longrightarrow> tree_kept B H bt bt'"
    and body: "(if p = q then Some (bt\<lparr>setBlockIndexCandidates := erase_candidate q (setBlockIndexCandidates bt)\<rparr>)
      else case mapBlockIndex bt p of None \<Rightarrow> None
      | Some bi \<Rightarrow>
          let bt = (if f then bt\<lparr>mapBlockIndex := (mapBlockIndex bt)(p \<mapsto> bi\<lparr>nStatus := nStatus bi OR BLOCK_FAILED_CHILD\<rparr>)\<rparr>
                    else bt\<lparr>mapBlocksUnlinked := mapBlocksUnlinked bt @ [(pprev bi, p)]\<rparr>);
              bt = bt\<lparr>setBlockIndexCandidates := erase_candidate p (setBlockIndexCandidates bt)\<rparr>
          in case pprev bi of None \<Rightarrow> None | Some r \<Rightarrow> drop f q r bt) = Some bt'"
  show "f \<longrightarrow> tree_kept B H bt bt'"
  proof
    assume f
    show "tree_kept B H bt bt'"
    proof (cases "p = q")
      case True
      then show ?thesis using body by (intro tree_kept_same) (auto simp: erase_candidate_def)
    next
      case False
      then obtain bi r where b: "mapBlockIndex bt p = Some bi" "pprev bi = Some r"
        "drop f q r (bt\<lparr>mapBlockIndex := (mapBlockIndex bt)(p \<mapsto> bi\<lparr>nStatus := nStatus bi OR BLOCK_FAILED_CHILD\<rparr>),
           setBlockIndexCandidates := erase_candidate p (setBlockIndexCandidates bt)\<rparr>) = Some bt'"
        using body \<open>f\<close> by (auto simp: Let_def split: option.splits)
      show ?thesis
        by (rule tree_kept_trans [OF tree_kept_entry [OF b(1)] IH [OF b(3), rule_format, OF \<open>f\<close>]])
          (auto simp: skeleton_def status_kept_failed erase_candidate_def)
    qed
  qed
qed

text \<open>A candidate has the data of all its ancestors, so that an unusable one is so because of a failed block.\<close>

lemma ancestors_with_data:
  assumes "wf_index m" "m p = Some bi" "nChainTx bi \<noteq> 0" "\<And>p bi. m p = Some bi \<Longrightarrow> tx_ok B H m bi"
  shows "q \<in> ancestors m p \<Longrightarrow> m q = Some bq \<Longrightarrow> nStatus bq AND BLOCK_HAVE_DATA \<noteq> 0"
  using assms(1,2,3)
proof (induction rule: pprev_induct)
  case (root p bi)
  then show ?case using assms(4) [OF root(1)] by (auto simp: ancestors_root tx_ok_def)
next
  case (step p bi r br)
  have "nChainTx br \<noteq> 0" using assms(4) [OF step(1)] step by (auto simp: tx_ok_def)
  then show ?case using step assms(4) [OF step(1)] by (auto simp: ancestors_step [of m p bi r, OF step(1,2)] tx_ok_def)
qed

lemma scan_finds_failed:
  assumes inv: "tree_inv B H bt" and p: "p \<in> set (setBlockIndexCandidates bt)"
    and s: "scan_candidate (mapBlockIndex bt) (chainActive bt) (Some p) = Some (Some (q, f))"
  shows f
proof -
  let ?m = "mapBlockIndex bt"
  obtain bi where b: "?m p = Some bi" "nChainTx bi \<noteq> 0" using inv p by (auto simp: tree_inv_def)
  have r: "tree_ready bt" by (rule tree_inv_ready [OF inv])
  then have wf: "wf_index ?m" "chain_closed ?m (chainActive bt)" "linked ?m p" using p by (auto simp: tree_ready_def)
  obtain bq where q: "q \<in> ancestors ?m p" "?m q = Some bq" "\<not> usable_entry bq" "f = (nStatus bq AND BLOCK_FAILED_MASK \<noteq> 0)"
    using scan_candidate_spec [OF wf(1) b(1) wf(2,3)] s by (cases "usable ?m (chainActive bt) p") auto
  have "nStatus bq AND BLOCK_HAVE_DATA \<noteq> 0"
    by (rule ancestors_with_data [OF wf(1) b _ q(1,2)]) (use inv in \<open>auto simp: tree_inv_def\<close>)
  then show ?thesis using q(3,4) by (simp add: usable_entry_def)
qed

lemma best_candidate_in: "best_candidate addr m cs = Some p \<Longrightarrow> p \<in> set cs"
  by (induction cs arbitrary: p) (auto split: option.splits if_splits)

lemma FindMostWorkChain_kept:
  assumes "FindMostWorkChain addr bt = Some r" shows "tree_inv B H bt \<longrightarrow> tree_kept B H bt (snd r)"
proof (rule FindMostWorkChain.raw_induct [OF _ assms, where P = "\<lambda>addr bt r. tree_inv B H bt \<longrightarrow> tree_kept B H bt (snd r)"])
  fix find addr bt r
  assume IH: "\<And>addr bt r. find addr bt = Some r \<Longrightarrow> tree_inv B H bt \<longrightarrow> tree_kept B H bt (snd r)"
    and body: "(case best_candidate addr (mapBlockIndex bt) (setBlockIndexCandidates bt) of None \<Rightarrow> Some (None, bt)
      | Some p \<Rightarrow>
          (case scan_candidate (mapBlockIndex bt) (chainActive bt) (Some p) of
             None \<Rightarrow> None
           | Some None \<Rightarrow> Some (Some p, bt)
           | Some (Some (q, f)) \<Rightarrow>
               (case drop_chain f q p (if f then note_best_invalid p bt else bt) of
                  None \<Rightarrow> None | Some bt \<Rightarrow> find addr bt))) = Some r"
  show "tree_inv B H bt \<longrightarrow> tree_kept B H bt (snd r)"
  proof
    assume inv: "tree_inv B H bt"
    show "tree_kept B H bt (snd r)"
    proof (cases "r = (None, bt) \<or> (\<exists>p. r = (Some p, bt))")
      case False
      then obtain p q f bt1 where b: "best_candidate addr (mapBlockIndex bt) (setBlockIndexCandidates bt) = Some p"
        "scan_candidate (mapBlockIndex bt) (chainActive bt) (Some p) = Some (Some (q, f))"
        "drop_chain f q p (if f then note_best_invalid p bt else bt) = Some bt1" "find addr bt1 = Some r"
        using body by (auto split: option.splits)
      have f by (rule scan_finds_failed [OF inv best_candidate_in [OF b(1)] b(2)])
      then have k: "tree_kept B H bt bt1"
        using tree_kept_trans [OF note_best_invalid_kept drop_chain_kept [OF b(3), rule_format, unfolded if_P [OF \<open>f\<close>]]] by auto
      then have "tree_inv B H bt1" using inv by (simp add: tree_kept_def)
      then show ?thesis using IH [OF b(4)] k tree_kept_trans by blast
    qed auto
  qed
qed


lemma write_dirty_spec:
  "write_dirty failed ps = (r, d) \<Longrightarrow> set d \<subseteq> set ps \<and> (r = None \<longrightarrow> d = [] \<and> (\<forall>p\<in>set ps. failed p = None))"
  by (induction failed ps rule: write_dirty.induct) (auto split: option.splits)

section \<open>The node in order\<close>

text \<open>The coin cache is at the tip of the active chain.\<close>

definition in_sync :: "node_state \<Rightarrow> bool" where
  "in_sync ns \<longleftrightarrow> tip_best (pcoinsTip ns) = (case Tip (ns_tree ns) of None \<Rightarrow> bu_zero WIDTH256 | Some t \<Rightarrow> t)"

definition node_ok :: "nat \<Rightarrow> int \<Rightarrow> node_state \<Rightarrow> bool" where
  "node_ok B H ns \<longleftrightarrow> tree_inv B H (ns_tree ns) \<and> mapBlockIndex (ns_tree ns) (bu_zero WIDTH256) = None \<and> tip_good (pcoinsTip ns) \<and> in_sync ns"

lemma tip_best_alt: "tip_best v = (if cv_hashBlock (snd v) = bu_zero WIDTH256 then db_GetBestBlock (fst v) else cv_hashBlock (snd v))"
  by (cases v) (simp add: tip_best_def cache_GetBestBlock_def Let_def)

lemma tip_best_info: "tip_info v = tip_info w \<Longrightarrow> tip_best v = tip_best w"
  by (simp add: tip_info_def tip_best_alt db_GetBestBlock_def)

lemma tip_best_nonzero [simp]: "cv_hashBlock (snd v) = h \<Longrightarrow> h \<noteq> bu_zero WIDTH256 \<Longrightarrow> tip_best v = h"
  by (simp add: tip_best_alt)

lemma fresh_view_good: "tip_good tip \<Longrightarrow> top_good (tip, new_CCoinsViewCache)"
  by (simp add: cache_good_def [of tip_look] new_CCoinsViewCache_def)

text \<open>What a view over the coin cache leaves behind when it is given up.\<close>

lemma view_dropped:
  assumes "tip_view.bk (tip, new_CCoinsViewCache) (tip', view)" "tip_good tip"
  shows "top_good (tip', view)" "tip_good tip'" "tip_look tip' = tip_look tip" "tip_info tip' = tip_info tip"
proof -
  have k: "top_good (tip', view) \<and> tip_look tip' = tip_look tip \<and> tip_info tip' = tip_info tip"
    using assms(1) fresh_view_good [OF assms(2)] by (simp add: base_kept_def)
  then show "top_good (tip', view)" "tip_look tip' = tip_look tip" "tip_info tip' = tip_info tip" by simp_all
  show "tip_good tip'" using k by (simp add: cache_good_def [of tip_look])
qed

lemma view_flushed:
  assumes "top_good (tip, view)"
  shows "\<exists>tip' view'. cache_Flush cache_BatchWrite (tip, view) = Some (True, tip', view') \<and> tip_good tip' \<and>
    tip_look tip' = top_look (tip, view) \<and> cv_hashBlock (snd tip') = cv_hashBlock view"
proof -
  obtain tip' view' where f: "cache_Flush cache_BatchWrite (tip, view) = Some (True, tip', view')" "top_good (tip', view')"
    "tip_look tip' = top_look (tip, view)" using tip.flush_spec [OF assms] by fastforce
  have "cv_hashBlock (snd tip') = cv_hashBlock view"
    using f(1) by (auto simp: cache_Flush_def cache_BatchWrite_def split: option.splits prod.splits if_splits)
  then show ?thesis using f by (auto simp: cache_good_def [of tip_look])
qed

section \<open>Writing the state to disk\<close>

lemma database_flushed:
  assumes "tip_good tip"
  shows "\<exists>tip'. cache_Flush db_BatchWrite tip = Some (True, tip') \<and> tip_good tip' \<and> tip_look tip' = tip_look tip \<and>
    db_look (fst tip') = tip_look tip \<and> tip_best tip' = tip_best tip \<and> db_GetBestBlock (fst tip') = tip_best tip"
proof -
  obtain tip' where f: "cache_Flush db_BatchWrite tip = Some (True, tip')" "tip_good tip'" "tip_look tip' = tip_look tip"
    "db_look (fst tip') = tip_look tip" using db.flush_spec [OF assms] by fastforce
  have "cv_hashBlock (snd tip') = cv_hashBlock (snd tip)"
    "db_best (fst tip') = (if cv_hashBlock (snd tip) \<noteq> bu_zero WIDTH256 then Some (cv_hashBlock (snd tip)) else db_best (fst tip))"
    using f(1) by (cases tip; auto simp: cache_Flush_def db_BatchWrite_def)+
  then show ?thesis using f by (auto simp: tip_best_alt db_GetBestBlock_def)
qed

text \<open>What changes: the set of dirty entries and, unless the database fails, only the place where coins are kept.\<close>

definition flushed :: "activate_io \<Rightarrow> FlushStateMode \<Rightarrow> node_state \<Rightarrow> node_state \<Rightarrow> bool" where
  "flushed A mode ns ns' \<longleftrightarrow> tip_good (pcoinsTip ns') \<and> tip_look (pcoinsTip ns') = tip_look (pcoinsTip ns) \<and>
     tip_best (pcoinsTip ns') = tip_best (pcoinsTip ns) \<and>
     (mode = FLUSH_STATE_ALWAYS \<longrightarrow> db_look (fst (pcoinsTip ns')) = tip_look (pcoinsTip ns) \<and>
        db_GetBestBlock (fst (pcoinsTip ns')) = tip_best (pcoinsTip ns) \<and>
        setDirtyBlockIndex (ns_tree ns') = [] \<and> (\<forall>p\<in>set (setDirtyBlockIndex (ns_tree ns)). fl_index (ac_flush A (flush_count ns)) p = None))"

definition only_flushed :: "node_state \<Rightarrow> node_state \<Rightarrow> bool" where
  "only_flushed ns ns' \<longleftrightarrow> (\<exists>d. set d \<subseteq> set (setDirtyBlockIndex (ns_tree ns)) \<and> ns_tree ns' = (ns_tree ns)\<lparr>setDirtyBlockIndex := d\<rparr>) \<and>
     mapUsedStakePointers ns' = mapUsedStakePointers ns \<and> rev_files ns' = rev_files ns"

lemma FlushStateToDisk_spec:
  assumes "tip_good (pcoinsTip ns)"
  shows "\<exists>ok st' ns'. FlushStateToDisk A st mode ns = Returns (ok, st', ns') \<and> only_flushed ns ns' \<and>
    (if ok then st' = st \<and> flushed A mode ns ns' else vs_mode st' = MODE_ERROR)"
proof -
  let ?io = "ac_flush A (flush_count ns)"
  have same: "only_flushed ns (ns\<lparr>flush_count := n\<rparr>)" for n by (auto simp: only_flushed_def intro!: exI [of _ "setDirtyBlockIndex (ns_tree ns)"])
  have err: "vs_mode (state_Error r st) = MODE_ERROR" for r by (simp add: state_Error_def Let_def)
  show ?thesis
  proof (cases "\<not> flush_needed A mode ?io (ns\<lparr>flush_count := flush_count ns + 1\<rparr>) \<or> \<not> fl_space ?io \<or> fl_files ?io \<noteq> None")
    case True
    then show ?thesis using same [of "Suc (flush_count ns)"] assms err
      by (auto simp: FlushStateToDisk_def Let_def flushed_def flush_needed_def)
  next
    case False
    obtain r d where w: "write_dirty (fl_index ?io) (sort_key (ai_addr (ac_accept A)) (setDirtyBlockIndex (ns_tree ns))) = (r, d)" by (meson surj_pair)
    note d = write_dirty_spec [OF w]
    obtain tip' where t: "cache_Flush db_BatchWrite (pcoinsTip ns) = Some (True, tip')" "tip_good tip'" "tip_look tip' = tip_look (pcoinsTip ns)"
      "db_look (fst tip') = tip_look (pcoinsTip ns)" "tip_best tip' = tip_best (pcoinsTip ns)" "db_GetBestBlock (fst tip') = tip_best (pcoinsTip ns)"
      using database_flushed [OF assms] by blast
    define ns1 where "ns1 = ns\<lparr>flush_count := flush_count ns + 1, ns_tree := (ns_tree ns)\<lparr>setDirtyBlockIndex := d\<rparr>\<rparr>"
    have n: "only_flushed ns ns1" "pcoinsTip ns1 = pcoinsTip ns" "ns_tree ns1 = (ns_tree ns)\<lparr>setDirtyBlockIndex := d\<rparr>"
      using d by (auto simp: only_flushed_def ns1_def)
    have c: "only_flushed ns (ns1\<lparr>pcoinsTip := t\<rparr>)" for t using n(1) by (simp add: only_flushed_def)
    have f: "FlushStateToDisk A st mode ns = (case r of Some reason \<Rightarrow> Returns (False, state_Error reason st, ns1) | None \<Rightarrow> flush_coins ?io st ns1)"
      unfolding ns1_def using False w by (simp add: FlushStateToDisk_def Let_def split: option.split)
    show ?thesis
    proof (cases r)
      case None
      then have "d = []" "\<forall>p\<in>set (setDirtyBlockIndex (ns_tree ns)). fl_index ?io p = None" using d by simp_all
      then have "flushed A mode ns (ns1\<lparr>pcoinsTip := tip'\<rparr>)" using t n by (simp add: flushed_def)
      then show ?thesis using None f c t(1) n(2) err
        by (cases "fl_coins ?io") (auto simp: flush_coins_def Let_def)
    qed (use f n(1) err in auto)
  qed
qed

section \<open>Connecting and disconnecting the tip\<close>

lemma tree_inv_wf: "tree_inv B H bt \<Longrightarrow> wf_index (mapBlockIndex bt)"
  by (simp add: tree_inv_def tree_ok_def)

lemma tree_inv_keyed: "tree_inv B H bt \<Longrightarrow> mapBlockIndex bt p = Some bi \<Longrightarrow> phashBlock bi = p"
  by (auto simp: tree_inv_def tree_ok_def keyed_def)

lemma tree_inv_chain: "tree_inv B H bt \<Longrightarrow> chain_ok (mapBlockIndex bt) c \<Longrightarrow> tree_inv B H (bt\<lparr>chainActive := c\<rparr>)"
  by (simp add: tree_inv_def tree_ok_def)

lemma Tip_of_path: "Tip (bt\<lparr>chainActive := path m p\<rparr>) = Some p"
  by (simp add: Tip_def path_nth path_def del: upt_Suc)

lemma UpdateTip_spec:
  assumes "tree_inv B H (ns_tree ns)" "mapBlockIndex (ns_tree ns) p = Some bi"
  shows "\<exists>c. UpdateTip (Some p) ns = Some (ns\<lparr>ns_tree := (ns_tree ns)\<lparr>chainActive := c\<rparr>\<rparr>) \<and>
    tree_inv B H ((ns_tree ns)\<lparr>chainActive := c\<rparr>) \<and> Tip ((ns_tree ns)\<lparr>chainActive := c\<rparr>) = Some p"
proof -
  let ?m = "mapBlockIndex (ns_tree ns)"
  have c: "chain_ok ?m (path ?m p)" using assms(2) by (auto simp: chain_ok_def)
  have "SetTip ?m (chainActive (ns_tree ns)) (Some p) = Some (path ?m p)"
    by (rule SetTip_path [OF tree_inv_wf [OF assms(1)] _ assms(2)]) (use assms(1) in \<open>simp add: tree_inv_def\<close>)
  then show ?thesis using tree_inv_chain [OF assms(1) c] assms(2) Tip_of_path [of ?m p "ns_tree ns"]
    by (intro exI [of _ "path ?m p"]) (simp add: UpdateTip_def Let_def tip_index_def)
qed

definition follows :: "node_state \<Rightarrow> node_state \<Rightarrow> bool" where
  "follows ns ns' \<longleftrightarrow> tree_follows (ns_tree ns) (ns_tree ns')"

lemma follows_refl [simp]: "follows ns ns"
  by (simp add: follows_def)

lemma follows_trans: "follows a b \<Longrightarrow> follows b c \<Longrightarrow> follows a c"
  using tree_follows_trans by (auto simp: follows_def)

lemma follows_chain: "tree_follows bt (bt'\<lparr>chainActive := c\<rparr>) = tree_follows bt bt'"
  by (simp add: tree_follows_def)

text \<open>A failed operation: the node has been told to stop, or nothing that counts has changed.\<close>

definition unmoved :: "nat \<Rightarrow> int \<Rightarrow> node_state \<Rightarrow> CValidationState \<Rightarrow> node_state \<Rightarrow> bool" where
  "unmoved B H ns st' ns' \<longleftrightarrow> vs_mode st' = MODE_ERROR \<or>
     (node_ok B H ns' \<and> chainActive (ns_tree ns') = chainActive (ns_tree ns) \<and> tip_look (pcoinsTip ns') = tip_look (pcoinsTip ns) \<and>
      follows ns ns')"

lemma tree_kept_follows: "tree_kept B H (ns_tree ns) (ns_tree ns') \<Longrightarrow> follows ns ns'"
  by (simp add: follows_def tree_kept_def)

lemma tree_kept_None: "tree_kept B H bt bt' \<Longrightarrow> mapBlockIndex bt p = None \<Longrightarrow> mapBlockIndex bt' p = None"
  using tree_follows_None by (auto simp: tree_kept_def)

lemma node_ok_tree:
  assumes "node_ok B H ns" "tree_kept B H (ns_tree ns) (ns_tree ns')" "tip_good (pcoinsTip ns')"
    "tip_best (pcoinsTip ns') = tip_best (pcoinsTip ns)"
  shows "node_ok B H ns'" "follows ns ns'" "chainActive (ns_tree ns') = chainActive (ns_tree ns)"
proof -
  show "follows ns ns'" by (rule tree_kept_follows [OF assms(2)])
  show c: "chainActive (ns_tree ns') = chainActive (ns_tree ns)" using assms(2) by (simp add: tree_kept_def)
  then have "Tip (ns_tree ns') = Tip (ns_tree ns)" by (simp add: Tip_def)
  then show "node_ok B H ns'" using assms(1,3,4) tree_kept_None [OF assms(2)] assms(2) by (simp add: node_ok_def in_sync_def tree_kept_def)
qed

lemma after_connect_kept:
  assumes "mapBlockIndex (ns_tree ns) p = Some pindex" "entry_grows pindex pindex'"
  shows "tree_kept B H (ns_tree ns) (ns_tree (after_connect A block p pindex pindex' st undo used tip ns))"
  by (rule tree_kept_entry [OF assms(1), of pindex'])
    (use entry_grows_skeleton [OF assms(2)] in \<open>auto simp: after_connect_def Let_def status_kept_grows\<close>)

lemma only_flushed_kept: "only_flushed ns ns' \<Longrightarrow> tree_kept B H (ns_tree ns) (ns_tree ns')"
  by (rule tree_kept_same) (auto simp: only_flushed_def)

text \<open>From the moment the coins of the new tip are in the cache.\<close>

definition moved_to :: "bid \<Rightarrow> node_state \<Rightarrow> bool" where
  "moved_to p ns \<longleftrightarrow> tip_good (pcoinsTip ns) \<and> tip_best (pcoinsTip ns) = p"

definition tip_moved :: "nat \<Rightarrow> int \<Rightarrow> bid \<Rightarrow> node_state \<Rightarrow> node_state \<Rightarrow> bool" where
  "tip_moved B H p ns ns' \<longleftrightarrow> node_ok B H ns' \<and> Tip (ns_tree ns') = Some p \<and> tip_look (pcoinsTip ns') = tip_look (pcoinsTip ns) \<and>
     follows ns ns'"

lemma move_tip:
  assumes f: "obind (FlushStateToDisk A st mode ns) (\<lambda>(ok, st, ns). if \<not> ok then Returns (False, st, ns)
      else obind (assertion (UpdateTip (Some p) ns)) (\<lambda>ns. Returns (True, st, ns))) = Returns (ok, st', ns')"
    and inv: "tree_inv B H (ns_tree ns)" "mapBlockIndex (ns_tree ns) p = Some bi" "mapBlockIndex (ns_tree ns) (bu_zero WIDTH256) = None"
    and mv: "moved_to p ns"
  shows "if ok then tip_moved B H p ns ns' else vs_mode st' = MODE_ERROR"
proof -
  obtain fok st1 ns1 where fl: "FlushStateToDisk A st mode ns = Returns (fok, st1, ns1)" "only_flushed ns ns1"
    "if fok then st1 = st \<and> flushed A mode ns ns1 else vs_mode st1 = MODE_ERROR"
    using FlushStateToDisk_spec [of ns A st mode] mv by (auto simp: moved_to_def)
  show ?thesis
  proof (cases fok)
    case True
    have k: "tree_kept B H (ns_tree ns) (ns_tree ns1)" by (rule only_flushed_kept [OF fl(2)])
    have m: "mapBlockIndex (ns_tree ns1) = mapBlockIndex (ns_tree ns)" using fl(2) by (auto simp: only_flushed_def)
    obtain c where c: "UpdateTip (Some p) ns1 = Some (ns1\<lparr>ns_tree := (ns_tree ns1)\<lparr>chainActive := c\<rparr>\<rparr>)"
      "tree_inv B H ((ns_tree ns1)\<lparr>chainActive := c\<rparr>)" "Tip ((ns_tree ns1)\<lparr>chainActive := c\<rparr>) = Some p"
      using UpdateTip_spec [of B H ns1 p bi] k inv(1,2) m by (auto simp: tree_kept_def)
    have "ok" "ns' = ns1\<lparr>ns_tree := (ns_tree ns1)\<lparr>chainActive := c\<rparr>\<rparr>" using f fl(1) True c(1) by auto
    then show ?thesis using c(2,3) m inv(3) fl(3) True mv
      tree_kept_follows [OF k]
      by (simp add: tip_moved_def node_ok_def in_sync_def flushed_def moved_to_def follows_def follows_chain)
  qed (use f fl in auto)
qed

lemma ConnectTip_spec:
  assumes c: "ConnectTip A st p pblock ns = Returns (ok, st', ns')" and ok: "node_ok B H ns"
  shows "if ok then node_ok B H ns' \<and> Tip (ns_tree ns') = Some p \<and> follows ns ns' else unmoved B H ns st' ns'"
proof -
  let ?E = "ai_env (ac_accept A)"
  have inv: "tree_inv B H (ns_tree ns)" "mapBlockIndex (ns_tree ns) (bu_zero WIDTH256) = None" "tip_good (pcoinsTip ns)" "in_sync ns"
    using ok by (simp_all add: node_ok_def)
  obtain pindex where p: "mapBlockIndex (ns_tree ns) p = Some pindex" "pprev pindex = Tip (ns_tree ns)"
    using c by (cases "mapBlockIndex (ns_tree ns) p") (auto simp: ConnectTip_def Let_def split: if_splits)
  show ?thesis
  proof (cases "case pblock of Some block \<Rightarrow> Some block | None \<Rightarrow> ReadBlockFromDisk ?E (ac_junk A) (ac_disk A) pindex")
    case None
    then have "ok = False" "vs_mode st' = MODE_ERROR" using c p by (auto simp: ConnectTip_def Let_def state_Error_def)
    then show ?thesis by (simp add: unmoved_def)
  next
    case (Some block)
    let ?C = "ConnectBlock ?E (cache_GetCoins db_GetCoins) tip_best (heights_of (mapBlockIndex (ns_tree ns)))
      (connect_io_of A block pindex (ns_tree ns)) block pindex False (mapUsedStakePointers ns) st (pcoinsTip ns, new_CCoinsViewCache)"
    obtain rv st1 pindex' undo used tip view where cb: "?C = Returns (rv, st1, pindex', undo, used, tip, view)"
      using c p Some by (auto simp: ConnectTip_def Let_def obind_Returns)
    note any = tip_view.ConnectBlock_any [OF cb]
    have g: "entry_grows pindex pindex'" "rv \<Longrightarrow> cv_hashBlock view = p"
      using any tree_inv_keyed [OF inv(1) p(1)] by (auto simp: connect_summary_def)
    note v = view_dropped [OF any [THEN conjunct1] inv(3)]
    let ?ns = "\<lambda>tip. after_connect A block p pindex pindex' st undo used tip ns"
    have k: "tree_kept B H (ns_tree ns) (ns_tree (?ns t))" for t by (rule after_connect_kept [OF p(1) g(1)])
    have s: "pcoinsTip (?ns t) = t" for t by (simp add: after_connect_def Let_def)
    show ?thesis
    proof (cases rv)
      case False
      then have r: "connect_refused A p st1 (?ns tip) = Returns (ok, st', ns')" using c p Some cb by (simp add: ConnectTip_def Let_def)
      then obtain bt where b: "ok = False" "ns' = (?ns tip)\<lparr>ns_tree := bt\<rparr>" "tree_kept B H (ns_tree (?ns tip)) bt"
        by (auto simp: connect_refused_def obind_Returns assertion_Returns split: if_splits dest: invalid_block_kept)
          (metis node_state.surjective node_state.update_convs(1) tree_kept_refl)+
      have "node_ok B H ns'" "follows ns ns'" "chainActive (ns_tree ns') = chainActive (ns_tree ns)"
        by (rule node_ok_tree [OF ok]; use b(2) tree_kept_trans [OF k b(3)] v tip_best_info [OF v(4)] s in simp)+
      then show ?thesis using b v(3) s by (simp add: unmoved_def)
    next
      case True
      obtain tip' view' where f: "cache_Flush cache_BatchWrite (tip, view) = Some (True, tip', view')" "tip_good tip'"
        "cv_hashBlock (snd tip') = p" using view_flushed [OF v(1)] g(2) True by auto
      have "p \<noteq> bu_zero WIDTH256" using p(1) inv(2) by auto
      then have mv: "moved_to p (?ns tip')" using f(2,3) s by (simp add: moved_to_def)
      have d: "connect_done A p pindex' st1 (?ns tip') = Returns (ok, st', ns')"
        using c p Some cb f(1) True by (simp add: ConnectTip_def Let_def)
      have m: "mapBlockIndex (ns_tree (?ns tip')) p = Some pindex'" by (simp add: after_connect_def Let_def)
      have z: "mapBlockIndex (ns_tree (?ns tip')) (bu_zero WIDTH256) = None" "follows ns (?ns tip')"
        using tree_kept_None [OF k inv(2)] tree_kept_follows [OF k] by auto
      have "if ok then tip_moved B H p (?ns tip') ns' else vs_mode st' = MODE_ERROR"
        by (rule move_tip [OF d [unfolded connect_done_def Let_def] _ m z(1) mv]) (use k inv(1) in \<open>simp add: tree_kept_def\<close>)
      then show ?thesis using follows_trans [OF z(2)] by (auto simp: tip_moved_def unmoved_def)
    qed
  qed
qed


lemma tip_entry: "tip_index bt = Some pindex \<Longrightarrow> \<exists>t. Tip bt = Some t \<and> mapBlockIndex bt t = Some pindex"
  by (auto simp: tip_index_def bind_eq_Some_conv)

lemma parent_known:
  assumes "wf_index m" "m p = Some bi" "pprev bi = Some q" shows "\<exists>bq. m q = Some bq"
  using wf_indexD [OF assms(1,2)] assms(3) by (auto simp: wf_entry_def split: option.splits)

lemma DisconnectTip_spec:
  assumes c: "DisconnectTip A st ns = Returns (ok, st', ns')" and ok: "node_ok B H ns"
  shows "if ok then node_ok B H ns' \<and> follows ns ns' \<and>
      (\<exists>t pindex q. Tip (ns_tree ns) = Some t \<and> mapBlockIndex (ns_tree ns) t = Some pindex \<and> pprev pindex = Some q \<and> Tip (ns_tree ns') = Some q)
    else unmoved B H ns st' ns'"
proof -
  let ?E = "ai_env (ac_accept A)"
  have inv: "tree_inv B H (ns_tree ns)" "mapBlockIndex (ns_tree ns) (bu_zero WIDTH256) = None" "tip_good (pcoinsTip ns)" "in_sync ns"
    using ok by (simp_all add: node_ok_def)
  obtain pindex where ti: "tip_index (ns_tree ns) = Some pindex"
    using c by (cases "tip_index (ns_tree ns)") (auto simp: DisconnectTip_def Let_def)
  then obtain t where t: "Tip (ns_tree ns) = Some t" "mapBlockIndex (ns_tree ns) t = Some pindex" using tip_entry by blast
  show ?thesis
  proof (cases "ReadBlockFromDisk ?E (ac_junk A) (ac_disk A) pindex")
    case None
    then have "ok = False" "vs_mode st' = MODE_ERROR" using c ti by (auto simp: DisconnectTip_def Let_def state_Error_def)
    then show ?thesis by (simp add: unmoved_def)
  next
    case (Some block)
    obtain dok fClean used tip view where db: "DisconnectBlock ?E (cache_GetCoins db_GetCoins) tip_best pindex (read_undo A ns pindex) block
        (mapUsedStakePointers ns) (pcoinsTip ns, new_CCoinsViewCache) = Returns (dok, fClean, used, tip, view)"
      using c ti Some by (auto simp: DisconnectTip_def Let_def obind_Returns)
    note any = tip_view.DisconnectBlock_any [OF db]
    note v = view_dropped [OF any [THEN conjunct1] inv(3)]
    let ?ns = "\<lambda>tip. ns\<lparr>mapUsedStakePointers := used, pcoinsTip := tip\<rparr>"
    show ?thesis
    proof (cases "dok \<and> fClean")
      case False
      then have r: "ok = False" "ns' = ?ns tip" using c ti Some db by (auto simp: DisconnectTip_def Let_def)
      have "node_ok B H ns'" "follows ns ns'" "chainActive (ns_tree ns') = chainActive (ns_tree ns)"
        by (rule node_ok_tree [OF ok]; use r v tip_best_info [OF v(4)] in simp)+
      then show ?thesis using r v(3) by (simp add: unmoved_def)
    next
      case True
      then have q: "pprev pindex = Some (cv_hashBlock view)" using any by simp
      obtain bq where bq: "mapBlockIndex (ns_tree ns) (cv_hashBlock view) = Some bq"
        using parent_known [OF tree_inv_wf [OF inv(1)] t(2) q] by blast
      obtain tip' view' where f: "cache_Flush cache_BatchWrite (tip, view) = Some (True, tip', view')" "tip_good tip'"
        "cv_hashBlock (snd tip') = cv_hashBlock view" using view_flushed [OF v(1)] by auto
      have "cv_hashBlock view \<noteq> bu_zero WIDTH256" using bq inv(2) by auto
      then have mv: "moved_to (cv_hashBlock view) (?ns tip')" using f(2,3) by (simp add: moved_to_def)
      have d: "disconnect_done A pindex st (?ns tip') = Returns (ok, st', ns')"
        using c ti Some db f(1) True by (simp add: DisconnectTip_def Let_def)
      have "if ok then tip_moved B H (cv_hashBlock view) (?ns tip') ns' else vs_mode st' = MODE_ERROR"
        by (rule move_tip [OF d [unfolded disconnect_done_def q] _ _ _ mv]) (use inv bq in simp_all)
      moreover have "follows (?ns tip') ns' \<Longrightarrow> follows ns ns'" by (simp add: follows_def)
      ultimately show ?thesis using t q by (auto simp: tip_moved_def unmoved_def)
    qed
  qed
qed

text \<open>The outcome of an operation of several steps: in order, or told to stop.\<close>

definition safe :: "nat \<Rightarrow> int \<Rightarrow> node_state \<Rightarrow> bool \<Rightarrow> CValidationState \<Rightarrow> node_state \<Rightarrow> bool" where
  "safe B H ns ok st' ns' \<longleftrightarrow> (vs_mode st' = MODE_ERROR \<and> \<not> ok) \<or> (node_ok B H ns' \<and> follows ns ns')"


lemma safe_trans: "follows ns ns1 \<Longrightarrow> safe B H ns1 ok st' ns' \<Longrightarrow> safe B H ns ok st' ns'"
  using follows_trans by (auto simp: safe_def)

lemma unmoved_safe: "unmoved B H ns st' ns' \<Longrightarrow> safe B H ns False st' ns'"
  by (auto simp: unmoved_def safe_def)

lemma disconnect_to_spec:
  assumes "disconnect_to A st fork ns = Some r"
  shows "node_ok B H ns \<longrightarrow> (\<forall>ok st' ns'. r = Returns (ok, st', ns') \<longrightarrow> safe B H ns ok st' ns' \<and>
    (ok \<longrightarrow> Tip (ns_tree ns') = None \<or> Tip (ns_tree ns') = fork))"
proof (rule disconnect_to.raw_induct [OF _ assms, where P = "\<lambda>A st fork ns r. node_ok B H ns \<longrightarrow> (\<forall>ok st' ns'. r = Returns (ok, st', ns') \<longrightarrow>
    safe B H ns ok st' ns' \<and> (ok \<longrightarrow> Tip (ns_tree ns') = None \<or> Tip (ns_tree ns') = fork))"], intro impI allI)
  fix rec A st fork ns r ok st' ns'
  assume IH: "\<And>A st fork ns r. rec A st fork ns = Some r \<Longrightarrow> node_ok B H ns \<longrightarrow> (\<forall>ok st' ns'. r = Returns (ok, st', ns') \<longrightarrow>
      safe B H ns ok st' ns' \<and> (ok \<longrightarrow> Tip (ns_tree ns') = None \<or> Tip (ns_tree ns') = fork))"
    and body: "(if Tip (ns_tree ns) \<noteq> None \<and> Tip (ns_tree ns) \<noteq> fork
      then (case DisconnectTip A st ns of
              Returns r \<Rightarrow> (case r of (ok, st, ns) \<Rightarrow> if \<not> ok then Some (Returns (False, st, ns)) else rec A st fork ns)
            | Throws \<Rightarrow> Some Throws | Asserts \<Rightarrow> Some Asserts)
      else Some (Returns (True, st, ns))) = Some r"
    and n: "node_ok B H ns" and r: "r = Returns (ok, st', ns')"
  show "safe B H ns ok st' ns' \<and> (ok \<longrightarrow> Tip (ns_tree ns') = None \<or> Tip (ns_tree ns') = fork)"
  proof (cases "Tip (ns_tree ns) \<noteq> None \<and> Tip (ns_tree ns) \<noteq> fork")
    case True
    then obtain dok st1 ns1 where d: "DisconnectTip A st ns = Returns (dok, st1, ns1)"
        "if dok then rec A st1 fork ns1 = Some r else r = Returns (False, st1, ns1)"
      using body r by (cases "DisconnectTip A st ns") (auto split: if_splits)
    note s = DisconnectTip_spec [OF d(1) n]
    show ?thesis
    proof (cases dok)
      case False
      then show ?thesis using s d(2) r unmoved_safe by auto
    next
      case True
      then have "safe B H ns1 ok st' ns' \<and> (ok \<longrightarrow> Tip (ns_tree ns') = None \<or> Tip (ns_tree ns') = fork)"
        using IH [of A st1 fork ns1 r] d(2) s r by auto
      then show ?thesis using s True safe_trans by auto
    qed
  qed (use body r n in \<open>auto simp: safe_def\<close>)
qed

text \<open>Batches.\<close>

definition batch_done :: "bid list \<Rightarrow> CBlockIndex option \<Rightarrow> step_end \<Rightarrow> node_state \<Rightarrow> node_state \<Rightarrow> bool" where
  "batch_done ps old e ns ns' \<longleftrightarrow> (e = All_connected \<longrightarrow> Tip (ns_tree ns') = (if ps = [] then Tip (ns_tree ns) else Some (last ps))) \<and>
     (e = Better_tip \<longrightarrow> better_tip old (ns_tree ns'))"

lemma better_tip_same: "mapBlockIndex bt' = mapBlockIndex bt \<Longrightarrow> chainActive bt' = chainActive bt \<Longrightarrow> better_tip old bt' = better_tip old bt"
  by (simp add: better_tip_def tip_index_def Tip_def split: option.splits)

lemma invalid_batch_spec:
  assumes "invalid_batch A first st ns = Returns (e, st', ns')" "safe B H ns0 False st ns"
  shows "safe B H ns0 (e \<noteq> System_failure) st' ns' \<and> (e = Invalid_found \<or> e = System_failure)"
proof (cases "state_IsInvalid st")
  case None
  then show ?thesis using assms by (auto simp: invalid_batch_def safe_def)
next
  case (Some n)
  then have "vs_mode st \<noteq> MODE_ERROR" by (auto simp: state_IsInvalid_def split: if_splits)
  then have s: "node_ok B H ns" "follows ns0 ns" using assms(2) by (simp_all add: safe_def)
  show ?thesis
  proof (cases "corruptionPossible st")
    case False
    then obtain bt where b: "InvalidChainFound (ai_ibd (ac_accept A)) first (ns_tree ns) = Some bt" "e = Invalid_found" "ns' = ns\<lparr>ns_tree := bt\<rparr>"
      using assms(1) Some by (auto simp: invalid_batch_def obind_Returns assertion_Returns)
    have k: "tree_kept B H (ns_tree ns) (ns_tree ns')" using invalid_chain_kept [OF b(1)] b(3) by simp
    note n = node_ok_tree [OF s(1) k]
    have "node_ok B H ns'" "follows ns ns'" by (rule n; use s(1) b(3) in \<open>simp add: node_ok_def\<close>)+
    then show ?thesis using b(2) follows_trans [OF s(2)] by (simp add: safe_def)
  qed (use assms Some s in \<open>auto simp: invalid_batch_def safe_def\<close>)
qed

lemma connect_batch_spec:
  "connect_batch A pblock w old first ps st ns = Returns (e, st', ns') \<Longrightarrow> node_ok B H ns \<Longrightarrow>
   safe B H ns (e \<noteq> System_failure) st' ns' \<and> batch_done ps old e ns ns'"
proof (induction ps arbitrary: st ns)
  case (Cons p ps)
  obtain ok st1 ns1 where c: "ConnectTip A st p (if p = w then pblock else None) ns = Returns (ok, st1, ns1)"
    using Cons.prems(1) by (auto simp: obind_Returns)
  note s = ConnectTip_spec [OF c Cons.prems(2)]
  show ?case
  proof (cases ok)
    case False
    then have "invalid_batch A first st1 ns1 = Returns (e, st', ns')" using Cons.prems(1) c by simp
    from invalid_batch_spec [OF this unmoved_safe] s False show ?thesis by (auto simp: batch_done_def)
  next
    case True
    obtain bt where b: "PruneBlockIndexCandidates (ai_addr (ac_accept A)) (ns_tree ns1) = Some bt"
      "(if better_tip old bt then Returns (Better_tip, st1, ns1\<lparr>ns_tree := bt\<rparr>)
        else connect_batch A pblock w old first ps st1 (ns1\<lparr>ns_tree := bt\<rparr>)) = Returns (e, st', ns')"
      using Cons.prems(1) c True by (auto simp: obind_Returns assertion_Returns)
    have n1: "node_ok B H ns1" "Tip (ns_tree ns1) = Some p" "follows ns ns1" using s True by simp_all
    have k: "tree_kept B H (ns_tree ns1) (ns_tree (ns1\<lparr>ns_tree := bt\<rparr>))" using prune_kept [OF b(1)] by simp
    have n2: "node_ok B H (ns1\<lparr>ns_tree := bt\<rparr>)" "follows ns1 (ns1\<lparr>ns_tree := bt\<rparr>)"
      by (rule node_ok_tree [OF n1(1) k]; use n1(1) in \<open>simp add: node_ok_def\<close>)+
    have "Tip bt = Tip (ns_tree ns1)" using k by (simp add: Tip_def tree_kept_def)
    then have t: "Tip bt = Some p" using n1(2) by simp
    note f = follows_trans [OF n1(3) n2(2)]
    show ?thesis
    proof (cases "better_tip old bt")
      case True
      then show ?thesis using b(2) n2(1) f by (auto simp: safe_def batch_done_def)
    next
      case False
      then have "connect_batch A pblock w old first ps st1 (ns1\<lparr>ns_tree := bt\<rparr>) = Returns (e, st', ns')" using b(2) by simp
      from Cons.IH [OF this n2(1)] show ?thesis using safe_trans [OF f] t by (auto simp: batch_done_def)
    qed
  qed
qed (auto simp: safe_def batch_done_def)

lemma blocks_above_last:
  assumes "blocks_above m h q acc = Some ps"
  shows "ps = acc \<or> (\<exists>p xs. q = Some p \<and> ps = xs @ p # acc)"
proof (rule blocks_above.raw_induct [OF _ assms, where P = "\<lambda>m h q acc ps. ps = acc \<or> (\<exists>p xs. q = Some p \<and> ps = xs @ p # acc)"])
  fix rec m h q acc ps
  assume IH: "\<And>m h q acc ps. rec m h q acc = Some ps \<Longrightarrow> ps = acc \<or> (\<exists>p xs. q = Some p \<and> ps = xs @ p # acc)"
    and body: "(case q of None \<Rightarrow> Some acc
      | Some p \<Rightarrow> (case m p of None \<Rightarrow> None
         | Some bi \<Rightarrow> if nHeight bi = h then Some acc else rec m h (pprev bi) (p # acc))) = Some ps"
  show "ps = acc \<or> (\<exists>p xs. q = Some p \<and> ps = xs @ p # acc)"
    using body IH by (fastforce split: option.splits if_splits)
qed

lemma blocks_above_nonempty:
  assumes "blocks_above m h (Some p) [] = Some ps" "m p = Some bi" "nHeight bi \<noteq> h" shows "ps \<noteq> [] \<and> last ps = p"
proof -
  have "blocks_above m h (pprev bi) [p] = Some ps" using assms by (simp add: blocks_above.simps [of m h "Some p"])
  from blocks_above_last [OF this] show ?thesis by auto
qed

lemma follows_entry: 
  assumes "follows ns ns'" "mapBlockIndex (ns_tree ns) p = Some a"
  shows "\<exists>b. mapBlockIndex (ns_tree ns') p = Some b \<and> order_key b = order_key a"
proof -
  have "map_option order_key (mapBlockIndex (ns_tree ns') p) = Some (order_key a)" using assms by (simp add: follows_def tree_follows_def)
  then show ?thesis by auto
qed

lemma batch_of_last:
  assumes "tree_inv B H bt" "mapBlockIndex bt w = Some bw" "0 \<le> target" "target \<le> nHeight bw" "height < target"
    and "batch_of (mapBlockIndex bt) w height target = Some ps"
  shows "ps \<noteq> [] \<and> (target = nHeight bw \<longrightarrow> last ps = w)"
proof -
  let ?m = "mapBlockIndex bt"
  have wf: "wf_index ?m" by (rule tree_inv_wf [OF assms(1)])
  obtain q where q: "GetAncestor ?m w target = Some q" "blocks_above ?m height q [] = Some ps"
    using assms(6) by (auto simp: batch_of_def split: option.splits)
  have "q = walk ?m (nat (nHeight bw - target)) w" using GetAncestor_walk [OF wf assms(2)] assms(3,4) q(1) by simp
  moreover have "nat (nHeight bw - target) \<le> height_of ?m w" using assms(2,3) by (simp add: height_of_def)
  ultimately obtain p bp where p: "q = Some p" "?m p = Some bp" "height_of ?m p = height_of ?m w - nat (nHeight bw - target)"
    using walk_ex [OF wf assms(2)] by metis
  have "nHeight bp = target"
    using p height_of_eq [OF wf p(2)] height_of_eq [OF wf assms(2)] assms(3,4) by linarith
  then have l: "ps \<noteq> [] \<and> last ps = p" using blocks_above_nonempty [of ?m height p ps bp] q p assms(5) by simp
  have "target = nHeight bw \<longrightarrow> q = Some w" using \<open>q = walk _ _ _\<close> by auto
  then have "target = nHeight bw \<longrightarrow> p = w" using p(1) by simp
  then show ?thesis using l by simp
qed

lemma connect_loop_spec:
  "connect_loop A pblock w most old height first st ns = Returns (e, first', st', ns') \<Longrightarrow> node_ok B H ns \<Longrightarrow>
   mapBlockIndex (ns_tree ns) w = Some bw \<Longrightarrow> most = nHeight bw \<Longrightarrow> - 1 \<le> height \<Longrightarrow> height \<le> most \<Longrightarrow>
   safe B H ns (e \<noteq> System_failure) st' ns' \<and>
   (e = All_connected \<longrightarrow> (if height = most then Tip (ns_tree ns') = Tip (ns_tree ns) else Tip (ns_tree ns') = Some w)) \<and>
   (e = Better_tip \<longrightarrow> better_tip old (ns_tree ns'))"
proof (induction A pblock w most old height first st ns arbitrary: bw rule: connect_loop.induct)
  case (1 A pblock w most old height first st ns)
  show ?case
  proof (cases "height = most")
    case True
    then have "connect_loop A pblock w most old height first st ns = Returns (All_connected, first, st, ns)"
      by (subst connect_loop.simps) simp
    then show ?thesis using 1(2,3) True by (simp add: safe_def)
  next
    case False
    let ?t = "min (height + 32) most"
    obtain ps where ps: "batch_of (mapBlockIndex (ns_tree ns)) w height ?t = Some ps"
      using 1(2) False by (auto simp: connect_loop.simps [of A pblock w most old height first st ns] obind_Returns assertion_Returns)
    have inv: "tree_inv B H (ns_tree ns)" using 1(3) by (simp add: node_ok_def)
    have lst: "ps \<noteq> [] \<and> (?t = most \<longrightarrow> last ps = w)"
      using batch_of_last [OF inv 1(4) _ _ _ ps] 1(5-7) False by auto
    then obtain p0 ps0 where pc: "ps = p0 # ps0" by (cases ps) auto
    obtain e1 st1 ns1 where c: "connect_batch A pblock w old p0 ps st ns = Returns (e1, st1, ns1)"
      "(if e1 = All_connected then connect_loop A pblock w most old ?t (Some p0) st1 ns1 else Returns (e1, Some p0, st1, ns1)) =
        Returns (e, first', st', ns')"
      using 1(2) False ps unfolding pc by (auto simp: connect_loop.simps [of A pblock w most old height first st ns] obind_Returns assertion_Returns Let_def simp del: connect_batch.simps split: if_splits)
    note s = connect_batch_spec [OF c(1) 1(3)]
    show ?thesis
    proof (cases "e1 = All_connected")
      case False
      then show ?thesis using c(2) s by (auto simp: batch_done_def)
    next
      case True
      then have n: "node_ok B H ns1" "follows ns ns1" "Tip (ns_tree ns1) = Some (last ps)" using s lst by (auto simp: safe_def batch_done_def)
      obtain b1 where b1: "mapBlockIndex (ns_tree ns1) w = Some b1" "order_key b1 = order_key bw" using follows_entry [OF n(2) 1(4)] by blast
      have h: "most = nHeight b1" using b1(2) 1(5) by (simp add: order_key_def skeleton_def)
      have c2: "connect_loop A pblock w most old ?t (Some p0) st1 ns1 = Returns (e, first', st', ns')" using c(2) True by simp
      have t: "- 1 \<le> ?t" "?t \<le> most" using 1(6,7) by auto
      have q: "Some p0 = (case ps of [] \<Rightarrow> None | p # x \<Rightarrow> Some p)" using pc by simp
      have "safe B H ns1 (e \<noteq> System_failure) st' ns' \<and>
        (e = All_connected \<longrightarrow> (if ?t = most then Tip (ns_tree ns') = Tip (ns_tree ns1) else Tip (ns_tree ns') = Some w)) \<and>
        (e = Better_tip \<longrightarrow> better_tip old (ns_tree ns'))"
        by (rule 1(1) [OF False q refl c2 n(1) b1(1) h t])
      then show ?thesis using safe_trans [OF n(2)] n(3) lst False by (auto split: if_splits)
    qed
  qed
qed

text \<open>One step.\<close>

lemma finish_step_spec:
  assumes "finish_step A (e, first, st, ns) = Returns (ok, st', ns')" "safe B H ns0 (e \<noteq> System_failure) st ns"
  shows "safe B H ns0 ok st' ns' \<and> (ok \<longrightarrow> e \<noteq> System_failure \<and> Tip (ns_tree ns') = Tip (ns_tree ns))"
proof (cases "e = System_failure")
  case False
  then have s: "node_ok B H ns" "follows ns0 ns" using assms(2) by (auto simp: safe_def)
  obtain bt where b: "ok" "ns' = ns\<lparr>ns_tree := bt\<rparr>" "tree_kept B H (ns_tree ns) bt"
    using assms(1) False fork_warning_kept new_fork_kept
    by (auto simp: finish_step_def obind_Returns assertion_Returns bind_eq_Some_conv split: if_splits)
  have n: "node_ok B H ns'" "follows ns ns'" "chainActive (ns_tree ns') = chainActive (ns_tree ns)"
    by (rule node_ok_tree [OF s(1)]; use b s(1) in \<open>simp add: node_ok_def\<close>)+
  then show ?thesis using follows_trans [OF s(2) n(2)] False by (simp add: safe_def Tip_def)
qed (use assms in \<open>auto simp: finish_step_def safe_def\<close>)

lemma FindFork_bounds:
  assumes "tree_inv B H bt" "mapBlockIndex bt w = Some bw" "FindFork (mapBlockIndex bt) (chainActive bt) w = Some (Some q)"
  shows "\<exists>bq. mapBlockIndex bt q = Some bq \<and> nHeight bq \<le> nHeight bw"
proof -
  have wf: "wf_index (mapBlockIndex bt)" by (rule tree_inv_wf [OF assms(1)])
  have "is_fork (mapBlockIndex bt) (chainActive bt) w (Some q)"
    using FindFork_spec [OF wf _ assms(2), of "chainActive bt"] assms(1,3) by (auto simp: tree_inv_def)
  then obtain bq where q: "mapBlockIndex bt q = Some bq" "height_of (mapBlockIndex bt) q \<le> height_of (mapBlockIndex bt) w"
    using ancestors_in [OF wf assms(2)] by (auto simp: is_fork_def)
  then show ?thesis using height_of_eq [OF wf q(1)] height_of_eq [OF wf assms(2)] by auto
qed

lemma ActivateBestChainStep_spec:
  assumes "ActivateBestChainStep A st w pblock ns = Some (Returns (ok, st', ns'))" "node_ok B H ns"
  shows "safe B H ns ok st' ns'"
proof -
  let ?m = "mapBlockIndex (ns_tree ns)"
  have inv: "tree_inv B H (ns_tree ns)" using assms(2) by (simp add: node_ok_def)
  obtain bw fork where w: "?m w = Some bw" "FindFork ?m (chainActive (ns_tree ns)) w = Some fork"
    using assms(1) by (auto simp: ActivateBestChainStep_def Let_def split: option.splits)
  define h where "h = (case Option.bind fork ?m of None \<Rightarrow> - 1 | Some f \<Rightarrow> nHeight f)"
  obtain dok st1 ns1 where d: "disconnect_to A st fork ns = Some (Returns (dok, st1, ns1))"
    "(if \<not> dok then Returns (False, st1, ns1)
      else obind (connect_loop A pblock w (nHeight bw) (tip_index (ns_tree ns)) h None st1 ns1) (finish_step A)) = Returns (ok, st', ns')"
    using assms(1) w unfolding h_def by (auto simp: ActivateBestChainStep_def Let_def obind_Returns)
  note s1 = disconnect_to_spec [OF d(1), of B H, rule_format, OF assms(2) refl]
  show ?thesis
  proof (cases dok)
    case True
    then have n: "node_ok B H ns1" "follows ns ns1" using s1 by (auto simp: safe_def)
    obtain e first st2 ns2 where l: "connect_loop A pblock w (nHeight bw) (tip_index (ns_tree ns)) h None st1 ns1 = Returns (e, first, st2, ns2)"
      "finish_step A (e, first, st2, ns2) = Returns (ok, st', ns')" using d(2) True by (auto simp: obind_Returns)
    obtain b1 where b1: "mapBlockIndex (ns_tree ns1) w = Some b1" "order_key b1 = order_key bw" using follows_entry [OF n(2) w(1)] by blast
    have hb: "nHeight bw = nHeight b1" using b1(2) by (simp add: order_key_def skeleton_def)
    have "- 1 \<le> h \<and> h \<le> nHeight bw"
    proof (cases "Option.bind fork ?m")
      case None
      then show ?thesis using wf_height [OF tree_inv_wf [OF inv] w(1)] by (simp add: h_def)
    next
      case (Some f)
      then obtain q where "fork = Some q" "?m q = Some f" by (auto simp: bind_eq_Some_conv)
      then show ?thesis using FindFork_bounds [OF inv w(1), of q] w(2) wf_height [OF tree_inv_wf [OF inv], of q f] Some by (simp add: h_def)
    qed
    then have "safe B H ns1 (e \<noteq> System_failure) st2 ns2" using connect_loop_spec [OF l(1) n(1) b1(1) hb] by simp
    then show ?thesis using finish_step_spec [OF l(2)] safe_trans [OF n(2)] by blast
  qed (use d(2) s1 in auto)
qed

section \<open>The best chain is active\<close>

text \<open>No usable candidate is better than the tip.\<close>

definition best_active :: "(bid \<Rightarrow> nat) \<Rightarrow> block_tree \<Rightarrow> bool" where
  "best_active addr bt \<longleftrightarrow> (\<forall>c bc. c \<in> set (setBlockIndexCandidates bt) \<longrightarrow> usable (mapBlockIndex bt) (chainActive bt) c \<longrightarrow>
     mapBlockIndex bt c = Some bc \<longrightarrow> (\<exists>tip. tip_index bt = Some tip \<and> \<not> CBlockIndexWorkComparator addr tip bc))"

lemma comparator_order: 
  assumes "order_key a = order_key a'" "order_key b = order_key b'"
  shows "CBlockIndexWorkComparator addr a b = CBlockIndexWorkComparator addr a' b'"
  using assms by (simp add: CBlockIndexWorkComparator_def order_key_def skeleton_def)

lemma follows_walk:
  assumes "tree_follows bt bt'" shows "walk (mapBlockIndex bt') n p = walk (mapBlockIndex bt) n p"
proof (induction n arbitrary: p)
  case (Suc n)
  have "map_option order_key (mapBlockIndex bt' p) = map_option order_key (mapBlockIndex bt p)" using assms by (simp add: tree_follows_def)
  then show ?case using Suc by (cases "mapBlockIndex bt p"; cases "mapBlockIndex bt' p") (auto simp: order_key_def skeleton_def split: option.splits)
qed simp

lemma chain_is_tip_path:
  assumes "tree_inv B H bt" "Tip bt = Some p" "chain_Contains (mapBlockIndex bt) (chainActive bt) q"
  shows "q \<in> ancestors (mapBlockIndex bt) p"
proof -
  let ?m = "mapBlockIndex bt"
  obtain t b where t: "?m t = Some b" "chainActive bt = path ?m t"
    using assms(1,2) by (auto simp: tree_inv_def chain_ok_def Tip_def)
  have "Tip bt = Tip (bt\<lparr>chainActive := path ?m t\<rparr>)" using t(2) by (simp add: Tip_def)
  then have "Tip bt = Some t" using Tip_of_path [of ?m t bt] by simp
  then have "t = p" using assms(2) by simp
  obtain bq where "?m q = Some bq" using assms(3) by (auto simp: chain_Contains_def split: option.splits)
  then have "Some q \<in> set (path ?m t)" using path_Contains [OF tree_inv_wf [OF assms(1)] t(1)] assms(3) t(2) by simp
  then obtain n where "Some q = walk ?m n p" by (fastforce simp: path_def \<open>t = p\<close> simp del: upt_Suc)
  then show ?thesis by (auto simp: ancestors_def intro: exI [of _ n])
qed

lemma best_active_after:
  assumes mw: "most_work addr bt r" and f: "tree_follows bt bt'" and i: "tree_inv B H bt'"
    and c: "case r of None \<Rightarrow> chainActive bt' = chainActive bt | Some p \<Rightarrow> Tip bt' = Some p"
  shows "best_active addr bt'"
  unfolding best_active_def
proof (intro allI impI)
  let ?m = "mapBlockIndex bt" and ?m' = "mapBlockIndex bt'"
  fix x bx' assume x: "x \<in> set (setBlockIndexCandidates bt')" "usable ?m' (chainActive bt') x" "?m' x = Some bx'"
  have key: "map_option order_key (?m' q) = map_option order_key (?m q)" for q using f by (simp add: tree_follows_def)
  have anc: "ancestors ?m' q = ancestors ?m q" for q by (simp add: ancestors_def follows_walk [OF f])
  have cand: "x \<in> set (setBlockIndexCandidates bt)" using x(1) f by (auto simp: tree_follows_def)
  have contains: "chain_Contains ?m' ch q = chain_Contains ?m ch q" for ch q
    using key [of q] by (cases "?m q"; cases "?m' q") (auto simp: chain_Contains_def order_key_def skeleton_def)
  have use: "usable ?m (chainActive bt) x"
    if keep: "\<And>q bq. q \<in> ancestors ?m x \<Longrightarrow> ?m q = Some bq \<Longrightarrow> chain_Contains ?m' (chainActive bt') q \<Longrightarrow>
      chain_Contains ?m (chainActive bt) q \<or> usable_entry bq"
    unfolding usable_def
  proof (intro ballI allI impI)
    fix q bq assume q: "q \<in> ancestors ?m x" "?m q = Some bq"
    then obtain bq' where q': "?m' q = Some bq'" using key [of q] by (cases "?m' q") auto
    have "chain_Contains ?m' (chainActive bt') q \<or> usable_entry bq'" using x(2) q q' by (simp add: usable_def anc)
    then show "chain_Contains ?m (chainActive bt) q \<or> usable_entry bq" using keep [OF q] f q(2) q' by (auto simp: tree_follows_def)
  qed
  show "\<exists>tip. tip_index bt' = Some tip \<and> \<not> CBlockIndexWorkComparator addr tip bx'"
  proof (cases r)
    case None
    then have "chainActive bt' = chainActive bt" using c by simp
    then have "usable ?m (chainActive bt) x" using use contains by simp
    then show ?thesis using mw cand None by (auto simp: most_work_def Let_def)
  next
    case (Some p)
    then have t: "Tip bt' = Some p" and p: "usable ?m (chainActive bt) p"
      and best: "\<And>c bc bp. c \<in> set (setBlockIndexCandidates bt) \<Longrightarrow> usable ?m (chainActive bt) c \<Longrightarrow> ?m c = Some bc \<Longrightarrow> ?m p = Some bp \<Longrightarrow>
        \<not> CBlockIndexWorkComparator addr bp bc"
      using c mw by (auto simp: most_work_def Let_def)
    have "usable ?m (chainActive bt) x"
    proof (rule use)
      fix q bq assume q: "?m q = Some bq" "chain_Contains ?m' (chainActive bt') q"
      then have "q \<in> ancestors ?m p" using chain_is_tip_path [OF i t q(2)] anc by simp
      then show "chain_Contains ?m (chainActive bt) q \<or> usable_entry bq" using p q(1) by (simp add: usable_def)
    qed
    moreover obtain bx where bx: "?m x = Some bx" "order_key bx = order_key bx'" using key [of x] x(3) by (cases "?m x") auto
    moreover obtain bp' where bp': "?m' p = Some bp'"
      using i t by (cases "chainActive bt' = []") (auto simp: tree_inv_def chain_ok_def Tip_def path_nth)
    moreover obtain bp where bp: "?m p = Some bp" "order_key bp = order_key bp'" using key [of p] bp' by (cases "?m p") auto
    ultimately have "\<not> CBlockIndexWorkComparator addr bp' bx'" using best [OF cand _ bx(1) bp(1)] comparator_order [of bp bp' bx bx'] by simp
    then show ?thesis using t bp' by (simp add: tip_index_def)
  qed
qed

lemma best_active_dirty: "best_active addr (bt\<lparr>setDirtyBlockIndex := d\<rparr>) = best_active addr bt"
  by (simp add: best_active_def tip_index_def Tip_def)

lemma ActivateBestChain_spec:
  assumes "ActivateBestChain A n st pblock ns = Some r"
  shows "node_ok B H ns \<longrightarrow> (\<forall>ok st' ns'. r = Returns (ok, st', ns') \<longrightarrow> safe B H ns ok st' ns' \<and>
    (ok \<and> (\<forall>n. \<not> ac_shutdown A n) \<longrightarrow> best_active (ai_addr (ac_accept A)) (ns_tree ns')))"
proof (rule ActivateBestChain.raw_induct [OF _ assms, where P = "\<lambda>A n st pblock ns r. node_ok B H ns \<longrightarrow> (\<forall>ok st' ns'. r = Returns (ok, st', ns') \<longrightarrow>
    safe B H ns ok st' ns' \<and> (ok \<and> (\<forall>n. \<not> ac_shutdown A n) \<longrightarrow> best_active (ai_addr (ac_accept A)) (ns_tree ns')))"], intro impI allI)
  fix rec A n st pblock ns r ok st' ns'
  assume IH: "\<And>A n st pblock ns r. rec A n st pblock ns = Some r \<Longrightarrow> node_ok B H ns \<longrightarrow> (\<forall>ok st' ns'. r = Returns (ok, st', ns') \<longrightarrow>
      safe B H ns ok st' ns' \<and> (ok \<and> (\<forall>n. \<not> ac_shutdown A n) \<longrightarrow> best_active (ai_addr (ac_accept A)) (ns_tree ns')))"
    and body: "(if ac_shutdown A n then Some (Returns (True, st, ns))
      else case FindMostWorkChain (ai_addr (ac_accept A)) (ns_tree ns) of
        None \<Rightarrow> None
      | Some (r, bt) \<Rightarrow>
        (case r of None \<Rightarrow> Some (Returns (True, st, ns\<lparr>ns_tree := bt\<rparr>))
         | Some p \<Rightarrow>
           if Tip bt = Some p then Some (Returns (True, st, ns\<lparr>ns_tree := bt\<rparr>))
           else (case ActivateBestChainStep A st p
                        (case pblock of None \<Rightarrow> None
                         | Some block \<Rightarrow> if ne_block_hash (ai_env (ac_accept A)) block = p then Some block else None)
                        (ns\<lparr>ns_tree := bt\<rparr>) of
                   None \<Rightarrow> None
                 | Some res \<Rightarrow>
                   (case res of Throws \<Rightarrow> Some Throws | Asserts \<Rightarrow> Some Asserts
                    | Returns x \<Rightarrow> (case x of (ok, st, ns) \<Rightarrow>
                        if \<not> ok then Some (Returns (False, st, ns))
                        else if \<not> ai_ibd (ac_accept A) \<and> Tip (ns_tree ns) = None then Some Asserts
                        else if Tip (ns_tree ns) \<noteq> Some p then rec A (n + 1) st pblock ns
                        else Some (FlushStateToDisk A st FLUSH_STATE_PERIODIC ns)))))) = Some r"
    and n: "node_ok B H ns" and r: "r = Returns (ok, st', ns')"
  let ?goal = "safe B H ns ok st' ns' \<and> (ok \<and> (\<forall>n. \<not> ac_shutdown A n) \<longrightarrow> best_active (ai_addr (ac_accept A)) (ns_tree ns'))"
  have inv: "tree_inv B H (ns_tree ns)" using n by (simp add: node_ok_def)
  obtain q bt where fm: "FindMostWorkChain (ai_addr (ac_accept A)) (ns_tree ns) = Some (q, bt)" "most_work (ai_addr (ac_accept A)) (ns_tree ns) q"
    using FindMostWorkChain_spec [OF tree_inv_ready [OF inv]] by blast
  let ?ns = "ns\<lparr>ns_tree := bt\<rparr>"
  have k: "tree_kept B H (ns_tree ns) (ns_tree ?ns)" using FindMostWorkChain_kept [OF fm(1), of B H] inv by simp
  have n1: "node_ok B H ?ns" "follows ns ?ns" "chainActive bt = chainActive (ns_tree ns)"
    using node_ok_tree [OF n k] n by (simp_all add: node_ok_def)
  show ?goal
  proof (cases "ac_shutdown A n \<or> q = None \<or> Tip bt = q")
    case True
    then show ?thesis
    proof (cases "ac_shutdown A n")
      case False
      then have e: "ok" "st' = st" "ns' = ?ns" using True body fm(1) r by (auto split: option.splits)
      have "best_active (ai_addr (ac_accept A)) bt"
        by (rule best_active_after [OF fm(2), of bt B H])
          (use n1 True False k in \<open>auto simp: follows_def node_ok_def split: option.splits\<close>)
      then show ?thesis using e n1 by (simp add: safe_def)
    qed (use body r n in \<open>auto simp: safe_def\<close>)
  next
    case False
    then obtain p where p: "q = Some p" by auto
    let ?pb = "case pblock of None \<Rightarrow> None | Some block \<Rightarrow> if ne_block_hash (ai_env (ac_accept A)) block = p then Some block else None"
    obtain sok st1 ns1 where s: "ActivateBestChainStep A st p ?pb ?ns = Some (Returns (sok, st1, ns1))"
      "(if \<not> sok then Some (Returns (False, st1, ns1))
        else if \<not> ai_ibd (ac_accept A) \<and> Tip (ns_tree ns1) = None then Some Asserts
        else if Tip (ns_tree ns1) \<noteq> Some p then rec A (n + 1) st1 pblock ns1
        else Some (FlushStateToDisk A st1 FLUSH_STATE_PERIODIC ns1)) = Some r"
    proof -
      have b: "(case ActivateBestChainStep A st p ?pb ?ns of None \<Rightarrow> None
         | Some res \<Rightarrow> (case res of Throws \<Rightarrow> Some Throws | Asserts \<Rightarrow> Some Asserts
            | Returns x \<Rightarrow> (case x of (ok, st, ns) \<Rightarrow>
                if \<not> ok then Some (Returns (False, st, ns))
                else if \<not> ai_ibd (ac_accept A) \<and> Tip (ns_tree ns) = None then Some Asserts
                else if Tip (ns_tree ns) \<noteq> Some p then rec A (n + 1) st pblock ns
                else Some (FlushStateToDisk A st FLUSH_STATE_PERIODIC ns)))) = Some r"
        using body fm(1) False p by simp
      show ?thesis
      proof (cases "ActivateBestChainStep A st p ?pb ?ns")
        case None
        then show ?thesis using b by simp
      next
        case (Some res)
        then show ?thesis using b r that by (cases res) auto
      qed
    qed
    note sf = ActivateBestChainStep_spec [OF s(1) n1(1)]
    show ?thesis
    proof (cases sok)
      case False
      then show ?thesis using s(2) r sf safe_trans [OF n1(2)] by auto
    next
      case True
      then have n2: "node_ok B H ns1" "follows ns ns1" using sf follows_trans [OF n1(2)] by (auto simp: safe_def)
      show ?thesis
      proof (cases "Tip (ns_tree ns1) = Some p")
        case False
        have "rec A (n + 1) st1 pblock ns1 = Some r"
        proof (cases "\<not> ai_ibd (ac_accept A) \<and> Tip (ns_tree ns1) = None")
          case True
          then show ?thesis using s(2) \<open>sok\<close> r by simp
        next
          case no: False
          show ?thesis using s(2) \<open>sok\<close> no False by simp
        qed
        from IH [OF this] n2(1) r
        have "safe B H ns1 ok st' ns' \<and> (ok \<and> (\<forall>n. \<not> ac_shutdown A n) \<longrightarrow> best_active (ai_addr (ac_accept A)) (ns_tree ns'))" by simp
        then show ?thesis using safe_trans [OF n2(2), of B H ok st' ns'] by simp
      next
        case t: True
        obtain fok st2 ns2 where fl: "FlushStateToDisk A st1 FLUSH_STATE_PERIODIC ns1 = Returns (fok, st2, ns2)" "only_flushed ns1 ns2"
          "if fok then st2 = st1 \<and> flushed A FLUSH_STATE_PERIODIC ns1 ns2 else vs_mode st2 = MODE_ERROR"
          using FlushStateToDisk_spec [of ns1 A st1 FLUSH_STATE_PERIODIC] n2(1) by (auto simp: node_ok_def)
        have e: "ok = fok" "st' = st2" "ns' = ns2" using s(2) True t r fl(1) by auto
        have b: "best_active (ai_addr (ac_accept A)) (ns_tree ns1)"
          by (rule best_active_after [OF fm(2), of _ B H]) (use n2 t p in \<open>auto simp: follows_def node_ok_def\<close>)
        note nk = node_ok_tree [OF n2(1) only_flushed_kept [OF fl(2)]]
        show ?thesis
        proof (cases fok)
          case True
          then have "node_ok B H ns2" "follows ns1 ns2" using nk fl(3) by (auto simp: flushed_def)
          then show ?thesis using e b fl(2) follows_trans [OF n2(2)] by (auto simp: safe_def only_flushed_def best_active_dirty)
        qed (use fl(3) e in \<open>auto simp: safe_def\<close>)
      qed
    qed
  qed
qed

end
