(* ===== verification/Node_Steps.thy ===== *)
theory Node_Steps
  imports Activation_Safe
begin

text \<open>
  The node as a state machine: new blocks and headers, the activation of the best chain, blocks taken out of the chain and
  back, conflicting locks and writes to disk are the steps, and the node stays in order along every run.
\<close>

unbundle bit_operations_syntax


section \<open>Blocks that stay unknown\<close>

text \<open>\<open>m'\<close> knows no block that \<open>m\<close> does not know, but for one.\<close>

definition knows_only :: "bid set \<Rightarrow> block_tree \<Rightarrow> block_tree \<Rightarrow> bool" where
  "knows_only P bt bt' \<longleftrightarrow> dom (mapBlockIndex bt') \<subseteq> dom (mapBlockIndex bt) \<union> P"

lemma knows_only_same [simp, intro]: "mapBlockIndex bt' = mapBlockIndex bt \<Longrightarrow> knows_only P bt bt'"
  by (auto simp: knows_only_def)

lemma knows_only_trans: "knows_only P a b \<Longrightarrow> knows_only P b c \<Longrightarrow> knows_only P a c"
  unfolding knows_only_def by blast

lemma knows_only_mono: "knows_only {} a b \<Longrightarrow> knows_only P a b"
  by (auto simp: knows_only_def)

lemma knows_only_entry: "mapBlockIndex bt p = Some bi \<Longrightarrow> mapBlockIndex bt' = (mapBlockIndex bt)(p \<mapsto> new) \<Longrightarrow> knows_only {} bt bt'"
  by (auto simp: knows_only_def)

lemma knows_only_None: "knows_only P bt bt' \<Longrightarrow> mapBlockIndex bt p = None \<Longrightarrow> p \<notin> P \<Longrightarrow> mapBlockIndex bt' p = None"
  unfolding knows_only_def dom_def by blast

lemma link_to_parent_knows:
  assumes "link_to_parent bt hash hp new = Some (new1, m1)"
  shows "dom m1 = dom (mapBlockIndex bt)"
proof (cases "mapBlockIndex bt hp")
  case None
  then show ?thesis using assms by (simp add: link_to_parent_def)
next
  case (Some prev)
  then have "m1 = (mapBlockIndex bt)(hp \<mapsto> prev\<lparr>pnext := Some hash\<rparr>)"
    using assms unfolding link_to_parent_def Let_def by (simp add: bind_eq_Some_conv) blast
  then show ?thesis using Some by auto
qed

lemma AddToBlockIndex_knows:
  assumes "AddToBlockIndex E block bt = Some (p, bt')"
  shows "knows_only {ne_block_hash E block} bt bt'"
proof (cases "mapBlockIndex bt (ne_block_hash E block)")
  case None
  then obtain new1 m1 new2 where l: "link_to_parent bt (ne_block_hash E block) (hashPrevBlock block) (new_CBlockIndex (ne_block_hash E block) block) = Some (new1, m1)"
    "mapBlockIndex bt' = m1(ne_block_hash E block \<mapsto> new2)"
    using assms None unfolding AddToBlockIndex_def Let_def
    by (auto simp: bind_eq_Some_conv update_index_def simp del: fun_upd_apply)
  then show ?thesis using link_to_parent_knows [OF l(1)] by (auto simp: knows_only_def)
qed (use assms in \<open>auto simp: AddToBlockIndex_def Let_def\<close>)

lemma link_block_knows: "link_block E literal addr p bt = Some (ok, bt') \<Longrightarrow> knows_only {} bt bt'"
  unfolding link_block_def Let_def bind_eq_Some_conv
  apply (elim exE conjE)
  subgoal for bi x
    by (cases x) (rule knows_only_entry [of bt p bi bt' "snd x"]; auto simp: bind_eq_Some_conv update_index_def split: if_splits option.splits)
  done

lemma link_loop_knows:
  assumes "link_loop E literal addr queue bt = Some bt'" shows "knows_only {} bt bt'"
proof (rule link_loop.raw_induct [OF _ assms, where P = "\<lambda>E literal addr queue bt bt'. knows_only {} bt bt'"])
  fix rec E literal addr queue bt bt'
  assume IH: "\<And>E literal addr queue bt bt'. rec E literal addr queue bt = Some bt' \<Longrightarrow> knows_only {} bt bt'"
    and body: "(case queue of [] \<Rightarrow> Some bt
      | p # queue \<Rightarrow>
          (case link_block E literal addr p bt of None \<Rightarrow> None
           | Some (ok, bt) \<Rightarrow>
               if \<not> ok then rec E literal addr queue bt
               else rec E literal addr (queue @ map snd (filter (\<lambda>e. fst e = Some p) (mapBlocksUnlinked bt)))
                      (bt\<lparr>mapBlocksUnlinked := filter (\<lambda>e. fst e \<noteq> Some p) (mapBlocksUnlinked bt)\<rparr>))) = Some bt'"
  show "knows_only {} bt bt'"
  proof (cases queue)
    case (Cons p ps)
    then obtain ok bt1 bt2 ps2 where l: "link_block E literal addr p bt = Some (ok, bt1)" "rec E literal addr ps2 bt2 = Some bt'"
      "mapBlockIndex bt2 = mapBlockIndex bt1"
      using body by (auto split: option.splits if_splits)
    have "knows_only {} bt1 bt'" using knows_only_trans [OF knows_only_same [OF l(3)] IH [OF l(2)]] .
    then show ?thesis using link_block_knows [OF l(1)] knows_only_trans by blast
  qed (use body in simp)
qed

lemma received_knows:
  assumes "ReceivedBlockTransactions E literal addr block p pos bt = Some bt'" shows "knows_only {} bt bt'"
proof -
  obtain bi new bt1 where b: "mapBlockIndex bt p = Some bi" "mapBlockIndex bt1 = (mapBlockIndex bt)(p \<mapsto> new)"
    "link_loop E literal addr [p] bt1 = Some bt' \<or> mapBlockIndex bt' = mapBlockIndex bt1"
    using assms unfolding ReceivedBlockTransactions_def Let_def bind_eq_Some_conv
    apply (elim exE conjE)
    subgoal for bi new
      by (rule that [of bi "(update_index p new bt)\<lparr>setStakeSeen :=
          (if IsProofOfStake block then insert (prevoutStake new, nStakeTime new) (setStakeSeen bt) else setStakeSeen bt)\<rparr>" new])
        (auto simp: update_index_def bind_eq_Some_conv split: option.splits if_splits)
    done
  have "knows_only {} bt1 bt'" using b(3) link_loop_knows knows_only_same by blast
  then show ?thesis using knows_only_entry [OF b(1,2)] knows_only_trans by blast
qed

lemma AcceptBlockHeader_knows:
  assumes "AcceptBlockHeader A block st bt = Returns (ok, p, st', bt')"
  shows "knows_only {ne_block_hash (ai_env A) block} bt bt'"
proof (cases "mapBlockIndex bt (ne_block_hash (ai_env A) block)")
  case (Some bi)
  then have "bt' = bt" using assms by (auto simp: AcceptBlockHeader_def Let_def split: if_splits)
  then show ?thesis by simp
next
  case None
  then have "bt' = bt \<or> (\<exists>q. AddToBlockIndex (ai_env A) block bt = Some (q, bt'))"
    using assms
    by (auto simp: AcceptBlockHeader_def Let_def obind_Returns assertion_Returns split: prod.splits bool.splits sum.splits if_splits)
  then show ?thesis using AddToBlockIndex_knows knows_only_same by blast
qed

lemma accept_body_knows:
  assumes "accept_body A block p pindex st bt = Returns (ok, q, st', bt')" "mapBlockIndex bt p = Some pindex"
  shows "knows_only {} bt bt'"
proof -
  obtain ok0 st0 rejected where c: "CheckBlock (ai_env A) (check_io_of A block bt) block True True (mapRejectedBlocks bt) st = (ok0, st0, rejected)"
    by (metis prod_cases3)
  define bt1 where "bt1 = bt\<lparr>mapRejectedBlocks := rejected\<rparr>"
  obtain ok1 st1 where x: "(if ok0 then ContextualCheckBlock (ai_env A) (chainActive bt1) (pe_adjusted (ai_pointers A)) block st0
      (Option.bind (pprev pindex) (mapBlockIndex bt1)) else (ok0, st0)) = (ok1, st1)" by fastforce
  have "bt' = bt1 \<or> bt' = update_index p (pindex\<lparr>nStatus := nStatus pindex OR BLOCK_FAILED_VALID\<rparr>) bt1 \<or>
    (\<exists>pos. ReceivedBlockTransactions (ai_env A) (ai_literal A) (ai_addr A) block p pos bt1 = Some bt')"
    using assms(1) unfolding accept_body_def Let_def c prod.case bt1_def [symmetric] x
    by (auto simp: obind_Returns assertion_Returns split: if_splits option.splits)
  then have "knows_only {} bt1 bt'"
    using received_knows knows_only_entry [of bt1 p pindex bt'] assms(2) by (auto simp: bt1_def update_index_def)
  then show ?thesis by (simp add: knows_only_def bt1_def)
qed

lemma AcceptBlock_knows:
  assumes "AcceptBlock A block st bt = Returns (ok, p, st', bt')"
  shows "knows_only {ne_block_hash (ai_env A) block} bt bt'"
proof (cases "find_parent (ai_env A) block (mapBlockIndex bt) st")
  case (Inl s)
  then show ?thesis using assms by (auto simp: AcceptBlock_def Let_def)
next
  case (Inr prev)
  obtain wok proofs where w: "(if ne_block_hash (ai_env A) block = hashGenesisBlock (ne_params (ai_env A)) then Returns (True, mapProofOfStake bt)
      else CheckWork (ai_env A) (ai_pointers A) (mapBlockIndex bt) (chainActive bt) (ai_close A) (ai_found A block) (ai_evict A) block prev
        (mapProofOfStake bt)) = Returns (wok, proofs)"
    using assms Inr by (auto simp: AcceptBlock_def Let_def obind_Returns)
  define bt1 where "bt1 = bt\<lparr>mapProofOfStake := proofs\<rparr>"
  note unf = AcceptBlock_def Let_def Inr sum.case w obind.simps prod.case bt1_def [symmetric]
  have m1: "mapBlockIndex bt1 = mapBlockIndex bt" by (simp add: bt1_def)
  have "knows_only {ne_block_hash (ai_env A) block} bt1 bt'"
  proof (cases wok)
    case False
    then have "bt' = bt1" using assms unfolding unf by simp
    then show ?thesis by simp
  next
    case True
    obtain hok q st1 bt2 where h: "AcceptBlockHeader A block st bt1 = Returns (hok, q, st1, bt2)"
      using assms True unfolding unf by (auto simp: obind_Returns)
    have k: "knows_only {ne_block_hash (ai_env A) block} bt1 bt2" by (rule AcceptBlockHeader_knows [OF h])
    consider "bt' = bt2" | q' pindex where "q = Some q'" "mapBlockIndex bt2 q' = Some pindex" "accept_body A block q' pindex st1 bt2 = Returns (ok, p, st', bt')"
      using assms True h unfolding unf by (cases q) (auto split: option.splits if_splits)
    then show ?thesis
    proof cases
      case 2
      then show ?thesis using accept_body_knows [OF 2(3,2)] knows_only_mono knows_only_trans [OF k] by blast
    qed (use k in simp)
  qed
  then show ?thesis by (simp add: knows_only_def bt1_def)
qed

lemma AcceptBlock_keeps:
  assumes "AcceptBlock A block st bt = Returns (ok, p, st', bt')" "tree_inv B H bt" "int B * (H + 1) < 2 ^ 32" "length (vtx block) \<le> B"
    "height_fits H block (mapBlockIndex bt)"
  shows "tree_inv B H bt'" "chainActive bt' = chainActive bt"
proof -
  have "\<exists>r. CheckWork (ai_env A) (ai_pointers A) (mapBlockIndex bt) (chainActive bt) (ai_close A) (ai_found A block) (ai_evict A) block prev
      (mapProofOfStake bt) = Returns r"
    if "find_parent (ai_env A) block (mapBlockIndex bt) st = Inr prev"
      "ne_block_hash (ai_env A) block \<noteq> hashGenesisBlock (ne_params (ai_env A))" for prev
    using assms(1) that by (auto simp: AcceptBlock_def Let_def obind_Returns)
  from AcceptBlock_spec [where A = A and st = st, OF assms(2-5) this] assms(1) show "tree_inv B H bt'" "chainActive bt' = chainActive bt" by auto
qed


section \<open>Blocks taken out by hand and taken back\<close>

lemma node_ok_more:
  assumes "node_ok B H ns" "tree_inv B H bt" "chainActive bt = chainActive (ns_tree ns)" "mapBlockIndex bt (bu_zero WIDTH256) = None"
  shows "node_ok B H (ns\<lparr>ns_tree := bt\<rparr>)"
  using assms by (simp add: node_ok_def in_sync_def Tip_def)

lemma invalidate_loop_spec:
  assumes "invalidate_loop A st p ns = Some r"
  shows "node_ok B H ns \<longrightarrow> (\<forall>ok st' ns'. r = Returns (ok, st', ns') \<longrightarrow> safe B H ns ok st' ns' \<and>
    (ok \<longrightarrow> \<not> chain_Contains (mapBlockIndex (ns_tree ns')) (chainActive (ns_tree ns')) p))"
proof (rule invalidate_loop.raw_induct [OF _ assms, where P = "\<lambda>A st p ns r. node_ok B H ns \<longrightarrow> (\<forall>ok st' ns'. r = Returns (ok, st', ns') \<longrightarrow>
    safe B H ns ok st' ns' \<and> (ok \<longrightarrow> \<not> chain_Contains (mapBlockIndex (ns_tree ns')) (chainActive (ns_tree ns')) p))"], intro impI allI)
  fix rec A st p ns r ok st' ns'
  assume IH: "\<And>A st p ns r. rec A st p ns = Some r \<Longrightarrow> node_ok B H ns \<longrightarrow> (\<forall>ok st' ns'. r = Returns (ok, st', ns') \<longrightarrow>
      safe B H ns ok st' ns' \<and> (ok \<longrightarrow> \<not> chain_Contains (mapBlockIndex (ns_tree ns')) (chainActive (ns_tree ns')) p))"
    and body: "(if \<not> chain_Contains (mapBlockIndex (ns_tree ns)) (chainActive (ns_tree ns)) p then Some (Returns (True, st, ns))
      else case Option.bind (Tip (ns_tree ns)) (\<lambda>t. mark_failed BLOCK_FAILED_CHILD t (ns_tree ns)) of
        None \<Rightarrow> Some Asserts
      | Some bt \<Rightarrow>
        (case DisconnectTip A st (ns\<lparr>ns_tree := bt\<rparr>) of
           Throws \<Rightarrow> Some Throws | Asserts \<Rightarrow> Some Asserts
         | Returns r \<Rightarrow> (case r of (ok, st, ns) \<Rightarrow>
             if \<not> ok then Some (Returns (False, st, ns)) else rec A st p ns))) = Some r"
    and n: "node_ok B H ns" and r: "r = Returns (ok, st', ns')"
  show "safe B H ns ok st' ns' \<and> (ok \<longrightarrow> \<not> chain_Contains (mapBlockIndex (ns_tree ns')) (chainActive (ns_tree ns')) p)"
  proof (cases "chain_Contains (mapBlockIndex (ns_tree ns)) (chainActive (ns_tree ns)) p")
    case True
    then obtain t bt where m: "mark_failed BLOCK_FAILED_CHILD t (ns_tree ns) = Some bt"
      "(case DisconnectTip A st (ns\<lparr>ns_tree := bt\<rparr>) of
           Throws \<Rightarrow> Some Throws | Asserts \<Rightarrow> Some Asserts
         | Returns r \<Rightarrow> (case r of (ok, st, ns) \<Rightarrow>
             if \<not> ok then Some (Returns (False, st, ns)) else rec A st p ns)) = Some r"
      using body r by (cases "Tip (ns_tree ns)") (auto split: option.splits)
    let ?ns = "ns\<lparr>ns_tree := bt\<rparr>"
    have "tree_kept B H (ns_tree ns) (ns_tree ?ns)" using mark_failed_kept [OF m(1)] by simp
    then have n1: "node_ok B H ?ns" "follows ns ?ns" using node_ok_tree [OF n, of ?ns] n by (simp_all add: node_ok_def)
    obtain dok st1 ns1 where d: "DisconnectTip A st ?ns = Returns (dok, st1, ns1)"
      "(if \<not> dok then Some (Returns (False, st1, ns1)) else rec A st1 p ns1) = Some r"
      using m(2) r by (cases "DisconnectTip A st ?ns") auto
    note ds = DisconnectTip_spec [OF d(1) n1(1)]
    show ?thesis
    proof (cases dok)
      case False
      then have "unmoved B H ?ns st1 ns1" using ds by simp
      then show ?thesis using False d(2) r safe_trans [OF n1(2) unmoved_safe] by auto
    next
      case True
      then have k: "node_ok B H ns1" "follows ns ns1" using ds follows_trans [OF n1(2)] by auto
      have "rec A st1 p ns1 = Some r" using d(2) True by simp
      from IH [OF this] k(1) r have "safe B H ns1 ok st' ns' \<and>
        (ok \<longrightarrow> \<not> chain_Contains (mapBlockIndex (ns_tree ns')) (chainActive (ns_tree ns')) p)" by simp
      then show ?thesis using safe_trans [OF k(2), of B H ok st' ns'] by simp
    qed
  qed (use body r n in \<open>auto simp: safe_def\<close>)
qed

lemma readd_candidates_spec:
  "readd_candidates addr qs bt = Some bt' \<Longrightarrow> tree_inv B H bt \<Longrightarrow>
   tree_inv B H bt' \<and> chainActive bt' = chainActive bt \<and> mapBlockIndex bt' = mapBlockIndex bt"
proof (induction addr qs bt rule: readd_candidates.induct)
  case (2 addr q qs bt)
  show ?case
  proof (cases "mapBlockIndex bt q")
    case None
    then show ?thesis using 2 by simp
  next
    case (Some bi)
    obtain valid where v: "bi_IsValid BLOCK_VALID_TRANSACTIONS bi = Some valid" using 2(4) Some by (auto split: option.splits)
    show ?thesis
    proof (cases "valid \<and> nChainTx bi \<noteq> 0")
      case False
      then show ?thesis using 2(1,2,4,5) Some v by (auto split: if_splits)
    next
      case True
      then obtain tip where t: "tip_index bt = Some tip" using 2(4) Some v by (auto split: option.splits)
      let ?bt = "if CBlockIndexWorkComparator addr bi tip then bt else bt\<lparr>setBlockIndexCandidates := insert_candidate q (setBlockIndexCandidates bt)\<rparr>"
      have i: "tree_inv B H ?bt"
        by (rule tree_inv_more [OF 2(5)])
          (use 2(5) Some True in \<open>auto simp: tree_inv_def insert_candidate_def\<close>)
      have "readd_candidates addr qs ?bt = Some bt'" using 2(4) Some v True t by simp
      from 2(3) [OF Some v _ t this i] True show ?thesis by auto
    qed
  qed
qed simp

lemma InvalidateBlock_spec:
  assumes r: "InvalidateBlock A st p ns = Some (Returns (ok, st', ns'))" and n: "node_ok B H ns"
  shows "(vs_mode st' = MODE_ERROR \<and> \<not> ok) \<or> node_ok B H ns'"
    "ok \<Longrightarrow> \<not> chain_Contains (mapBlockIndex (ns_tree ns')) (chainActive (ns_tree ns')) p"
proof -
  obtain bt where m: "mark_failed BLOCK_FAILED_VALID p (ns_tree ns) = Some bt"
    using r by (auto simp: InvalidateBlock_def split: option.splits)
  let ?ns = "ns\<lparr>ns_tree := bt\<rparr>"
  have "tree_kept B H (ns_tree ns) (ns_tree ?ns)" using mark_failed_kept [OF m] by simp
  then have n1: "node_ok B H ?ns" using node_ok_tree [OF n, of ?ns] n by (simp add: node_ok_def)
  obtain lok st1 ns1 where l: "invalidate_loop A st p ?ns = Some (Returns (lok, st1, ns1))"
    "(if \<not> lok then Returns (False, st1, ns1)
      else obind (assertion (Option.bind (readd_candidates (ai_addr (ac_accept A)) (known_blocks (ns_tree ns1)) (ns_tree ns1)) (InvalidChainFound (ai_ibd (ac_accept A)) p)))
              (\<lambda>bt. Returns (True, st1, ns1\<lparr>ns_tree := bt\<rparr>))) = Returns (ok, st', ns')"
    using r m by (auto simp: InvalidateBlock_def obind_Returns)
  have s: "safe B H ?ns lok st1 ns1" "lok \<Longrightarrow> \<not> chain_Contains (mapBlockIndex (ns_tree ns1)) (chainActive (ns_tree ns1)) p"
    using invalidate_loop_spec [OF l(1), of B H] n1 by auto
  have "((vs_mode st' = MODE_ERROR \<and> \<not> ok) \<or> node_ok B H ns') \<and>
    (ok \<longrightarrow> \<not> chain_Contains (mapBlockIndex (ns_tree ns')) (chainActive (ns_tree ns')) p)"
  proof (cases lok)
    case False
    then show ?thesis using l(2) s(1) by (auto simp: safe_def)
  next
    case True
    then have n2: "node_ok B H ns1" using s(1) by (auto simp: safe_def)
    obtain bt1 bt2 where b: "readd_candidates (ai_addr (ac_accept A)) (known_blocks (ns_tree ns1)) (ns_tree ns1) = Some bt1"
      "InvalidChainFound (ai_ibd (ac_accept A)) p bt1 = Some bt2" "ok" "ns' = ns1\<lparr>ns_tree := bt2\<rparr>"
      using l(2) True by (auto simp: obind_Returns assertion_Returns bind_eq_Some_conv)
    have i1: "tree_inv B H bt1" "chainActive bt1 = chainActive (ns_tree ns1)" "mapBlockIndex bt1 = mapBlockIndex (ns_tree ns1)"
      using readd_candidates_spec [OF b(1)] n2 by (auto simp: node_ok_def)
    have k: "tree_kept B H bt1 bt2" by (rule invalid_chain_kept [OF b(2)])
    have "node_ok B H ns'" unfolding b(4)
      by (rule node_ok_more [OF n2]) (use k i1 n2 tree_kept_None [OF k] in \<open>auto simp: tree_kept_def node_ok_def\<close>)
    moreover have "chain_Contains (mapBlockIndex bt2) c p = chain_Contains (mapBlockIndex bt1) c p" for c
    proof -
      have "map_option order_key (mapBlockIndex bt2 p) = map_option order_key (mapBlockIndex bt1 p)" using k by (simp add: tree_kept_def tree_follows_def)
      then show ?thesis by (cases "mapBlockIndex bt1 p"; cases "mapBlockIndex bt2 p") (auto simp: chain_Contains_def order_key_def skeleton_def)
    qed
    ultimately show ?thesis using s(2) [OF True] k i1 b(4) by (simp add: tree_kept_def)
  qed
  then show "(vs_mode st' = MODE_ERROR \<and> \<not> ok) \<or> node_ok B H ns'"
    "ok \<Longrightarrow> \<not> chain_Contains (mapBlockIndex (ns_tree ns')) (chainActive (ns_tree ns')) p" by simp_all
qed

lemma clear_failed_inv:
  assumes inv: "tree_inv B H bt" and b: "mapBlockIndex bt p = Some bi"
  shows "tree_inv B H (update_index p (clear_failed bi) bt)"
proof (rule update_inv [OF inv b])
  have z: "(s AND NOT BLOCK_FAILED_MASK) AND BLOCK_VALID_MASK = s AND BLOCK_VALID_MASK"
    "(s AND NOT BLOCK_FAILED_MASK) AND BLOCK_HAVE_DATA = s AND BLOCK_HAVE_DATA" for s :: u32
  proof -
    have "NOT BLOCK_FAILED_MASK AND BLOCK_VALID_MASK = BLOCK_VALID_MASK" "NOT BLOCK_FAILED_MASK AND BLOCK_HAVE_DATA = BLOCK_HAVE_DATA"
      by (simp_all add: block_flag_defs)
    then show "(s AND NOT BLOCK_FAILED_MASK) AND BLOCK_VALID_MASK = s AND BLOCK_VALID_MASK"
      "(s AND NOT BLOCK_FAILED_MASK) AND BLOCK_HAVE_DATA = s AND BLOCK_HAVE_DATA" by (simp_all add: and.assoc)
  qed
  have "BLOCK_VALID_TREE \<le> nStatus bi AND BLOCK_VALID_MASK" using inv b by (auto simp: tree_inv_def tree_ok_def entry_ok_def)
  then show "BLOCK_VALID_TREE \<le> nStatus (clear_failed bi) AND BLOCK_VALID_MASK" by (simp add: clear_failed_def z)
  have "tx_ok B H (mapBlockIndex bt) bi" using inv b by (auto simp: tree_inv_def)
  then show "tx_ok B H (mapBlockIndex bt) (clear_failed bi)" by (simp add: tx_ok_def clear_failed_def z)
  show "nStatus bi AND BLOCK_HAVE_DATA \<noteq> 0 \<Longrightarrow> nStatus (clear_failed bi) AND BLOCK_HAVE_DATA \<noteq> 0" by (simp add: clear_failed_def z)
qed (simp_all add: clear_failed_def skeleton_def)

text \<open>What \<open>ReconsiderBlock\<close> keeps.\<close>

definition reopened :: "nat \<Rightarrow> int \<Rightarrow> block_tree \<Rightarrow> block_tree \<Rightarrow> bool" where
  "reopened B H bt bt' \<longleftrightarrow> (tree_inv B H bt \<longrightarrow> tree_inv B H bt') \<and> chainActive bt' = chainActive bt \<and> knows_only {} bt bt'"

lemma reopened_refl [simp]: "reopened B H bt bt"
  by (simp add: reopened_def)

lemma reopened_trans: "reopened B H a b \<Longrightarrow> reopened B H b c \<Longrightarrow> reopened B H a c"
  using knows_only_trans by (auto simp: reopened_def)

lemma clear_failed_reopened: "mapBlockIndex bt p = Some bi \<Longrightarrow> reopened B H bt (update_index p (clear_failed bi) bt)"
  using clear_failed_inv knows_only_entry [of bt p bi] by (auto simp: reopened_def update_index_def)

lemma nChainTx_clear_failed [simp]: "nChainTx (clear_failed bi) = nChainTx bi"
  by (simp add: clear_failed_def)

lemma reconsider_entry_reopened:
  assumes "reconsider_entry addr h p q bt = Some bt'" shows "reopened B H bt bt'"
proof (cases "bt' = bt")
  case False
  then obtain bi cs where b: "mapBlockIndex bt q = Some bi"
    "set cs \<subseteq> set (setBlockIndexCandidates bt) \<union> (if nChainTx bi \<noteq> 0 then {q} else {})"
    "bt' = (update_index q (clear_failed bi) bt)\<lparr>setBlockIndexCandidates := cs,
       pindexBestInvalid := (if pindexBestInvalid bt = Some q then None else pindexBestInvalid bt)\<rparr>"
    using assms unfolding reconsider_entry_def Let_def bind_eq_Some_conv
    apply (elim exE conjE)
    subgoal for bi valid
      apply (cases valid; simp only: if_True if_False bind_eq_Some_conv)
       apply simp
      apply (elim exE conjE)
      subgoal for anc
        apply (cases "anc \<noteq> Some p"; simp only: if_True if_False bind_eq_Some_conv)
         apply simp
        apply (elim exE conjE)
        subgoal for valid2 cs
          by (rule that [of bi cs])
            (auto simp: update_index_def insert_candidate_def split: if_splits option.splits)
        done
      done
    done
  have "reopened B H (update_index q (clear_failed bi) bt) bt'"
  proof -
    note e = b(3)
    have "tree_inv B H bt'" if i: "tree_inv B H (update_index q (clear_failed bi) bt)"
    proof (rule tree_inv_more [OF i])
      show "\<forall>p\<in>set (setBlockIndexCandidates bt'). \<exists>bj. mapBlockIndex (update_index q (clear_failed bi) bt) p = Some bj \<and> nChainTx bj \<noteq> 0"
      proof
        fix x assume "x \<in> set (setBlockIndexCandidates bt')"
        then have "x \<in> set (setBlockIndexCandidates bt) \<or> (x = q \<and> nChainTx bi \<noteq> 0)" using b(2) e by (auto split: if_splits)
        then show "\<exists>bj. mapBlockIndex (update_index q (clear_failed bi) bt) x = Some bj \<and> nChainTx bj \<noteq> 0"
        proof
          assume "x \<in> set (setBlockIndexCandidates bt)"
          then show ?thesis using i by (auto simp: tree_inv_def update_index_def)
        qed (simp add: update_index_def clear_failed_def)
      qed
    qed (use i in \<open>auto simp: e tree_inv_def\<close>)
    then show ?thesis by (simp add: reopened_def e)
  qed
  then show ?thesis using clear_failed_reopened [OF b(1)] reopened_trans by blast
qed simp

lemma reconsider_all_reopened: "reconsider_all addr h p qs bt = Some bt' \<Longrightarrow> reopened B H bt bt'"
proof (induction addr h p qs bt rule: reconsider_all.induct)
  case (2 addr h p q qs bt)
  then obtain bt1 where "reconsider_entry addr h p q bt = Some bt1" "reconsider_all addr h p qs bt1 = Some bt'" by (auto split: option.splits)
  then show ?case using 2(1) reconsider_entry_reopened reopened_trans by blast
qed simp

lemma clear_ancestors_reopened:
  assumes "clear_ancestors p bt = Some bt'" shows "reopened B H bt bt'"
proof (rule clear_ancestors.raw_induct [OF _ assms, where P = "\<lambda>p bt bt'. reopened B H bt bt'"])
  fix rec p bt bt'
  assume IH: "\<And>p bt bt'. rec p bt = Some bt' \<Longrightarrow> reopened B H bt bt'"
    and body: "(case p of None \<Rightarrow> Some bt
      | Some p \<Rightarrow> (case mapBlockIndex bt p of None \<Rightarrow> None
         | Some bi \<Rightarrow> rec (pprev bi)
             (if nStatus bi AND BLOCK_FAILED_MASK \<noteq> 0 then update_index p (clear_failed bi) bt else bt))) = Some bt'"
  show "reopened B H bt bt'"
  proof (cases p)
    case (Some q)
    then obtain bi where b: "mapBlockIndex bt q = Some bi" using body by (auto split: option.splits)
    show ?thesis
      by (rule reopened_trans [OF _ IH]) (use body Some b clear_failed_reopened [OF b] in auto)
  qed (use body in simp)
qed

lemma ReconsiderBlock_reopened: "ReconsiderBlock addr p bt = Some bt' \<Longrightarrow> reopened B H bt bt'"
  using reconsider_all_reopened clear_ancestors_reopened reopened_trans
  by (auto simp: ReconsiderBlock_def bind_eq_Some_conv) blast


section \<open>A new block\<close>

lemma ProcessNewBlock_spec:
  assumes r: "ProcessNewBlock A st peer block ns = Some (Returns (ok, st', ns'))" and n: "node_ok B H ns"
    and lim: "int B * (H + 1) < 2 ^ 32" "length (vtx block) \<le> B" "height_fits H block (mapBlockIndex (ns_tree ns))"
    and h: "ne_block_hash (ai_env (ac_accept A)) block \<noteq> bu_zero WIDTH256"
  shows "(vs_mode st' = MODE_ERROR \<and> \<not> ok) \<or> node_ok B H ns'"
    "ok \<Longrightarrow> \<forall>n. \<not> ac_shutdown A n \<Longrightarrow> best_active (ai_addr (ac_accept A)) (ns_tree ns')"
proof -
  obtain checked st1 rejected where c: "run_CheckBlock A block (ns_tree ns) st = (checked, st1, rejected)" by (metis prod_cases3)
  define bt1 where "bt1 = (ns_tree ns)\<lparr>mapRejectedBlocks := rejected\<rparr>"
  have k1: "tree_kept B H (ns_tree ns) (ns_tree (ns\<lparr>ns_tree := bt1\<rparr>))" by (rule tree_kept_same) (simp_all add: bt1_def)
  then have n1: "node_ok B H (ns\<lparr>ns_tree := bt1\<rparr>)" using node_ok_tree [OF n k1] n by (simp add: node_ok_def)
  note unf = ProcessNewBlock_def c prod.case Let_def bt1_def [symmetric]
  have "((vs_mode st' = MODE_ERROR \<and> \<not> ok) \<or> node_ok B H ns') \<and>
    (ok \<and> (\<forall>n. \<not> ac_shutdown A n) \<longrightarrow> best_active (ai_addr (ac_accept A)) (ns_tree ns'))"
  proof (cases "ns' = ns\<lparr>ns_tree := bt1\<rparr> \<and> \<not> ok")
    case False
    then obtain aok p st2 bt2 where a: "AcceptBlock (ac_accept A) block st1 bt1 = Returns (aok, p, st2, bt2)"
      "(if \<not> aok then Some (Returns (False, st2, ns\<lparr>ns_tree := bt2\<rparr>))
        else ActivateBestChain A 0 st2 (Some block) (ns\<lparr>ns_tree := bt2\<rparr>)) = Some (Returns (ok, st', ns'))"
      using r unfolding unf by (auto split: option.splits if_splits outcome.splits)
    have i1: "tree_inv B H bt1" "mapBlockIndex bt1 (bu_zero WIDTH256) = None" using n1 by (simp_all add: node_ok_def)
    have "height_fits H block (mapBlockIndex bt1)" using lim(3) by (simp add: bt1_def)
    note kk = AcceptBlock_keeps [OF a(1) i1(1) lim(1,2) this]
    have "mapBlockIndex bt2 (bu_zero WIDTH256) = None" using knows_only_None [OF AcceptBlock_knows [OF a(1)] i1(2)] h by simp
    then have n2: "node_ok B H (ns\<lparr>ns_tree := bt2\<rparr>)" using node_ok_more [OF n kk(1)] kk(2) by (simp add: bt1_def)
    show ?thesis
    proof (cases aok)
      case True
      then have ab: "ActivateBestChain A 0 st2 (Some block) (ns\<lparr>ns_tree := bt2\<rparr>) = Some (Returns (ok, st', ns'))" using a(2) by simp
      show ?thesis using ActivateBestChain_spec [OF ab, of B H] n2 by (auto simp: safe_def)
    qed (use a(2) n2 in auto)
  qed (use n1 in simp)
  then show "(vs_mode st' = MODE_ERROR \<and> \<not> ok) \<or> node_ok B H ns'"
    "ok \<Longrightarrow> \<forall>n. \<not> ac_shutdown A n \<Longrightarrow> best_active (ai_addr (ac_accept A)) (ns_tree ns')" by simp_all
qed

section \<open>Replaying blocks\<close>

text \<open>A system error stays in the state of the validation.\<close>

lemma error_stays [simp]: "vs_mode (state_Error r st) = MODE_ERROR"
  by (simp add: state_Error_def Let_def)

lemma FlushStateToDisk_error:
  assumes "FlushStateToDisk A st mode ns = Returns (ok, st', ns')" shows "st' = st \<or> vs_mode st' = MODE_ERROR"
  using assms by (auto simp: FlushStateToDisk_def flush_coins_def Let_def obind_Returns split: if_splits option.splits prod.splits)

lemma DisconnectTip_error:
  assumes "DisconnectTip A st ns = Returns (ok, st', ns')" shows "st' = st \<or> vs_mode st' = MODE_ERROR"
  using assms FlushStateToDisk_error
  by (fastforce simp: DisconnectTip_def disconnect_done_def Let_def obind_Returns split: if_splits option.splits prod.splits)

lemma disconnect_times_spec:
  "disconnect_times A k st ns = Returns (st', ns') \<Longrightarrow> vs_mode st' = MODE_ERROR \<or> (node_ok B H ns \<longrightarrow> node_ok B H ns') \<and> vs_mode st \<noteq> MODE_ERROR"
proof (induction k arbitrary: st ns)
  case (Suc k)
  obtain ok st1 ns1 where d: "DisconnectTip A st ns = Returns (ok, st1, ns1)" "disconnect_times A k st1 ns1 = Returns (st', ns')"
    using Suc(2) by (auto simp: obind_Returns)
  note Suc(1) [OF d(2)]
  moreover have "node_ok B H ns \<longrightarrow> node_ok B H ns1 \<or> vs_mode st1 = MODE_ERROR"
    using DisconnectTip_spec [OF d(1), of B H] by (auto simp: unmoved_def split: if_splits)
  ultimately show ?case using DisconnectTip_error [OF d(1)] by auto
qed auto

section \<open>The life of a node\<close>

text \<open>
  One operation on the node, which does not report a system error.  The surroundings \<open>A\<close> may be different each time.  The
  bounds are those of the tree; no block hashes to zero.
\<close>

inductive node_step :: "nat \<Rightarrow> int \<Rightarrow> node_state \<Rightarrow> node_state \<Rightarrow> bool" for B H where
  new_block: "node_step B H ns ns'"
    if "ProcessNewBlock A st peer block ns = Some (Returns (ok, st', ns'))" "vs_mode st' \<noteq> MODE_ERROR" "length (vtx block) \<le> B"
      "height_fits H block (mapBlockIndex (ns_tree ns))" "ne_block_hash (ai_env (ac_accept A)) block \<noteq> bu_zero WIDTH256"
| new_header: "node_step B H ns (ns\<lparr>ns_tree := bt\<rparr>)"
    if "AcceptBlockHeader A block st (ns_tree ns) = Returns (ok, p, st', bt)" "height_fits H block (mapBlockIndex (ns_tree ns))"
      "ne_block_hash (ai_env A) block \<noteq> bu_zero WIDTH256"
| best_chain: "node_step B H ns ns'"
    if "ActivateBestChain A n st pblock ns = Some (Returns (ok, st', ns'))" "vs_mode st' \<noteq> MODE_ERROR"
| taken_out: "node_step B H ns ns'"
    if "InvalidateBlock A st p ns = Some (Returns (ok, st', ns'))" "vs_mode st' \<noteq> MODE_ERROR"
| taken_back: "node_step B H ns (ns\<lparr>ns_tree := bt\<rparr>)"
    if "ReconsiderBlock addr p (ns_tree ns) = Some bt"
| conflict: "node_step B H ns ns'"
    if "DisconnectBlockAndInputs A st txLock ns = Returns (ok, st', ns')" "vs_mode st' \<noteq> MODE_ERROR"
| written: "node_step B H ns ns'"
    if "FlushStateToDisk A st mode ns = Returns (ok, st', ns')" "vs_mode st' \<noteq> MODE_ERROR"

lemma node_step_ok:
  assumes "node_step B H ns ns'" "node_ok B H ns" "int B * (H + 1) < 2 ^ 32" shows "node_ok B H ns'"
  using assms(1,2)
proof (induction rule: node_step.induct)
  case (new_block A st peer block ns ok st' ns')
  then show ?case using ProcessNewBlock_spec(1) [OF new_block(1,6) assms(3) new_block(3-5)] by simp
next
  case (new_header A block st ns ok p st' bt)
  have i: "tree_inv B H (ns_tree ns)" "mapBlockIndex (ns_tree ns) (bu_zero WIDTH256) = None" using new_header(4) by (simp_all add: node_ok_def)
  show ?case
    by (rule node_ok_more [OF new_header(4)])
      (use AcceptBlockHeader_spec [OF i(1) new_header(2), of A st] new_header(1,3) knows_only_None [OF AcceptBlockHeader_knows [OF new_header(1)] i(2)]
       in auto)
next
  case (best_chain A n st pblock ns ok st' ns')
  then show ?case using ActivateBestChain_spec [OF best_chain(1), of B H] by (auto simp: safe_def)
next
  case (taken_out A st p ns ok st' ns')
  then show ?case using InvalidateBlock_spec(1) [OF taken_out(1,3)] by simp
next
  case (taken_back addr p ns bt)
  have "reopened B H (ns_tree ns) bt" by (rule ReconsiderBlock_reopened [OF taken_back(1)])
  then show ?case using node_ok_more [OF taken_back(2), of bt] taken_back(2) knows_only_None [of "{}" "ns_tree ns" bt]
    by (auto simp: reopened_def node_ok_def)
next
  case (conflict A st txLock ns ok st' ns')
  then have "ns' = ns \<or> (\<exists>k. disconnect_times A k st ns = Returns (st', ns'))"
    by (auto simp: DisconnectBlockAndInputs_def obind_Returns split: option.splits if_splits)
  then show ?case using conflict(2,3) disconnect_times_spec [of A _ st ns st' ns' B H] by auto
next
  case (written A st mode ns ok st' ns')
  then obtain "only_flushed ns ns'" "flushed A mode ns ns'"
    using FlushStateToDisk_spec [of ns A st mode] by (auto simp: node_ok_def split: if_splits)
  then show ?case using node_ok_tree(1) [OF written(3) only_flushed_kept] by (simp add: flushed_def)
qed

definition fresh_node :: node_state where
  "fresh_node = \<lparr>ns_tree = empty_tree, pcoinsTip = (\<lparr>db_coins = Map.empty, db_best = None\<rparr>, new_CCoinsViewCache),
     mapUsedStakePointers = Map.empty, rev_files = Map.empty, flush_count = 0\<rparr>"

lemma fresh_node_ok: "node_ok B H fresh_node"
proof -
  have "tip_good (pcoinsTip fresh_node)" by (simp add: fresh_node_def cache_good_def new_CCoinsViewCache_def)
  moreover have "in_sync fresh_node"
    by (simp add: in_sync_def fresh_node_def empty_tree_def Tip_def tip_best_alt new_CCoinsViewCache_def db_GetBestBlock_def)
  ultimately show ?thesis using empty_tree_inv [of B H] by (simp add: node_ok_def fresh_node_def empty_tree_def)
qed

section \<open>A node that starts\<close>


definition quiet_flush :: flush_io where
  "quiet_flush = \<lparr>fl_elapsed = True, fl_space = True, fl_files = None, fl_index = (\<lambda>_. None), fl_coins = None\<rparr>"

definition start_io :: activate_io where
  "start_io = \<lparr>ac_accept = sample_accept, ac_disk = (\<lambda>_. None), ac_junk = ([], []), ac_hashAssumeValid = small_hash 0,
     ac_nMinimumChainWork = bu_zero WIDTH256, ac_recent = (\<lambda>_. False), ac_threads = False, ac_synced = False, ac_superblocks = False,
     ac_cycle = 43200, ac_budget = (\<lambda>_. True), ac_index_written = (\<lambda>_. True), ac_undo_pos = (\<lambda>_. None), ac_undo_written = (\<lambda>_. True),
     ac_undo_readable = (\<lambda>_. True), ac_txindex_written = (\<lambda>_. True), ac_nCoinCacheSize = 100, ac_flush = (\<lambda>_. quiet_flush),
     ac_shutdown = (\<lambda>_. False)\<rparr>"

lemma start_fields [simp]: "ac_accept start_io = sample_accept" "ne_params (ai_env sample_accept) = (CMainParams (small_hash 100))\<lparr>fSkipProofOfWorkCheck := True\<rparr>"
  "ne_block_hash (ai_env sample_accept) b = small_hash 100" "hashGenesisBlock ((CMainParams (small_hash 100))\<lparr>fSkipProofOfWorkCheck := True\<rparr>) = small_hash 100"
  "ne_tx_hash (ai_env sample_accept) = ne_tx_hash small_env" "ai_ibd sample_accept = False" "ai_addr sample_accept = (\<lambda>_. 0)"
  "ai_pos sample_accept = Some \<lparr>dp_nFile = 0, dp_nPos = 8\<rparr>" "ai_known sample_accept = False" "ai_written sample_accept" "ai_literal sample_accept = 7"
  "ac_shutdown start_io n = False" "ac_nCoinCacheSize start_io = 100" "ac_flush start_io n = quiet_flush"
  by (simp_all add: start_io_def sample_accept_def CMainParams_def)

lemma mint_accepted:
  assumes "tip_index bt = None"
  shows "CheckBlock (ai_env sample_accept) (check_io_of sample_accept mint_block bt) mint_block True True rejected st = (True, st, rejected)"
proof -
  have "node_pair_hash (ai_env sample_accept) = node_pair_hash small_env" by (simp add: fun_eq_iff node_pair_hash_def sample_accept_def)
  then have root: "block_merkle (ai_env sample_accept) mint_block = block_merkle small_env mint_block" by (simp add: block_merkle_def)
  have tx: "tx_acceptable (ne_params (ai_env sample_accept)) tx = tx_acceptable (ne_params small_env) tx" for tx
    by (simp add: tx_acceptable_def CMainParams_def)
  have io: "ci_adjusted (check_io_of sample_accept mint_block bt) = 0" "ci_filter (check_io_of sample_accept mint_block bt) = False"
    "\<not> payee_refused (check_io_of sample_accept mint_block bt) mint_block" "GetBlockTime mint_block = 0"
    using assms by (simp_all add: check_io_of_def sample_accept_def stake_pointers_def payee_refused_def GetBlockTime_def mint_block_def
      block_SetNull_def header_SetNull_def block_of_header_def CBlockHeader.extend_def)
  have "block_acceptable (ai_env sample_accept) (check_io_of sample_accept mint_block bt) mint_block True True"
    using mint_block_acceptable io(3) unfolding block_acceptable_def root tx io(1,2,4)
    by (simp add: CheckProofOfWork_def)
  moreover obtain ok st' rejected' where c: "CheckBlock (ai_env sample_accept) (check_io_of sample_accept mint_block bt) mint_block True True rejected st = (ok, st', rejected')"
    by (metis prod_cases3)
  ultimately show ?thesis using CheckBlock_spec [OF _ _ c] by (auto simp: CMainParams_def COIN_def)
qed

definition genesis0 :: CBlockIndex where
  "genesis0 = (new_CBlockIndex (small_hash 100) mint_block)\<lparr>nChainWork := bu_zero WIDTH256, nStatus := BLOCK_VALID_TREE\<rparr>"

definition tree0 :: block_tree where
  "tree0 = empty_tree\<lparr>mapBlockIndex := [small_hash 100 \<mapsto> genesis0], known_blocks := [small_hash 100], setDirtyBlockIndex := [small_hash 100], pindexBestHeader := Some (small_hash 100)\<rparr>"

definition genesis1 :: CBlockIndex where
  "genesis1 = genesis0\<lparr>nTx := 1, nChainTx := 1, bi_nFile := 0, nDataPos := 8, nUndoPos := 0, nStatus := BLOCK_VALID_TRANSACTIONS OR BLOCK_HAVE_DATA,
     nSequenceId := 1\<rparr>"

definition tree1 :: block_tree where
  "tree1 = tree0\<lparr>mapBlockIndex := [small_hash 100 \<mapsto> genesis1], nBlockSequenceId := 2, setBlockIndexCandidates := [small_hash 100]\<rparr>"

lemma mint_fields [simp]: "hashPrevBlock mint_block = small_hash 0" "\<not> IsProofOfStake mint_block" "hd_nBits mint_block = 0" "vchBlockSig mint_block = []"
  "length (vtx mint_block) = 1"
  by (simp_all add: mint_block_def block_SetNull_def header_SetNull_def block_of_header_def CBlockHeader.extend_def IsProofOfStake_def small_hash_def bu_zero_def numeral_eq_Suc)

lemma add_genesis: "AddToBlockIndex (ai_env sample_accept) mint_block empty_tree = Some (small_hash 100, tree0)"
proof -
  have p: "GetBlockProof (new_CBlockIndex (small_hash 100) mint_block) = Some (bu_zero WIDTH256)" by code_simp
  have r: "RaiseValidity BLOCK_VALID_TREE (new_CBlockIndex (small_hash 100) mint_block\<lparr>nChainWork := bu_zero WIDTH256\<rparr>) =
    Some (True, genesis0)" by (simp add: RaiseValidity_def genesis0_def block_flag_defs new_CBlockIndex_def)
  have a: "bu_add (bu_zero WIDTH256) (bu_zero WIDTH256) = bu_zero WIDTH256" by code_simp
  have i: "pprev (new_CBlockIndex (small_hash 100) mint_block) = None" "bi_IsProofOfStake genesis0 = False"
    by (simp_all add: new_CBlockIndex_def genesis0_def bi_IsProofOfStake_def)
  show ?thesis
    by (simp add: AddToBlockIndex_def empty_tree_def link_to_parent_def Let_def p r a i prev_work_def update_index_def tree0_def)
qed

lemma header_accepted: "AcceptBlockHeader sample_accept mint_block st empty_tree = Returns (True, Some (small_hash 100), st, tree0)"
proof -
  have "mapBlockIndex empty_tree (small_hash 100) = None" by (simp add: empty_tree_def)
  then show ?thesis using add_genesis
    by (simp add: AcceptBlockHeader_def CheckBlockHeader_def find_parent_def ContextualCheckBlockHeader_def)
qed

lemma tree0_fields [simp]: "tip_index tree0 = None" "mapBlockIndex tree0 = [small_hash 100 \<mapsto> genesis0]" "Tip tree0 = None"
  by (simp_all add: tree0_def empty_tree_def tip_index_def Tip_def)

lemma genesis_received:
  "ReceivedBlockTransactions (ai_env sample_accept) 7 (\<lambda>_. 0) mint_block (small_hash 100) \<lparr>dp_nFile = 0, dp_nPos = 8\<rparr> tree0 = Some tree1"
proof -
  have e: "received_entry (ai_env sample_accept) (mapProofOfStake tree0) mint_block \<lparr>dp_nFile = 0, dp_nPos = 8\<rparr> genesis0 =
    Some (genesis1\<lparr>nChainTx := 0, nSequenceId := 0\<rparr>)"
    by (simp add: received_entry_def RaiseValidity_def genesis0_def genesis1_def block_flag_defs new_CBlockIndex_def Let_def)
  let ?t = "update_index (small_hash 100) (genesis1\<lparr>nChainTx := 0, nSequenceId := 0\<rparr>) tree0"
  have p: "pprev genesis1 = None" "nTx genesis1 = 1" by (simp_all add: genesis1_def genesis0_def new_CBlockIndex_def)
  have b: "(genesis1\<lparr>nChainTx := 0, nSequenceId := 0\<rparr>)\<lparr>nChainTx := 1, nSequenceId := 1\<rparr> = genesis1" by (simp add: genesis1_def)
  have l: "link_block (ai_env sample_accept) 7 (\<lambda>_. 0) (small_hash 100) ?t = Some (True, tree1)"
    using p b
    by (simp add: link_block_def update_index_def prev_chain_tx_def Let_def finalise_modifier_def tree1_def tree0_def empty_tree_def tip_index_def Tip_def
        insert_candidate_def)
  have "link_loop (ai_env sample_accept) 7 (\<lambda>_. 0) [small_hash 100] ?t = Some tree1"
    by (simp add: link_loop.simps l) (simp add: link_loop.simps tree1_def tree0_def empty_tree_def)
  then show ?thesis using e p by (simp add: ReceivedBlockTransactions_def Let_def update_index_def)
qed

lemma mint_final: "list_all (\<lambda>tx. IsFinalTx h a tx n t) (vtx mint_block)"
  by (simp add: mint_block_def IsFinalTx_def txin_IsFinal_def new_CTxIn_def Let_def)

lemma genesis_accepted: "AcceptBlock sample_accept mint_block st empty_tree = Returns (True, Some (small_hash 100), st, tree1)"
proof -
  have g: "nStatus genesis0 AND BLOCK_HAVE_DATA = 0" by (simp add: genesis0_def block_flag_defs)
  have "tree0\<lparr>mapRejectedBlocks := mapRejectedBlocks tree0\<rparr> = tree0" by simp
  moreover have "ContextualCheckBlock (ai_env sample_accept) c a mint_block st prev = (True, st)" for c a prev
    by (simp add: ContextualCheckBlock_def mint_final)
  moreover have "empty_tree\<lparr>mapProofOfStake := mapProofOfStake empty_tree\<rparr> = empty_tree" by simp
  ultimately show ?thesis using g header_accepted mint_accepted genesis_received
    by (simp add: AcceptBlock_def Let_def find_parent_def accept_body_def)
qed


definition node1 :: node_state where
  "node1 = fresh_node\<lparr>ns_tree := tree1\<rparr>"

definition start_tip :: "CCoinsViewDB \<times> CCoinsViewCache" where
  "start_tip = (\<lparr>db_coins = Map.empty, db_best = None\<rparr>, new_CCoinsViewCache\<lparr>cv_hashBlock := small_hash 100\<rparr>)"

definition tree2 :: block_tree where
  "tree2 = tree1\<lparr>chainActive := [Some (small_hash 100)]\<rparr>"

lemma tree1_fields [simp]: "tip_index tree1 = None" "mapBlockIndex tree1 = [small_hash 100 \<mapsto> genesis1]" "Tip tree1 = None" "chainActive tree1 = []"
  "setBlockIndexCandidates tree1 = [small_hash 100]" "tip_index tree2 = Some genesis1" "Tip tree2 = Some (small_hash 100)"
  by (simp_all add: tree2_def tree1_def tree0_def empty_tree_def tip_index_def Tip_def)

lemma genesis1_fields [simp]: "pprev genesis1 = None" "nHeight genesis1 = 0" "phashBlock genesis1 = small_hash 100" "nChainTx genesis1 = 1"
  "nStatus genesis1 = BLOCK_VALID_TRANSACTIONS OR BLOCK_HAVE_DATA"
  by (simp_all add: genesis1_def genesis0_def new_CBlockIndex_def)

definition stake_child :: CBlock where
  "stake_child = stake_block\<lparr>hashPrevBlock := small_hash 100\<rparr>"

text \<open>The fork to stake pointers is at height one.\<close>

definition stake_accept :: accept_io where
  "stake_accept = sample_accept\<lparr>ai_env := small_env\<lparr>ne_params := (CMainParams (small_hash 100))\<lparr>nStakePointerForkHeight := 1\<rparr>,
     ne_block_hash := (\<lambda>_. small_hash 101)\<rparr>\<rparr>"

theorem accept_block_keeps_tree_witness:
  "IsProofOfStake stake_child \<and> mapBlockIndex tree1 (hashPrevBlock stake_child) = Some genesis1 \<and>
   (\<exists>ok p st' bt'. AcceptBlock stake_accept stake_child new_CValidationState tree1 = Returns (ok, p, st', bt') \<and> tree_inv 1000 4000000 bt' \<and>
     chainActive bt' = [])"
proof -
  let ?E = "ai_env stake_accept"
  have e: "ne_params ?E = (CMainParams (small_hash 100))\<lparr>nStakePointerForkHeight := 1\<rparr>" "ai_pointers stake_accept = stake_pointers"
    "ne_Hash ?E s = small_hash 0" for s by (simp_all add: stake_accept_def sample_accept_def small_env_def)
  have zero_length: "length (small_hash 0) = WIDTH256" by (simp add: small_hash_def)
  have b: "IsProofOfStake stake_child" "hashPrevBlock stake_child = small_hash 100" "vtx stake_child = vtx stake_block"
    by (simp_all add: stake_child_def IsProofOfStake_def) (simp add: stake_block_def IsCoinStake_def new_CTxIn_def new_CTxOut_def
      outpoint_SetNull_def outpoint_IsNull_def bu_IsNull_def bu_zero_def list_all_iff IsProofOfStakeMarker_def txout_IsEmpty_def)
  have inv: "tree_inv 1000 4000000 tree1"
    using AcceptBlock_spec [OF empty_tree_inv, of 1000 4000000 mint_block sample_accept new_CValidationState] genesis_accepted
    by (auto simp: height_fits_def empty_tree_def)
  have g: "mapBlockIndex tree1 (phashBlock genesis1) = Some genesis1" "wf_index (mapBlockIndex tree1)"
    using inv by (simp_all add: tree_inv_def tree_ok_def)
  have "CheckStake ?E stake_pointers (mapBlockIndex tree1) c genesis1 stake_child h \<noteq> None" for c h
  proof (rule CheckStake_returns [OF g(2,1)])
    fix pos b tx out assume "pe_read_pos stake_pointers pos = Some b" "tx \<in> set (vtx b)" "out \<in> set (vout tx)"
    then show "ExtractDestination (pe_GetID stake_pointers) (scriptPubKey out) \<noteq> None"
      by (auto simp: collateral_block_def ExtractDestination_def Solver_keyid new_CTxOut_def simp del: GetScriptForDestination.simps)
  qed (simp_all add: e b zero_length CMainParams_def)
  then have v: "\<exists>r. stake_verdict ?E (ai_pointers stake_accept) (mapBlockIndex tree1) (chainActive tree1) (ai_found stake_accept stake_child)
      stake_child genesis1 = Returns r"
    by (auto simp: stake_verdict_def e)
  have "length (vtx stake_child) \<le> 1000" "height_fits 4000000 stake_child (mapBlockIndex tree1)"
      "length (bnProofOfWorkLimit (ne_params ?E)) = WIDTH256"
    by (simp_all add: b height_fits_def e CMainParams_def stake_block_def)
  then show ?thesis
    using accept_block_keeps_tree [OF inv, of stake_child stake_accept new_CValidationState] v b by auto
qed

lemma genesis_connected:
  "ConnectTip start_io st (small_hash 100) (Some mint_block) node1 =
   Returns (True, st, node1\<lparr>ns_tree := tree2, pcoinsTip := start_tip, flush_count := 1\<rparr>)"
proof -
  have c: "io_CheckBlock (connect_io_of start_io mint_block genesis1 tree1) = (\<lambda>st. (True, st))"
    by (simp add: connect_io_of_def run_CheckBlock_def mint_accepted)
  have tip: "pcoinsTip node1 = (\<lparr>db_coins = Map.empty, db_best = None\<rparr>, new_CCoinsViewCache)" by (simp add: node1_def fresh_node_def)
  have b: "cache_GetBestBlock tip_best (pcoinsTip node1, new_CCoinsViewCache) = (bu_zero WIDTH256, pcoinsTip node1, new_CCoinsViewCache)"
    unfolding tip by (simp add: cache_GetBestBlock_def tip_best_def Let_def db_GetBestBlock_def new_CCoinsViewCache_def)
  have cb: "ConnectBlock (ai_env sample_accept) (cache_GetCoins db_GetCoins) tip_best hs (connect_io_of start_io mint_block genesis1 tree1)
      mint_block genesis1 False used st (pcoinsTip node1, new_CCoinsViewCache) =
    Returns (True, st, genesis1, \<lparr>vtxundo = []\<rparr>, used, pcoinsTip node1, new_CCoinsViewCache\<lparr>cv_hashBlock := small_hash 100\<rparr>)" for hs used
    by (simp add: ConnectBlock_def c b connect_result_def SetBestBlock_def)
  have f: "cache_Flush cache_BatchWrite (pcoinsTip node1, new_CCoinsViewCache\<lparr>cv_hashBlock := small_hash 100\<rparr>) =
    Some (True, start_tip, new_CCoinsViewCache\<lparr>cv_hashBlock := small_hash 100\<rparr>)"
    unfolding tip by (simp add: cache_Flush_def cache_BatchWrite_def new_CCoinsViewCache_def start_tip_def)
  have n: "ns_tree node1 = tree1" by (simp add: node1_def)
  have a: "after_connect start_io mint_block (small_hash 100) genesis1 genesis1 st u (mapUsedStakePointers node1) start_tip node1 =
      node1\<lparr>pcoinsTip := start_tip\<rparr>" for u
    by (simp add: after_connect_def Let_def run_CheckBlock_def mint_accepted n; simp add: node1_def tree1_def)
  have p: "path [small_hash 100 \<mapsto> genesis1] (small_hash 100) = [Some (small_hash 100)]" by (simp add: path_def height_of_def)
  have w: "wf_index [small_hash 100 \<mapsto> genesis1]" by (simp add: wf_index_def wf_entry_def genesis1_def genesis0_def new_CBlockIndex_def)
  have st: "SetTip [small_hash 100 \<mapsto> genesis1] [] (Some (small_hash 100)) = Some [Some (small_hash 100)]"
    using SetTip_path [OF w, of "[]" "small_hash 100" genesis1] p by (simp add: chain_ok_def)
  have u: "UpdateTip (Some (small_hash 100)) (node1\<lparr>pcoinsTip := start_tip, flush_count := 1\<rparr>) =
      Some (node1\<lparr>ns_tree := tree2, pcoinsTip := start_tip, flush_count := 1\<rparr>)"
    by (simp add: UpdateTip_def n st Let_def tree2_def [symmetric])
  have fl: "FlushStateToDisk start_io st FLUSH_STATE_IF_NEEDED (node1\<lparr>pcoinsTip := start_tip\<rparr>) =
      Returns (True, st, node1\<lparr>pcoinsTip := start_tip, flush_count := 1\<rparr>)"
    by (simp add: FlushStateToDisk_def flush_needed_def start_tip_def new_CCoinsViewCache_def GetCacheSize_def node1_def fresh_node_def)
  show ?thesis
    using fl u by (simp add: ConnectTip_def n Let_def cb f a connect_done_def)
qed

lemma genesis_activated:
  "ActivateBestChain start_io 0 st (Some mint_block) node1 =
   Some (Returns (True, st, node1\<lparr>ns_tree := tree2\<lparr>setDirtyBlockIndex := []\<rparr>,
     pcoinsTip := (\<lparr>db_coins = Map.empty, db_best = Some (small_hash 100)\<rparr>, new_CCoinsViewCache\<lparr>cv_hashBlock := small_hash 100\<rparr>), flush_count := 2\<rparr>))"
proof -
  have n: "ns_tree node1 = tree1" by (simp add: node1_def)
  let ?h = "small_hash 100" and ?m = "[small_hash 100 \<mapsto> genesis1]"
  have w: "wf_index ?m" by (simp add: wf_index_def wf_entry_def genesis1_def genesis0_def new_CBlockIndex_def)
  have m: "FindMostWorkChain (\<lambda>_. 0) tree1 = Some (Some ?h, tree1)"
    by (simp add: FindMostWorkChain.simps scan_candidate.simps chain_Contains_def chain_nth_def block_flag_defs)
  have ga: "GetAncestor ?m ?h (- 1) = Some None" "GetAncestor ?m ?h 0 = Some (Some ?h)"
    using GetAncestor_walk [OF w, of ?h genesis1] by simp_all
  have ff: "FindFork ?m [] ?h = Some None"
    by (simp add: FindFork_def chain_Height_def ga find_fork_loop.simps)
  have d: "disconnect_to start_io st None node1 = Some (Returns (True, st, node1))" by (simp add: disconnect_to.simps n)
  have bo: "batch_of ?m ?h (- 1) 0 = Some [?h]"
    by (simp add: batch_of_def ga blocks_above.simps)
  let ?n1 = "node1\<lparr>ns_tree := tree2, pcoinsTip := start_tip, flush_count := 1\<rparr>"
  have pr: "PruneBlockIndexCandidates (\<lambda>_. 0) tree2 = Some tree2"
  proof -
    have "mapBlockIndex tree2 = ?m" "setBlockIndexCandidates tree2 = [?h]" by (simp_all add: tree2_def)
    moreover have "\<not> CBlockIndexWorkComparator (\<lambda>_. 0) genesis1 genesis1" 
    proof -
      have "bu_CompareTo (bu_zero WIDTH256) (bu_zero WIDTH256) = 0" by code_simp
      then show ?thesis by (simp add: CBlockIndexWorkComparator_def genesis1_def genesis0_def)
    qed
    moreover have "tree2\<lparr>setBlockIndexCandidates := [?h]\<rparr> = tree2" by (simp add: tree2_def tree1_def)
    ultimately show ?thesis by (simp add: PruneBlockIndexCandidates_def)
  qed
  have cb: "connect_batch start_io (Some mint_block) ?h None ?h [?h] st node1 = Returns (Better_tip, st, ?n1)"
    by (simp add: genesis_connected pr better_tip_def)
  have cl: "connect_loop start_io (Some mint_block) ?h 0 None (- 1) None st node1 = Returns (Better_tip, Some ?h, st, ?n1)"
    using cb by (simp add: connect_loop.simps [of _ _ _ 0 _ "- 1"] n bo del: connect_batch.simps)
  have fs: "finish_step start_io (Better_tip, Some ?h, st, ?n1) = Returns (True, st, ?n1)"
    by (simp add: finish_step_def CheckForkWarningConditions_def tree2_def tree1_def tree0_def empty_tree_def)
  have step: "ActivateBestChainStep start_io st ?h (Some mint_block) node1 = Some (Returns (True, st, ?n1))"
    using cl fs by (simp add: ActivateBestChainStep_def n ff d)
  have e: "node1\<lparr>ns_tree := tree1\<rparr> = node1" by (simp add: node1_def)
  have fl: "FlushStateToDisk start_io st FLUSH_STATE_PERIODIC ?n1 =
    Returns (True, st, node1\<lparr>ns_tree := tree2\<lparr>setDirtyBlockIndex := []\<rparr>,
     pcoinsTip := (\<lparr>db_coins = Map.empty, db_best = Some ?h\<rparr>, new_CCoinsViewCache\<lparr>cv_hashBlock := ?h\<rparr>), flush_count := 2\<rparr>)"
    by (simp add: FlushStateToDisk_def flush_needed_def quiet_flush_def Let_def flush_coins_def start_tip_def cache_Flush_def db_BatchWrite_def
        new_CCoinsViewCache_def tree2_def tree1_def tree0_def)
  show ?thesis using fl by (simp add: ActivateBestChain.simps n m step e)
qed


lemma genesis_processed:
  "\<exists>ns'. ProcessNewBlock start_io st True mint_block fresh_node = Some (Returns (True, st, ns')) \<and> Tip (ns_tree ns') = Some (small_hash 100) \<and>
     db_GetBestBlock (fst (pcoinsTip ns')) = small_hash 100"
proof -
  have t: "ns_tree fresh_node = empty_tree" "empty_tree\<lparr>mapRejectedBlocks := mapRejectedBlocks empty_tree\<rparr> = empty_tree" by (simp_all add: fresh_node_def)
  have n: "fresh_node\<lparr>ns_tree := empty_tree\<rparr> = fresh_node" "fresh_node\<lparr>ns_tree := tree1\<rparr> = node1" by (simp_all add: fresh_node_def node1_def)
  have "tip_index empty_tree = None" by (simp add: empty_tree_def tip_index_def Tip_def)
  then have c: "run_CheckBlock start_io mint_block empty_tree st = (True, st, mapRejectedBlocks empty_tree)"
    by (simp add: run_CheckBlock_def mint_accepted)
  have s: "early_signature start_io mint_block = Some True"
    by (simp add: early_signature_def CheckBlockSignature_def IsProofOfWork_def)
  show ?thesis
    using genesis_activated [of st]
    by (simp add: ProcessNewBlock_def c t n s early_refusal_def genesis_accepted Tip_def tree2_def db_GetBestBlock_def)
qed


section \<open>Properties\<close>

text \<open>
  C37: the node stays in order.  Along every sequence of new blocks, new headers, activations of the best chain, blocks taken
  out by hand or taken back, conflicting locks and writes to disk, with any surroundings and as long as no system error is
  reported, the block tree keeps its invariant, the coin cache is well formed, and the block it stands for is the tip of the
  active chain.  No crash, no half-done reorganisation and no failed block leaves the coins at another block than the chain.
\<close>

theorem node_stays_in_order:
  assumes "int B * (H + 1) < 2 ^ 32" "node_ok B H ns" "(node_step B H)\<^sup>*\<^sup>* ns ns'"
  shows "node_ok B H ns' \<and> tree_inv B H (ns_tree ns') \<and>
    tip_best (pcoinsTip ns') = (case Tip (ns_tree ns') of None \<Rightarrow> bu_zero WIDTH256 | Some t \<Rightarrow> t)"
proof -
  have "node_ok B H ns'" using assms(3,2)
    by (induction rule: rtranclp_induct) (use node_step_ok [OF _ _ assms(1)] in auto)
  then show ?thesis by (simp add: node_ok_def in_sync_def)
qed

theorem node_stays_in_order_witness:
  "\<exists>ns'. (node_step 1000 4000000)\<^sup>*\<^sup>* fresh_node ns' \<and> node_ok 1000 4000000 ns' \<and> Tip (ns_tree ns') = Some (small_hash 100) \<and>
     tip_best (pcoinsTip ns') = small_hash 100"
proof -
  obtain ns' where p: "ProcessNewBlock start_io new_CValidationState True mint_block fresh_node = Some (Returns (True, new_CValidationState, ns'))"
    "Tip (ns_tree ns') = Some (small_hash 100)"
    using genesis_processed by blast
  have "node_step 1000 4000000 fresh_node ns'"
    by (rule node_step.new_block [OF p(1)])
      (simp_all add: new_CValidationState_def height_fits_def fresh_node_def empty_tree_def)
  then have r: "(node_step 1000 4000000)\<^sup>*\<^sup>* fresh_node ns'" by blast
  show ?thesis using node_stays_in_order [OF _ fresh_node_ok r] r p(2) by (intro exI [of _ ns']) simp
qed

lemma node1_ok: "node_ok 1000 4000000 node1"
proof -
  have "tree_inv 1000 4000000 tree1"
    by (rule AcceptBlock_keeps(1) [OF genesis_accepted empty_tree_inv]) (simp_all add: height_fits_def empty_tree_def)
  then show ?thesis using node_ok_more [OF fresh_node_ok, of 1000 4000000 tree1] by (simp add: node1_def fresh_node_def empty_tree_def)
qed

text \<open>
  C38: when \<open>ActivateBestChain\<close> returns true and was not asked to shut down, the active chain is the best one: no candidate
  whose blocks up to the active chain are all there and not marked as failed is greater than the tip in the order of candidates
  (more work, then received earlier, then the lower address), and the coins are at the tip.
\<close>

theorem activated_chain_is_best:
  assumes "node_ok B H ns" "ActivateBestChain A n st pblock ns = Some (Returns (True, st', ns'))" "\<And>k. \<not> ac_shutdown A k"
  shows "node_ok B H ns' \<and>
    (\<forall>c bc. c \<in> set (setBlockIndexCandidates (ns_tree ns')) \<longrightarrow> usable (mapBlockIndex (ns_tree ns')) (chainActive (ns_tree ns')) c \<longrightarrow>
       mapBlockIndex (ns_tree ns') c = Some bc \<longrightarrow>
       (\<exists>tip. tip_index (ns_tree ns') = Some tip \<and> \<not> CBlockIndexWorkComparator (ai_addr (ac_accept A)) tip bc))"
  using ActivateBestChain_spec [OF assms(2), of B H] assms(1,3) by (auto simp: safe_def best_active_def)

theorem activated_chain_is_best_witness:
  "\<exists>ns' tip. ActivateBestChain start_io 0 new_CValidationState (Some mint_block) node1 = Some (Returns (True, new_CValidationState, ns')) \<and>
     node_ok 1000 4000000 ns' \<and> setBlockIndexCandidates (ns_tree ns') = [small_hash 100] \<and> tip_index (ns_tree ns') = Some tip \<and>
     \<not> CBlockIndexWorkComparator (\<lambda>_. 0) tip genesis1"
proof -
  let ?ns' = "node1\<lparr>ns_tree := tree2\<lparr>setDirtyBlockIndex := []\<rparr>,
     pcoinsTip := (\<lparr>db_coins = Map.empty, db_best = Some (small_hash 100)\<rparr>, new_CCoinsViewCache\<lparr>cv_hashBlock := small_hash 100\<rparr>), flush_count := 2\<rparr>"
  have f: "setBlockIndexCandidates (ns_tree ?ns') = [small_hash 100]" "mapBlockIndex (ns_tree ?ns') = [small_hash 100 \<mapsto> genesis1]"
    "chainActive (ns_tree ?ns') = [Some (small_hash 100)]" by (simp_all add: tree2_def)
  have "usable (mapBlockIndex (ns_tree ?ns')) (chainActive (ns_tree ?ns')) (small_hash 100)"
    unfolding f by (auto simp: usable_def chain_Contains_def chain_nth_def split: if_splits)
  then show ?thesis using activated_chain_is_best [OF node1_ok genesis_activated [of new_CValidationState]] genesis_activated [of new_CValidationState] f
    by (intro exI [of _ ?ns']) (simp del: usable_def)
qed

text \<open>
  C39: connecting a block to the tip is atomic.  If \<open>ConnectTip\<close> succeeds, the block was the next one, it is the tip, and the coins
  are at it.  If it fails without a system error, the active chain and the coins are what they were, and only candidates that
  were there before are left.
\<close>

theorem connect_tip_atomic:
  assumes "ConnectTip A st p pblock ns = Returns (ok, st', ns')" "node_ok B H ns" "vs_mode st' \<noteq> MODE_ERROR"
  shows "node_ok B H ns' \<and> set (setBlockIndexCandidates (ns_tree ns')) \<subseteq> set (setBlockIndexCandidates (ns_tree ns)) \<and>
    (if ok then Tip (ns_tree ns') = Some p \<and> tip_best (pcoinsTip ns') = p \<and> (\<exists>bi. mapBlockIndex (ns_tree ns) p = Some bi \<and> pprev bi = Tip (ns_tree ns))
     else chainActive (ns_tree ns') = chainActive (ns_tree ns) \<and> tip_look (pcoinsTip ns') = tip_look (pcoinsTip ns) \<and>
       tip_best (pcoinsTip ns') = tip_best (pcoinsTip ns))"
proof -
  have s: "if ok then node_ok B H ns' \<and> Tip (ns_tree ns') = Some p \<and> follows ns ns' else unmoved B H ns st' ns'"
    by (rule ConnectTip_spec [OF assms(1,2)])
  have "\<exists>bi. mapBlockIndex (ns_tree ns) p = Some bi \<and> pprev bi = Tip (ns_tree ns)" 
    using assms(1) by (cases "mapBlockIndex (ns_tree ns) p") (auto simp: ConnectTip_def Let_def split: if_splits)
  moreover have "chainActive (ns_tree ns') = chainActive (ns_tree ns) \<Longrightarrow> Tip (ns_tree ns') = Tip (ns_tree ns)" by (simp add: Tip_def)
  ultimately show ?thesis using s assms(2,3) by (auto simp: unmoved_def follows_def tree_follows_def node_ok_def in_sync_def)
qed

theorem connect_tip_atomic_witness:
  "\<exists>ns'. ConnectTip start_io new_CValidationState (small_hash 100) (Some mint_block) node1 = Returns (True, new_CValidationState, ns') \<and>
     node_ok 1000 4000000 ns' \<and> Tip (ns_tree ns') = Some (small_hash 100) \<and> tip_best (pcoinsTip ns') = small_hash 100"
proof -
  have "vs_mode new_CValidationState \<noteq> MODE_ERROR" by (simp add: new_CValidationState_def)
  from connect_tip_atomic [OF genesis_connected node1_ok this] show ?thesis using genesis_connected [of new_CValidationState] by auto
qed

text \<open>
  C40: a full write brings the database up to the cache.  With a well-formed cache \<open>FlushStateToDisk\<close> never fails an
  assertion.  If it returns true in the mode that always writes, the database has the coins and the best block of the cache,
  the cache shows what it showed before, every dirty index entry was written, and none is dirty any more.  If it returns
  false, a system error is reported.  Nothing else of the tree changes.
\<close>

theorem flush_writes_all:
  assumes "tip_good (pcoinsTip ns)"
  shows "\<exists>ok st' ns'. FlushStateToDisk A st FLUSH_STATE_ALWAYS ns = Returns (ok, st', ns') \<and>
    (\<exists>d. set d \<subseteq> set (setDirtyBlockIndex (ns_tree ns)) \<and> ns_tree ns' = (ns_tree ns)\<lparr>setDirtyBlockIndex := d\<rparr>) \<and>
    (if ok then st' = st \<and> db_look (fst (pcoinsTip ns')) = tip_look (pcoinsTip ns) \<and> tip_look (pcoinsTip ns') = tip_look (pcoinsTip ns) \<and>
        db_GetBestBlock (fst (pcoinsTip ns')) = tip_best (pcoinsTip ns) \<and> setDirtyBlockIndex (ns_tree ns') = [] \<and>
        (\<forall>p\<in>set (setDirtyBlockIndex (ns_tree ns)). fl_index (ac_flush A (flush_count ns)) p = None)
     else vs_mode st' = MODE_ERROR)"
proof -
  obtain ok st' ns' where f: "FlushStateToDisk A st FLUSH_STATE_ALWAYS ns = Returns (ok, st', ns')" "only_flushed ns ns'"
    "if ok then st' = st \<and> flushed A FLUSH_STATE_ALWAYS ns ns' else vs_mode st' = MODE_ERROR"
    using FlushStateToDisk_spec [OF assms, of A st FLUSH_STATE_ALWAYS] by blast
  then show ?thesis by (intro exI [of _ ok] exI [of _ st'] exI [of _ ns']) (auto simp: only_flushed_def flushed_def)
qed

definition rich_node :: node_state where
  "rich_node = fresh_node\<lparr>ns_tree := tree0, pcoinsTip := (\<lparr>db_coins = Map.empty, db_best = None\<rparr>,
     new_CCoinsViewCache\<lparr>cv_hashBlock := small_hash 100, cacheCoins := [(small_hash 7, \<lparr>ce_coins = spent_coins, ce_flags = DIRTY OR FRESH\<rparr>)]\<rparr>)\<rparr>"

theorem flush_writes_all_witness:
  "setDirtyBlockIndex (ns_tree rich_node) = [small_hash 100] \<and>
   (\<exists>ns'. FlushStateToDisk start_io new_CValidationState FLUSH_STATE_ALWAYS rich_node = Returns (True, new_CValidationState, ns') \<and>
     db_look (fst (pcoinsTip ns')) (small_hash 7) = Some spent_coins \<and> db_GetBestBlock (fst (pcoinsTip ns')) = small_hash 100 \<and>
     setDirtyBlockIndex (ns_tree ns') = [])"
proof -
  have g: "tip_good (pcoinsTip rich_node)"
    by (simp add: rich_node_def cache_good_def new_CCoinsViewCache_def entries_fit_def Coins.entry_ok_def is_fresh_def is_dirty_def DIRTY_def FRESH_def)
  obtain ok st' ns' where f: "FlushStateToDisk start_io new_CValidationState FLUSH_STATE_ALWAYS rich_node = Returns (ok, st', ns')"
    "if ok then st' = new_CValidationState \<and> db_look (fst (pcoinsTip ns')) = tip_look (pcoinsTip rich_node) \<and>
        db_GetBestBlock (fst (pcoinsTip ns')) = tip_best (pcoinsTip rich_node) \<and> setDirtyBlockIndex (ns_tree ns') = []
     else vs_mode st' = MODE_ERROR"
    using flush_writes_all [OF g, of start_io new_CValidationState] by (auto split: if_splits)
  have "\<exists>ns'. FlushStateToDisk start_io new_CValidationState FLUSH_STATE_ALWAYS rich_node = Returns (True, new_CValidationState, ns')"
    by (simp add: FlushStateToDisk_def flush_needed_def quiet_flush_def Let_def flush_coins_def rich_node_def cache_Flush_def db_BatchWrite_def
        new_CCoinsViewCache_def fresh_node_def empty_tree_def tree0_def)
  then have "ok" "st' = new_CValidationState" using f(1) by auto
  moreover have "tip_look (pcoinsTip rich_node) (small_hash 7) = Some spent_coins"
    by (simp add: rich_node_def cache_look_def overlay_def new_CCoinsViewCache_def live_def coins_IsPruned_def spent_coins_def new_CTxOut_def txout_IsNull_def)
  moreover have "tip_best (pcoinsTip rich_node) = small_hash 100" "setDirtyBlockIndex (ns_tree rich_node) = [small_hash 100]"
    by (simp_all add: rich_node_def tree0_def)
  ultimately show ?thesis using f fun_cong [of "db_look (fst (pcoinsTip ns'))" "tip_look (pcoinsTip rich_node)" "small_hash 7"] by auto
qed

end
