(* ===== verification/Spec2Isabelle.thy ===== *)
theory Spec2Isabelle
  imports Agouti_Prelude Uint256 Serialize Script Money Transaction Sig_Encoding Interpreter Sig_Hash Standard Merkle Block Chain Pow Compressor Coins Tx_Check Connect Reorg Block_Undo Kernel Check_Block Block_Tree Most_Work Tree_Growth View_Safety Activation Activation_Safe Node_Steps
begin

text \<open>
  A verification library for the Agouti node (a Bitcoin/PIVX derived proof-of-stake coin).
\<close>

end
